(* ===== verification/Prelude.thy ===== *)
theory Prelude
  imports Main "HOL-Library.Word"
begin

text \<open>
  The prelude of the development: the types every component shares (clocks, counters of
  fixed width), the fact collections the component proofs draw on, deterministic machines
  with their runs, and four interfaces that several components implement.

  \<^item> \<open>machine_invariant\<close>: a step function together with a predicate every step keeps; the
    lemma proved in it lifts the predicate to every run.
  \<^item> \<open>cooldown\<close>: an action gated by the time since it last fired; the lemma proved in it is
    that two firings of one run are at least the cooldown apart.
  \<^item> \<open>step_system\<close>: a step relation with an invariant; the lemma proved in it lifts the
    invariant to every reachable state.
  \<^item> \<open>step_refinement\<close>: a step system and the abstract system it implements; the lemmas proved in
    it are that the two reach the same abstract states.

  Time points and durations of \<open>std::chrono\<close> are integers (nanoseconds, or the unit the
  component's constants are written in); a default-constructed \<open>time_point {}\<close> is \<open>0\<close>.
\<close>

type_synonym time_point = int
type_synonym duration = int
type_synonym u8 = "8 word"
type_synonym u16 = "16 word"
type_synonym u32 = "32 word"
type_synonym u64 = "64 word"

named_theorems lifecycle_simps \<open>unfolding the operations of the session coordinator\<close>
named_theorems policy_simps \<open>unfolding the pure decision functions\<close>

subsection \<open>Deterministic machines and their runs\<close>

text \<open>A run feeds the inputs one after the other and collects the outputs.\<close>

primrec machine_run :: "('s \<Rightarrow> 'i \<Rightarrow> 's \<times> 'o) \<Rightarrow> 's \<Rightarrow> 'i list \<Rightarrow> 's \<times> 'o list" where
  "machine_run f s [] = (s, [])"
| "machine_run f s (i # is) =
     (case f s i of (s', out) \<Rightarrow> case machine_run f s' is of (s'', outs) \<Rightarrow> (s'', out # outs))"

abbreviation machine_state :: "('s \<Rightarrow> 'i \<Rightarrow> 's \<times> 'o) \<Rightarrow> 's \<Rightarrow> 'i list \<Rightarrow> 's" where
  "machine_state f s is \<equiv> fst (machine_run f s is)"

abbreviation machine_outputs :: "('s \<Rightarrow> 'i \<Rightarrow> 's \<times> 'o) \<Rightarrow> 's \<Rightarrow> 'i list \<Rightarrow> 'o list" where
  "machine_outputs f s is \<equiv> snd (machine_run f s is)"

lemma machine_state_Cons [simp]:
  "machine_state f s (i # is) = machine_state f (fst (f s i)) is"
  by (simp add: case_prod_beta)

lemma machine_outputs_Cons [simp]:
  "machine_outputs f s (i # is) = snd (f s i) # machine_outputs f (fst (f s i)) is"
  by (simp add: case_prod_beta)

declare machine_run.simps(2) [simp del]

lemma machine_state_append [simp]:
  "machine_state f s (is @ js) = machine_state f (machine_state f s is) js"
  by (induction "is" arbitrary: s) simp_all

lemma machine_outputs_append [simp]:
  "machine_outputs f s (is @ js) =
     machine_outputs f s is @ machine_outputs f (machine_state f s is) js"
  by (induction "is" arbitrary: s) simp_all

lemma length_machine_outputs [simp]: "length (machine_outputs f s is) = length is"
  by (induction "is" arbitrary: s) simp_all

lemma machine_outputs_nth:
  "n < length is \<Longrightarrow>
     machine_outputs f s is ! n = snd (f (machine_state f s (take n is)) (is ! n))"
proof (induction "is" arbitrary: s n)
  case Nil
  then show ?case by simp
next
  case (Cons i "is")
  then show ?case by (cases n) simp_all
qed

locale machine_invariant =
  fixes step :: "'s \<Rightarrow> 'i \<Rightarrow> 's \<times> 'o"
    and inv :: "'s \<Rightarrow> bool"
  assumes step_inv: "inv s \<Longrightarrow> inv (fst (step s i))"
begin

lemma run_inv: "inv s \<Longrightarrow> inv (machine_state step s is)"
  by (induction "is" arbitrary: s) (simp_all add: step_inv)

end

subsection \<open>Cooldowns\<close>

text \<open>
  \<open>fire s i\<close> is one input at time \<open>at i\<close>; \<open>last_fired\<close> is the stamp the gate keeps, and
  \<open>None\<close> stands for "never, or reset". The law of a cooldown: an input fires only when the
  stamp is empty or at least \<open>interval\<close> old, a firing stamps its time, and an input that
  does not fire leaves the stamp alone.
\<close>

fun spaced :: "duration \<Rightarrow> (time_point \<times> bool) list \<Rightarrow> bool" where
  "spaced d [] = True"
| "spaced d ((t, fired) # rest) =
     ((\<not> fired \<or> (\<forall>(u, f) \<in> set rest. f \<longrightarrow> d \<le> u - t)) \<and> spaced d rest)"

locale cooldown =
  fixes step :: "'s \<Rightarrow> 'i \<Rightarrow> 's \<times> 'o"
    and at :: "'i \<Rightarrow> time_point"
    and fired :: "'o \<Rightarrow> bool"
    and last_fired :: "'s \<Rightarrow> time_point option"
    and interval :: duration
    and ok :: "'s \<Rightarrow> bool"
    and admissible :: "'i \<Rightarrow> bool"
  assumes step_ok: "\<lbrakk>ok s; admissible i\<rbrakk> \<Longrightarrow> ok (fst (step s i))"
    and fires_late: "\<lbrakk>ok s; admissible i; fired (snd (step s i)); last_fired s = Some t\<rbrakk>
      \<Longrightarrow> interval \<le> at i - t"
    and fire_stamps: "\<lbrakk>ok s; admissible i; fired (snd (step s i))\<rbrakk>
      \<Longrightarrow> last_fired (fst (step s i)) = Some (at i)"
    and quiet_keeps: "\<lbrakk>ok s; admissible i; \<not> fired (snd (step s i))\<rbrakk>
      \<Longrightarrow> last_fired (fst (step s i)) = last_fired s"
begin

abbreviation log :: "'s \<Rightarrow> 'i list \<Rightarrow> (time_point \<times> bool) list" where
  "log s is \<equiv> zip (map at is) (map fired (machine_outputs step s is))"

lemma fires_after_stamp:
  "\<lbrakk>ok s; list_all admissible is; sorted (map at is); last_fired s = Some t; (u, True) \<in> set (log s is)\<rbrakk>
     \<Longrightarrow> interval \<le> u - t"
proof (induction "is" arbitrary: s t)
  case Nil
  then show ?case by simp
next
  case (Cons i "is")
  show ?case
  proof (cases "fired (snd (step s i))")
    case True
    from Cons.prems True have now: "interval \<le> at i - t"
      by (intro fires_late [of s i t]) simp_all
    have "u \<in> set (map at (i # is))"
      using Cons.prems(5) by (auto dest: set_zip_leftD)
    with Cons.prems(3) have "at i \<le> u" by auto
    with now show ?thesis by simp
  next
    case False
    from Cons.prems False have "last_fired (fst (step s i)) = Some t"
      by (simp add: quiet_keeps)
    moreover from Cons.prems(5) False have "(u, True) \<in> set (log (fst (step s i)) is)"
      by simp
    ultimately show ?thesis
      using Cons.prems step_ok by (intro Cons.IH [of "fst (step s i)" t]) simp_all
  qed
qed

lemma firings_spaced:
  "\<lbrakk>ok s; list_all admissible is; sorted (map at is)\<rbrakk> \<Longrightarrow> spaced interval (log s is)"
proof (induction "is" arbitrary: s)
  case Nil
  then show ?case by simp
next
  case (Cons i "is")
  have ok': "ok (fst (step s i))" using Cons.prems by (simp add: step_ok)
  have rest: "spaced interval (log (fst (step s i)) is)"
    using Cons.prems ok' by (intro Cons.IH) simp_all
  have "\<forall>(u, f) \<in> set (log (fst (step s i)) is). f \<longrightarrow> interval \<le> u - at i"
    if "fired (snd (step s i))"
  proof -
    have "last_fired (fst (step s i)) = Some (at i)"
      using Cons.prems that by (simp add: fire_stamps)
    with Cons.prems ok' show ?thesis
      by (auto intro: fires_after_stamp [of "fst (step s i)" "is" "at i"])
  qed
  with rest show ?case by auto
qed

end

subsection \<open>Step relations and reachable states\<close>

locale step_system =
  fixes init :: "'s \<Rightarrow> bool"
    and step :: "'s \<Rightarrow> 's \<Rightarrow> bool"
    and inv :: "'s \<Rightarrow> bool"
  assumes init_inv: "init s \<Longrightarrow> inv s"
    and step_inv: "\<lbrakk>inv s; step s t\<rbrakk> \<Longrightarrow> inv t"
begin

lemma reachable_inv: "\<lbrakk>init s; step\<^sup>*\<^sup>* s t\<rbrakk> \<Longrightarrow> inv t"
  by (rotate_tac, induction rule: rtranclp_induct) (auto intro: init_inv step_inv)

end

text \<open>
  A step system that behaves like an abstract one: seen through the abstraction every step is an
  abstract step or none at all, and every abstract step can be taken.
\<close>

locale step_refinement = step_system init step inv
  for init :: "'s \<Rightarrow> bool" and step :: "'s \<Rightarrow> 's \<Rightarrow> bool" and inv :: "'s \<Rightarrow> bool" +
  fixes abs :: "'s \<Rightarrow> 'a"
    and astep :: "'a \<Rightarrow> 'a \<Rightarrow> bool"
  assumes simulated: "\<lbrakk>inv s; step s t\<rbrakk> \<Longrightarrow> abs t = abs s \<or> astep (abs s) (abs t)"
    and realized: "\<lbrakk>inv s; astep (abs s) a\<rbrakk> \<Longrightarrow> \<exists>t. step s t \<and> abs t = a"
begin

lemma run_simulated: "\<lbrakk>init s; step\<^sup>*\<^sup>* s t\<rbrakk> \<Longrightarrow> astep\<^sup>*\<^sup>* (abs s) (abs t)"
proof (rotate_tac, induction rule: rtranclp_induct)
  case (step t u)
  then have "inv t" by (intro reachable_inv)
  from simulated [OF this step.hyps(2)] step show ?case by (auto intro: rtranclp.rtrancl_into_rtrancl)
qed simp

lemma run_realized: "\<lbrakk>init s; astep\<^sup>*\<^sup>* (abs s) a\<rbrakk> \<Longrightarrow> \<exists>t. step\<^sup>*\<^sup>* s t \<and> abs t = a"
proof (rotate_tac, induction rule: rtranclp_induct)
  case (step a b)
  then obtain t where t: "step\<^sup>*\<^sup>* s t" "abs t = a" by blast
  then have "inv t" using step.prems by (intro reachable_inv)
  from realized [OF this, of b] step.hyps(2) t show ?case by (blast intro: rtranclp.rtrancl_into_rtrancl)
qed blast

end

end
