(* ===== verification/Lifecycle.thy ===== *)
theory Lifecycle
  imports Prelude
begin

text \<open>
  The session lifecycle: \<^verbatim>\<open>src/session_lifecycle_coordinator.h\<close> (who may prepare the display,
  a launch or a last-session cleanup) and \<^verbatim>\<open>src/session_teardown_policy.h\<close> (what the teardown
  watchdog does in which phase).

  \<open>coordinator\<close> is \<open>coordinator_t\<close> without its mutex and condition variable: every operation
  below is one critical section. A call that blocks on the condition variable is split where
  it gives the mutex up: \<open>acquire_launch_enter\<close>/\<open>acquire_launch_wake\<close> and
  \<open>acquire_cleanup_enter\<close>/\<open>acquire_cleanup_wake\<close>, whose flag says whether the deadline has
  passed. \<open>lsys\<close> adds the threads: which leases are held and how many callers wait, so that
  every interleaving of the operations is a path of \<open>lstep\<close>.
\<close>

subsection \<open>Pure lifecycle decisions\<close>

definition capture_is_logically_idle :: "nat \<Rightarrow> bool \<Rightarrow> bool" where
  "capture_is_logically_idle active_rtsp_sessions webrtc_active \<longleftrightarrow>
     active_rtsp_sessions = 0 \<and> \<not> webrtc_active"

definition last_session_cleanup_still_valid :: "nat \<Rightarrow> nat \<Rightarrow> bool" where
  "last_session_cleanup_still_valid running_rtsp_sessions active_rtsp_sessions \<longleftrightarrow>
     running_rtsp_sessions = 0 \<and> active_rtsp_sessions = 0"

definition expired_launch_should_clear_rtsp_active :: "nat \<Rightarrow> bool" where
  "expired_launch_should_clear_rtsp_active active_rtsp_sessions \<longleftrightarrow> active_rtsp_sessions = 0"

record admission_state_policy =
  cancelled :: bool
  claimed :: bool

definition can_start :: "admission_state_policy \<Rightarrow> bool" where
  "can_start a \<longleftrightarrow> \<not> cancelled a \<and> \<not> claimed a"

definition mark_claimed :: "admission_state_policy \<Rightarrow> admission_state_policy \<times> bool" where
  "mark_claimed a = (if \<not> can_start a then (a, False) else (a\<lparr>claimed := True\<rparr>, True))"

definition retire :: "bool \<Rightarrow> admission_state_policy \<Rightarrow> admission_state_policy \<times> bool" where
  "retire explicit_cancel a =
     (if claimed a \<and> \<not> explicit_cancel then (a, False) else (a\<lparr>cancelled := True\<rparr>, True))"

text \<open>An admission is driven by claims and retirements in any order.\<close>

datatype admission_op = Claim | Retire bool

fun admission_step :: "admission_state_policy \<Rightarrow> admission_op \<Rightarrow> admission_state_policy \<times> bool" where
  "admission_step a Claim = mark_claimed a"
| "admission_step a (Retire explicit_cancel) = retire explicit_cancel a"

subsection \<open>The coordinator\<close>

datatype owner = OwnerIdle | OwnerLaunch | OwnerCleanup

record coordinator =
  coord_owner :: owner
  cleanup_waiters :: nat
  next_launch_generation :: u64
  active_launch_generation :: u64
  active_launch_committed :: bool
  active_launch_started :: bool
  deferred_cleanup_pending :: bool

definition coordinator_init :: coordinator where
  "coordinator_init = \<lparr>coord_owner = OwnerIdle, cleanup_waiters = 0, next_launch_generation = 0,
     active_launch_generation = 0, active_launch_committed = False,
     active_launch_started = False, deferred_cleanup_pending = False\<rparr>"

text \<open>
  A lease object: \<open>lease_bound\<close> is "the coordinator pointer is not null".
\<close>

record launch_lease =
  lease_bound :: bool
  lease_generation :: u64
  lease_committed :: bool

definition empty_lease :: launch_lease where
  "empty_lease = \<lparr>lease_bound = False, lease_generation = 0, lease_committed = False\<rparr>"

definition commit_launch :: "u64 \<Rightarrow> coordinator \<Rightarrow> coordinator" where
  "commit_launch generation c =
     (if coord_owner c = OwnerLaunch \<and> active_launch_generation c = generation
      then c\<lparr>active_launch_committed := True\<rparr> else c)"

definition mark_launch_started :: "u64 \<Rightarrow> coordinator \<Rightarrow> coordinator" where
  "mark_launch_started generation c =
     (if coord_owner c = OwnerLaunch \<and> active_launch_generation c = generation
      then c\<lparr>active_launch_started := True, deferred_cleanup_pending := False\<rparr> else c)"

definition release_launch :: "u64 \<Rightarrow> bool \<Rightarrow> coordinator \<Rightarrow> coordinator" where
  "release_launch generation committed c =
     (if coord_owner c \<noteq> OwnerLaunch \<or> active_launch_generation c \<noteq> generation then c
      else (if committed then c else c\<lparr>active_launch_committed := False\<rparr>)
             \<lparr>coord_owner := OwnerIdle, active_launch_generation := 0, active_launch_started := False\<rparr>)"

definition release_cleanup :: "coordinator \<Rightarrow> coordinator" where
  "release_cleanup c = (if coord_owner c = OwnerCleanup then c\<lparr>coord_owner := OwnerIdle\<rparr> else c)"

definition lease_commit :: "launch_lease \<Rightarrow> coordinator \<Rightarrow> launch_lease \<times> coordinator" where
  "lease_commit l c =
     (if \<not> lease_bound l \<or> lease_committed l then (l, c)
      else (l\<lparr>lease_committed := True\<rparr>, commit_launch (lease_generation l) c))"

definition lease_mark_started :: "launch_lease \<Rightarrow> coordinator \<Rightarrow> coordinator" where
  "lease_mark_started l c =
     (if lease_bound l then mark_launch_started (lease_generation l) c else c)"

definition lease_reset :: "launch_lease \<Rightarrow> coordinator \<Rightarrow> launch_lease \<times> coordinator" where
  "lease_reset l c =
     (if \<not> lease_bound l then (l, c)
      else (empty_lease, release_launch (lease_generation l) (lease_committed l) c))"

text \<open>Move construction: the new lease, and what is left in the source.\<close>

definition lease_move :: "launch_lease \<Rightarrow> launch_lease \<times> launch_lease" where
  "lease_move other = (other, empty_lease)"

text \<open>Move assignment between two different objects: the target, the source, the coordinator.\<close>

definition lease_move_assign ::
  "launch_lease \<Rightarrow> launch_lease \<Rightarrow> coordinator \<Rightarrow> launch_lease \<times> launch_lease \<times> coordinator" where
  "lease_move_assign this other c =
     (let (_, c') = lease_reset this c; (this', other') = lease_move other in (this', other', c'))"

text \<open>The cleanup lease carries only its pointer.\<close>

record cleanup_lease =
  cleanup_bound :: bool

definition cleanup_lease_reset :: "cleanup_lease \<Rightarrow> coordinator \<Rightarrow> cleanup_lease \<times> coordinator" where
  "cleanup_lease_reset l c =
     (if \<not> cleanup_bound l then (l, c) else (\<lparr>cleanup_bound = False\<rparr>, release_cleanup c))"

definition cleanup_lease_move :: "cleanup_lease \<Rightarrow> cleanup_lease \<times> cleanup_lease" where
  "cleanup_lease_move other = (other, \<lparr>cleanup_bound = False\<rparr>)"

definition cleanup_lease_move_assign ::
  "cleanup_lease \<Rightarrow> cleanup_lease \<Rightarrow> coordinator \<Rightarrow> cleanup_lease \<times> cleanup_lease \<times> coordinator" where
  "cleanup_lease_move_assign this other c =
     (let (_, c') = cleanup_lease_reset this c; (this', other') = cleanup_lease_move other
      in (this', other', c'))"

subsection \<open>Acquiring\<close>

definition launch_available :: "coordinator \<Rightarrow> bool" where
  "launch_available c \<longleftrightarrow> coord_owner c = OwnerIdle \<and> cleanup_waiters c = 0"

datatype launch_outcome = LaunchRefused | LaunchGranted launch_lease | LaunchBlocked

definition grant_launch :: "coordinator \<Rightarrow> launch_outcome \<times> coordinator" where
  "grant_launch c =
     (let generation = next_launch_generation c + 1
      in (LaunchGranted \<lparr>lease_bound = True, lease_generation = generation, lease_committed = False\<rparr>,
          c\<lparr>coord_owner := OwnerLaunch, active_launch_committed := False, active_launch_started := False,
            next_launch_generation := generation, active_launch_generation := generation\<rparr>))"

text \<open>
  \<open>acquire_launch\<close> up to the wait, and one wake-up inside \<open>wait_until\<close> with the predicate:
  the predicate is evaluated a last time when the deadline has passed.
\<close>

definition acquire_launch_wake :: "bool \<Rightarrow> coordinator \<Rightarrow> launch_outcome \<times> coordinator" where
  "acquire_launch_wake deadline_passed c =
     (if launch_available c then grant_launch c
      else if deadline_passed then (LaunchRefused, c) else (LaunchBlocked, c))"

definition acquire_launch_enter :: "bool \<Rightarrow> coordinator \<Rightarrow> launch_outcome \<times> coordinator" where
  "acquire_launch_enter deadline_passed c =
     (if coord_owner c = OwnerLaunch then (LaunchRefused, c)
      else acquire_launch_wake deadline_passed c)"

datatype cleanup_acquire_result = Acquired | SupersededByLaunch | TimedOut

record cleanup_acquisition =
  acq_result :: cleanup_acquire_result
  has_lease :: bool
  deferred_pending :: bool

datatype cleanup_outcome = CleanupDone cleanup_acquisition | CleanupBlocked

definition finish_wait :: "coordinator \<Rightarrow> coordinator" where
  "finish_wait c = c\<lparr>cleanup_waiters := cleanup_waiters c - 1\<rparr>"

text \<open>The loop of \<open>acquire_cleanup\<close> from its head to the next wait or return.\<close>

definition cleanup_loop :: "coordinator \<Rightarrow> cleanup_outcome \<times> coordinator" where
  "cleanup_loop c =
     (if coord_owner c = OwnerIdle then
        (CleanupDone \<lparr>acq_result = Acquired, has_lease = True,
                      deferred_pending = deferred_cleanup_pending c\<rparr>,
         (finish_wait (c\<lparr>coord_owner := OwnerCleanup\<rparr>))\<lparr>deferred_cleanup_pending := False\<rparr>)
      else if coord_owner c = OwnerLaunch then
        (CleanupDone \<lparr>acq_result = SupersededByLaunch, has_lease = False, deferred_pending = False\<rparr>,
         finish_wait (if active_launch_started c then c else c\<lparr>deferred_cleanup_pending := True\<rparr>))
      else (CleanupBlocked, c))"

definition acquire_cleanup_enter :: "coordinator \<Rightarrow> cleanup_outcome \<times> coordinator" where
  "acquire_cleanup_enter c = cleanup_loop (c\<lparr>cleanup_waiters := cleanup_waiters c + 1\<rparr>)"

text \<open>
  A wake-up of the waiting cleanup. On a timeout the loop continues only when the owner is
  idle; any other owner, a launch included, makes the call report \<open>timed_out\<close>.
\<close>

definition acquire_cleanup_wake :: "bool \<Rightarrow> coordinator \<Rightarrow> cleanup_outcome \<times> coordinator" where
  "acquire_cleanup_wake deadline_passed c =
     (if deadline_passed \<and> coord_owner c \<noteq> OwnerIdle then
        (CleanupDone \<lparr>acq_result = TimedOut, has_lease = False, deferred_pending = False\<rparr>, finish_wait c)
      else cleanup_loop c)"

subsection \<open>Every interleaving\<close>

record lsys =
  coord :: coordinator
  launch_held :: "launch_lease list"
  cleanup_held :: nat
  launch_waiting :: nat
  cleanup_waiting :: nat

definition lsys_init :: lsys where
  "lsys_init = \<lparr>coord = coordinator_init, launch_held = [], cleanup_held = 0,
     launch_waiting = 0, cleanup_waiting = 0\<rparr>"

text \<open>What the outcome of an acquisition means for the threads.\<close>

fun launch_result :: "launch_outcome \<times> coordinator \<Rightarrow> lsys \<Rightarrow> lsys" where
  "launch_result (LaunchRefused, c) s = s\<lparr>coord := c\<rparr>"
| "launch_result (LaunchGranted l, c) s = s\<lparr>coord := c, launch_held := l # launch_held s\<rparr>"
| "launch_result (LaunchBlocked, c) s = s\<lparr>coord := c, launch_waiting := launch_waiting s + 1\<rparr>"

fun cleanup_result :: "cleanup_outcome \<times> coordinator \<Rightarrow> lsys \<Rightarrow> lsys" where
  "cleanup_result (CleanupDone r, c) s =
     s\<lparr>coord := c, cleanup_held := cleanup_held s + (if has_lease r then 1 else 0)\<rparr>"
| "cleanup_result (CleanupBlocked, c) s = s\<lparr>coord := c, cleanup_waiting := cleanup_waiting s + 1\<rparr>"

inductive lstep :: "lsys \<Rightarrow> lsys \<Rightarrow> bool" where
  launch_enter: "lstep s (launch_result (acquire_launch_enter d (coord s)) s)"
| launch_wake: "launch_waiting s = Suc n \<Longrightarrow>
     lstep s (launch_result (acquire_launch_wake d (coord s)) (s\<lparr>launch_waiting := n\<rparr>))"
| launch_commit: "\<lbrakk>i < length (launch_held s); lease_commit (launch_held s ! i) (coord s) = (l, c)\<rbrakk> \<Longrightarrow>
     lstep s (s\<lparr>coord := c, launch_held := (launch_held s)[i := l]\<rparr>)"
| launch_started: "i < length (launch_held s) \<Longrightarrow>
     lstep s (s\<lparr>coord := lease_mark_started (launch_held s ! i) (coord s)\<rparr>)"
| launch_reset: "launch_held s = ls @ l # ms \<Longrightarrow>
     lstep s (s\<lparr>coord := snd (lease_reset l (coord s)), launch_held := ls @ ms\<rparr>)"
| cleanup_enter: "lstep s (cleanup_result (acquire_cleanup_enter (coord s)) s)"
| cleanup_wake: "cleanup_waiting s = Suc n \<Longrightarrow>
     lstep s (cleanup_result (acquire_cleanup_wake d (coord s)) (s\<lparr>cleanup_waiting := n\<rparr>))"
| cleanup_reset: "cleanup_held s = Suc n \<Longrightarrow>
     lstep s (s\<lparr>coord := snd (cleanup_lease_reset \<lparr>cleanup_bound = True\<rparr> (coord s)), cleanup_held := n\<rparr>)"

subsection \<open>The teardown watchdog\<close>

datatype teardown_phase =
    Starting | WaitingVideo | WaitingAudio | WaitingControl | ResettingInput | SessionState
  | DisplayCleanup | IntegrationCleanup | FrameLimiterCleanup | PlatformCleanup
  | DeferredConfig | TeardownDone

fun phase_index :: "teardown_phase \<Rightarrow> nat" where
  "phase_index Starting = 0"
| "phase_index WaitingVideo = 1"
| "phase_index WaitingAudio = 2"
| "phase_index WaitingControl = 3"
| "phase_index ResettingInput = 4"
| "phase_index SessionState = 5"
| "phase_index DisplayCleanup = 6"
| "phase_index IntegrationCleanup = 7"
| "phase_index FrameLimiterCleanup = 8"
| "phase_index PlatformCleanup = 9"
| "phase_index DeferredConfig = 10"
| "phase_index TeardownDone = 11"

fun phase_name :: "teardown_phase \<Rightarrow> string" where
  "phase_name Starting = ''starting''"
| "phase_name WaitingVideo = ''videoThread.join''"
| "phase_name WaitingAudio = ''audioThread.join''"
| "phase_name WaitingControl = ''controlEnd.view''"
| "phase_name ResettingInput = ''input::reset''"
| "phase_name SessionState = ''session-state release''"
| "phase_name DisplayCleanup = ''virtual-display cleanup''"
| "phase_name IntegrationCleanup = ''HDR/RTSS integration cleanup''"
| "phase_name FrameLimiterCleanup = ''frame-limiter/NVCP cleanup''"
| "phase_name PlatformCleanup = ''platform cleanup''"
| "phase_name DeferredConfig = ''deferred-config apply''"
| "phase_name TeardownDone = ''done''"

instantiation teardown_phase :: linorder
begin

definition less_eq_teardown_phase :: "teardown_phase \<Rightarrow> teardown_phase \<Rightarrow> bool" where
  "less_eq_teardown_phase a b \<longleftrightarrow> phase_index a \<le> phase_index b"

definition less_teardown_phase :: "teardown_phase \<Rightarrow> teardown_phase \<Rightarrow> bool" where
  "less_teardown_phase a b \<longleftrightarrow> phase_index a < phase_index b"

instance
proof
  fix x y :: teardown_phase
  show "x \<le> y \<Longrightarrow> y \<le> x \<Longrightarrow> x = y"
    by (cases x; cases y) (simp_all add: less_eq_teardown_phase_def)
qed (auto simp: less_eq_teardown_phase_def less_teardown_phase_def)

end

datatype timeout_action = FastExit | ControlledRestart

definition timeout_action_of :: "teardown_phase \<Rightarrow> timeout_action" where
  "timeout_action_of phase = (if phase \<le> ResettingInput then FastExit else ControlledRestart)"

definition watchdog_arm_is_current :: "u64 \<Rightarrow> u64 \<Rightarrow> teardown_phase \<Rightarrow> bool" where
  "watchdog_arm_is_current expected_epoch current_epoch current_phase \<longleftrightarrow>
     expected_epoch = current_epoch \<and> current_phase \<noteq> TeardownDone"

text \<open>
  \<open>independent_watchdog_t\<close>: the worker waits for \<open>completed\<close> and otherwise, once its timeout
  has passed, calls \<open>on_timeout\<close> and ends. \<open>watchdog_step\<close> is one event: \<open>complete()\<close>, or a
  wake-up of the worker (with the flag that the timeout has passed); the output says whether
  \<open>on_timeout\<close> was called.
\<close>

record watchdog =
  wd_completed :: bool
  wd_exited :: bool

datatype watchdog_event = WdComplete | WdWake bool

fun watchdog_step :: "watchdog \<Rightarrow> watchdog_event \<Rightarrow> watchdog \<times> bool" where
  "watchdog_step w WdComplete = (w\<lparr>wd_completed := True\<rparr>, False)"
| "watchdog_step w (WdWake timed_out) =
     (if wd_exited w then (w, False)
      else if wd_completed w then (w\<lparr>wd_exited := True\<rparr>, False)
      else if timed_out then (w\<lparr>wd_exited := True\<rparr>, True)
      else (w, False))"

subsection \<open>The coordinator's invariant\<close>

lemmas coordinator_defs [lifecycle_simps] =
  commit_launch_def mark_launch_started_def release_launch_def release_cleanup_def
  lease_commit_def lease_mark_started_def lease_reset_def cleanup_lease_reset_def launch_available_def
  grant_launch_def acquire_launch_wake_def acquire_launch_enter_def finish_wait_def
  cleanup_loop_def acquire_cleanup_enter_def acquire_cleanup_wake_def Let_def

inductive_cases lstepE: "lstep s t"

text \<open>
  The owner field tells exactly which leases are alive, the counter of waiting cleanups is the
  number of waiting cleanups, and no cleanup waits behind a launch.
\<close>

definition owner_matches_leases :: "lsys \<Rightarrow> bool" where
  "owner_matches_leases s \<longleftrightarrow>
     (case coord_owner (coord s) of
        OwnerIdle \<Rightarrow> launch_held s = [] \<and> cleanup_held s = 0
      | OwnerLaunch \<Rightarrow> cleanup_held s = 0 \<and> cleanup_waiting s = 0 \<and>
          (\<exists>l. launch_held s = [l] \<and> lease_bound l \<and>
               lease_generation l = active_launch_generation (coord s) \<and>
               lease_committed l = active_launch_committed (coord s))
      | OwnerCleanup \<Rightarrow> launch_held s = [] \<and> cleanup_held s = 1)"

definition linv :: "lsys \<Rightarrow> bool" where
  "linv s \<longleftrightarrow> owner_matches_leases s \<and> cleanup_waiters (coord s) = cleanup_waiting s"

lemmas linv_defs = linv_def owner_matches_leases_def

lemma linv_launch_held:
  assumes "linv s" and "launch_held s = ls @ l # ms"
  shows "ls = []" "ms = []" "coord_owner (coord s) = OwnerLaunch" "lease_bound l"
    "lease_generation l = active_launch_generation (coord s)"
    "lease_committed l = active_launch_committed (coord s)"
    "cleanup_held s = 0" "cleanup_waiting s = 0"
  using assms by (auto simp: linv_defs append_eq_Cons_conv split: owner.splits)

lemma linv_cleanup_waiting:
  "linv s \<Longrightarrow> cleanup_waiting s = Suc n \<Longrightarrow> coord_owner (coord s) \<noteq> OwnerLaunch"
  by (auto simp: linv_defs)

lemma linv_nth:
  assumes "linv s" and "i < length (launch_held s)"
  obtains l where "i = 0" "launch_held s = [l]"
proof -
  from assms(2) have split: "launch_held s = take i (launch_held s) @ launch_held s ! i # drop (Suc i) (launch_held s)"
    by (simp add: id_take_nth_drop)
  from linv_launch_held(1,2) [OF assms(1) split] assms(2) split that
  show thesis by auto
qed

lemma lstep_inv: "linv s \<Longrightarrow> lstep s t \<Longrightarrow> linv t"
proof (erule lstepE, goal_cases)
  case (1 d)
  then show ?thesis by (auto simp: linv_defs lifecycle_simps split: owner.splits)
next
  case (2 n d)
  then show ?thesis by (auto simp: linv_defs lifecycle_simps split: owner.splits)
next
  case (3 i l c)
  then obtain k where "i = 0" "launch_held s = [k]" by (elim linv_nth)
  with 3 show ?thesis by (auto simp: linv_defs lifecycle_simps split: owner.splits if_splits)
next
  case (4 i)
  then obtain k where "i = 0" "launch_held s = [k]" by (elim linv_nth)
  with 4 show ?thesis by (auto simp: linv_defs lifecycle_simps split: owner.splits)
next
  case (5 ls l ms)
  note held = linv_launch_held [OF 5(1,3)]
  from 5 held show ?thesis by (auto simp: linv_defs lifecycle_simps split: owner.splits)
next
  case 6
  then show ?thesis by (auto simp: linv_defs lifecycle_simps split: owner.splits)
next
  case (7 n d)
  then show ?thesis by (auto simp: linv_defs lifecycle_simps split: owner.splits)
next
  case (8 n)
  then show ?thesis by (auto simp: linv_defs lifecycle_simps split: owner.splits)
qed

interpretation lifecycle: step_system "\<lambda>s. s = lsys_init" lstep linv
proof unfold_locales
  show "s = lsys_init \<Longrightarrow> linv s" for s
    by (simp add: linv_defs lsys_init_def coordinator_init_def)
qed (rule lstep_inv)

lemma reachable_linv: "lstep\<^sup>*\<^sup>* lsys_init s \<Longrightarrow> linv s"
  by (rule lifecycle.reachable_inv) simp_all

subsection \<open>What the coordinator promises\<close>

lemmas lsys_eval = lsys_init_def coordinator_init_def lifecycle_simps

text \<open>
  C1. Mutual exclusion over every interleaving of launches, cleanups, waits, commits and
  releases: in a reachable state at most one lease of either kind is alive, and the owner field
  says which.
\<close>

theorem coordinator_exclusive:
  assumes "lstep\<^sup>*\<^sup>* lsys_init s"
  shows "length (launch_held s) + cleanup_held s \<le> 1
    \<and> (coord_owner (coord s) = OwnerLaunch \<longleftrightarrow> launch_held s \<noteq> [])
    \<and> (coord_owner (coord s) = OwnerCleanup \<longleftrightarrow> cleanup_held s = 1)"
  using reachable_linv [OF assms] by (auto simp: linv_defs split: owner.splits)

theorem coordinator_exclusive_witness:
  "\<exists>s. lstep\<^sup>*\<^sup>* lsys_init s \<and> length (launch_held s) = 1 \<and> cleanup_held s = 0"
proof -
  let ?s = "launch_result (acquire_launch_enter False (coord lsys_init)) lsys_init"
  have reach: "lstep\<^sup>*\<^sup>* lsys_init ?s" by (rule r_into_rtranclp) (rule launch_enter)
  have one: "length (launch_held ?s) = 1" by (simp add: lsys_eval)
  from coordinator_exclusive [OF reach] one have "cleanup_held ?s = 0" by linarith
  with reach one show ?thesis by blast
qed

text \<open>
  C2. A waiting cleanup has deterministic priority: while one waits, no launch is granted (new
  or already waiting), the owner is never a launch, and so the \<open>timed_out\<close> answer of the wait
  is only ever given while another cleanup still owns the display.
\<close>

theorem waiting_cleanup_has_priority:
  assumes "lstep\<^sup>*\<^sup>* lsys_init s" and "cleanup_waiting s > 0"
  shows "coord_owner (coord s) \<noteq> OwnerLaunch
    \<and> (\<forall>d l. fst (acquire_launch_enter d (coord s)) \<noteq> LaunchGranted l
           \<and> fst (acquire_launch_wake d (coord s)) \<noteq> LaunchGranted l)
    \<and> (\<forall>d r. fst (acquire_cleanup_wake d (coord s)) = CleanupDone r \<and> acq_result r \<noteq> Acquired
           \<longrightarrow> d \<and> acq_result r = TimedOut \<and> coord_owner (coord s) = OwnerCleanup)"
proof -
  from reachable_linv [OF assms(1)] have inv: "linv s" .
  with assms(2) have owner: "coord_owner (coord s) \<noteq> OwnerLaunch"
    by (cases "cleanup_waiting s") (auto dest: linv_cleanup_waiting)
  have waiters: "cleanup_waiters (coord s) > 0" using inv assms(2) by (simp add: linv_def)
  from owner waiters show ?thesis
    by (cases "coord_owner (coord s)") (auto simp: lifecycle_simps split: if_splits)
qed

text \<open>A state with a cleanup that owns the display and one that waits behind it.\<close>

definition two_cleanups :: lsys where
  "two_cleanups = (let s = cleanup_result (acquire_cleanup_enter (coord lsys_init)) lsys_init
                   in cleanup_result (acquire_cleanup_enter (coord s)) s)"

lemma two_cleanups_reachable: "lstep\<^sup>*\<^sup>* lsys_init two_cleanups"
  unfolding two_cleanups_def Let_def
  by (rule rtranclp.rtrancl_into_rtrancl [OF r_into_rtranclp]) (rule cleanup_enter)+

theorem waiting_cleanup_has_priority_witness:
  "cleanup_waiting two_cleanups = 1 \<and> coord_owner (coord two_cleanups) = OwnerCleanup
   \<and> fst (acquire_launch_enter True (coord two_cleanups)) = LaunchRefused"
proof -
  have "cleanup_waiting two_cleanups > 0" by (simp add: two_cleanups_def lsys_eval)
  from waiting_cleanup_has_priority [OF two_cleanups_reachable this]
  have "coord_owner (coord two_cleanups) \<noteq> OwnerLaunch" by blast
  then show ?thesis by (simp add: two_cleanups_def lsys_eval)
qed

lemma cleanup_loop_consumes:
  "\<lbrakk>deferred_cleanup_pending c; \<not> deferred_cleanup_pending (snd (cleanup_loop c))\<rbrakk>
     \<Longrightarrow> \<exists>r. fst (cleanup_loop c) = CleanupDone r \<and> acq_result r = Acquired \<and> deferred_pending r"
  by (cases "coord_owner c") (simp_all add: cleanup_loop_def finish_wait_def split: if_split_asm)

lemma acquire_cleanup_enter_consumes:
  "\<lbrakk>acquire_cleanup_enter c = (out, c'); deferred_cleanup_pending c; \<not> deferred_cleanup_pending c'\<rbrakk>
     \<Longrightarrow> \<exists>r. out = CleanupDone r \<and> acq_result r = Acquired \<and> deferred_pending r"
  using cleanup_loop_consumes [of "c\<lparr>cleanup_waiters := cleanup_waiters c + 1\<rparr>"]
  by (simp add: acquire_cleanup_enter_def)

lemma acquire_cleanup_wake_consumes:
  "\<lbrakk>acquire_cleanup_wake d c = (out, c'); deferred_cleanup_pending c; \<not> deferred_cleanup_pending c'\<rbrakk>
     \<Longrightarrow> \<exists>r. out = CleanupDone r \<and> acq_result r = Acquired \<and> deferred_pending r"
  using cleanup_loop_consumes [of c]
  by (cases "d \<and> coord_owner c \<noteq> OwnerIdle") (auto simp: acquire_cleanup_wake_def finish_wait_def)

lemma coord_cleanup_result [simp]: "coord (cleanup_result (out, c) s) = c"
  by (cases out) simp_all

text \<open>
  C3. A cleanup that a launch superseded is not lost: the deferred-cleanup flag, once set,
  survives every step except two. Either a launch marks itself started (the successor then owns
  the restoration), or a cleanup is granted, and that cleanup is told about it in its result.
\<close>

theorem deferred_cleanup_not_lost:
  assumes "lstep s t" and "deferred_cleanup_pending (coord s)" and "\<not> deferred_cleanup_pending (coord t)"
  shows "active_launch_started (coord t) \<or>
    (\<exists>r. acq_result r = Acquired \<and> deferred_pending r
      \<and> (acquire_cleanup_enter (coord s) = (CleanupDone r, coord t)
         \<or> (\<exists>d. acquire_cleanup_wake d (coord s) = (CleanupDone r, coord t))))"
  using assms(1)
proof (cases rule: lstep.cases)
  case cleanup_enter
  obtain out c where eq: "acquire_cleanup_enter (coord s) = (out, c)" by fastforce
  with cleanup_enter have "coord t = c" by simp
  with acquire_cleanup_enter_consumes [OF eq] eq assms(2,3) show ?thesis by auto
next
  case (cleanup_wake n d)
  obtain out c where eq: "acquire_cleanup_wake d (coord s) = (out, c)" by fastforce
  with cleanup_wake have "coord t = c" by simp
  with acquire_cleanup_wake_consumes [OF eq] eq assms(2,3) show ?thesis by blast
qed (use assms(2,3) in \<open>auto simp: lifecycle_simps split: if_splits\<close>)

text \<open>A launch holds the display, a cleanup was superseded, and the launch gave up.\<close>

definition superseded_then_released :: lsys where
  "superseded_then_released =
     (let s = launch_result (acquire_launch_enter False (coord lsys_init)) lsys_init;
          t = cleanup_result (acquire_cleanup_enter (coord s)) s
      in t\<lparr>coord := snd (lease_reset (hd (launch_held t)) (coord t)), launch_held := []\<rparr>)"

theorem deferred_cleanup_not_lost_witness:
  "deferred_cleanup_pending (coord superseded_then_released)
   \<and> (\<exists>r. acq_result r = Acquired \<and> deferred_pending r
        \<and> fst (acquire_cleanup_enter (coord superseded_then_released)) = CleanupDone r)"
proof -
  let ?s = superseded_then_released
  let ?t = "cleanup_result (acquire_cleanup_enter (coord ?s)) ?s"
  have pending: "deferred_cleanup_pending (coord ?s)"
    by (simp add: superseded_then_released_def lsys_eval)
  have consumed: "\<not> deferred_cleanup_pending (coord ?t)" "\<not> active_launch_started (coord ?t)"
    by (simp_all add: superseded_then_released_def lsys_eval)
  from deferred_cleanup_not_lost [OF cleanup_enter pending consumed(1)] consumed(2)
  obtain r where r: "acq_result r = Acquired" "deferred_pending r"
    and "acquire_cleanup_enter (coord ?s) = (CleanupDone r, coord ?t)
      \<or> (\<exists>d. acquire_cleanup_wake d (coord ?s) = (CleanupDone r, coord ?t))" by blast
  moreover have "fst (acquire_cleanup_wake d (coord ?s)) = fst (acquire_cleanup_enter (coord ?s))" for d
    by (simp add: superseded_then_released_def lsys_eval)
  ultimately have "fst (acquire_cleanup_enter (coord ?s)) = CleanupDone r" by (metis fst_conv)
  with pending r show ?thesis by blast
qed

text \<open>
  No lease is leaked and no release is ignored: in a reachable state, resetting the held
  launch lease (or the cleanup lease) leaves the coordinator idle, and an idle coordinator with
  no waiting cleanup grants the next launch at once, with a generation of its own.
\<close>

theorem release_makes_available:
  assumes "lstep\<^sup>*\<^sup>* lsys_init s"
  shows "(\<forall>l \<in> set (launch_held s). coord_owner (snd (lease_reset l (coord s))) = OwnerIdle)
    \<and> (cleanup_held s > 0 \<longrightarrow> coord_owner (release_cleanup (coord s)) = OwnerIdle)
    \<and> (launch_held s = [] \<and> cleanup_held s = 0 \<and> cleanup_waiting s = 0 \<longrightarrow>
        (\<exists>l c. acquire_launch_enter d (coord s) = (LaunchGranted l, c)
             \<and> lease_bound l \<and> lease_generation l = active_launch_generation c
             \<and> lease_generation l = next_launch_generation (coord s) + 1))"
proof (intro conjI ballI impI)
  from reachable_linv [OF assms] have inv: "linv s" .
  {
    fix l assume "l \<in> set (launch_held s)"
    then obtain ls ms where "launch_held s = ls @ l # ms" by (meson split_list)
    from linv_launch_held [OF inv this] show "coord_owner (snd (lease_reset l (coord s))) = OwnerIdle"
      by (simp add: lease_reset_def release_launch_def)
  next
    assume "cleanup_held s > 0"
    with inv have "coord_owner (coord s) = OwnerCleanup" by (auto simp: linv_defs split: owner.splits)
    then show "coord_owner (release_cleanup (coord s)) = OwnerIdle" by (simp add: release_cleanup_def)
  next
    assume "launch_held s = [] \<and> cleanup_held s = 0 \<and> cleanup_waiting s = 0"
    with inv have "launch_available (coord s)"
      by (auto simp: linv_defs launch_available_def split: owner.splits)
    then show "\<exists>l c. acquire_launch_enter d (coord s) = (LaunchGranted l, c)
        \<and> lease_bound l \<and> lease_generation l = active_launch_generation c
        \<and> lease_generation l = next_launch_generation (coord s) + 1"
      by (simp add: launch_available_def acquire_launch_enter_def acquire_launch_wake_def
          grant_launch_def Let_def)
  }
qed

theorem release_makes_available_witness:
  "\<exists>l c. acquire_launch_enter False coordinator_init = (LaunchGranted l, c) \<and> lease_generation l = 1"
proof -
  have "launch_held lsys_init = [] \<and> cleanup_held lsys_init = 0 \<and> cleanup_waiting lsys_init = 0"
    by (simp add: lsys_init_def)
  with release_makes_available [OF rtranclp.rtrancl_refl, of False]
  show ?thesis by (auto simp: lsys_init_def coordinator_init_def)
qed

subsection \<open>Admissions\<close>

text \<open>Once cancelled, or once claimed, an admission can no longer be claimed.\<close>

interpretation admission: machine_invariant admission_step "\<lambda>a. \<not> can_start a"
proof
  show "\<not> can_start a \<Longrightarrow> \<not> can_start (fst (admission_step a op))" for a op
    by (cases op) (auto simp: can_start_def mark_claimed_def retire_def)
qed

lemma dead_admission_refuses:
  "\<not> can_start a \<Longrightarrow> (Claim, True) \<notin> set (zip ops (machine_outputs admission_step a ops))"
proof (induction ops arbitrary: a)
  case Nil
  then show ?case by simp
next
  case (Cons op ops)
  from admission.step_inv [OF Cons.prems] have "\<not> can_start (fst (admission_step a op))" .
  from Cons.IH [OF this] Cons.prems show ?case by (auto simp: mark_claimed_def)
qed

text \<open>
  An admission is claimed at most once, whatever order of claims, timeouts and cancels it
  sees; a timeout that reports success and an explicit cancel both make every later claim fail,
  and a timeout never retires an admission that was already claimed.
\<close>

theorem admission_claimed_once:
  "length (filter (\<lambda>p. p = (Claim, True)) (zip ops (machine_outputs admission_step a ops))) \<le> 1
   \<and> (snd (retire e a) \<longrightarrow>
        (Claim, True) \<notin> set (zip ops (machine_outputs admission_step (fst (retire e a)) ops)))
   \<and> (claimed a \<longrightarrow> retire False a = (a, False))"
proof (intro conjI impI)
  show "length (filter (\<lambda>p. p = (Claim, True)) (zip ops (machine_outputs admission_step a ops))) \<le> 1"
  proof (induction ops arbitrary: a)
    case Nil
    then show ?case by simp
  next
    case (Cons op ops)
    show ?case
    proof (cases "(op, snd (admission_step a op)) = (Claim, True)")
      case True
      then have "\<not> can_start (fst (admission_step a op))"
        by (auto simp: mark_claimed_def can_start_def split: if_splits)
      from dead_admission_refuses [OF this, of ops] True show ?thesis
        by (auto simp: filter_empty_conv)
    next
      case False
      with Cons.IH [of "fst (admission_step a op)"] show ?thesis by auto
    qed
  qed
  assume "snd (retire e a)"
  then have "\<not> can_start (fst (retire e a))"
    by (auto simp: retire_def can_start_def split: if_splits)
  then show "(Claim, True) \<notin> set (zip ops (machine_outputs admission_step (fst (retire e a)) ops))"
    by (rule dead_admission_refuses)
qed (simp add: retire_def)

theorem admission_claimed_once_witness:
  "machine_outputs admission_step \<lparr>cancelled = False, claimed = False\<rparr> [Claim, Retire False, Claim, Retire True, Claim]
     = [True, False, False, True, False]
   \<and> retire False \<lparr>cancelled = False, claimed = True\<rparr> = (\<lparr>cancelled = False, claimed = True\<rparr>, False)"
  using admission_claimed_once [of "[]" "\<lparr>cancelled = False, claimed = True\<rparr>" False]
  by (simp add: mark_claimed_def retire_def can_start_def)

subsection \<open>The watchdog\<close>

lemma watchdog_exited_quiet:
  "wd_exited w \<Longrightarrow> set (machine_outputs watchdog_step w es) \<subseteq> {False}"
proof (induction es arbitrary: w)
  case (Cons e es)
  then have "wd_exited (fst (watchdog_step w e))" by (cases e) simp_all
  from Cons.IH [OF this] Cons.prems show ?case by (cases e) auto
qed simp

lemma watchdog_completed_quiet:
  "wd_completed w \<Longrightarrow> set (machine_outputs watchdog_step w es) \<subseteq> {False}"
proof (induction es arbitrary: w)
  case (Cons e es)
  then have "wd_completed (fst (watchdog_step w e))" by (cases e) simp_all
  from Cons.IH [OF this] Cons.prems show ?case by (cases e) auto
qed simp

lemma watchdog_fires_once:
  "length (filter id (machine_outputs watchdog_step w es)) \<le> 1"
proof (induction es arbitrary: w)
  case (Cons e es)
  show ?case
  proof (cases "snd (watchdog_step w e)")
    case True
    then have "wd_exited (fst (watchdog_step w e))" by (cases e) (auto split: if_splits)
    from watchdog_exited_quiet [OF this, of es] True show ?thesis by (auto simp: filter_empty_conv)
  next
    case False
    with Cons.IH [of "fst (watchdog_step w e)"] show ?thesis by simp
  qed
qed simp

text \<open>
  The teardown watchdog calls its timeout handler at most once, never once \<open>complete()\<close> has
  been called, and it does call it when the timeout passes first; the handler exits fast exactly
  in the phases up to the input reset, where capture resources may still be live.
\<close>

theorem watchdog_contract:
  "length (filter id (machine_outputs watchdog_step w es)) \<le> 1
   \<and> (wd_completed w \<longrightarrow> True \<notin> set (machine_outputs watchdog_step w es))
   \<and> (\<not> wd_completed w \<and> \<not> wd_exited w \<longrightarrow> snd (watchdog_step w (WdWake True)))
   \<and> (timeout_action_of p = FastExit \<longleftrightarrow>
        p \<in> {Starting, WaitingVideo, WaitingAudio, WaitingControl, ResettingInput})"
  using watchdog_fires_once [of w es] watchdog_completed_quiet [of w es]
  by (cases p) (auto simp: timeout_action_of_def less_eq_teardown_phase_def)

theorem watchdog_contract_witness:
  "machine_outputs watchdog_step \<lparr>wd_completed = False, wd_exited = False\<rparr> [WdWake False, WdWake True, WdWake True]
     = [False, True, False]
   \<and> snd (watchdog_step \<lparr>wd_completed = False, wd_exited = False\<rparr> (WdWake True))"
  using watchdog_contract [of "\<lparr>wd_completed = False, wd_exited = False\<rparr>" "[]" Starting] by simp

end
