(* ===== verification/Lifecycle_Spec.thy ===== *)
theory Lifecycle_Spec
  imports Lifecycle
begin

text \<open>
  What the session coordinator promises, as a step system over the display's holder, and that the
  coordinator of \<^verbatim>\<open>src/session_lifecycle_coordinator.h\<close> implements it. The abstract state knows nothing
  of owner fields, generations or waiter counters: it is read off the leases and the waiting threads.
\<close>

datatype holder = Nobody | Launching bool | Cleaning

record spec =
  sp_holder :: holder
  sp_waiting :: nat
  sp_postponed :: bool

inductive spec_step :: "spec \<Rightarrow> spec \<Rightarrow> bool" where
  launch: "sp_holder a = Nobody \<Longrightarrow> sp_waiting a = 0 \<Longrightarrow> spec_step a (a\<lparr>sp_holder := Launching False\<rparr>)"
| started: "sp_holder a = Launching b \<Longrightarrow> spec_step a (a\<lparr>sp_holder := Launching True, sp_postponed := False\<rparr>)"
| launch_over: "sp_holder a = Launching b \<Longrightarrow> spec_step a (a\<lparr>sp_holder := Nobody\<rparr>)"
| postpone: "sp_holder a = Launching False \<Longrightarrow> spec_step a (a\<lparr>sp_postponed := True\<rparr>)"
| clean: "sp_holder a = Nobody \<Longrightarrow> spec_step a (a\<lparr>sp_holder := Cleaning, sp_postponed := False\<rparr>)"
| clean_next: "sp_holder a = Nobody \<Longrightarrow> sp_waiting a = Suc n \<Longrightarrow>
    spec_step a (a\<lparr>sp_holder := Cleaning, sp_waiting := n, sp_postponed := False\<rparr>)"
| await: "sp_holder a = Cleaning \<Longrightarrow> spec_step a (a\<lparr>sp_waiting := Suc (sp_waiting a)\<rparr>)"
| give_up: "sp_holder a = Cleaning \<Longrightarrow> sp_waiting a = Suc n \<Longrightarrow> spec_step a (a\<lparr>sp_waiting := n\<rparr>)"
| cleaned: "sp_holder a = Cleaning \<Longrightarrow> spec_step a (a\<lparr>sp_holder := Nobody\<rparr>)"

inductive_cases spec_stepE: "spec_step a b"

definition abs_lsys :: "lsys \<Rightarrow> spec" where
  "abs_lsys s = \<lparr>sp_holder = (if launch_held s \<noteq> [] then Launching (active_launch_started (coord s))
       else if cleanup_held s > 0 then Cleaning else Nobody),
     sp_waiting = cleanup_waiting s, sp_postponed = deferred_cleanup_pending (coord s)\<rparr>"

lemma spec_step_iff:
  "spec_step a b \<longleftrightarrow>
     (case sp_holder a of
        Nobody \<Rightarrow> sp_waiting a = 0 \<and> b = a\<lparr>sp_holder := Launching False\<rparr> \<or>
          b = a\<lparr>sp_holder := Cleaning, sp_postponed := False\<rparr> \<or>
          (\<exists>n. sp_waiting a = Suc n \<and> b = a\<lparr>sp_holder := Cleaning, sp_waiting := n, sp_postponed := False\<rparr>)
      | Launching started \<Rightarrow> b = a\<lparr>sp_holder := Launching True, sp_postponed := False\<rparr> \<or> b = a\<lparr>sp_holder := Nobody\<rparr> \<or>
          \<not> started \<and> b = a\<lparr>sp_postponed := True\<rparr>
      | Cleaning \<Rightarrow> b = a\<lparr>sp_waiting := Suc (sp_waiting a)\<rparr> \<or> b = a\<lparr>sp_holder := Nobody\<rparr> \<or>
          (\<exists>n. sp_waiting a = Suc n \<and> b = a\<lparr>sp_waiting := n\<rparr>))"
  by (cases "sp_holder a") (auto elim!: spec_stepE intro: spec_step.intros)

lemma lstep_simulated: "linv s \<Longrightarrow> lstep s t \<Longrightarrow> abs_lsys t = abs_lsys s \<or> spec_step (abs_lsys s) (abs_lsys t)"
proof (erule lstepE, goal_cases)
  case (1 d)
  then show ?thesis
    by (cases "coord_owner (coord s)") (auto simp: abs_lsys_def spec_step_iff linv_defs lifecycle_simps)
next
  case (2 n d)
  then show ?thesis
    by (cases "coord_owner (coord s)") (auto simp: abs_lsys_def spec_step_iff linv_defs lifecycle_simps)
next
  case (3 i l c)
  then obtain k where "i = 0" "launch_held s = [k]" by (elim linv_nth)
  with 3 show ?thesis by (auto simp: abs_lsys_def linv_defs lifecycle_simps split: owner.splits if_splits)
next
  case (4 i)
  then obtain k where "i = 0" "launch_held s = [k]" by (elim linv_nth)
  with 4 show ?thesis
    by (cases "coord_owner (coord s)") (auto simp: abs_lsys_def spec_step_iff linv_defs lifecycle_simps)
next
  case (5 ls l ms)
  note held = linv_launch_held [OF 5(1,3)]
  from 5 held show ?thesis by (auto simp: abs_lsys_def spec_step_iff linv_defs lifecycle_simps)
next
  case 6
  then show ?thesis
    by (cases "coord_owner (coord s)") (auto simp: abs_lsys_def spec_step_iff linv_defs lifecycle_simps)
next
  case (7 n d)
  then show ?thesis
    by (cases "coord_owner (coord s)") (auto simp: abs_lsys_def spec_step_iff linv_defs lifecycle_simps)
next
  case (8 n)
  then show ?thesis
    by (cases "coord_owner (coord s)") (auto simp: abs_lsys_def spec_step_iff linv_defs lifecycle_simps)
qed

text \<open>The owner field behind an abstract holder.\<close>

lemma linv_holder:
  assumes "linv s"
  shows "sp_holder (abs_lsys s) = Nobody \<Longrightarrow> coord_owner (coord s) = OwnerIdle \<and> launch_held s = [] \<and> cleanup_held s = 0"
    "sp_holder (abs_lsys s) = Launching b \<Longrightarrow> coord_owner (coord s) = OwnerLaunch \<and> b = active_launch_started (coord s) \<and>
       cleanup_held s = 0 \<and> (\<exists>l. launch_held s = [l] \<and> lease_bound l \<and>
         lease_generation l = active_launch_generation (coord s))"
    "sp_holder (abs_lsys s) = Cleaning \<Longrightarrow> coord_owner (coord s) = OwnerCleanup \<and> launch_held s = [] \<and> cleanup_held s = 1"
  using assms by (auto simp: abs_lsys_def linv_defs split: owner.splits if_splits)

lemma realizes: "lstep s t \<Longrightarrow> abs_lsys t = a \<Longrightarrow> \<exists>t. lstep s t \<and> abs_lsys t = a"
  by blast

lemma spec_realized:
  assumes "linv s" and "spec_step (abs_lsys s) a"
  shows "\<exists>t. lstep s t \<and> abs_lsys t = a"
  using assms(2)
proof cases
  case launch
  note free = linv_holder(1) [OF assms(1) launch(2)]
  have "cleanup_waiting s = 0" "cleanup_waiters (coord s) = 0"
    using launch(3) assms(1) by (simp_all add: abs_lsys_def linv_def)
  with free show ?thesis unfolding launch(1)
    by - (rule realizes, rule lstep.launch_enter [of s False], simp add: abs_lsys_def lifecycle_simps)
next
  case (started b)
  note held = linv_holder(2) [OF assms(1) started(2)]
  then obtain l where "launch_held s = [l]" "lease_bound l"
    "lease_generation l = active_launch_generation (coord s)" by blast
  with held show ?thesis unfolding started(1)
    by - (rule realizes, rule lstep.launch_started [of 0 s], simp_all add: abs_lsys_def lifecycle_simps)
next
  case (launch_over b)
  note held = linv_holder(2) [OF assms(1) launch_over(2)]
  then obtain l where "launch_held s = [] @ l # []" "lease_bound l"
    "lease_generation l = active_launch_generation (coord s)" by auto
  with held show ?thesis unfolding launch_over(1)
    by - (rule realizes, rule lstep.launch_reset [of s "[]" l "[]"], simp_all add: abs_lsys_def lifecycle_simps)
next
  case postpone
  from linv_holder(2) [OF assms(1) postpone(2)] show ?thesis unfolding postpone(1)
    by - (rule realizes, rule lstep.cleanup_enter [of s], auto simp: abs_lsys_def lifecycle_simps)
next
  case clean
  from linv_holder(1) [OF assms(1) clean(2)] show ?thesis unfolding clean(1)
    by - (rule realizes, rule lstep.cleanup_enter [of s], simp add: abs_lsys_def lifecycle_simps)
next
  case (clean_next n)
  have "cleanup_waiting s = Suc n" using clean_next(3) by (simp add: abs_lsys_def)
  with linv_holder(1) [OF assms(1) clean_next(2)] show ?thesis unfolding clean_next(1)
    by - (rule realizes, rule lstep.cleanup_wake [of s n False], simp_all add: abs_lsys_def lifecycle_simps)
next
  case await
  from linv_holder(3) [OF assms(1) await(2)] show ?thesis unfolding await(1)
    by - (rule realizes, rule lstep.cleanup_enter [of s], simp add: abs_lsys_def lifecycle_simps)
next
  case (give_up n)
  have "cleanup_waiting s = Suc n" using give_up(3) by (simp add: abs_lsys_def)
  with linv_holder(3) [OF assms(1) give_up(2)] show ?thesis unfolding give_up(1)
    by - (rule realizes, rule lstep.cleanup_wake [of s n True], simp_all add: abs_lsys_def lifecycle_simps)
next
  case cleaned
  from linv_holder(3) [OF assms(1) cleaned(2)] show ?thesis unfolding cleaned(1)
    by - (rule realizes, rule lstep.cleanup_reset [of s 0], simp_all add: abs_lsys_def lifecycle_simps)
qed

interpretation coordinator: step_refinement "\<lambda>s. s = lsys_init" lstep linv abs_lsys spec_step
  by unfold_locales (rule lstep_simulated, assumption+, rule spec_realized, assumption+)

definition spec_init :: spec where
  "spec_init = \<lparr>sp_holder = Nobody, sp_waiting = 0, sp_postponed = False\<rparr>"

lemma abs_init: "abs_lsys lsys_init = spec_init"
  by (simp add: abs_lsys_def spec_init_def lsys_eval)

text \<open>
  C40. The coordinator implements its specification exactly: read off the leases and the waiting threads,
  every step of every interleaving is one step of the abstract system (a launch only on a free display
  that no cleanup waits for, a cleanup postponed only by a launch that has not started, and so on) or
  changes nothing, and conversely whatever the abstract system can reach, the coordinator can.
\<close>

theorem coordinator_refines_spec:
  "{abs_lsys s | s. lstep\<^sup>*\<^sup>* lsys_init s} = {a. spec_step\<^sup>*\<^sup>* spec_init a} \<and>
   (\<forall>s. lstep\<^sup>*\<^sup>* lsys_init s \<longrightarrow>
      (\<forall>t. lstep s t \<longrightarrow> abs_lsys t = abs_lsys s \<or> spec_step (abs_lsys s) (abs_lsys t)) \<and>
      (\<forall>a. spec_step (abs_lsys s) a \<longrightarrow> (\<exists>t. lstep s t \<and> abs_lsys t = a)))"
proof (intro conjI allI impI)
  show "{abs_lsys s | s. lstep\<^sup>*\<^sup>* lsys_init s} = {a. spec_step\<^sup>*\<^sup>* spec_init a}"
    using coordinator.run_simulated [OF refl] coordinator.run_realized [OF refl] unfolding abs_init by blast
next
  fix s t assume "lstep\<^sup>*\<^sup>* lsys_init s" "lstep s t"
  then show "abs_lsys t = abs_lsys s \<or> spec_step (abs_lsys s) (abs_lsys t)"
    by (intro lstep_simulated reachable_linv)
next
  fix s a assume "lstep\<^sup>*\<^sup>* lsys_init s" "spec_step (abs_lsys s) a"
  then show "\<exists>t. lstep s t \<and> abs_lsys t = a" by (intro spec_realized reachable_linv)
qed

theorem coordinator_refines_spec_witness:
  "\<exists>t. lstep lsys_init t \<and> abs_lsys t = \<lparr>sp_holder = Cleaning, sp_waiting = 0, sp_postponed = False\<rparr>"
proof -
  have "spec_step (abs_lsys lsys_init) (spec_init\<lparr>sp_holder := Cleaning, sp_postponed := False\<rparr>)"
    unfolding abs_init by (rule spec_step.clean) (simp add: spec_init_def)
  with coordinator_refines_spec show ?thesis by (fastforce simp: spec_init_def)
qed

end
