(* ===== verification/Video_Qos.thy ===== *)
theory Video_Qos
  imports Complex_Main Prelude
begin

text \<open>
  Admission of encoded video packets to the transport, \<^verbatim>\<open>src/video_packet_qos.h\<close>, and the loop
  of \<open>videoBroadcastThread\<close> (\<^verbatim>\<open>src/stream.cpp\<close>) that drives it: a packet is admitted or
  withheld, an admitted packet is sent, and the outcome of the send is fed back.

  Times are nanoseconds. \<open>long double\<close> computations of the pacing budget are carried out
  exactly, over the rationals. Frame indices are integers, the frame counter a natural number.
\<close>

subsection \<open>Pacing\<close>

definition kWirePacingHeadroom :: rat where "kWirePacingHeadroom = 3 / 2"
definition kMaxWireDrainBitrateBps :: rat where "kMaxWireDrainBitrateBps = 800000000"
definition kWirePacingQuantum_us :: nat where "kWirePacingQuantum_us = 1000"
definition kRecoveryRequestRetry :: duration where "kRecoveryRequestRetry = 2000000000"

record pacing_budget =
  average_wire_bitrate_bps :: rat
  drain_bitrate_bps :: rat
  packet_interval :: rat
  packets_per_quantum :: nat

definition pacing_budget_of :: "int \<Rightarrow> int \<Rightarrow> nat \<Rightarrow> nat \<Rightarrow> rat \<Rightarrow> pacing_budget" where
  "pacing_budget_of payload_bitrate_kbps fec_percentage wire_packet_bytes payload_packet_bytes max_drain_bps =
     (let safe_payload_bytes = max payload_packet_bytes 1;
          safe_wire_bytes = max wire_packet_bytes 1;
          average = of_int (max payload_bitrate_kbps 1) * 1000 *
                    (100 + of_int (max fec_percentage 0)) / 100 *
                    of_nat safe_wire_bytes / of_nat safe_payload_bytes;
          drain = min (average * kWirePacingHeadroom) (max max_drain_bps 1);
          packet_bits = of_nat safe_wire_bytes * 8;
          quantum_seconds = of_nat kWirePacingQuantum_us / 1000000
      in \<lparr>average_wire_bitrate_bps = average,
          drain_bitrate_bps = drain,
          packet_interval = packet_bits / drain,
          packets_per_quantum = max 1 (nat \<lceil>drain * quantum_seconds / packet_bits\<rceil>)\<rparr>)"

definition next_rtp_timestamp_ticks :: "u64 \<Rightarrow> u64 \<Rightarrow> int \<Rightarrow> u64" where
  "next_rtp_timestamp_ticks candidate last_ticks framerate =
     (if candidate > last_ticks then candidate
      else last_ticks + max 1 (90000 div word_of_int (max framerate 1)))"

subsection \<open>Admission\<close>

datatype reason = ReasonNone | WaitingForIdr | FrameDiscontinuity | StaleFrame

record decision =
  submit :: bool
  request_idr :: bool
  decision_reason :: reason

record recovery =
  recovery_withheld :: nat
  recovery_duration :: duration

record qos_state =
  awaiting_idr :: bool
  recovery_requested :: bool
  last_submitted_frame :: "int option"
  recovery_started :: time_point
  last_recovery_request :: time_point
  withheld_frames :: nat

definition qos_init :: qos_state where
  "qos_init = \<lparr>awaiting_idr = True, recovery_requested = False, last_submitted_frame = None,
     recovery_started = 0, last_recovery_request = 0, withheld_frames = 0\<rparr>"

definition admitted :: decision where
  "admitted = \<lparr>submit = True, request_idr = False, decision_reason = ReasonNone\<rparr>"

definition withhold_reason :: "qos_state \<Rightarrow> int \<Rightarrow> bool \<Rightarrow> reason" where
  "withhold_reason state frame_index stale =
     (case last_submitted_frame state of
        None \<Rightarrow> WaitingForIdr
      | Some prev \<Rightarrow>
          if awaiting_idr state then WaitingForIdr
          else if frame_index \<noteq> prev + 1 then FrameDiscontinuity
          else if stale then StaleFrame else ReasonNone)"

definition qos_evaluate ::
  "qos_state \<Rightarrow> int \<Rightarrow> bool \<Rightarrow> bool \<Rightarrow> time_point \<Rightarrow> qos_state \<times> decision" where
  "qos_evaluate state frame_index is_idr stale now =
     (if is_idr then (state, admitted)
      else let r = withhold_reason state frame_index stale in
        if r = ReasonNone then (state, admitted)
        else
          let started = (if \<not> awaiting_idr state \<or> recovery_started state = 0 then now
                         else recovery_started state);
              request = (\<not> recovery_requested state \<or> last_recovery_request state = 0 \<or>
                         now - last_recovery_request state \<ge> kRecoveryRequestRetry)
          in (state\<lparr>recovery_started := started, awaiting_idr := True,
                    withheld_frames := withheld_frames state + 1,
                    recovery_requested := True,
                    last_recovery_request := (if request then now else last_recovery_request state)\<rparr>,
              \<lparr>submit = False, request_idr = request, decision_reason = r\<rparr>))"

definition qos_submitted ::
  "qos_state \<Rightarrow> int \<Rightarrow> bool \<Rightarrow> time_point \<Rightarrow> qos_state \<times> recovery option" where
  "qos_submitted state frame_index is_idr now =
     (let state' = state\<lparr>last_submitted_frame := Some frame_index\<rparr> in
      if \<not> is_idr then (state', None)
      else (state'\<lparr>awaiting_idr := False, recovery_requested := False, recovery_started := 0,
                   last_recovery_request := 0, withheld_frames := 0\<rparr>,
            if awaiting_idr state then
              Some \<lparr>recovery_withheld = withheld_frames state,
                    recovery_duration = (if recovery_started state = 0 then 0
                                         else now - recovery_started state)\<rparr>
            else None))"

definition qos_submission_failed :: "qos_state \<Rightarrow> bool \<Rightarrow> qos_state" where
  "qos_submission_failed state is_idr =
     (if is_idr then state\<lparr>awaiting_idr := True, recovery_requested := False, last_recovery_request := 0\<rparr>
      else state)"

subsection \<open>The transport loop\<close>

text \<open>
  One packet popped by \<open>videoBroadcastThread\<close>: its admission at \<open>admission_now\<close> (latency never
  makes a packet stale at this call), and, when admitted, whether every shard went out (a
  rejected shard and an exception of the send path are both \<open>False\<close>).
\<close>

record video_packet =
  frame_index :: int
  is_idr :: bool
  admission_now :: time_point
  all_shards_submitted :: bool
  submitted_now :: time_point

datatype egress =
    Sent int bool "recovery option"
  | SendFailed int bool
  | Withheld int bool

definition finish_packet :: "qos_state \<Rightarrow> video_packet \<Rightarrow> qos_state \<times> egress" where
  "finish_packet qos packet =
     (if all_shards_submitted packet then
        (let (qos', recovery) = qos_submitted qos (frame_index packet) (is_idr packet) (submitted_now packet)
         in (qos', Sent (frame_index packet) (is_idr packet) recovery))
      else (qos_submission_failed qos (is_idr packet), SendFailed (frame_index packet) (is_idr packet)))"

definition broadcast_packet :: "qos_state \<Rightarrow> video_packet \<Rightarrow> qos_state \<times> egress" where
  "broadcast_packet qos packet =
     (let (qos', admission) = qos_evaluate qos (frame_index packet) (is_idr packet) False (admission_now packet)
      in if \<not> submit admission then (qos', Withheld (frame_index packet) (request_idr admission))
         else finish_packet qos' packet)"

text \<open>The frames the client receives completely, in order.\<close>

fun delivered :: "egress list \<Rightarrow> (int \<times> bool) list" where
  "delivered [] = []"
| "delivered (Sent n idr r # es) = (n, idr) # delivered es"
| "delivered (SendFailed n idr # es) = delivered es"
| "delivered (Withheld n q # es) = delivered es"

text \<open>
  What a decoder can use: an IDR frame always, a predictive frame only directly after its
  predecessor.
\<close>

fun decodable :: "int option \<Rightarrow> (int \<times> bool) list \<Rightarrow> bool" where
  "decodable prev [] = True"
| "decodable prev ((n, idr) # fs) = ((idr \<or> prev = Some (n - 1)) \<and> decodable (Some n) fs)"

text \<open>The number of frames withheld since the last delivered IDR frame.\<close>

fun withheld_since_idr :: "nat \<Rightarrow> egress list \<Rightarrow> nat" where
  "withheld_since_idr k [] = k"
| "withheld_since_idr k (Sent n idr r # es) = withheld_since_idr (if idr then 0 else k) es"
| "withheld_since_idr k (SendFailed n idr # es) = withheld_since_idr k es"
| "withheld_since_idr k (Withheld n q # es) = withheld_since_idr (k + 1) es"

subsection \<open>Decoder safety\<close>

lemmas qos_defs [policy_simps] =
  qos_evaluate_def qos_submitted_def qos_submission_failed_def withhold_reason_def admitted_def
  finish_packet_def broadcast_packet_def Let_def

lemma broadcast_packet_cases:
  obtains (withheld) q where "\<not> is_idr p" "snd (broadcast_packet s p) = Withheld (frame_index p) q"
      "last_submitted_frame (fst (broadcast_packet s p)) = last_submitted_frame s"
      "withheld_frames (fst (broadcast_packet s p)) = withheld_frames s + 1"
  | (sent) r where "snd (broadcast_packet s p) = Sent (frame_index p) (is_idr p) r"
      "is_idr p \<or> last_submitted_frame s = Some (frame_index p - 1)"
      "last_submitted_frame (fst (broadcast_packet s p)) = Some (frame_index p)"
      "withheld_frames (fst (broadcast_packet s p)) = (if is_idr p then 0 else withheld_frames s)"
  | (failed) "snd (broadcast_packet s p) = SendFailed (frame_index p) (is_idr p)"
      "last_submitted_frame (fst (broadcast_packet s p)) = last_submitted_frame s"
      "withheld_frames (fst (broadcast_packet s p)) = withheld_frames s"
  by (cases "last_submitted_frame s"; cases "is_idr p"; cases "all_shards_submitted p"; cases "awaiting_idr s";
      cases "frame_index p = the (last_submitted_frame s) + 1")
    (auto simp: policy_simps)

text \<open>
  C4. Decoder safety of the video egress: whatever packets arrive, in whatever order, and however
  sends fail, the sequence of completely delivered frames starts with an IDR frame and every
  predictive frame in it directly follows its predecessor.
\<close>

theorem delivered_frames_decodable:
  "decodable (last_submitted_frame s) (delivered (machine_outputs broadcast_packet s ps))"
proof (induction ps arbitrary: s)
  case Nil
  then show ?case by simp
next
  case (Cons p ps)
  note rest = Cons.IH [of "fst (broadcast_packet s p)"]
  show ?case
    by (rule broadcast_packet_cases [of p s]) (use rest in auto)
qed

lemma withheld_count:
  "withheld_frames (machine_state broadcast_packet s ps)
     = withheld_since_idr (withheld_frames s) (machine_outputs broadcast_packet s ps)"
proof (induction ps arbitrary: s)
  case (Cons p ps)
  note rest = Cons.IH [of "fst (broadcast_packet s p)"]
  show ?case
    by (rule broadcast_packet_cases [of p s]) (use rest in auto)
qed simp

text \<open>
  The recovery report is exact: when an IDR frame goes out while the transport is awaiting
  one, the report counts exactly the frames withheld since the last delivered IDR frame, and the
  state is back to accepting the IDR frame's successor.
\<close>

theorem recovery_report_exact:
  assumes "awaiting_idr (machine_state broadcast_packet qos_init ps)"
    and "is_idr p" and "all_shards_submitted p"
  shows "\<exists>d. broadcast_packet (machine_state broadcast_packet qos_init ps) p =
      (\<lparr>awaiting_idr = False, recovery_requested = False, last_submitted_frame = Some (frame_index p),
        recovery_started = 0, last_recovery_request = 0, withheld_frames = 0\<rparr>,
       Sent (frame_index p) True
         (Some \<lparr>recovery_withheld = withheld_since_idr 0 (machine_outputs broadcast_packet qos_init ps),
                recovery_duration = d\<rparr>))"
  using withheld_count [of qos_init ps] assms by (simp add: policy_simps qos_init_def)

theorem recovery_report_exact_witness:
  "\<exists>d. snd (broadcast_packet (machine_state broadcast_packet qos_init
      [\<lparr>frame_index = 1, is_idr = False, admission_now = 5, all_shards_submitted = True, submitted_now = 6\<rparr>,
       \<lparr>frame_index = 2, is_idr = False, admission_now = 7, all_shards_submitted = True, submitted_now = 8\<rparr>])
      \<lparr>frame_index = 3, is_idr = True, admission_now = 9, all_shards_submitted = True, submitted_now = 10\<rparr>)
    = Sent 3 True (Some \<lparr>recovery_withheld = 2, recovery_duration = d\<rparr>)"
  using recovery_report_exact [of
      "[\<lparr>frame_index = 1, is_idr = False, admission_now = 5, all_shards_submitted = True, submitted_now = 6\<rparr>,
        \<lparr>frame_index = 2, is_idr = False, admission_now = 7, all_shards_submitted = True, submitted_now = 8\<rparr>]"
      "\<lparr>frame_index = 3, is_idr = True, admission_now = 9, all_shards_submitted = True, submitted_now = 10\<rparr>"]
  by (simp add: policy_simps qos_init_def)

subsection \<open>Recovery requests\<close>

text \<open>
  The stamp of the gate is the last request the loop sent since the last IDR packet, read off the
  outputs of the run: \<open>asks_at\<close> says that the packet at a position was withheld and a request for
  an IDR frame went out with it.
\<close>

definition asks :: "egress \<Rightarrow> bool" where
  "asks e \<longleftrightarrow> (case e of Withheld _ requested \<Rightarrow> requested | _ \<Rightarrow> False)"

abbreviation asks_at :: "video_packet list \<Rightarrow> nat \<Rightarrow> bool" where
  "asks_at ps n \<equiv> asks (machine_outputs broadcast_packet qos_init ps ! n)"

definition request_stamp :: "qos_state \<Rightarrow> time_point option" where
  "request_stamp s =
     (if recovery_requested s \<and> last_recovery_request s \<noteq> 0 then Some (last_recovery_request s) else None)"

lemma broadcast_stamp:
  assumes "0 < admission_now p"
  shows "request_stamp (fst (broadcast_packet s p)) =
    (if is_idr p then None else if asks (snd (broadcast_packet s p)) then Some (admission_now p) else request_stamp s)"
  using assms
  by (cases "last_submitted_frame s"; cases "is_idr p"; cases "all_shards_submitted p"; cases "awaiting_idr s";
      cases "frame_index p = the (last_submitted_frame s) + 1")
    (auto simp: policy_simps request_stamp_def asks_def)

lemma broadcast_asks:
  assumes "snd (broadcast_packet s p) = Withheld n q"
  shows "\<not> is_idr p \<and> (q \<longleftrightarrow> (\<forall>t. request_stamp s = Some t \<longrightarrow> kRecoveryRequestRetry \<le> admission_now p - t))"
  using assms
  by (cases "last_submitted_frame s"; cases "is_idr p"; cases "all_shards_submitted p"; cases "awaiting_idr s";
      cases "frame_index p = the (last_submitted_frame s) + 1")
    (auto simp: policy_simps request_stamp_def)

lemma outputs_at:
  assumes "n < length ps"
  shows "machine_outputs broadcast_packet qos_init ps ! n
    = snd (broadcast_packet (machine_state broadcast_packet qos_init (take n ps)) (ps ! n))"
  using assms by (rule machine_outputs_nth)

text \<open>The stamp before position \<open>n\<close> is the time of the last request since the last IDR packet, if there was one.\<close>

definition stamp_fits :: "video_packet list \<Rightarrow> nat \<Rightarrow> time_point option \<Rightarrow> bool" where
  "stamp_fits ps n stamp \<longleftrightarrow> (case stamp of
     None \<Rightarrow> \<forall>m < n. asks_at ps m \<longrightarrow> (\<exists>k. m < k \<and> k < n \<and> is_idr (ps ! k))
   | Some t \<Rightarrow> \<exists>m < n. asks_at ps m \<and> t = admission_now (ps ! m)
       \<and> (\<forall>k. m < k \<and> k < n \<longrightarrow> \<not> is_idr (ps ! k) \<and> \<not> asks_at ps k))"

lemma stamp_fits_step:
  assumes "stamp_fits ps n stamp" "asks_at ps n \<Longrightarrow> \<not> is_idr (ps ! n)"
  shows "stamp_fits ps (Suc n)
    (if is_idr (ps ! n) then None else if asks_at ps n then Some (admission_now (ps ! n)) else stamp)"
proof (cases stamp)
  case None
  then show ?thesis using assms by (auto simp: stamp_fits_def less_Suc_eq)
next
  case (Some t)
  then show ?thesis using assms by (auto simp: stamp_fits_def less_Suc_eq)
qed

lemma stamp_fits_run:
  assumes "list_all (\<lambda>p. 0 < admission_now p) ps" "n \<le> length ps"
  shows "stamp_fits ps n (request_stamp (machine_state broadcast_packet qos_init (take n ps)))"
  using assms(2)
proof (induction n)
  case 0
  then show ?case by (simp add: stamp_fits_def request_stamp_def qos_init_def)
next
  case (Suc n)
  let ?s = "machine_state broadcast_packet qos_init (take n ps)"
  have n: "n < length ps" using Suc.prems by simp
  have "0 < admission_now (ps ! n)" using assms(1) n by (simp add: list_all_length)
  note stamp = broadcast_stamp [OF this, of ?s]
  have "\<not> is_idr (ps ! n)" if "asks_at ps n"
    using that broadcast_asks [of ?s "ps ! n"] unfolding outputs_at [OF n] by (auto simp: asks_def split: egress.splits)
  from stamp_fits_step [OF Suc.IH this] n
  have "stamp_fits ps (Suc n) (request_stamp (fst (broadcast_packet ?s (ps ! n))))"
    by (simp only: stamp outputs_at less_imp_le)
  moreover have "machine_state broadcast_packet qos_init (take (Suc n) ps) = fst (broadcast_packet ?s (ps ! n))"
    by (simp add: take_Suc_conv_app_nth [OF n])
  ultimately show ?case by (simp only:)
qed

text \<open>
  C5. Recovery requests are live and rate-limited, over every run of the transport loop, with IDR
  frames and failing sends in between. Whenever a frame is withheld, a request for an IDR frame goes
  out with it, or one went out less than two seconds before and no IDR frame was tried since.
  And two requests with no IDR frame tried between them are at least two seconds apart. (An IDR
  frame that fails to go out makes the next request due at once.)
\<close>

theorem idr_requests_live_and_spaced:
  fixes ps :: "video_packet list"
  assumes "sorted (map admission_now ps)" and "list_all (\<lambda>p. 0 < admission_now p) ps"
  defines "es \<equiv> machine_outputs broadcast_packet qos_init ps"
  shows "(\<forall>n < length ps. \<forall>i q. es ! n = Withheld i q \<longrightarrow>
      (\<exists>m \<le> n. asks (es ! m) \<and> admission_now (ps ! n) - admission_now (ps ! m) < kRecoveryRequestRetry
        \<and> (\<forall>k. m \<le> k \<and> k \<le> n \<longrightarrow> \<not> is_idr (ps ! k))))
    \<and> (\<forall>n < length ps. \<forall>m < n. asks (es ! m) \<and> asks (es ! n) \<and> (\<forall>k. m < k \<and> k < n \<longrightarrow> \<not> is_idr (ps ! k)) \<longrightarrow>
      kRecoveryRequestRetry \<le> admission_now (ps ! n) - admission_now (ps ! m))"
proof (intro conjI allI impI)
  fix n i q assume n: "n < length ps" and out: "es ! n = Withheld i q"
  let ?s = "machine_state broadcast_packet qos_init (take n ps)"
  note now = broadcast_asks [OF out [unfolded es_def outputs_at [OF n]]]
  show "\<exists>m \<le> n. asks (es ! m) \<and> admission_now (ps ! n) - admission_now (ps ! m) < kRecoveryRequestRetry
        \<and> (\<forall>k. m \<le> k \<and> k \<le> n \<longrightarrow> \<not> is_idr (ps ! k))"
  proof (cases q)
    case True
    then show ?thesis using now out by (intro exI [of _ n]) (auto simp: asks_def kRecoveryRequestRetry_def)
  next
    case False
    then obtain t where t: "request_stamp ?s = Some t" "admission_now (ps ! n) - t < kRecoveryRequestRetry"
      using now by fastforce
    then obtain m where m: "m < n" "asks (es ! m)" "t = admission_now (ps ! m)" "\<forall>k. m < k \<and> k < n \<longrightarrow> \<not> is_idr (ps ! k)"
      using stamp_fits_run [OF assms(2) less_imp_le [OF n]] by (auto simp: stamp_fits_def es_def)
    have "\<not> is_idr (ps ! m)"
      using m(1,2) n broadcast_asks [of "machine_state broadcast_packet qos_init (take m ps)" "ps ! m"]
      by (auto simp: es_def outputs_at asks_def split: egress.splits)
    then have "\<forall>k. m \<le> k \<and> k \<le> n \<longrightarrow> \<not> is_idr (ps ! k)" using m(4) now by (metis le_neq_implies_less)
    then show ?thesis using m t by (intro exI [of _ m]) simp
  qed
next
  fix n m
  assume n: "n < length ps" and "m < n"
    and ask: "asks (es ! m) \<and> asks (es ! n) \<and> (\<forall>k. m < k \<and> k < n \<longrightarrow> \<not> is_idr (ps ! k))"
  let ?s = "machine_state broadcast_packet qos_init (take n ps)"
  obtain i where out: "es ! n = Withheld i True" using ask by (auto simp: asks_def split: egress.splits)
  note now = broadcast_asks [OF out [unfolded es_def outputs_at [OF n]]]
  have "request_stamp ?s \<noteq> None"
    using stamp_fits_run [OF assms(2) less_imp_le [OF n]] ask \<open>m < n\<close>
    by (cases "request_stamp ?s") (auto simp: stamp_fits_def es_def)
  then obtain t where t: "request_stamp ?s = Some t" by blast
  then obtain l where l: "l < n" "t = admission_now (ps ! l)" "\<forall>k. l < k \<and> k < n \<longrightarrow> \<not> asks (es ! k)"
    using stamp_fits_run [OF assms(2) less_imp_le [OF n]] by (auto simp: stamp_fits_def es_def)
  then have "m \<le> l" using ask \<open>m < n\<close> by (meson not_le)
  then have "admission_now (ps ! m) \<le> admission_now (ps ! l)"
    using sorted_nth_mono [OF assms(1), of m l] l(1) n by simp
  then show "kRecoveryRequestRetry \<le> admission_now (ps ! n) - admission_now (ps ! m)"
    using now t l(2) by auto
qed

definition sample_packet :: "int \<Rightarrow> bool \<Rightarrow> bool \<Rightarrow> time_point \<Rightarrow> video_packet" where
  "sample_packet i idr sent now =
     \<lparr>frame_index = i, is_idr = idr, admission_now = now, all_shards_submitted = sent, submitted_now = now\<rparr>"

theorem idr_requests_live_and_spaced_witness:
  "let ps = [sample_packet 1 False True 1, sample_packet 2 False True 5, sample_packet 3 False True 2000000001];
       es = machine_outputs broadcast_packet qos_init ps
   in es = [Withheld 1 True, Withheld 2 False, Withheld 3 True]
      \<and> (\<exists>m \<le> 1. asks (es ! m) \<and> admission_now (ps ! 1) - admission_now (ps ! m) < kRecoveryRequestRetry)
      \<and> kRecoveryRequestRetry \<le> admission_now (ps ! 2) - admission_now (ps ! 0)"
proof -
  let ?ps = "[sample_packet 1 False True 1, sample_packet 2 False True 5, sample_packet 3 False True 2000000001]"
  have es: "machine_outputs broadcast_packet qos_init ?ps = [Withheld 1 True, Withheld 2 False, Withheld 3 True]"
    by (simp add: sample_packet_def policy_simps qos_init_def kRecoveryRequestRetry_def)
  have "sorted (map admission_now ?ps)" "list_all (\<lambda>p. 0 < admission_now p) ?ps" by (simp_all add: sample_packet_def)
  note both = idr_requests_live_and_spaced [OF this, unfolded es]
  have "\<exists>m \<le> 1. asks ([Withheld 1 True, Withheld 2 False, Withheld 3 True] ! m)
      \<and> admission_now (?ps ! 1) - admission_now (?ps ! m) < kRecoveryRequestRetry"
    using both [THEN conjunct1, rule_format, of 1 2 False] by auto
  moreover have "kRecoveryRequestRetry \<le> admission_now (?ps ! 2) - admission_now (?ps ! 0)"
  proof -
    have "\<forall>k. 0 < k \<and> k < 2 \<longrightarrow> \<not> is_idr (?ps ! k)" by (auto simp: sample_packet_def less_2_cases_iff)
    then show ?thesis using both [THEN conjunct2, THEN spec [of _ 2], THEN mp, THEN spec [of _ 0]]
      by (simp add: asks_def sample_packet_def)
  qed
  ultimately show ?thesis unfolding es Let_def by blast
qed

subsection \<open>Timestamps and pacing\<close>

lemma nominal_step_bounds:
  "1 \<le> unat (max 1 (90000 div word_of_int (max f 1) :: u64))
   \<and> unat (max 1 (90000 div word_of_int (max f 1) :: u64)) \<le> 90000"
proof -
  let ?w = "word_of_int (max f 1) :: u64"
  have "unat (90000 div ?w) \<le> 90000"
    by (simp add: unat_div_distrib div_le_dividend)
  then show ?thesis
    by (auto simp: max_def word_le_nat_alt)
qed

text \<open>
  RTP timestamps increase strictly from frame to frame, by at most one second's worth of
  ticks when the capture timestamp did not advance, as long as the 64-bit tick counter is not
  within a second of its end.
\<close>

theorem rtp_timestamps_increase:
  assumes "unat last_ticks + 90000 < 2 ^ 64"
  shows "last_ticks < next_rtp_timestamp_ticks candidate last_ticks framerate
    \<and> (candidate \<le> last_ticks \<longrightarrow>
        unat (next_rtp_timestamp_ticks candidate last_ticks framerate) \<le> unat last_ticks + 90000)"
proof (cases "candidate > last_ticks")
  case True
  then show ?thesis by (auto simp: next_rtp_timestamp_ticks_def)
next
  case False
  let ?d = "max 1 (90000 div word_of_int (max framerate 1)) :: u64"
  from nominal_step_bounds [of framerate] assms have "unat (last_ticks + ?d) = unat last_ticks + unat ?d"
    by (intro unat_add_lem [THEN iffD1]) simp
  with False nominal_step_bounds [of framerate] show ?thesis
    by (simp add: next_rtp_timestamp_ticks_def word_less_nat_alt)
qed

theorem rtp_timestamps_increase_witness:
  "unat (7 :: u64) + 90000 < 2 ^ 64 \<and> (7 :: u64) < next_rtp_timestamp_ticks 3 7 60"
  using rtp_timestamps_increase [of 7 3 60] by simp

text \<open>
  The pacing budget is feasible: the drain rate never exceeds the cap (or one bit per second)
  nor one and a half times the average, it is positive, and a quantum's batch of packets covers
  the quantum, so sending one batch per quantum sustains the drain rate.
\<close>

theorem pacing_budget_feasible:
  fixes kbps fec :: int and wire payload :: nat and cap :: rat
  defines "b \<equiv> pacing_budget_of kbps fec wire payload cap"
  shows "0 < drain_bitrate_bps b \<and> drain_bitrate_bps b \<le> max cap 1
    \<and> drain_bitrate_bps b \<le> average_wire_bitrate_bps b * 3 / 2
    \<and> of_nat (packets_per_quantum b) * packet_interval b \<ge> 1 / 1000"
proof -
  let ?avg = "average_wire_bitrate_bps b" and ?drain = "drain_bitrate_bps b"
  let ?bits = "rat_of_nat (max wire 1) * 8"
  have fields: "?drain = min (?avg * (3 / 2)) (max cap 1)"
    "packet_interval b = ?bits / ?drain"
    "packets_per_quantum b = max 1 (nat \<lceil>?drain * (1 / 1000) / ?bits\<rceil>)"
    unfolding b_def pacing_budget_of_def Let_def kWirePacingHeadroom_def kWirePacingQuantum_us_def
    by (simp_all only: pacing_budget.select_convs) simp
  have avg: "0 < ?avg"
    by (simp add: b_def pacing_budget_of_def Let_def zero_less_divide_iff zero_less_mult_iff add_pos_nonneg max_def)
  have bits: "0 < ?bits" by simp
  from avg have drain: "0 < ?drain" by (auto simp: fields(1))
  have "?drain * (1 / 1000) / ?bits \<le> of_nat (packets_per_quantum b)"
  proof -
    have "?drain * (1 / 1000) / ?bits \<le> of_int \<lceil>?drain * (1 / 1000) / ?bits\<rceil>" by (rule le_of_int_ceiling)
    also have "\<dots> \<le> of_nat (nat \<lceil>?drain * (1 / 1000) / ?bits\<rceil>)" by (simp add: of_nat_nat_take_bit_eq)
    also have "\<dots> \<le> of_nat (packets_per_quantum b)" by (simp add: fields(3))
    finally show ?thesis .
  qed
  then have "1 / 1000 \<le> of_nat (packets_per_quantum b) * (?bits / ?drain)"
    using drain bits by (simp add: field_simps)
  then have "of_nat (packets_per_quantum b) * packet_interval b \<ge> 1 / 1000"
    unfolding fields(2) .
  moreover have "?drain \<le> max cap 1" and "?drain \<le> ?avg * (3 / 2)"
    unfolding fields(1) by (rule min.cobounded2, rule min.cobounded1)
  ultimately show ?thesis using drain by simp
qed

end
