(* ===== verification/Video_Packets.thy ===== *)
theory Video_Packets
  imports Prelude
begin

unbundle bit_operations_syntax

text \<open>
  From an admitted frame to numbered shards: the packetization part of \<open>videoBroadcastThread\<close>
  and its helpers in \<^verbatim>\<open>src/stream.cpp\<close> (\<open>concat_and_insert\<close>, \<open>replace\<close>, \<open>fec::encode\<close>, the
  FEC block split, the packet header fields, the batching of sends).

  Sizes are natural numbers. The layout of the GameStream protocol headers, their flags and the
  Reed-Solomon library belong to third-party headers: they are the fields of \<open>wire_format\<close>, a
  parameter (the sizes, the shard limit, how the header fields of a packet are written into its
  bytes, and the parity computation). The session's cipher is a parameter too. Where
  \<open>std::string_view::substr\<close> or \<open>std::vector::reserve\<close> would throw, the model returns \<open>None\<close>.
\<close>

type_synonym bytes = "u8 list"

text \<open>The fields of \<open>NV_VIDEO_PACKET\<close> written before the parity is computed, and the fields of the
  packet and its RTP header written afterwards.\<close>

record data_header =
  dh_frameIndex :: u32
  dh_streamPacketIndex :: u32
  dh_multiFecFlags :: u8
  dh_multiFecBlocks :: u8
  dh_flags :: u8

record shard_header =
  sh_fecInfo :: u32
  sh_rtp_header :: u8
  sh_sequenceNumber :: u16
  sh_timestamp :: u32
  sh_multiFecBlocks :: u8
  sh_frameIndex :: u32

record wire_format =
  nv_video_packet_size :: nat
  max_rtp_header_size :: nat
  video_packet_raw_size :: nat
  data_shards_max :: nat
  flag_contains_pic_data :: u8
  flag_sof :: u8
  flag_eof :: u8
  flag_extension :: u8
  put_data_header :: "data_header \<Rightarrow> bytes \<Rightarrow> bytes"
  put_shard_header :: "shard_header \<Rightarrow> bytes \<Rightarrow> bytes"
  rs_parity :: "nat \<Rightarrow> nat \<Rightarrow> bytes list \<Rightarrow> bytes list"

subsection \<open>Replacing parameter sets\<close>

text \<open>\<open>std::search\<close>: the offset of the first occurrence, the end when there is none.\<close>

fun search :: "'a list \<Rightarrow> 'a list \<Rightarrow> nat" where
  "search [] needle = 0"
| "search (x # xs) needle =
     (if take (length needle) (x # xs) = needle then 0 else Suc (search xs needle))"

text \<open>
  The size passed to \<open>reserve\<close> is unsigned: where the pattern is longer than both other strings
  together it wraps around and \<open>reserve\<close> throws.
\<close>

definition replace :: "'a list \<Rightarrow> 'a list \<Rightarrow> 'a list \<Rightarrow> 'a list option" where
  "replace original old new =
     (if length original + length new < length old then None
      else let next = search original old in
        Some (take next original @
              (if next \<noteq> length original then new @ drop (next + length old) original else [])))"

subsection \<open>Inserting header space\<close>

text \<open>\<open>std::copy\<close> into a buffer at an offset.\<close>

definition copy_at :: "nat \<Rightarrow> 'a list \<Rightarrow> 'a list \<Rightarrow> 'a list" where
  "copy_at off src buf = take off buf @ src @ drop (off + length src) buf"

text \<open>
  The loop of \<open>concat_and_insert\<close>: \<open>cur\<close> is what is left between \<open>next\<close> and \<open>end\<close>, first of
  \<open>data1\<close>, then of \<open>data2\<close>. The last iteration shortens the slice to the end of the data.
\<close>

function cai_loop ::
  "nat \<Rightarrow> nat \<Rightarrow> nat \<Rightarrow> nat \<Rightarrow> bytes \<Rightarrow> nat \<Rightarrow> bytes \<Rightarrow> bytes \<Rightarrow> bytes" where
  "cai_loop insert_size slice_size data_size elements data2 x cur result =
     (if x < elements then
        let p = x * (insert_size + slice_size);
            s = (if x = elements - 1 then data_size - x * slice_size else slice_size)
        in if s > length cur then
             let copy_len = length cur;
                 result1 = copy_at (p + insert_size) cur result;
                 result2 = copy_at (p + copy_len + insert_size) (take (s - copy_len) data2) result1
             in cai_loop insert_size slice_size data_size elements data2 (x + 1)
                  (drop (s - copy_len) data2) result2
           else cai_loop insert_size slice_size data_size elements data2 (x + 1)
                  (drop s cur) (copy_at (p + insert_size) (take s cur) result)
      else result)"
  by pat_completeness auto
termination
  by (relation "measure (\<lambda>(_, _, _, elements, _, x, _, _). elements - x)") auto

declare cai_loop.simps [simp del]

definition concat_and_insert :: "nat \<Rightarrow> nat \<Rightarrow> bytes \<Rightarrow> bytes \<Rightarrow> bytes" where
  "concat_and_insert insert_size slice_size data1 data2 =
     (let data_size = length data1 + length data2;
          elements = data_size div slice_size + (if data_size mod slice_size \<noteq> 0 then 1 else 0)
      in cai_loop insert_size slice_size data_size elements data2 0 data1
           (replicate (elements * insert_size + data_size) 0))"

subsection \<open>The frame header\<close>

definition le16 :: "nat \<Rightarrow> bytes" where
  "le16 n = [word_of_nat n, word_of_nat (n div 256)]"

text \<open>The field has sixteen bits: the remainder is truncated before it is compared with zero.\<close>

definition last_payload_len :: "wire_format \<Rightarrow> nat \<Rightarrow> nat \<Rightarrow> nat" where
  "last_payload_len fmt packetsize payload_size =
     (let room = packetsize - nv_video_packet_size fmt; l = (payload_size + 8) mod room mod 65536
      in if l = 0 then room else l)"

definition frame_type :: "bool \<Rightarrow> bool \<Rightarrow> u8" where
  "frame_type is_idr after_ref_frame_invalidation =
     (if is_idr then 2 else if after_ref_frame_invalidation then 5 else 1)"

text \<open>The eight bytes of \<open>video_short_frame_header_t\<close>.\<close>

definition short_frame_header :: "wire_format \<Rightarrow> nat \<Rightarrow> bool \<Rightarrow> bool \<Rightarrow> nat \<Rightarrow> nat \<Rightarrow> bytes" where
  "short_frame_header fmt packetsize is_idr after_rfi latency payload_size =
     [1] @ le16 latency @ [frame_type is_idr after_rfi]
     @ le16 (last_payload_len fmt packetsize payload_size) @ [0, 0]"

text \<open>Latency in tenths of a millisecond from a duration in microseconds, clamped to 16 bits.\<close>

definition duration_to_latency :: "int \<Rightarrow> nat" where
  "duration_to_latency duration_us =
     (let d = duration_us + 50; q = sgn d * (\<bar>d\<bar> div 100) in nat (min (max q 0) 65535))"

subsection \<open>Splitting into FEC blocks\<close>

definition MAX_FEC_BLOCKS :: nat where "MAX_FEC_BLOCKS = 4"

definition substr :: "'a list \<Rightarrow> nat \<Rightarrow> nat option \<Rightarrow> 'a list option" where
  "substr xs pos n =
     (if pos > length xs then None
      else Some (case n of None \<Rightarrow> drop pos xs | Some k \<Rightarrow> take k (drop pos xs)))"

record fec_plan =
  plan_percentage :: nat
  plan_blocks :: nat
  plan_aligned :: nat

definition max_data_shards_per_fec_block :: "wire_format \<Rightarrow> nat \<Rightarrow> nat" where
  "max_data_shards_per_fec_block fmt fecPercentage = (data_shards_max fmt * 100) div (100 + fecPercentage)"

definition fec_plan_of :: "wire_format \<Rightarrow> nat \<Rightarrow> nat \<Rightarrow> nat \<Rightarrow> fec_plan" where
  "fec_plan_of fmt blocksize fecPercentage payload_size =
     (let max_data_per_fec_block = max_data_shards_per_fec_block fmt fecPercentage * blocksize;
          needed = (payload_size + (max_data_per_fec_block - 1)) div max_data_per_fec_block;
          (fec, n) = (if needed > MAX_FEC_BLOCKS then (0, MAX_FEC_BLOCKS) else (fecPercentage, needed));
          unaligned_size = payload_size div n;
          aligned_size = ((unaligned_size + (blocksize - 1)) div blocksize) * blocksize
      in \<lparr>plan_percentage = fec, plan_blocks = n, plan_aligned = aligned_size\<rparr>)"

fun fec_blocks_from :: "bytes \<Rightarrow> nat \<Rightarrow> nat \<Rightarrow> nat \<Rightarrow> bytes list option" where
  "fec_blocks_from payload aligned x 0 = Some []"
| "fec_blocks_from payload aligned x (Suc k) =
     (case substr payload (x * aligned) (if k = 0 then None else Some aligned) of
        None \<Rightarrow> None
      | Some b \<Rightarrow> map_option (Cons b) (fec_blocks_from payload aligned (x + 1) k))"

definition fec_blocks :: "bytes \<Rightarrow> fec_plan \<Rightarrow> bytes list option" where
  "fec_blocks payload plan = fec_blocks_from payload (plan_aligned plan) 0 (plan_blocks plan)"

subsection \<open>Encoding a block\<close>

record fec_shards =
  data_shards :: nat
  nr_shards :: nat
  percentage :: nat
  shards :: "bytes list"

fun slices :: "nat \<Rightarrow> nat \<Rightarrow> 'a list \<Rightarrow> 'a list list" where
  "slices k 0 xs = []"
| "slices k (Suc n) xs = take k xs # slices k n (drop k xs)"

text \<open>The number of parity shards and the percentage it is reported as.\<close>

definition fec_parity :: "nat \<Rightarrow> nat \<Rightarrow> nat \<Rightarrow> nat \<times> nat" where
  "fec_parity n_data fecpercentage minparityshards =
     (let parity_shards = (n_data * fecpercentage + 99) div 100
      in if parity_shards < minparityshards \<and> fecpercentage \<noteq> 0
         then (minparityshards, (100 * minparityshards) div n_data)
         else (parity_shards, fecpercentage))"

text \<open>The data shards point into the payload; a last short one is copied and padded with zeros.\<close>

definition fec_data :: "bytes \<Rightarrow> nat \<Rightarrow> bytes list" where
  "fec_data payload blocksize =
     (let aligned_data_shards = length payload div blocksize;
          rest = drop (aligned_data_shards * blocksize) payload
      in slices blocksize aligned_data_shards payload
         @ (if length payload mod blocksize \<noteq> 0 then [rest @ replicate (blocksize - length rest) 0] else []))"

definition fec_encode ::
  "(nat \<Rightarrow> nat \<Rightarrow> bytes list \<Rightarrow> bytes list) \<Rightarrow> bytes \<Rightarrow> nat \<Rightarrow> nat \<Rightarrow> nat \<Rightarrow> fec_shards" where
  "fec_encode rs payload blocksize fecpercentage minparityshards =
     (let pad = length payload mod blocksize \<noteq> 0;
          n_data = length payload div blocksize + (if pad then 1 else 0);
          (parity_shards, pct) = fec_parity n_data fecpercentage minparityshards;
          data = fec_data payload blocksize
      in \<lparr>data_shards = n_data, nr_shards = n_data + parity_shards, percentage = pct,
          shards = data @ (if pct \<noteq> 0 then rs n_data parity_shards data else [])\<rparr>)"

subsection \<open>Numbering\<close>

definition multi_fec_blocks :: "nat \<Rightarrow> nat \<Rightarrow> u8" where
  "multi_fec_blocks blockIndex fec_blocks_needed =
     push_bit 4 (word_of_nat blockIndex) OR push_bit 6 (word_of_nat (fec_blocks_needed - 1))"

definition fec_info :: "nat \<Rightarrow> nat \<Rightarrow> nat \<Rightarrow> u32" where
  "fec_info x n_data pct =
     push_bit 12 (word_of_nat x) OR push_bit 22 (word_of_nat n_data) OR push_bit 4 (word_of_nat pct)"

definition rtp_sequence_number :: "nat \<Rightarrow> nat \<Rightarrow> u16" where
  "rtp_sequence_number lowseq x = word_of_nat (lowseq + x)"

definition stream_packet_index :: "nat \<Rightarrow> nat \<Rightarrow> u32" where
  "stream_packet_index lowseq x = push_bit 8 (word_of_nat lowseq + word_of_nat x)"

text \<open>The packet flags: the first packet of a block starts it, the last one ends it.\<close>

definition packet_flags :: "wire_format \<Rightarrow> nat \<Rightarrow> nat \<Rightarrow> u8" where
  "packet_flags fmt x packets =
     flag_contains_pic_data fmt OR (if x = 0 then flag_sof fmt else 0)
     OR (if x = packets - 1 then flag_eof fmt else 0)"

text \<open>What the loop over the blocks of one frame reads: the frame's index and timestamp, the FEC
  settings, and the session's cipher (initialization vector and plaintext to tag and ciphertext).\<close>

record frame_context =
  fc_frame_index :: nat
  fc_timestamp :: u32
  fc_blocksize :: nat
  fc_percentage :: nat
  fc_min_parity :: nat
  fc_blocks_needed :: nat
  fc_cipher :: "(bytes \<Rightarrow> bytes \<Rightarrow> bytes \<times> bytes) option"

text \<open>The first loop of a block: the header of every data packet, before the parity is computed.\<close>

definition stamp_packets :: "wire_format \<Rightarrow> frame_context \<Rightarrow> nat \<Rightarrow> nat \<Rightarrow> bytes \<Rightarrow> bytes" where
  "stamp_packets fmt fc blockIndex lowseq payload =
     (let packets = (length payload + (fc_blocksize fc - 1)) div fc_blocksize fc;
          header = (\<lambda>x. \<lparr>dh_frameIndex = word_of_nat (fc_frame_index fc),
                         dh_streamPacketIndex = stream_packet_index lowseq x,
                         dh_multiFecFlags = 16,
                         dh_multiFecBlocks = multi_fec_blocks blockIndex (fc_blocks_needed fc),
                         dh_flags = packet_flags fmt x packets\<rparr>)
      in concat (map2 (\<lambda>x p. put_data_header fmt (header x) p) [0..<packets]
                   (slices (fc_blocksize fc) packets payload)))"

text \<open>The initialization vector: the counter in its low eight bytes, a tag in its last one.\<close>

definition iv_bytes :: "u64 \<Rightarrow> bytes" where
  "iv_bytes counter = map (\<lambda>k. ucast (drop_bit (8 * k) counter)) [0..<8] @ [0, 0, 0, 86]"

text \<open>One packet as handed to the socket: the encryption prefix (frame number, initialization
  vector, tag) when the video is encrypted, and the shard.\<close>

record wire_packet =
  wp_prefix :: "(u32 \<times> bytes \<times> bytes) option"
  wp_header :: shard_header
  wp_data :: bytes

text \<open>The fields the second loop of a block writes into shard \<open>x\<close>, and its body up to the
  batching.\<close>

definition shard_header_of :: "wire_format \<Rightarrow> frame_context \<Rightarrow> nat \<Rightarrow> nat \<Rightarrow> fec_shards \<Rightarrow> nat \<Rightarrow> shard_header" where
  "shard_header_of fmt fc blockIndex lowseq sh x =
     \<lparr>sh_fecInfo = fec_info x (data_shards sh) (percentage sh),
      sh_rtp_header = 128 OR flag_extension fmt,
      sh_sequenceNumber = rtp_sequence_number lowseq x,
      sh_timestamp = fc_timestamp fc,
      sh_multiFecBlocks = multi_fec_blocks blockIndex (fc_blocks_needed fc),
      sh_frameIndex = word_of_nat (fc_frame_index fc)\<rparr>"

definition finish_shard ::
  "wire_format \<Rightarrow> frame_context \<Rightarrow> nat \<Rightarrow> nat \<Rightarrow> fec_shards \<Rightarrow> nat \<Rightarrow> u64 \<Rightarrow> wire_packet \<times> u64" where
  "finish_shard fmt fc blockIndex lowseq sh x gcm_iv_counter =
     (let header = shard_header_of fmt fc blockIndex lowseq sh x;
          data = put_shard_header fmt header (shards sh ! x)
      in case fc_cipher fc of
           None \<Rightarrow> (\<lparr>wp_prefix = None, wp_header = header, wp_data = data\<rparr>, gcm_iv_counter)
         | Some encrypt \<Rightarrow>
             (let iv = iv_bytes gcm_iv_counter; (tag, text) = encrypt iv data
              in (\<lparr>wp_prefix = Some (word_of_nat (fc_frame_index fc), iv, tag),
                   wp_header = header, wp_data = text\<rparr>, gcm_iv_counter + 1)))"

fun finish_shards ::
  "wire_format \<Rightarrow> frame_context \<Rightarrow> nat \<Rightarrow> nat \<Rightarrow> fec_shards \<Rightarrow> nat \<Rightarrow> nat \<Rightarrow> u64 \<Rightarrow> wire_packet list \<times> u64" where
  "finish_shards fmt fc blockIndex lowseq sh x 0 iv = ([], iv)"
| "finish_shards fmt fc blockIndex lowseq sh x (Suc k) iv =
     (case finish_shard fmt fc blockIndex lowseq sh x iv of (p, iv') \<Rightarrow>
      case finish_shards fmt fc blockIndex lowseq sh (x + 1) k iv' of (ps, iv'') \<Rightarrow> (p # ps, iv''))"

text \<open>The loop over the FEC blocks: the packets sent, and the session's \<open>lowseq\<close> and
  \<open>gcm_iv_counter\<close> afterwards.\<close>

definition block_shards :: "wire_format \<Rightarrow> frame_context \<Rightarrow> nat \<Rightarrow> nat \<Rightarrow> bytes \<Rightarrow> fec_shards" where
  "block_shards fmt fc blockIndex lowseq payload =
     fec_encode (rs_parity fmt) (stamp_packets fmt fc blockIndex lowseq payload) (fc_blocksize fc)
       (fc_percentage fc) (fc_min_parity fc)"

fun send_blocks ::
  "wire_format \<Rightarrow> frame_context \<Rightarrow> nat \<Rightarrow> nat \<Rightarrow> u64 \<Rightarrow> bytes list \<Rightarrow> wire_packet list \<times> nat \<times> u64" where
  "send_blocks fmt fc blockIndex lowseq iv [] = ([], lowseq, iv)"
| "send_blocks fmt fc blockIndex lowseq iv (b # bs) =
     (let sh = block_shards fmt fc blockIndex lowseq b;
          (ps, iv') = finish_shards fmt fc blockIndex lowseq sh 0 (nr_shards sh) iv;
          (rest, lowseq', iv'') = send_blocks fmt fc (blockIndex + 1) (lowseq + nr_shards sh) iv' bs
      in (ps @ rest, lowseq', iv''))"

text \<open>The whole path of one admitted frame. \<open>None\<close> is an exception.\<close>

record frame_input =
  fi_is_idr :: bool
  fi_after_rfi :: bool
  fi_replacements :: "(bytes \<times> bytes) list"
  fi_payload :: bytes
  fi_latency :: nat

fun apply_replacements :: "(bytes \<times> bytes) list \<Rightarrow> bytes \<Rightarrow> bytes option" where
  "apply_replacements [] payload = Some payload"
| "apply_replacements ((old, new) # rs) payload =
     (case replace payload old new of None \<Rightarrow> None | Some p \<Rightarrow> apply_replacements rs p)"

definition frame_with_headers :: "wire_format \<Rightarrow> nat \<Rightarrow> frame_input \<Rightarrow> bytes option" where
  "frame_with_headers fmt packetsize fi =
     map_option (\<lambda>payload.
         concat_and_insert (video_packet_raw_size fmt)
           (packetsize + max_rtp_header_size fmt - video_packet_raw_size fmt)
           (short_frame_header fmt packetsize (fi_is_idr fi) (fi_after_rfi fi) (fi_latency fi)
             (length payload))
           payload)
       (if fi_is_idr fi then apply_replacements (fi_replacements fi) (fi_payload fi)
        else Some (fi_payload fi))"

definition packetize_frame ::
  "wire_format \<Rightarrow> nat \<Rightarrow> nat \<Rightarrow> nat \<Rightarrow> (bytes \<Rightarrow> bytes \<Rightarrow> bytes \<times> bytes) option \<Rightarrow> nat \<Rightarrow> u32 \<Rightarrow> nat \<Rightarrow> u64
    \<Rightarrow> frame_input \<Rightarrow> (wire_packet list \<times> nat \<times> u64) option" where
  "packetize_frame fmt packetsize fecPercentage minparity cipher frame_index timestamp lowseq iv fi =
     (case frame_with_headers fmt packetsize fi of
        None \<Rightarrow> None
      | Some payload \<Rightarrow>
          (let blocksize = packetsize + max_rtp_header_size fmt;
               plan = fec_plan_of fmt blocksize fecPercentage (length payload)
           in case fec_blocks payload plan of
                None \<Rightarrow> None
              | Some blocks \<Rightarrow>
                  Some (send_blocks fmt
                    \<lparr>fc_frame_index = frame_index, fc_timestamp = timestamp, fc_blocksize = blocksize,
                     fc_percentage = plan_percentage plan, fc_min_parity = minparity,
                     fc_blocks_needed = plan_blocks plan, fc_cipher = cipher\<rparr> 0 lowseq iv blocks)))"

subsection \<open>Batching\<close>

definition send_batch_size :: "nat \<Rightarrow> nat \<Rightarrow> nat \<Rightarrow> nat" where
  "send_batch_size video_max_batch_size_kb blocksize packets_per_quantum =
     (let max_batch_size_bytes = min (64 * 1024) (video_max_batch_size_kb * 1024);
          n = max 1 (max_batch_size_bytes div blocksize)
      in min (min 64 n) packets_per_quantum)"

text \<open>The batches (offset, count) the send loop submits, from shard \<open>x\<close> on.\<close>

function send_batches :: "nat \<Rightarrow> nat \<Rightarrow> nat \<Rightarrow> nat \<Rightarrow> (nat \<times> nat) list" where
  "send_batches batch n next x =
     (if x < n then
        if x - next + 1 \<ge> batch \<or> x + 1 = n
        then (next, x - next + 1) # send_batches batch n (x + 1) (x + 1)
        else send_batches batch n next (x + 1)
      else [])"
  by pat_completeness auto
termination
  by (relation "measure (\<lambda>(_, n, _, x). n - x)") auto

declare send_batches.simps [simp del]

subsection \<open>Replacement is replacement of the first occurrence\<close>

lemma search_bound: "search xs needle \<le> length xs"
  by (induction xs) auto

lemma search_hit:
  "\<lbrakk>needle \<noteq> []; search xs needle \<noteq> length xs\<rbrakk> \<Longrightarrow>
     take (length needle) (drop (search xs needle) xs) = needle"
  by (induction xs) (auto split: if_splits)

lemma search_first:
  "i < search xs needle \<Longrightarrow> take (length needle) (drop i xs) \<noteq> needle"
proof (induction xs arbitrary: i)
  case (Cons x xs)
  then show ?case by (cases i) (auto split: if_splits)
qed simp

lemma occurrence_bounds_search:
  assumes "needle \<noteq> []" and "xs = pre @ needle @ post"
  shows "search xs needle \<le> length pre" "search xs needle \<noteq> length xs"
proof -
  have "take (length needle) (drop (length pre) xs) = needle" using assms(2) by simp
  with search_first [of "length pre" xs needle] show le: "search xs needle \<le> length pre"
    by (meson not_le)
  from assms have "length pre < length xs" by simp
  with le show "search xs needle \<noteq> length xs" by linarith
qed

text \<open>
  \<open>replace\<close> rewrites the first occurrence of the old parameter set and nothing else; without
  an occurrence the frame is unchanged. The call throws exactly when the old pattern is longer
  than the frame and the new pattern together.
\<close>

theorem replace_first_occurrence:
  assumes "old \<noteq> []"
  shows "(replace original old new = None \<longleftrightarrow> length original + length new < length old)
    \<and> (length old \<le> length original + length new \<longrightarrow>
        (if \<exists>pre post. original = pre @ old @ post
         then \<exists>pre post. original = pre @ old @ post
                \<and> (\<forall>i < length pre. take (length old) (drop i original) \<noteq> old)
                \<and> replace original old new = Some (pre @ new @ post)
         else replace original old new = Some original))"
proof (intro conjI impI)
  let ?n = "search original old"
  show "replace original old new = None \<longleftrightarrow> length original + length new < length old"
    by (simp add: replace_def Let_def)
  assume len: "length old \<le> length original + length new"
  show "if \<exists>pre post. original = pre @ old @ post
     then \<exists>pre post. original = pre @ old @ post
            \<and> (\<forall>i < length pre. take (length old) (drop i original) \<noteq> old)
            \<and> replace original old new = Some (pre @ new @ post)
     else replace original old new = Some original"
  proof (cases "\<exists>pre post. original = pre @ old @ post")
    case True
    then obtain p q where "original = p @ old @ q" by blast
    from occurrence_bounds_search(2) [OF assms this] have n: "?n \<noteq> length original" .
    from search_hit [OF assms n] have hit: "drop ?n original = old @ drop (?n + length old) original"
      by (metis append_take_drop_id drop_drop add.commute)
    let ?pre = "take ?n original" and ?post = "drop (?n + length old) original"
    have "original = ?pre @ old @ ?post" using hit by (metis append_take_drop_id)
    moreover have "\<forall>i < length ?pre. take (length old) (drop i original) \<noteq> old"
      using search_first by auto
    moreover have "replace original old new = Some (?pre @ new @ ?post)"
      using len n by (simp add: replace_def Let_def)
    ultimately show ?thesis unfolding if_P [OF True] by blast
  next
    case False
    have "?n = length original"
    proof (rule ccontr)
      assume n: "?n \<noteq> length original"
      from search_hit [OF assms n] have "original = take ?n original @ old @ drop (?n + length old) original"
        by (metis append_take_drop_id drop_drop add.commute)
      with False show False by blast
    qed
    with len False show ?thesis by (simp add: replace_def Let_def)
  qed
qed

theorem replace_first_occurrence_witness:
  "replace [1, 2, 3, 2, 3, 4 :: nat] [2, 3] [9] = Some [1, 9, 2, 3, 4]
   \<and> (replace [1 :: nat] [2, 3] [] = None \<longleftrightarrow> length [1 :: nat] + length ([] :: nat list) < length [2, 3 :: nat])"
  using replace_first_occurrence [of "[2, 3]" "[1 :: nat]" "[]"]
  by (simp add: replace_def Let_def)

subsection \<open>Header insertion\<close>

lemma length_slices [simp]: "length (slices k n xs) = n"
  by (induction n arbitrary: xs) simp_all

lemma concat_slices: "length xs \<le> n * k \<Longrightarrow> concat (slices k n xs) = xs"
  by (induction n arbitrary: xs) simp_all

lemma copy_at_zeros:
  "copy_at (length pre) src (pre @ replicate n 0) = pre @ src @ replicate (n - length src) (0 :: u8)"
  by (simp add: copy_at_def)

text \<open>The number of slices the data needs.\<close>

abbreviation n_slices :: "nat \<Rightarrow> nat \<Rightarrow> nat" where
  "n_slices s n \<equiv> n div s + (if n mod s \<noteq> 0 then 1 else 0)"

lemma n_slices_bounds:
  assumes "0 < s"
  shows "n \<le> n_slices s n * s" and "k < n_slices s n \<Longrightarrow> k * s < n"
proof -
  have split: "n = n div s * s + n mod s" by simp
  from assms have "n < s + n div s * s" by (rule dividend_less_div_times)
  then show "n \<le> n_slices s n * s"
    by (cases "n mod s = 0") (auto simp: algebra_simps)
  assume "k < n_slices s n"
  show "k * s < n"
  proof (cases "n mod s = 0")
    case True
    with \<open>k < n_slices s n\<close> have "Suc k * s \<le> n div s * s" by (intro mult_le_mono1) simp
    with split True assms show ?thesis by simp
  next
    case False
    with \<open>k < n_slices s n\<close> have "k * s \<le> n div s * s" by (intro mult_le_mono1) simp
    with split False show ?thesis by linarith
  qed
qed

text \<open>One iteration writes the next slice of what is left behind the space for a header.\<close>

lemma cai_write:
  assumes "length pre = p" and "i + length chunk \<le> m"
  shows "copy_at (p + i) chunk (pre @ replicate m 0)
         = (pre @ replicate i 0 @ chunk) @ replicate (m - (i + length chunk)) (0 :: u8)"
proof -
  have "pre @ replicate m 0 = (pre @ replicate i 0) @ replicate (m - i) (0 :: u8)"
    using assms(2) by (simp flip: replicate_add)
  moreover have "p + i = length (pre @ replicate i (0 :: u8))" using assms(1) by simp
  ultimately show ?thesis by (simp only: copy_at_zeros) simp
qed

lemma copy_at_consecutive:
  "copy_at (p + length a) b (copy_at p a buf) = copy_at p (a @ b) buf"
  if "p + length a + length b \<le> length buf"
  using that by (simp add: copy_at_def add_ac)

lemma cai_loop_unfold:
  assumes "x < elements"
    and "s = (if x = elements - 1 then data_size - x * slice_size else slice_size)"
  shows "cai_loop insert_size slice_size data_size elements data2 x cur result =
    (let p = x * (insert_size + slice_size) in
     if s > length cur then
       cai_loop insert_size slice_size data_size elements data2 (x + 1) (drop (s - length cur) data2)
         (copy_at (p + length cur + insert_size) (take (s - length cur) data2)
            (copy_at (p + insert_size) cur result))
     else cai_loop insert_size slice_size data_size elements data2 (x + 1) (drop s cur)
            (copy_at (p + insert_size) (take s cur) result))"
  by (subst cai_loop.simps) (simp only: assms(1) assms(2) [symmetric] Let_def if_True)

lemma cai_loop_step:
  assumes R: "R = cur @ (if tail then data2 else [])" and x: "x < elements"
    and s: "s = (if x = elements - 1 then data_size - x * slice_size else slice_size)"
    and sR: "s \<le> length R" and len: "length done = x * (insert_size + slice_size)"
    and m: "insert_size + s \<le> m" and tl: "tail \<or> s \<le> length cur"
  shows "\<exists>tail' cur'. drop s R = cur' @ (if tail' then data2 else [])
    \<and> (tail' \<longrightarrow> tail)
    \<and> cai_loop insert_size slice_size data_size elements data2 x cur (done @ replicate m 0)
      = cai_loop insert_size slice_size data_size elements data2 (x + 1) cur'
          ((done @ replicate insert_size 0 @ take s R) @ replicate (m - (insert_size + s)) 0)"
proof (cases "s > length cur")
  case True
  with tl have tail: "tail" by simp
  let ?p = "x * (insert_size + slice_size)" and ?b = "take (s - length cur) data2"
  have chunk: "take s R = cur @ ?b" and rest: "drop s R = drop (s - length cur) data2"
    using True tail R by simp_all
  have lb: "length cur + length ?b = s" using True sR R tail by simp
  have "copy_at (?p + length cur + insert_size) ?b (copy_at (?p + insert_size) cur (done @ replicate m 0))
      = copy_at (?p + insert_size) (cur @ ?b) (done @ replicate m 0)"
    using copy_at_consecutive [of "?p + insert_size" cur ?b "done @ replicate m 0"] m lb len
    by (simp add: add_ac)
  also have "\<dots> = (done @ replicate insert_size 0 @ take s R) @ replicate (m - (insert_size + s)) 0"
    unfolding chunk [symmetric]
    using cai_write [OF len, of insert_size "take s R" m] m sR by (simp add: min_absorb2)
  finally have w: "copy_at (?p + length cur + insert_size) ?b
      (copy_at (?p + insert_size) cur (done @ replicate m 0)) = \<dots>" .
  show ?thesis
    apply (rule exI [of _ False], rule exI [of _ "drop (s - length cur) data2"])
    unfolding cai_loop_unfold [OF x s] Let_def if_P [OF True] w by (simp add: rest)
next
  case False
  let ?p = "x * (insert_size + slice_size)"
  have chunk: "take s R = take s cur" and rest: "drop s R = drop s cur @ (if tail then data2 else [])"
    using False R by simp_all
  have w: "copy_at (?p + insert_size) (take s cur) (done @ replicate m 0)
      = (done @ replicate insert_size 0 @ take s R) @ replicate (m - (insert_size + s)) 0"
    using cai_write [OF len, of insert_size "take s cur" m] m sR chunk False by simp
  show ?thesis
    apply (rule exI [of _ tail], rule exI [of _ "drop s cur"])
    unfolding cai_loop_unfold [OF x s] Let_def if_not_P [OF False] w by (simp add: rest)
qed

lemma cai_loop_slices:
  assumes "0 < slice_size" and "x \<le> elements" and "R = cur @ (if tail then data2 else [])"
    and "elements = n_slices slice_size data_size" and "length R = data_size - x * slice_size"
    and "x < elements \<Longrightarrow> length done = x * (insert_size + slice_size)"
    and "m = (elements - x) * insert_size + length R"
  shows "cai_loop insert_size slice_size data_size elements data2 x cur (done @ replicate m 0)
         = done @ concat (map ((@) (replicate insert_size 0)) (slices slice_size (elements - x) R))"
  using assms(2-)
proof (induction "elements - x" arbitrary: x cur R "done" m tail)
  case 0
  then have "x = elements" by simp
  moreover have "length R = 0"
    using 0 n_slices_bounds(1) [OF assms(1), of data_size] by simp
  ultimately show ?case using 0 by (subst cai_loop.simps) simp
next
  case (Suc k)
  let ?s = "if x = elements - 1 then data_size - x * slice_size else slice_size"
  have x: "x < elements" using Suc.hyps(2) by simp
  have more: "(x + 1) * slice_size < data_size" if "x \<noteq> elements - 1"
    using that x n_slices_bounds(2) [OF assms(1), of "x + 1" data_size] Suc.prems(3) by simp
  have le: "data_size \<le> elements * slice_size"
    using n_slices_bounds(1) [OF assms(1), of data_size] Suc.prems(3) by simp
  have sR: "?s \<le> length R" using more Suc.prems(4) by auto
  have tk: "take ?s R = take slice_size R" and dr: "drop ?s R = drop slice_size R"
  proof -
    have "length R \<le> slice_size" if "x = elements - 1"
      using le Suc.prems(4) that x by (cases elements) auto
    then show "take ?s R = take slice_size R" "drop ?s R = drop slice_size R"
      using Suc.prems(4) by auto
  qed
  have ex: "elements - x = Suc (elements - (x + 1))" using x by simp
  have m: "insert_size + ?s \<le> m" using Suc.prems(6) ex sR by simp
  have tl: "tail \<or> ?s \<le> length cur" using sR unfolding Suc.prems(2) by (cases tail) (auto split: if_splits)
  from cai_loop_step [OF Suc.prems(2) x refl sR Suc.prems(5) [OF x] m tl]
  obtain tail' cur' where rest: "drop ?s R = cur' @ (if tail' then data2 else [])"
    and step: "cai_loop insert_size slice_size data_size elements data2 x cur (done @ replicate m 0)
      = cai_loop insert_size slice_size data_size elements data2 (x + 1) cur'
          ((done @ replicate insert_size 0 @ take ?s R) @ replicate (m - (insert_size + ?s)) 0)"
    by blast
  have full: "?s = slice_size" if "x + 1 < elements" using that by auto
  have "cai_loop insert_size slice_size data_size elements data2 (x + 1) cur'
          ((done @ replicate insert_size 0 @ take ?s R) @ replicate (m - (insert_size + ?s)) 0)
      = (done @ replicate insert_size 0 @ take ?s R)
        @ concat (map ((@) (replicate insert_size 0)) (slices slice_size (elements - (x + 1)) (drop ?s R)))"
  proof (rule Suc.hyps(1))
    show "k = elements - (x + 1)" using Suc.hyps(2) by simp
    show "x + 1 \<le> elements" using x by simp
    show "drop ?s R = cur' @ (if tail' then data2 else [])" by (rule rest)
    show "elements = n_slices slice_size data_size" by (rule Suc.prems(3))
    show "length (drop ?s R) = data_size - (x + 1) * slice_size"
      unfolding dr using Suc.prems(4) by simp
    show "length (done @ replicate insert_size 0 @ take ?s R) = (x + 1) * (insert_size + slice_size)"
      if "x + 1 < elements"
      using full [OF that] sR Suc.prems(5) [OF x] by (simp add: algebra_simps)
    show "m - (insert_size + ?s) = (elements - (x + 1)) * insert_size + length (drop ?s R)"
      unfolding Suc.prems(6) ex length_drop using sR by simp
  qed
  then show ?case unfolding step ex tk dr by simp
qed

lemma concat_and_insert_slices:
  assumes "0 < slice_size"
  shows "concat_and_insert insert_size slice_size data1 data2
    = concat (map ((@) (replicate insert_size 0))
        (slices slice_size (n_slices slice_size (length (data1 @ data2))) (data1 @ data2)))"
proof -
  let ?n = "length data1 + length data2"
  have "cai_loop insert_size slice_size ?n (n_slices slice_size ?n) data2 0 data1
      ([] @ replicate (n_slices slice_size ?n * insert_size + ?n) 0)
    = [] @ concat (map ((@) (replicate insert_size 0))
        (slices slice_size (n_slices slice_size ?n - 0) (data1 @ data2)))"
    by (rule cai_loop_slices [where tail = True, OF assms]) simp_all
  then show ?thesis by (simp add: concat_and_insert_def Let_def)
qed

subsection \<open>Lists cut into pieces of one size\<close>

text \<open>A non-empty list of pieces of \<open>b\<close> elements; only the last piece may be shorter, and it is not
  empty.\<close>

fun chunked :: "nat \<Rightarrow> 'a list list \<Rightarrow> bool" where
  "chunked b [] = False"
| "chunked b [c] = (0 < length c \<and> length c \<le> b)"
| "chunked b (c # d # cs) = (length c = b \<and> chunked b (d # cs))"

lemma n_slices_Suc:
  assumes "0 < b" and "b < n"
  shows "n_slices b n = Suc (n_slices b (n - b))"
  using assms by (simp add: le_div_geq le_mod_geq)

lemma n_slices_one:
  assumes "0 < n" and "n \<le> b"
  shows "n_slices b n = 1"
proof (cases "n = b")
  case False
  with assms have "n < b" by simp
  with assms show ?thesis by simp
qed (use assms in simp)

lemma n_slices_ceiling:
  assumes "0 < b"
  shows "(n + (b - 1)) div b = n_slices b n"
proof -
  have "n + (b - 1) = (n mod b + (b - 1)) + b * (n div b)" by simp
  then have "(n + (b - 1)) div b = n div b + (n mod b + (b - 1)) div b"
    using assms by (metis div_mult_self2 add.commute less_not_refl)
  moreover have "(n mod b + (b - 1)) div b = (if n mod b \<noteq> 0 then 1 else 0)"
  proof (cases "n mod b = 0")
    case False
    let ?r = "n mod b - 1"
    have "n mod b + (b - 1) = ?r + b" using assms False by simp
    moreover have "?r < b" using mod_less_divisor [OF assms, of n] by linarith
    then have "(?r + b) div b = 1" using assms by (simp add: div_add_self2)
    ultimately show ?thesis using False by presburger
  qed (use assms in simp)
  ultimately show ?thesis by simp
qed

lemma chunked_slices:
  assumes "0 < b" and "xs \<noteq> []"
  shows "chunked b (slices b (n_slices b (length xs)) xs)"
  using assms(2)
proof (induction "length xs" arbitrary: xs rule: less_induct)
  case less
  show ?case
  proof (cases "length xs \<le> b")
    case True
    with less.prems have "n_slices b (length xs) = 1" by (intro n_slices_one) auto
    with True less.prems show ?thesis by (simp only: One_nat_def slices.simps) simp
  next
    case False
    let ?ys = "drop b xs"
    have "chunked b (slices b (n_slices b (length ?ys)) ?ys)"
      using less.hyps [of ?ys] False assms(1) by simp
    then have "\<exists>d cs. slices b (n_slices b (length ?ys)) ?ys = d # cs \<and> chunked b (d # cs)"
      by (metis chunked.elims(2) chunked.simps(1) list.exhaust)
    moreover have "slices b (n_slices b (length xs)) xs
        = take b xs # slices b (n_slices b (length ?ys)) ?ys"
      using n_slices_Suc [OF assms(1), of "length xs"] False by (simp only: length_drop) simp
    ultimately show ?thesis using False by auto
  qed
qed

lemma slices_of_chunks:
  assumes "0 < b" and "chunked b cs"
  shows "slices b (n_slices b (length (concat cs))) (concat cs) = cs"
    and "n_slices b (length (concat cs)) = length cs"
proof -
  have "slices b (n_slices b (length (concat cs))) (concat cs) = cs
        \<and> n_slices b (length (concat cs)) = length cs \<and> concat cs \<noteq> []"
    using assms(2)
  proof (induction cs rule: induct_list012)
    case (2 c)
    then show ?case using n_slices_one [of "length c" b] by simp
  next
    case (3 c d cs)
    then have IH: "slices b (n_slices b (length (concat (d # cs)))) (concat (d # cs)) = d # cs"
      "n_slices b (length (concat (d # cs))) = length (d # cs)" "concat (d # cs) \<noteq> []"
      and c: "length c = b" by auto
    have "n_slices b (length (concat (c # d # cs))) = Suc (n_slices b (length (concat (d # cs))))"
      using n_slices_Suc [OF assms(1), of "length (concat (c # d # cs))"] IH(3) c by simp
    with IH c show ?case by simp
  qed simp
  then show "slices b (n_slices b (length (concat cs))) (concat cs) = cs"
    and "n_slices b (length (concat cs)) = length cs" by auto
qed

lemma chunked_nonempty: "chunked b cs \<Longrightarrow> cs \<noteq> []"
  by (cases cs) auto

lemma chunked_map2:
  assumes "\<And>x c. c \<in> set cs \<Longrightarrow> length (f x c) = length c" and "length is = length cs"
  shows "chunked b (map2 f is cs) = chunked b cs"
  using assms
proof (induction cs arbitrary: "is" rule: induct_list012)
  case (2 c)
  then show ?case by (cases "is") auto
next
  case (3 c d cs)
  then obtain i j js where "is": "is = i # j # js" by (cases "is"; cases "tl is") auto
  have "chunked b (map2 f (j # js) (d # cs)) = chunked b (d # cs)"
    using 3 "is" by (intro "3.IH") auto
  with 3 "is" show ?case by simp
qed simp

lemma chunked_map_prefix:
  "chunked b cs \<Longrightarrow> chunked (length z + b) (map ((@) z) cs)"
  by (induction cs rule: induct_list012) auto

lemma chunked_append:
  "\<lbrakk>chunked b (cs @ ds); ds \<noteq> []\<rbrakk> \<Longrightarrow> chunked b ds \<and> (\<forall>c \<in> set cs. length c = b)"
proof (induction cs)
  case (Cons c cs)
  then obtain e es where "cs @ ds = e # es" by (cases "cs @ ds") auto
  with Cons show ?case by auto
qed simp

subsection \<open>The split into FEC blocks\<close>

abbreviation aligned_to :: "nat \<Rightarrow> nat \<Rightarrow> nat" where
  "aligned_to b q \<equiv> ((q + (b - 1)) div b) * b"

lemma aligned_to_bounds:
  assumes "0 < b"
  shows "q \<le> aligned_to b q" and "aligned_to b q \<le> q + (b - 1)" and "q \<le> k * b \<Longrightarrow> aligned_to b q \<le> k * b"
proof -
  show "q \<le> aligned_to b q"
    using n_slices_ceiling [OF assms] n_slices_bounds(1) [OF assms, of q] by simp
  show "aligned_to b q \<le> q + (b - 1)" by simp
  assume "q \<le> k * b"
  then have "(q + (b - 1)) div b < Suc k"
    using assms by (intro less_mult_imp_div_less) simp
  then have "(q + (b - 1)) div b \<le> k" by simp
  then show "aligned_to b q \<le> k * b" by (rule mult_le_mono1)
qed

lemma last_offset_inside:
  assumes "0 < b" and "0 < n" and "(n - 1) * n * b \<le> L" and "0 < L"
  shows "(n - 1) * aligned_to b (L div n) < L"
proof -
  let ?q = "L div n"
  have "n * ((n - 1) * aligned_to b ?q) \<le> n * ((n - 1) * (?q + (b - 1)))"
    by (intro mult_le_mono le_refl aligned_to_bounds(2) assms(1))
  also have "\<dots> = (n - 1) * (n * ?q) + (n - 1) * n * (b - 1)" by (simp add: algebra_simps)
  also have "\<dots> \<le> (n - 1) * L + (n - 1) * n * (b - 1)"
    using div_times_less_eq_dividend [of L n] by (intro add_mono mult_le_mono) (auto simp: mult.commute)
  also have "\<dots> < (n - 1) * L + L"
  proof (cases "n = 1")
    case False
    with assms(1,2) have "(n - 1) * n * (b - 1) < (n - 1) * n * b" by simp
    with assms(3) show ?thesis by linarith
  qed (use assms(4) in simp)
  also have "\<dots> = n * L" using assms(2) by (cases n) simp_all
  finally show ?thesis using assms(2) by simp
qed

lemma block_size_bound:
  assumes "0 < n" and "n \<le> b" and "L \<le> n * (D * b)"
  shows "aligned_to b (L div n) \<le> D * b" and "L - (n - 1) * aligned_to b (L div n) \<le> D * b"
proof -
  let ?q = "L div n" and ?r = "L mod n"
  have b: "0 < b" and r: "?r < n" using assms by simp_all
  have q: "?q \<le> D * b" using assms(1,3) by (metis div_le_mono nonzero_mult_div_cancel_left not_gr_zero)
  show "aligned_to b ?q \<le> D * b" by (rule aligned_to_bounds(3) [OF b q])
  have L: "L = (n - 1) * ?q + ?q + ?r"
  proof -
    have "(n - 1) * ?q + ?q = n * ?q"
      using assms(1) by (metis Suc_diff_1 add.commute mult_Suc)
    moreover have "L = n * ?q + ?r" by simp
    ultimately show ?thesis by linarith
  qed
  show "L - (n - 1) * aligned_to b ?q \<le> D * b"
  proof (cases "aligned_to b ?q = ?q")
    case True
    then have "b dvd ?q" by (metis dvd_triv_right)
    then obtain k where k: "?q = k * b" by (metis dvdE mult.commute)
    have "?q + ?r \<le> D * b"
    proof (cases "k < D")
      case True
      then have "Suc k * b \<le> D * b" by (intro mult_le_mono1) simp
      with k r assms(2) show ?thesis by simp
    next
      case False
      with q k b have "?q = D * b" by simp
      then have "L = n * (D * b) + ?r" using L assms(1) by (metis div_mult_mod_eq mult.commute)
      with assms(3) \<open>?q = D * b\<close> show ?thesis by simp
    qed
    with L True show ?thesis by simp
  next
    case False
    with aligned_to_bounds(1) [OF b, of ?q] have "Suc ?q \<le> aligned_to b ?q" by linarith
    then have "(n - 1) * Suc ?q \<le> (n - 1) * aligned_to b ?q" by (intro mult_le_mono2)
    moreover have "(n - 1) * Suc ?q = (n - 1) + (n - 1) * ?q" by simp
    moreover have "?r \<le> n - 1" using r by simp
    ultimately have "L - (n - 1) * aligned_to b ?q \<le> ?q" using L by linarith
    with q show ?thesis by linarith
  qed
qed

lemma fec_blocks_from_slices:
  assumes "(x + k) * aligned \<le> length payload"
  shows "fec_blocks_from payload aligned x (Suc k)
    = Some (slices aligned k (drop (x * aligned) payload) @ [drop ((x + k) * aligned) payload])"
  using assms
proof (induction k arbitrary: x)
  case 0
  then show ?case by (simp add: substr_def)
next
  case (Suc k)
  have "x * aligned \<le> length payload"
    using Suc.prems by (meson le_add1 le_trans mult_le_mono1)
  moreover have "fec_blocks_from payload aligned (Suc x) (Suc k)
      = Some (slices aligned k (drop (Suc x * aligned) payload) @ [drop ((Suc x + k) * aligned) payload])"
    using Suc.prems by (intro Suc.IH) simp
  ultimately show ?case
    by (subst fec_blocks_from.simps) (simp add: substr_def add.commute)
qed

text \<open>The plan for a frame: at most four blocks, all but the last a whole number of packets, the last
  one not empty; and either the requested percentage is kept and the frame fits, or FEC is off.\<close>

lemma fec_plan_cases:
  assumes "4 \<le> blocksize" and "4 \<le> max_data_shards_per_fec_block fmt F" and "0 < L"
  defines "plan \<equiv> fec_plan_of fmt blocksize F L"
    and "room \<equiv> max_data_shards_per_fec_block fmt F * blocksize"
  shows "0 < plan_blocks plan" "plan_blocks plan \<le> MAX_FEC_BLOCKS"
    "plan_aligned plan = aligned_to blocksize (L div plan_blocks plan)"
    "(plan_blocks plan - 1) * plan_aligned plan < L"
    "(plan_blocks plan - 1) * room < L"
    "plan_percentage plan = F \<and> L \<le> plan_blocks plan * room
     \<or> plan_percentage plan = 0 \<and> plan_blocks plan = MAX_FEC_BLOCKS"
proof -
  let ?D = "max_data_shards_per_fec_block fmt F"
  let ?needed = "(L + (room - 1)) div room"
  have room: "0 < room" using assms by (simp add: room_def)
  have n: "?needed = n_slices room L" by (rule n_slices_ceiling [OF room])
  have up: "L \<le> ?needed * room" unfolding n by (rule n_slices_bounds(1) [OF room])
  have down: "k < ?needed \<Longrightarrow> k * room < L" for k unfolding n by (rule n_slices_bounds(2) [OF room])
  have pos: "0 < ?needed" using up assms(3) by (metis le_zero_eq mult_zero_left not_gr_zero)
  have blocks: "plan_blocks plan = min ?needed 4"
    by (simp add: plan_def fec_plan_of_def Let_def room_def MAX_FEC_BLOCKS_def split: prod.splits)
  show al: "plan_aligned plan = aligned_to blocksize (L div plan_blocks plan)"
    by (simp add: plan_def fec_plan_of_def Let_def split: prod.splits)
  show p0: "0 < plan_blocks plan" and p4: "plan_blocks plan \<le> MAX_FEC_BLOCKS"
    using pos by (simp_all add: blocks MAX_FEC_BLOCKS_def)
  have "(plan_blocks plan - 1) * plan_blocks plan * blocksize \<le> (plan_blocks plan - 1) * room"
    unfolding room_def using assms(2) p4 by (simp add: MAX_FEC_BLOCKS_def mult.assoc)
  also show lt: "(plan_blocks plan - 1) * room < L" using p0 by (intro down) (simp add: blocks)
  finally show "(plan_blocks plan - 1) * plan_aligned plan < L"
    unfolding al using assms(1,3) p0 by (intro last_offset_inside) simp_all
  show "plan_percentage plan = F \<and> L \<le> plan_blocks plan * room
     \<or> plan_percentage plan = 0 \<and> plan_blocks plan = MAX_FEC_BLOCKS"
  proof (cases "?needed > 4")
    case True
    then have "plan_percentage plan = 0"
      by (simp add: plan_def fec_plan_of_def Let_def room_def MAX_FEC_BLOCKS_def)
    with blocks True show ?thesis by (simp add: MAX_FEC_BLOCKS_def)
  next
    case False
    then have "plan_percentage plan = F"
      by (simp add: plan_def fec_plan_of_def Let_def room_def MAX_FEC_BLOCKS_def)
    with up blocks False show ?thesis by simp
  qed
qed

lemma slices_exact:
  "n * k \<le> length xs \<Longrightarrow> \<forall>c \<in> set (slices k n xs). length c = k"
proof (induction n arbitrary: xs)
  case (Suc n)
  then have "\<forall>c \<in> set (slices k n (drop k xs)). length c = k" by (intro Suc.IH) simp
  with Suc.prems show ?case by simp
qed simp

lemma concat_slices_drop: "concat (slices k n xs) @ drop (n * k) xs = xs"
proof (induction n arbitrary: xs)
  case (Suc n)
  from Suc.IH [of "drop k xs"] show ?case
    by (simp add: add.commute)
qed simp

lemma fec_blocks_shape:
  assumes "4 \<le> blocksize" and "4 \<le> max_data_shards_per_fec_block fmt F" and "payload \<noteq> []"
  defines "plan \<equiv> fec_plan_of fmt blocksize F (length payload)"
  obtains front rear where "fec_blocks payload plan = Some (front @ [rear])"
    and "payload = concat front @ rear" and "rear \<noteq> []"
    and "length front + 1 = plan_blocks plan"
    and "\<forall>b \<in> set front. length b = plan_aligned plan" and "front \<noteq> [] \<longrightarrow> 0 < plan_aligned plan"
    and "blocksize dvd plan_aligned plan"
    and "\<forall>k. length payload \<le> plan_blocks plan * (k * blocksize) \<longrightarrow>
        (\<forall>x \<in> set (front @ [rear]). length x \<le> k * blocksize)"
proof -
  let ?L = "length payload" and ?n = "plan_blocks plan" and ?a = "plan_aligned plan"
  have L: "0 < ?L" using assms(3) by simp
  note facts = fec_plan_cases [OF assms(1,2) L, folded plan_def]
  let ?front = "slices ?a (?n - 1) payload" and ?rear = "drop ((?n - 1) * ?a) payload"
  have "fec_blocks_from payload ?a 0 (Suc (?n - 1)) = Some (?front @ [?rear])"
    using facts(4) by (subst fec_blocks_from_slices) simp_all
  then have 1: "fec_blocks payload plan = Some (?front @ [?rear])"
    using facts(1) by (simp add: fec_blocks_def)
  have 2: "payload = concat ?front @ ?rear" by (rule concat_slices_drop [symmetric])
  have 5: "\<forall>b \<in> set ?front. length b = ?a" using facts(4) by (intro slices_exact) simp
  have 6: "0 < ?a" if "?front \<noteq> []"
  proof -
    have "?n - 1 \<noteq> 0" using that by auto
    moreover have "?n * 1 \<le> max_data_shards_per_fec_block fmt F * blocksize"
      using facts(2) assms(1,2) by (intro mult_le_mono) (simp_all add: MAX_FEC_BLOCKS_def)
    ultimately have "?n \<le> ?L"
      using facts(5) by (metis One_nat_def Suc_leI le_trans less_imp_le mult.right_neutral mult_le_mono1 nat_mult_1 not_gr_zero)
    then have "0 < ?L div ?n" using facts(1) by (simp add: div_greater_zero_iff)
    moreover have "?L div ?n \<le> ?a"
      unfolding facts(3) using assms(1) by (intro aligned_to_bounds(1)) simp
    ultimately show ?thesis by (rule less_le_trans)
  qed
  have 8: "\<forall>b \<in> set (?front @ [?rear]). length b \<le> k * blocksize" if "?L \<le> ?n * (k * blocksize)" for k
  proof -
    have n: "?n \<le> blocksize" using facts(2) assms(1) by (simp add: MAX_FEC_BLOCKS_def)
    have "length ?rear \<le> k * blocksize"
      unfolding length_drop by (rule block_size_bound(2) [OF facts(1) n that, folded facts(3)])
    moreover have "\<forall>b \<in> set ?front. length b \<le> k * blocksize"
      using 5 block_size_bound(1) [OF facts(1) n that, folded facts(3)] by metis
    ultimately show ?thesis by (simp only: set_append list.set ball_Un) blast
  qed
  show ?thesis
    using that [OF 1 2 _ _ 5 _ _] 6 8 facts(1,3,4) by simp
qed

text \<open>The parity the percentage asks for leaves the block inside the limit of the Reed-Solomon code.\<close>

lemma parity_within_limit:
  assumes "n \<le> max_data_shards_per_fec_block fmt F"
  shows "n + (n * F + 99) div 100 \<le> data_shards_max fmt"
proof -
  have "n * (100 + F) \<le> max_data_shards_per_fec_block fmt F * (100 + F)"
    using assms by (rule mult_le_mono1)
  also have "\<dots> \<le> data_shards_max fmt * 100"
    by (simp add: max_data_shards_per_fec_block_def)
  finally have "n * F \<le> 100 * (data_shards_max fmt - n) \<and> n \<le> data_shards_max fmt"
    by (simp add: algebra_simps)
  then show ?thesis by linarith
qed

text \<open>
  Splitting a frame into FEC blocks never throws; the blocks are at most four, none is empty, all
  but the last are a whole number of packets, and together they are the frame. While the requested
  percentage is kept, every block with its parity shards stays within the limit of the Reed-Solomon
  code; otherwise FEC is off for the frame.
\<close>

theorem fec_blocks_partition:
  assumes "4 \<le> blocksize" and "4 \<le> max_data_shards_per_fec_block fmt F" and "payload \<noteq> []"
  defines "plan \<equiv> fec_plan_of fmt blocksize F (length payload)"
  shows "\<exists>blocks. fec_blocks payload plan = Some blocks \<and> concat blocks = payload
    \<and> length blocks = plan_blocks plan \<and> length blocks \<le> MAX_FEC_BLOCKS
    \<and> (\<forall>b \<in> set blocks. b \<noteq> []) \<and> (\<forall>b \<in> set (butlast blocks). blocksize dvd length b)
    \<and> (plan_percentage plan = 0
       \<or> plan_percentage plan = F \<and> (\<forall>b \<in> set blocks.
            let n = n_slices blocksize (length b) in n + (n * F + 99) div 100 \<le> data_shards_max fmt))"
proof -
  obtain front rear where bs: "fec_blocks payload plan = Some (front @ [rear])"
      "payload = concat front @ rear" "rear \<noteq> []" "length front + 1 = plan_blocks plan"
    and al: "\<forall>x \<in> set front. length x = plan_aligned plan" "front \<noteq> [] \<longrightarrow> 0 < plan_aligned plan"
      "blocksize dvd plan_aligned plan"
    and small: "\<forall>k. length payload \<le> plan_blocks plan * (k * blocksize) \<longrightarrow>
        (\<forall>x \<in> set (front @ [rear]). length x \<le> k * blocksize)"
    by (rule fec_blocks_shape [OF assms(1-3), folded plan_def]) (rule that)
  have L: "0 < length payload" using assms(3) by simp
  note facts = fec_plan_cases [OF assms(1,2) L, folded plan_def]
  have fit: "n_slices blocksize (length b) \<le> max_data_shards_per_fec_block fmt F"
    if "length payload \<le> plan_blocks plan * (max_data_shards_per_fec_block fmt F * blocksize)"
      and "b \<in> set (front @ [rear])" for b
  proof (rule ccontr)
    assume "\<not> n_slices blocksize (length b) \<le> max_data_shards_per_fec_block fmt F"
    then have "max_data_shards_per_fec_block fmt F * blocksize < length b"
      using assms(1) by (intro n_slices_bounds(2)) simp_all
    with small that show False by (meson not_le)
  qed
  have full: "plan_percentage plan = 0 \<or> plan_percentage plan = F \<and> (\<forall>b \<in> set (front @ [rear]).
      let n = n_slices blocksize (length b) in n + (n * F + 99) div 100 \<le> data_shards_max fmt)"
    using facts(6) fit parity_within_limit unfolding Let_def by blast
  have "\<forall>b \<in> set (front @ [rear]). b \<noteq> []"
    using al bs(3) by (cases "front = []") auto
  moreover have "\<forall>b \<in> set (butlast (front @ [rear])). blocksize dvd length b" using al by simp
  moreover have "length (front @ [rear]) = plan_blocks plan" using bs(4) by simp
  ultimately show ?thesis using bs(1,2) full facts(2) by (intro exI [of _ "front @ [rear]"]) simp
qed

text \<open>A wire format with the sizes of the protocol, for concrete evaluations. Only the sizes matter
  to them: its headers are left zero and its parity shards are copies of the first data shard.\<close>

definition plain_format :: wire_format where
  "plain_format = \<lparr>nv_video_packet_size = 16, max_rtp_header_size = 16, video_packet_raw_size = 32,
     data_shards_max = 255, flag_contains_pic_data = 1, flag_sof = 4, flag_eof = 2,
     flag_extension = 16, put_data_header = (\<lambda>_ p. p), put_shard_header = (\<lambda>_ p. p),
     rs_parity = (\<lambda>_ parity data. replicate parity (hd data))\<rparr>"

theorem fec_blocks_partition_witness:
  "\<exists>blocks. fec_blocks (replicate 100 7) (fec_plan_of plain_format 40 20 100) = Some blocks
     \<and> concat blocks = replicate 100 7"
proof -
  have "4 \<le> max_data_shards_per_fec_block plain_format 20"
    by (simp add: max_data_shards_per_fec_block_def plain_format_def)
  from fec_blocks_partition [of 40, OF _ this, of "replicate 100 7"] show ?thesis by auto
qed

subsection \<open>Sequence numbers and initialization vectors\<close>

abbreviation wp_sequence :: "wire_packet \<Rightarrow> u16" where
  "wp_sequence p \<equiv> sh_sequenceNumber (wp_header p)"

abbreviation wp_iv :: "wire_packet \<Rightarrow> bytes option" where
  "wp_iv p \<equiv> map_option (fst \<circ> snd) (wp_prefix p)"

text \<open>\<open>numbered fc lowseq iv ps lowseq' iv'\<close>: the packets carry consecutive sequence numbers from
  \<open>lowseq\<close> and, when the video is encrypted, the vectors of consecutive counter values from \<open>iv\<close>.\<close>

definition numbered :: "bool \<Rightarrow> nat \<Rightarrow> u64 \<Rightarrow> wire_packet list \<Rightarrow> nat \<Rightarrow> u64 \<Rightarrow> bool" where
  "numbered encrypted lowseq iv ps lowseq' iv' \<longleftrightarrow>
     lowseq' = lowseq + length ps
     \<and> map wp_sequence ps = map (\<lambda>j. word_of_nat (lowseq + j)) [0..<length ps]
     \<and> map wp_iv ps = map (\<lambda>j. if encrypted then Some (iv_bytes (iv + word_of_nat j)) else None) [0..<length ps]
     \<and> iv' = (if encrypted then iv + word_of_nat (length ps) else iv)"

lemma map_upt_add: "map f [0..<m + n] = map f [0..<m] @ map (\<lambda>j. f (m + j)) [0..<n]"
  by (rule nth_equalityI) (auto simp: nth_append)

lemma numbered_Nil: "numbered e lowseq iv [] lowseq iv"
  by (simp add: numbered_def)

lemma numbered_append:
  "\<lbrakk>numbered e l iv ps l' iv'; numbered e l' iv' qs l'' iv''\<rbrakk> \<Longrightarrow> numbered e l iv (ps @ qs) l'' iv''"
  by (simp add: numbered_def map_upt_add add.assoc split del: if_split) (simp add: add.assoc)

lemma numbered_finish_shards:
  assumes "finish_shards fmt fc bi lowseq sh x k iv = (ps, iv')"
  shows "numbered (fc_cipher fc \<noteq> None) (lowseq + x) iv ps (lowseq + x + k) iv'"
  using assms
proof (induction k arbitrary: x iv ps iv')
  case 0
  then show ?case by (simp add: numbered_Nil)
next
  case (Suc k)
  obtain p iv1 where p: "finish_shard fmt fc bi lowseq sh x iv = (p, iv1)" by fastforce
  obtain qs iv2 where qs: "finish_shards fmt fc bi lowseq sh (x + 1) k iv1 = (qs, iv2)" by fastforce
  from Suc.prems p qs have ps: "ps = [p] @ qs" "iv' = iv2" by simp_all
  from p have "numbered (fc_cipher fc \<noteq> None) (lowseq + x) iv [p] (lowseq + (x + 1)) iv1"
    by (auto simp: finish_shard_def shard_header_of_def Let_def numbered_def rtp_sequence_number_def
        split: option.splits prod.splits)
  from numbered_append [OF this Suc.IH [OF qs]] ps show ?case by simp
qed

lemma numbered_send_blocks:
  assumes "send_blocks fmt fc bi lowseq iv bs = (ps, lowseq', iv')"
  shows "numbered (fc_cipher fc \<noteq> None) lowseq iv ps lowseq' iv'"
  using assms
proof (induction bs arbitrary: bi lowseq iv ps)
  case Nil
  then show ?case by (simp add: numbered_Nil)
next
  case (Cons b bs)
  let ?sh = "block_shards fmt fc bi lowseq b"
  obtain qs iv1 where qs: "finish_shards fmt fc bi lowseq ?sh 0 (nr_shards ?sh) iv = (qs, iv1)" by fastforce
  obtain rs l2 iv2 where rs: "send_blocks fmt fc (bi + 1) (lowseq + nr_shards ?sh) iv1 bs = (rs, l2, iv2)"
    by (metis prod_cases3)
  from Cons.prems qs rs have eqs: "ps = qs @ rs" "lowseq' = l2" "iv' = iv2" by (simp_all add: Let_def)
  have "numbered (fc_cipher fc \<noteq> None) lowseq iv qs (lowseq + nr_shards ?sh) iv1"
    using numbered_finish_shards [OF qs] by simp
  from numbered_append [OF this Cons.IH] rs eqs show ?case by simp
qed

text \<open>The loop of \<open>videoBroadcastThread\<close> over the frames of one session: \<open>lowseq\<close> and
  \<open>gcm_iv_counter\<close> are the session's state.\<close>

definition send_frame ::
  "wire_format \<Rightarrow> nat \<times> u64 \<Rightarrow> frame_context \<times> bytes list \<Rightarrow> (nat \<times> u64) \<times> wire_packet list" where
  "send_frame fmt st frame =
     (case send_blocks fmt (fst frame) 0 (fst st) (snd st) (snd frame) of
        (ps, lowseq, iv) \<Rightarrow> ((lowseq, iv), ps))"

lemma numbered_send_frames:
  assumes "\<forall>(fc, bs) \<in> set frames. fc_cipher fc \<noteq> None"
  shows "numbered True l iv (concat (machine_outputs (send_frame fmt) (l, iv) frames))
    (fst (machine_state (send_frame fmt) (l, iv) frames)) (snd (machine_state (send_frame fmt) (l, iv) frames))"
  using assms
proof (induction frames arbitrary: l iv)
  case Nil
  then show ?case by (simp add: numbered_Nil)
next
  case (Cons f frames)
  obtain ps l1 iv1 where ps: "send_blocks fmt (fst f) 0 l iv (snd f) = (ps, l1, iv1)"
    by (metis prod_cases3)
  have "fc_cipher (fst f) \<noteq> None" using Cons.prems by auto
  with numbered_send_blocks [OF ps] have "numbered True l iv ps l1 iv1" by simp
  from numbered_append [OF this Cons.IH] Cons.prems ps show ?case by (simp add: send_frame_def)
qed

lemma iv_bytes_inject: "iv_bytes c = iv_bytes d \<longleftrightarrow> c = d"
proof
  assume eq: "iv_bytes c = iv_bytes d"
  have byte: "(ucast (drop_bit (8 * k) c) :: u8) = ucast (drop_bit (8 * k) d)" if "k < 8" for k
  proof -
    have "iv_bytes c ! k = iv_bytes d ! k" using eq by simp
    with that show ?thesis by (simp add: iv_bytes_def nth_append)
  qed
  show "c = d"
  proof (rule bit_word_eqI)
    fix n assume "n < LENGTH(64)"
    then have "n div 8 < 8" by simp
    have "bit c n = bit (ucast (drop_bit (8 * (n div 8)) c) :: u8) (n mod 8)" for c :: u64
      by (simp add: bit_simps)
    with byte [OF \<open>n div 8 < 8\<close>] show "bit c n = bit d n" by simp
  qed
qed simp

lemma numbered_ivs_distinct:
  assumes "map wp_iv ps = map (\<lambda>j. Some (iv_bytes (iv + word_of_nat j))) [0..<length ps]" "length ps \<le> 2 ^ 64"
  shows "distinct (map wp_iv ps)"
proof -
  have "inj_on (\<lambda>j. Some (iv_bytes (iv + word_of_nat j))) {0..<length ps}"
  proof (rule inj_onI)
    fix i j assume ij: "i \<in> {0..<length ps}" "j \<in> {0..<length ps}"
      and "Some (iv_bytes (iv + word_of_nat i)) = Some (iv_bytes (iv + word_of_nat j))"
    then have "word_of_nat i = (word_of_nat j :: u64)" by (simp add: iv_bytes_inject)
    then have "unat (word_of_nat i :: u64) = unat (word_of_nat j :: u64)" by (rule arg_cong)
    with ij assms(2) show "i = j" by (simp add: unat_of_nat)
  qed
  then show ?thesis unfolding assms(1) by (simp add: distinct_map)
qed

text \<open>
  Over every sequence of frames of a session, the packets of all frames and FEC blocks carry
  consecutive 16-bit sequence numbers; when the video is encrypted, no initialization vector
  repeats until \<open>2 ^ 64\<close> packets have been sent, and the vector always tells its packets
  from the other streams by its last byte.
\<close>

theorem packets_numbered_consecutively:
  fixes fmt :: wire_format and lowseq :: nat and iv :: u64
  assumes "\<forall>(fc, bs) \<in> set frames. fc_cipher fc \<noteq> None"
  defines "ps \<equiv> concat (machine_outputs (send_frame fmt) (lowseq, iv) frames)"
  shows "map wp_sequence ps = map (\<lambda>j. word_of_nat (lowseq + j)) [0..<length ps]
    \<and> fst (machine_state (send_frame fmt) (lowseq, iv) frames) = lowseq + length ps
    \<and> (length ps \<le> 2 ^ 64 \<longrightarrow> distinct (map wp_iv ps))
    \<and> (\<forall>p \<in> set ps. \<exists>v. wp_iv p = Some v \<and> length v = 12 \<and> v ! 11 = 86)"
proof -
  have n: "numbered True lowseq iv ps (fst (machine_state (send_frame fmt) (lowseq, iv) frames))
      (snd (machine_state (send_frame fmt) (lowseq, iv) frames))"
    unfolding ps_def by (rule numbered_send_frames [OF assms(1)])
  then have ivs: "map wp_iv ps = map (\<lambda>j. Some (iv_bytes (iv + word_of_nat j))) [0..<length ps]"
    by (simp add: numbered_def)
  have "distinct (map wp_iv ps)" if "length ps \<le> 2 ^ 64" by (rule numbered_ivs_distinct [OF ivs that])
  moreover have "\<exists>v. wp_iv p = Some v \<and> length v = 12 \<and> v ! 11 = 86" if "p \<in> set ps" for p
  proof -
    have "wp_iv p \<in> set (map wp_iv ps)" using that by simp
    then obtain c where "wp_iv p = Some (iv_bytes c)" unfolding ivs by auto
    then show ?thesis by (intro exI [of _ "iv_bytes c"]) (simp add: iv_bytes_def nth_append)
  qed
  ultimately show ?thesis using n by (auto simp: numbered_def)
qed

definition sample_context :: frame_context where
  "sample_context = \<lparr>fc_frame_index = 5, fc_timestamp = 900, fc_blocksize = 4, fc_percentage = 20,
     fc_min_parity = 2, fc_blocks_needed = 1, fc_cipher = Some (\<lambda>iv text. ([], text))\<rparr>"

theorem packets_numbered_consecutively_witness:
  "distinct (map wp_iv (concat (machine_outputs (send_frame plain_format) (65534, 0)
     [(sample_context, [[1, 2, 3, 4, 5]]), (sample_context, [[6]])])))
   \<and> map wp_sequence (concat (machine_outputs (send_frame plain_format) (65534, 0)
     [(sample_context, [[1, 2, 3, 4, 5]]), (sample_context, [[6]])]))
     = [65534, 65535, 0, 1, 2, 3, 4]"
proof -
  let ?frames = "[(sample_context, [[1, 2, 3, 4, 5]]), (sample_context, [[6]])]"
  let ?ps = "concat (machine_outputs (send_frame plain_format) (65534, 0) ?frames)"
  have "\<forall>(fc, bs) \<in> set ?frames. fc_cipher fc \<noteq> None" by (simp add: sample_context_def)
  note num = packets_numbered_consecutively [OF this, of plain_format 65534 0]
  have "slices 4 2 [1, 2, 3, 4, 5 :: u8] = [[1, 2, 3, 4], [5]]" "[0..<2] = [0, 1 :: nat]"
    by (simp_all add: numeral_2_eq_2)
  then have "fst (machine_state (send_frame plain_format) (65534, 0) ?frames) = 65534 + 7"
    by (simp add: send_frame_def block_shards_def fec_encode_def fec_parity_def stamp_packets_def plain_format_def
        sample_context_def Let_def case_prod_beta)
  with num have seven: "length ?ps = 7" by linarith
  have "map (\<lambda>j. word_of_nat (65534 + j)) [0..<7] = [65534, 65535, 0, 1, 2, 3, 4 :: u16]"
    by (simp add: upt_rec)
  moreover have "(7 :: nat) \<le> 2 ^ 64" by simp
  ultimately show ?thesis using num unfolding seven by (simp only: simp_thms)
qed

subsection \<open>The fields of the FEC info word\<close>

definition fec_index :: "u32 \<Rightarrow> nat" where "fec_index w = unat (take_bit 10 (drop_bit 12 w))"
definition fec_data_count :: "u32 \<Rightarrow> nat" where "fec_data_count w = unat (drop_bit 22 w)"
definition fec_percentage :: "u32 \<Rightarrow> nat" where "fec_percentage w = unat (take_bit 8 (drop_bit 4 w))"

lemma bit_small: "\<lbrakk>(x :: nat) < 2 ^ k; k \<le> n\<rbrakk> \<Longrightarrow> \<not> bit x n"
  by (metis bit_take_bit_iff not_less take_bit_nat_eq_self_iff)

lemma fec_info_fields:
  assumes "x < 1024" and "n < 1024" and "pct < 256"
  shows "fec_index (fec_info x n pct) = x" "fec_data_count (fec_info x n pct) = n"
    "fec_percentage (fec_info x n pct) = pct"
proof -
  have x: "\<not> bit x k" if "10 \<le> k" for k using bit_small [of x 10 k] assms(1) that by simp
  have n: "\<not> bit n k" if "10 \<le> k" for k using bit_small [of n 10 k] assms(2) that by simp
  have p: "\<not> bit pct k" if "8 \<le> k" for k using bit_small [of pct 8 k] assms(3) that by simp
  have n': "bit n k \<Longrightarrow> k < 10" for k using n not_less by blast
  have "take_bit 10 (drop_bit 12 (fec_info x n pct)) = word_of_nat x"
    by (rule bit_word_eqI) (auto simp: fec_info_def bit_simps x n p dest: n')
  with assms(1) show "fec_index (fec_info x n pct) = x" by (simp add: fec_index_def unat_of_nat)
  have "drop_bit 22 (fec_info x n pct) = word_of_nat n"
    by (rule bit_word_eqI) (auto simp: fec_info_def bit_simps x n p dest: n')
  with assms(2) show "fec_data_count (fec_info x n pct) = n" by (simp add: fec_data_count_def unat_of_nat)
  have "take_bit 8 (drop_bit 4 (fec_info x n pct)) = word_of_nat pct"
    by (rule bit_word_eqI) (auto simp: fec_info_def bit_simps x n p dest: n')
  with assms(3) show "fec_percentage (fec_info x n pct) = pct" by (simp add: fec_percentage_def unat_of_nat)
qed

subsection \<open>What a receiver reassembles\<close>

text \<open>
  What the code relies on of the protocol headers: their sizes add up, and writing fields into the
  header of a packet touches nothing behind it.
\<close>

definition format_ok :: "wire_format \<Rightarrow> bool" where
  "format_ok fmt \<longleftrightarrow>
     video_packet_raw_size fmt = max_rtp_header_size fmt + nv_video_packet_size fmt
     \<and> (\<forall>h p. video_packet_raw_size fmt \<le> length p \<longrightarrow>
          length (put_data_header fmt h p) = length p
          \<and> drop (video_packet_raw_size fmt) (put_data_header fmt h p) = drop (video_packet_raw_size fmt) p)
     \<and> (\<forall>h p. video_packet_raw_size fmt \<le> length p \<longrightarrow>
          drop (video_packet_raw_size fmt) (put_shard_header fmt h p) = drop (video_packet_raw_size fmt) p)"

text \<open>
  A receiver that lost nothing: it opens the packets with its decryption, keeps the data shards
  (their FEC info says which they are), strips the headers, reads the length of the last payload
  from the frame header and cuts the padding off.
\<close>

definition unseal :: "(bytes \<Rightarrow> bytes \<Rightarrow> bytes \<Rightarrow> bytes) \<Rightarrow> wire_packet \<Rightarrow> bytes" where
  "unseal decrypt p =
     (case wp_prefix p of None \<Rightarrow> wp_data p | Some (_, iv, tag) \<Rightarrow> decrypt iv tag (wp_data p))"

definition is_data_packet :: "wire_packet \<Rightarrow> bool" where
  "is_data_packet p = (fec_index (sh_fecInfo (wp_header p)) < fec_data_count (sh_fecInfo (wp_header p)))"

definition data_bodies :: "wire_format \<Rightarrow> (bytes \<Rightarrow> bytes \<Rightarrow> bytes \<Rightarrow> bytes) \<Rightarrow> wire_packet list \<Rightarrow> bytes list" where
  "data_bodies fmt decrypt ps =
     map (\<lambda>p. drop (video_packet_raw_size fmt) (unseal decrypt p)) (filter is_data_packet ps)"

definition reassemble :: "bytes list \<Rightarrow> bytes" where
  "reassemble bodies =
     concat (butlast bodies) @ take (unat (hd bodies ! 4) + 256 * unat (hd bodies ! 5)) (last bodies)"

text \<open>The padding of the last shard.\<close>

definition padto :: "nat \<Rightarrow> bytes \<Rightarrow> bytes" where
  "padto b c = c @ replicate (b - length c) 0"

lemma length_padto [simp]: "length (padto b c) = max (length c) b"
  by (simp add: padto_def)

lemma padto_full: "b \<le> length c \<Longrightarrow> padto b c = c"
  by (simp add: padto_def)

lemma slices_snoc: "slices k (Suc n) xs = slices k n xs @ [take k (drop (n * k) xs)]"
proof (induction n arbitrary: xs)
  case (Suc n)
  have "slices k (Suc (Suc n)) xs = take k xs # slices k (Suc n) (drop k xs)" by simp
  also have "\<dots> = take k xs # slices k n (drop k xs) @ [take k (drop (n * k) (drop k xs))]"
    by (simp only: Suc.IH)
  finally show ?case by (simp add: add.commute)
qed simp

lemma fec_parity_bounds:
  "fst (fec_parity n F m) \<le> max ((n * F + 99) div 100) (if F = 0 then 0 else m)"
  "snd (fec_parity n F m) \<le> max F (100 * m)"
  by (auto simp: fec_parity_def Let_def le_max_iff_disj intro: div_le_dividend)

lemma fec_data_padded:
  assumes "0 < b"
  shows "fec_data payload b = map (padto b) (slices b (n_slices b (length payload)) payload)"
proof -
  let ?k = "length payload div b"
  let ?front = "slices b ?k payload" and ?rest = "drop (?k * b) payload"
  have full: "map (padto b) ?front = ?front"
    using slices_exact [of ?k b payload, OF div_times_less_eq_dividend]
    by (intro map_idI padto_full eq_imp_le) metis
  have "length ?rest = length payload mod b" by (simp add: minus_div_mult_eq_mod)
  then have short: "take b ?rest = ?rest" using assms(1) by simp
  have cut: "slices b (n_slices b (length payload)) payload
      = ?front @ (if length payload mod b \<noteq> 0 then [?rest] else [])"
    using slices_snoc [of b ?k payload] short by (cases "length payload mod b = 0") simp_all
  show ?thesis
    unfolding fec_data_def Let_def cut map_append full
    by (cases "length payload mod b = 0") (simp_all add: padto_def)
qed

lemma fec_encode_data:
  fixes rs :: "nat \<Rightarrow> nat \<Rightarrow> bytes list \<Rightarrow> bytes list" and payload :: bytes and F m :: nat
  assumes "0 < b"
  defines "sh \<equiv> fec_encode rs payload b F m"
  shows "data_shards sh = n_slices b (length payload)"
    "take (data_shards sh) (shards sh) = map (padto b) (slices b (n_slices b (length payload)) payload)"
    "data_shards sh \<le> nr_shards sh"
    "nr_shards sh \<le> data_shards sh + max ((data_shards sh * F + 99) div 100) (if F = 0 then 0 else m)"
    "percentage sh \<le> max F (100 * m)"
proof -
  have n: "data_shards sh = n_slices b (length payload)"
    and nr: "nr_shards sh = data_shards sh + fst (fec_parity (data_shards sh) F m)"
    and pct: "percentage sh = snd (fec_parity (data_shards sh) F m)"
    and s: "\<exists>parity. shards sh = fec_data payload b @ parity"
    unfolding sh_def fec_encode_def Let_def case_prod_beta by simp_all
  show "data_shards sh = n_slices b (length payload)" by (rule n)
  from s show "take (data_shards sh) (shards sh) = map (padto b) (slices b (n_slices b (length payload)) payload)"
    unfolding n fec_data_padded [OF assms(1)] by (elim exE) (simp only:, simp)
  show "data_shards sh \<le> nr_shards sh" unfolding nr by simp
  show "nr_shards sh \<le> data_shards sh + max ((data_shards sh * F + 99) div 100) (if F = 0 then 0 else m)"
    unfolding nr using fec_parity_bounds(1) by (rule add_left_mono)
  show "percentage sh \<le> max F (100 * m)" unfolding pct by (rule fec_parity_bounds(2))
qed

lemma put_data_header_ok:
  "\<lbrakk>format_ok fmt; video_packet_raw_size fmt \<le> length p\<rbrakk> \<Longrightarrow>
     length (put_data_header fmt h p) = length p
     \<and> drop (video_packet_raw_size fmt) (put_data_header fmt h p) = drop (video_packet_raw_size fmt) p"
  by (auto simp: format_ok_def)

lemma put_shard_header_ok:
  "\<lbrakk>format_ok fmt; video_packet_raw_size fmt \<le> length p\<rbrakk> \<Longrightarrow>
     drop (video_packet_raw_size fmt) (put_shard_header fmt h p) = drop (video_packet_raw_size fmt) p"
  by (auto simp: format_ok_def)

lemma drop_padto:
  "k \<le> length c \<Longrightarrow> drop k (padto b c) = padto (b - k) (drop k c)"
  by (simp add: padto_def)

lemma map2_ball: "\<forall>x. \<forall>c \<in> set cs. P (f x c) \<Longrightarrow> \<forall>d \<in> set (map2 f is cs). P d"
  by (auto dest: set_zip_rightD)

text \<open>The stamped packets of a block differ from the packets of the block in their headers only.\<close>

lemma stamp_packets_slices:
  fixes bi lowseq :: nat
  assumes "format_ok fmt" and "0 < fc_blocksize fc" and "payload \<noteq> []"
    and "\<forall>c \<in> set (slices (fc_blocksize fc) (n_slices (fc_blocksize fc) (length payload)) payload).
           video_packet_raw_size fmt \<le> length c"
  defines "b \<equiv> fc_blocksize fc"
    and "st \<equiv> stamp_packets fmt fc bi lowseq payload"
  shows "n_slices b (length st) = n_slices b (length payload)"
    and "map (\<lambda>c. drop (video_packet_raw_size fmt) (padto b c)) (slices b (n_slices b (length st)) st)
      = map (\<lambda>c. padto (b - video_packet_raw_size fmt) (drop (video_packet_raw_size fmt) c))
          (slices b (n_slices b (length payload)) payload)"
    and "\<forall>c \<in> set (slices b (n_slices b (length st)) st). video_packet_raw_size fmt \<le> length c"
proof -
  let ?n = "n_slices b (length payload)" and ?raw = "video_packet_raw_size fmt"
  let ?cs = "slices b ?n payload"
  define hdr where "hdr x = \<lparr>dh_frameIndex = word_of_nat (fc_frame_index fc),
      dh_streamPacketIndex = stream_packet_index lowseq x, dh_multiFecFlags = 16,
      dh_multiFecBlocks = multi_fec_blocks bi (fc_blocks_needed fc),
      dh_flags = packet_flags fmt x ?n\<rparr>" for x
  let ?ds = "map2 (\<lambda>x p. put_data_header fmt (hdr x) p) [0..<?n] ?cs"
  have b: "0 < b" using assms(2) by (simp add: b_def)
  have big: "\<forall>c \<in> set ?cs. ?raw \<le> length c" using assms(4) by (simp add: b_def)
  have st: "st = concat ?ds"
    unfolding st_def stamp_packets_def Let_def hdr_def b_def n_slices_ceiling [OF assms(2)] ..
  have "chunked b ?ds"
    using chunked_slices [OF b assms(3)] big put_data_header_ok [OF assms(1)]
    by (subst chunked_map2) auto
  from slices_of_chunks [OF b this] have n: "n_slices b (length st) = ?n" and ds: "slices b (n_slices b (length st)) st = ?ds"
    unfolding st by simp_all
  show "n_slices b (length st) = ?n" by (rule n)
  have each: "i < ?n \<Longrightarrow> ?ds ! i = put_data_header fmt (hdr i) (?cs ! i) \<and> ?cs ! i \<in> set ?cs" for i
    by simp
  show "map (\<lambda>c. drop ?raw (padto b c)) (slices b (n_slices b (length st)) st)
      = map (\<lambda>c. padto (b - ?raw) (drop ?raw c)) ?cs"
    unfolding ds using each big put_data_header_ok [OF assms(1)]
    by (intro nth_equalityI) (auto simp: drop_padto)
  show "\<forall>c \<in> set (slices b (n_slices b (length st)) st). ?raw \<le> length c"
    unfolding ds using big put_data_header_ok [OF assms(1)] by (intro map2_ball) metis
qed

text \<open>Among the packets of a block the receiver finds exactly its data shards, in order.\<close>

lemma finish_shards_data:
  assumes "format_ok fmt" and "data_shards sh < 1024" and "x + k \<le> 1024" and "percentage sh < 256"
    and "\<forall>j < data_shards sh. video_packet_raw_size fmt \<le> length (shards sh ! j)"
    and "\<forall>e. fc_cipher fc = Some e \<longrightarrow> (\<forall>v d. decrypt v (fst (e v d)) (snd (e v d)) = d)"
  shows "data_bodies fmt decrypt (fst (finish_shards fmt fc bi lowseq sh x k iv))
    = map (\<lambda>j. drop (video_packet_raw_size fmt) (shards sh ! j)) [x..<min (x + k) (data_shards sh)]"
  using assms(3)
proof (induction k arbitrary: x iv)
  case 0
  then show ?case by (simp add: data_bodies_def)
next
  case (Suc k)
  obtain p iv1 where p: "finish_shard fmt fc bi lowseq sh x iv = (p, iv1)" by fastforce
  have x: "x < 1024" using Suc.prems by simp
  have hd: "wp_header p = shard_header_of fmt fc bi lowseq sh x"
    and un: "unseal decrypt p = put_shard_header fmt (shard_header_of fmt fc bi lowseq sh x) (shards sh ! x)"
    using p assms(6) by (auto simp: finish_shard_def Let_def unseal_def split: option.splits prod.splits)
      (metis fst_conv snd_conv)
  have data: "is_data_packet p \<longleftrightarrow> x < data_shards sh"
    using hd fec_info_fields [OF x assms(2,4)] by (simp add: is_data_packet_def shard_header_of_def)
  have IH: "data_bodies fmt decrypt (fst (finish_shards fmt fc bi lowseq sh (x + 1) k iv1))
      = map (\<lambda>j. drop (video_packet_raw_size fmt) (shards sh ! j)) [x + 1..<min (x + 1 + k) (data_shards sh)]"
    using Suc.prems by (intro Suc.IH) simp
  have ps: "fst (finish_shards fmt fc bi lowseq sh x (Suc k) iv)
      = p # fst (finish_shards fmt fc bi lowseq sh (x + 1) k iv1)"
    by (simp add: p split: prod.splits)
  show ?case
  proof (cases "x < data_shards sh")
    case True
    then have "[x..<min (x + Suc k) (data_shards sh)] = x # [x + 1..<min (x + 1 + k) (data_shards sh)]"
      by (simp add: upt_conv_Cons)
    with IH data True un put_shard_header_ok [OF assms(1)] assms(5) show ?thesis
      unfolding ps by (simp add: data_bodies_def)
  next
    case False
    with IH data show ?thesis unfolding ps by (simp add: data_bodies_def)
  qed
qed

lemma data_bodies_append:
  "data_bodies fmt decrypt (ps @ qs) = data_bodies fmt decrypt ps @ data_bodies fmt decrypt qs"
  by (simp add: data_bodies_def)

text \<open>What a block must satisfy for its packets to be found again: every packet has room for its
  header, and the shard counts fit the fields of the FEC info word.\<close>

definition block_fits :: "wire_format \<Rightarrow> frame_context \<Rightarrow> bytes \<Rightarrow> bool" where
  "block_fits fmt fc payload \<longleftrightarrow>
     (let b = fc_blocksize fc; n = n_slices b (length payload) in
      payload \<noteq> [] \<and> (\<forall>c \<in> set (slices b n payload). video_packet_raw_size fmt \<le> length c)
      \<and> n < 1024
      \<and> n + max ((n * fc_percentage fc + 99) div 100) (if fc_percentage fc = 0 then 0 else fc_min_parity fc) \<le> 1024
      \<and> max (fc_percentage fc) (100 * fc_min_parity fc) < 256)"

abbreviation block_bodies :: "wire_format \<Rightarrow> frame_context \<Rightarrow> bytes \<Rightarrow> bytes list" where
  "block_bodies fmt fc payload \<equiv>
     map (\<lambda>c. padto (fc_blocksize fc - video_packet_raw_size fmt) (drop (video_packet_raw_size fmt) c))
       (slices (fc_blocksize fc) (n_slices (fc_blocksize fc) (length payload)) payload)"

lemma block_data_bodies:
  fixes bi lowseq :: nat
  assumes "format_ok fmt" and "0 < fc_blocksize fc" and "block_fits fmt fc payload"
    and "\<forall>e. fc_cipher fc = Some e \<longrightarrow> (\<forall>v d. decrypt v (fst (e v d)) (snd (e v d)) = d)"
  defines "sh \<equiv> block_shards fmt fc bi lowseq payload"
  shows "data_bodies fmt decrypt (fst (finish_shards fmt fc bi lowseq sh 0 (nr_shards sh) iv))
    = block_bodies fmt fc payload"
proof -
  let ?b = "fc_blocksize fc" and ?raw = "video_packet_raw_size fmt"
  let ?st = "stamp_packets fmt fc bi lowseq payload"
  let ?cs = "slices ?b (n_slices ?b (length ?st)) ?st"
  have fits: "payload \<noteq> []" "\<forall>c \<in> set (slices ?b (n_slices ?b (length payload)) payload). ?raw \<le> length c"
    using assms(3) by (simp_all add: block_fits_def Let_def del: One_nat_def)
  note st = stamp_packets_slices [OF assms(1,2) fits, of bi lowseq]
  note enc = fec_encode_data [OF assms(2), of "rs_parity fmt" ?st "fc_percentage fc" "fc_min_parity fc",
      folded block_shards_def, folded sh_def]
  have d: "n_slices ?b (length payload) = data_shards sh" using enc(1) st(1) by (simp only:)
  have "data_shards sh < 1024"
    and "data_shards sh + max ((data_shards sh * fc_percentage fc + 99) div 100)
           (if fc_percentage fc = 0 then 0 else fc_min_parity fc) \<le> 1024"
    and "max (fc_percentage fc) (100 * fc_min_parity fc) < 256"
    using assms(3) unfolding block_fits_def Let_def d by blast+
  with enc(4,5) have n: "data_shards sh < 1024" "0 + nr_shards sh \<le> 1024" "percentage sh < 256"
    unfolding add_0 by (blast, blast intro: le_trans, blast intro: le_less_trans)
  have nth: "shards sh ! j = map (padto ?b) ?cs ! j" if "j < data_shards sh" for j
    using that by (metis enc(2) nth_take)
  have long: "\<forall>j < data_shards sh. ?raw \<le> length (shards sh ! j)"
    using nth st(3) enc(1) by (auto simp: le_max_iff_disj simp del: One_nat_def)
  have "data_bodies fmt decrypt (fst (finish_shards fmt fc bi lowseq sh 0 (nr_shards sh) iv))
      = map (\<lambda>j. drop ?raw (shards sh ! j)) [0..<data_shards sh]"
    using finish_shards_data [OF assms(1) n long assms(4), of bi lowseq iv] enc(3) by simp
  also have "\<dots> = map (\<lambda>c. drop ?raw (padto ?b c)) ?cs"
    using nth enc(1) by (intro nth_equalityI) (simp_all del: One_nat_def)
  finally show ?thesis using st(2) by (simp only:)
qed

lemma send_blocks_bodies:
  assumes "format_ok fmt" and "0 < fc_blocksize fc" and "\<forall>b \<in> set bs. block_fits fmt fc b"
    and "\<forall>e. fc_cipher fc = Some e \<longrightarrow> (\<forall>v d. decrypt v (fst (e v d)) (snd (e v d)) = d)"
  shows "data_bodies fmt decrypt (fst (send_blocks fmt fc bi lowseq iv bs))
    = concat (map (block_bodies fmt fc) bs)"
  using assms(3)
proof (induction bs arbitrary: bi lowseq iv)
  case Nil
  then show ?case by (simp add: data_bodies_def)
next
  case (Cons b bs)
  let ?sh = "block_shards fmt fc bi lowseq b"
  obtain qs iv1 where qs: "finish_shards fmt fc bi lowseq ?sh 0 (nr_shards ?sh) iv = (qs, iv1)" by fastforce
  have "data_bodies fmt decrypt qs = block_bodies fmt fc b"
    using block_data_bodies [OF assms(1,2) _ assms(4), of b bi lowseq iv] Cons.prems qs by simp
  moreover have "data_bodies fmt decrypt (fst (send_blocks fmt fc (bi + 1) (lowseq + nr_shards ?sh) iv1 bs))
      = concat (map (block_bodies fmt fc) bs)"
    using Cons.prems by (intro Cons.IH) simp
  moreover have "fst (send_blocks fmt fc bi lowseq iv (b # bs))
      = qs @ fst (send_blocks fmt fc (bi + 1) (lowseq + nr_shards ?sh) iv1 bs)"
    by (simp add: Let_def qs split: prod.splits)
  ultimately show ?case by (simp only: data_bodies_append list.map concat.simps)
qed

text \<open>Cutting at packet boundaries first does not change the packets.\<close>

lemma slices_append:
  "length xs = k * b \<Longrightarrow> slices b (k + n) (xs @ ys) = slices b k xs @ slices b n ys"
  by (induction k arbitrary: xs) simp_all

lemma n_slices_add:
  assumes "0 < b"
  shows "n_slices b (k * b + m) = k + n_slices b m"
  using assms by (simp add: div_mult_self3)

lemma slices_of_blocks:
  assumes "0 < b" and "\<forall>x \<in> set front. b dvd length x"
  shows "concat (map (\<lambda>x. slices b (n_slices b (length x)) x) (front @ [rear]))
    = slices b (n_slices b (length (concat front @ rear))) (concat front @ rear)"
  using assms(2)
proof (induction front)
  case (Cons x front)
  let ?rest = "concat front @ rear"
  obtain k where k: "length x = k * b" using Cons.prems by (auto simp: dvd_def mult.commute)
  have "n_slices b (length (x @ ?rest)) = k + n_slices b (length ?rest)"
    using n_slices_add [OF assms(1), of k "length ?rest"] k by (simp only: length_append)
  then have "slices b (n_slices b (length (x @ ?rest))) (x @ ?rest)
      = slices b k x @ slices b (n_slices b (length ?rest)) ?rest"
    by (simp only: slices_append [OF k])
  moreover have "n_slices b (length x) = k" using k n_slices_add [OF assms(1), of k 0] by simp
  ultimately show ?case using Cons by (simp del: One_nat_def)
qed simp

lemma n_slices_le: "\<lbrakk>0 < b; m \<le> k * b\<rbrakk> \<Longrightarrow> n_slices b m \<le> k"
  using n_slices_bounds(2) [of b k m] by (meson not_le)

lemma chunked_last_length:
  assumes "0 < s" and "chunked s cs"
  shows "length (last cs) = (if length (concat cs) mod s = 0 then s else length (concat cs) mod s)"
  using assms(2)
proof (induction cs rule: induct_list012)
  case (2 c)
  then show ?case by (cases "length c = s") auto
qed auto

lemma chunked_concat_nonempty: "chunked b cs \<Longrightarrow> concat cs \<noteq> []"
  by (induction cs rule: induct_list012) auto

lemma reassemble_chunks:
  assumes "chunked s cs"
    and "unat (hd (map (padto s) cs) ! 4) + 256 * unat (hd (map (padto s) cs) ! 5) = length (last cs)"
  shows "reassemble (map (padto s) cs) = concat cs"
proof -
  have ne: "cs \<noteq> []" by (rule chunked_nonempty [OF assms(1)])
  then have cs: "cs = butlast cs @ [last cs]" by simp
  then have "\<forall>c \<in> set (butlast cs). length c = s"
    using chunked_append [of s "butlast cs" "[last cs]"] assms(1) by simp
  then have "map (padto s) (butlast cs) = butlast cs" by (intro map_idI padto_full) simp
  moreover have "take (length (last cs)) (padto s (last cs)) = last cs" by (simp add: padto_def)
  moreover have "concat cs = concat (butlast cs) @ last cs" using cs by (metis concat.simps concat_append append_Nil2)
  ultimately show ?thesis
    unfolding reassemble_def assms(2) using ne by (simp add: map_butlast [symmetric] last_map)
qed

lemma le16_value: "n < 65536 \<Longrightarrow> unat (le16 n ! 0) + 256 * unat (le16 n ! 1) = n"
  by (simp add: le16_def unat_of_nat)

lemma short_frame_header_bytes:
  "length (short_frame_header fmt packetsize idr rfi latency n) = 8"
  "short_frame_header fmt packetsize idr rfi latency n ! 4 = le16 (last_payload_len fmt packetsize n) ! 0"
  "short_frame_header fmt packetsize idr rfi latency n ! 5 = le16 (last_payload_len fmt packetsize n) ! 1"
  by (simp_all add: short_frame_header_def le16_def nth_Cons')

lemma frame_with_headers_chunks:
  assumes "format_ok fmt" and "8 \<le> packetsize - nv_video_packet_size fmt"
    and "(if fi_is_idr fi then apply_replacements (fi_replacements fi) (fi_payload fi)
          else Some (fi_payload fi)) = Some payload"
  defines "s \<equiv> packetsize - nv_video_packet_size fmt"
    and "frame \<equiv> short_frame_header fmt packetsize (fi_is_idr fi) (fi_after_rfi fi) (fi_latency fi) (length payload) @ payload"
  shows "packetsize + max_rtp_header_size fmt = video_packet_raw_size fmt + s"
    and "frame_with_headers fmt packetsize fi
      = Some (concat (map ((@) (replicate (video_packet_raw_size fmt) 0)) (slices s (n_slices s (length frame)) frame)))"
proof -
  show b: "packetsize + max_rtp_header_size fmt = video_packet_raw_size fmt + s"
    using assms(1,2) by (simp add: format_ok_def s_def)
  then have s: "packetsize + max_rtp_header_size fmt - video_packet_raw_size fmt = s" by simp
  show "frame_with_headers fmt packetsize fi
      = Some (concat (map ((@) (replicate (video_packet_raw_size fmt) 0)) (slices s (n_slices s (length frame)) frame)))"
    unfolding frame_with_headers_def assms(3) option.map s frame_def
    using assms(2) by (subst concat_and_insert_slices) (simp_all add: s_def)
qed

lemma last_payload_of_chunks:
  assumes "8 \<le> s" and "s < 65536" and "chunked s (slices s (n_slices s (length frame)) frame)"
    and "frame = short_frame_header fmt packetsize idr rfi latency (length payload) @ payload"
    and "s = packetsize - nv_video_packet_size fmt"
  defines "cs \<equiv> slices s (n_slices s (length frame)) frame"
  shows "unat (hd (map (padto s) cs) ! 4) + 256 * unat (hd (map (padto s) cs) ! 5) = length (last cs)"
proof -
  let ?h = "short_frame_header fmt packetsize idr rfi latency (length payload)"
  let ?lpl = "last_payload_len fmt packetsize (length payload)"
  have s: "0 < s" using assms(1) by simp
  have "concat cs = frame"
    unfolding cs_def by (rule concat_slices) (rule n_slices_bounds(1) [OF s])
  then have last: "length (last cs) = (if length frame mod s = 0 then s else length frame mod s)"
    using chunked_last_length [OF s, of cs] assms(3) by (simp only: cs_def)
  have len: "length frame = length payload + 8"
    using assms(4) short_frame_header_bytes(1) by simp
  have "length frame mod s < s" using s by simp
  then have "length frame mod s < 65536" using assms(2) by linarith
  then have lpl: "?lpl = length (last cs)" and "?lpl < 65536"
    using assms(2) unfolding last last_payload_len_def Let_def assms(5) [symmetric] len by (simp_all add: s)
  have "n_slices s (length frame) = Suc (n_slices s (length frame) - 1)"
    using n_slices_bounds(1) [OF s, of "length frame"] len by (cases "n_slices s (length frame)") auto
  then have "hd cs = take s frame" unfolding cs_def by (metis list.sel(1) slices.simps(2))
  moreover have "cs \<noteq> []" using assms(3) chunked_nonempty unfolding cs_def by blast
  ultimately have "hd (map (padto s) cs) = padto s (take s frame)" by (simp add: hd_map)
  then have "hd (map (padto s) cs) ! 4 = ?h ! 4" "hd (map (padto s) cs) ! 5 = ?h ! 5"
    using assms(1,4) short_frame_header_bytes(1) [of fmt packetsize idr rfi latency "length payload"]
    by (simp_all add: padto_def nth_append)
  then show ?thesis
    unfolding short_frame_header_bytes(2,3) using le16_value [OF \<open>?lpl < 65536\<close>] lpl by simp
qed

text \<open>The blocks a frame is cut into, put back together as packets.\<close>

lemma planned_blocks_fit:
  assumes "payload = concat cs" and "chunked b cs" and "\<forall>c \<in> set cs. video_packet_raw_size fmt \<le> length c"
    and "8 \<le> b" and "4 \<le> max_data_shards_per_fec_block fmt F"
    and "data_shards_max fmt \<le> 255" and "F \<le> 255" and "m \<le> 2" and "length payload \<le> 4092 * b"
  defines "plan \<equiv> fec_plan_of fmt b F (length payload)"
  obtains bs where "fec_blocks payload plan = Some bs"
    and "\<forall>fc. fc_blocksize fc = b \<and> fc_percentage fc = plan_percentage plan \<and> fc_min_parity fc = m
           \<longrightarrow> (\<forall>x \<in> set bs. block_fits fmt fc x)"
    and "concat (map (\<lambda>x. slices b (n_slices b (length x)) x) bs) = cs"
proof -
  let ?D = "max_data_shards_per_fec_block fmt F"
  have b: "0 < b" "4 \<le> b" using assms(4) by simp_all
  have cut: "slices b (n_slices b (length payload)) payload = cs"
    unfolding assms(1) by (rule slices_of_chunks(1) [OF b(1) assms(2)])
  have ne: "payload \<noteq> []" unfolding assms(1) by (rule chunked_concat_nonempty [OF assms(2)])
  obtain front rear where bs: "fec_blocks payload plan = Some (front @ [rear])"
      "payload = concat front @ rear" "rear \<noteq> []" "length front + 1 = plan_blocks plan"
    and al: "\<forall>x \<in> set front. length x = plan_aligned plan" "front \<noteq> [] \<longrightarrow> 0 < plan_aligned plan"
      "b dvd plan_aligned plan"
    and small: "\<forall>k. length payload \<le> plan_blocks plan * (k * b) \<longrightarrow>
        (\<forall>x \<in> set (front @ [rear]). length x \<le> k * b)"
    by (rule fec_blocks_shape [OF b(2) assms(5) ne, folded plan_def]) (rule that)
  have pieces: "concat (map (\<lambda>x. slices b (n_slices b (length x)) x) (front @ [rear])) = cs"
    using slices_of_blocks [OF b(1), of front rear] al bs(2) cut by simp
  have nonempty: "x \<noteq> []" if "x \<in> set (front @ [rear])" for x
    using that al bs(3) by (cases "front = []") auto
  have counts: "n_slices b (length x) < 1024 \<and>
      n_slices b (length x) + max ((n_slices b (length x) * plan_percentage plan + 99) div 100)
        (if plan_percentage plan = 0 then 0 else m) \<le> 1024" if "x \<in> set (front @ [rear])" for x
  proof -
    have L: "0 < length payload" using ne by simp
    have room: "n < 1024 \<and> n + max p (if F = 0 then 0 else m) \<le> 1024"
      if "n + p \<le> M" "M \<le> 255" "m \<le> 2" for n p M :: nat
      using that by auto
    consider (kept) "plan_percentage plan = F" "length payload \<le> plan_blocks plan * (?D * b)"
      | (off) "plan_percentage plan = 0" "plan_blocks plan = 4"
      using fec_plan_cases(6) [OF b(2) assms(5) L, folded plan_def] by (auto simp: MAX_FEC_BLOCKS_def)
    then show ?thesis
    proof cases
      case kept
      have "n_slices b (length x) \<le> ?D" using small kept(2) that by (intro n_slices_le b) blast
      from parity_within_limit [OF this] assms(6,8) show ?thesis unfolding kept(1) by (rule room)
    next
      case off
      have "length x \<le> 1023 * b" using spec [OF small, of 1023] off(2) assms(9) that by auto
      then have "n_slices b (length x) \<le> 1023" by (intro n_slices_le b)
      with off(1) show ?thesis by (simp only:) simp
    qed
  qed
  have pct: "max (plan_percentage plan) (100 * m) < 256"
    using fec_plan_cases(6) [OF b(2) assms(5), of "length payload", folded plan_def] ne assms(7,8) by auto
  have "block_fits fmt fc x"
    if fc: "fc_blocksize fc = b" "fc_percentage fc = plan_percentage plan" "fc_min_parity fc = m"
      and x: "x \<in> set (front @ [rear])" for fc x
  proof -
    have "set (slices b (n_slices b (length x)) x) \<subseteq> set cs"
      using x by (subst pieces [symmetric]) auto
    then show ?thesis
      unfolding block_fits_def Let_def fc using nonempty [OF x] assms(3) counts [OF x] pct by blast
  qed
  with that [OF bs(1) _ pieces] show ?thesis by blast
qed

lemma packetize_reassembles:
  assumes "format_ok fmt" and "8 \<le> packetsize - nv_video_packet_size fmt"
    and "packetsize - nv_video_packet_size fmt < 65536"
    and "4 \<le> max_data_shards_per_fec_block fmt F" and "data_shards_max fmt \<le> 255" and "F \<le> 255"
    and "minparity \<le> 2"
    and "(if fi_is_idr fi then apply_replacements (fi_replacements fi) (fi_payload fi)
          else Some (fi_payload fi)) = Some payload"
    and "8 + length payload \<le> 4092 * (packetsize - nv_video_packet_size fmt)"
    and "\<forall>e. cipher = Some e \<longrightarrow> (\<forall>v d. decrypt v (fst (e v d)) (snd (e v d)) = d)"
  shows "\<exists>ps lowseq' iv'.
    packetize_frame fmt packetsize F minparity cipher frame_index timestamp lowseq iv fi = Some (ps, lowseq', iv')
    \<and> reassemble (data_bodies fmt decrypt ps)
      = short_frame_header fmt packetsize (fi_is_idr fi) (fi_after_rfi fi) (fi_latency fi) (length payload) @ payload"
proof -
  let ?raw = "video_packet_raw_size fmt"
  define s where "s = packetsize - nv_video_packet_size fmt"
  define frame where "frame = short_frame_header fmt packetsize (fi_is_idr fi) (fi_after_rfi fi)
    (fi_latency fi) (length payload) @ payload"
  define cs where "cs = slices s (n_slices s (length frame)) frame"
  define P where "P = concat (map ((@) (replicate ?raw 0)) cs)"
  note chunks = frame_with_headers_chunks [OF assms(1,2,8), folded s_def frame_def, folded cs_def, folded P_def]
  have s: "0 < s" "8 \<le> s" "s < 65536" using assms(2,3) by (simp_all add: s_def)
  have len: "length frame = 8 + length payload"
    by (simp add: frame_def short_frame_header_bytes(1))
  have "frame \<noteq> []" using len by auto
  then have cs: "chunked s cs" unfolding cs_def by (rule chunked_slices [OF s(1)])
  have Pcs: "chunked (?raw + s) (map ((@) (replicate ?raw 0)) cs)"
    using chunked_map_prefix [OF cs, of "replicate ?raw 0"] by simp
  have "length (concat (map ((@) (replicate ?raw (0 :: u8))) cs)) = length cs * ?raw + length (concat cs)" for cs
    by (induction cs) simp_all
  moreover have "concat cs = frame" unfolding cs_def by (rule concat_slices) (rule n_slices_bounds(1) [OF s(1)])
  moreover have "length cs \<le> 4092"
    using n_slices_le [OF s(1), of "length frame" 4092] assms(9) len by (simp add: cs_def s_def)
  ultimately have "length P \<le> 4092 * ?raw + length frame" by (simp add: P_def)
  then have small: "length P \<le> 4092 * (?raw + s)" using len assms(9) by (simp add: s_def)
  define b where "b = ?raw + s"
  define plan where "plan = fec_plan_of fmt b F (length P)"
  define fc where "fc = \<lparr>fc_frame_index = frame_index, fc_timestamp = timestamp, fc_blocksize = b,
    fc_percentage = plan_percentage plan, fc_min_parity = minparity,
    fc_blocks_needed = plan_blocks plan, fc_cipher = cipher\<rparr>"
  have "\<forall>c \<in> set (map ((@) (replicate ?raw 0)) cs). ?raw \<le> length c" "8 \<le> ?raw + s" using s(2) by auto
  note planned = planned_blocks_fit [OF P_def Pcs this assms(4-7) small, folded b_def, folded plan_def]
  obtain bs where bs: "fec_blocks P plan = Some bs"
    and fits: "\<forall>fc. fc_blocksize fc = b \<and> fc_percentage fc = plan_percentage plan \<and> fc_min_parity fc = minparity
      \<longrightarrow> (\<forall>x \<in> set bs. block_fits fmt fc x)"
    and pieces: "concat (map (\<lambda>x. slices b (n_slices b (length x)) x) bs) = map ((@) (replicate ?raw 0)) cs"
    by (rule planned) (rule that)
  have fit: "\<forall>x \<in> set bs. block_fits fmt fc x" using spec [OF fits, of fc] by (simp add: fc_def)
  have "data_bodies fmt decrypt (fst (send_blocks fmt fc 0 lowseq iv bs)) = concat (map (block_bodies fmt fc) bs)"
    using send_blocks_bodies [OF assms(1) _ fit, of decrypt 0 lowseq iv] assms(10) s(1) by (simp add: fc_def b_def)
  also have "\<dots> = map (\<lambda>c. padto (b - ?raw) (drop ?raw c))
      (concat (map (\<lambda>x. slices b (n_slices b (length x)) x) bs))"
    by (simp add: fc_def map_concat comp_def)
  also have "\<dots> = map (padto s) cs" unfolding pieces by (simp add: b_def)
  finally have "data_bodies fmt decrypt (fst (send_blocks fmt fc 0 lowseq iv bs)) = map (padto s) cs" .
  moreover have "reassemble (map (padto s) cs) = frame"
    using reassemble_chunks [OF cs last_payload_of_chunks [OF s(2,3) cs [unfolded cs_def] frame_def s_def, folded cs_def]]
      \<open>concat cs = frame\<close> by simp
  moreover have "packetize_frame fmt packetsize F minparity cipher frame_index timestamp lowseq iv fi
      = Some (send_blocks fmt fc 0 lowseq iv bs)"
    unfolding packetize_frame_def chunks(2) chunks(1) option.case Let_def b_def [symmetric] plan_def [symmetric] bs
    by (simp add: fc_def)
  ultimately show ?thesis by (metis frame_def prod_cases3 fst_conv)
qed

text \<open>
  C6. From an encoded frame to packets and back. Take packet sizes that leave 8 to 65535 bytes of payload, an
  FEC percentage up to 255 with at least four data shards per block, at most two required parity shards, and a
  cipher that decryption undoes. Building the packets of a frame throws when a parameter-set replacement of an
  IDR frame throws; otherwise, when the frame with its header fits 4092 packets, it does not throw, and a
  receiver that gets the packets, keeps the data shards, strips their headers and cuts the last one to the
  announced length obtains the frame header followed by the frame.
\<close>

theorem frame_roundtrip:
  fixes fi :: frame_input
  defines "text \<equiv> (if fi_is_idr fi then apply_replacements (fi_replacements fi) (fi_payload fi) else Some (fi_payload fi))"
  assumes "format_ok fmt" and "8 \<le> packetsize - nv_video_packet_size fmt"
    and "packetsize - nv_video_packet_size fmt < 65536"
    and "4 \<le> max_data_shards_per_fec_block fmt F" and "data_shards_max fmt \<le> 255" and "F \<le> 255"
    and "minparity \<le> 2"
    and "\<forall>e. cipher = Some e \<longrightarrow> (\<forall>v d. decrypt v (fst (e v d)) (snd (e v d)) = d)"
  shows "(text = None \<longrightarrow> packetize_frame fmt packetsize F minparity cipher frame_index timestamp lowseq iv fi = None) \<and>
    (\<forall>payload. text = Some payload \<and> 8 + length payload \<le> 4092 * (packetsize - nv_video_packet_size fmt) \<longrightarrow>
      (\<exists>ps lowseq' iv'.
        packetize_frame fmt packetsize F minparity cipher frame_index timestamp lowseq iv fi = Some (ps, lowseq', iv')
        \<and> reassemble (data_bodies fmt decrypt ps)
          = short_frame_header fmt packetsize (fi_is_idr fi) (fi_after_rfi fi) (fi_latency fi) (length payload) @ payload))"
proof (intro conjI allI impI)
  assume "text = None"
  then show "packetize_frame fmt packetsize F minparity cipher frame_index timestamp lowseq iv fi = None"
    by (simp add: packetize_frame_def frame_with_headers_def text_def)
next
  fix payload assume "text = Some payload \<and> 8 + length payload \<le> 4092 * (packetsize - nv_video_packet_size fmt)"
  then show "\<exists>ps lowseq' iv'.
        packetize_frame fmt packetsize F minparity cipher frame_index timestamp lowseq iv fi = Some (ps, lowseq', iv')
        \<and> reassemble (data_bodies fmt decrypt ps)
          = short_frame_header fmt packetsize (fi_is_idr fi) (fi_after_rfi fi) (fi_latency fi) (length payload) @ payload"
    using assms(2-) unfolding text_def by (intro packetize_reassembles) simp_all
qed

theorem frame_roundtrip_witness:
  "\<exists>ps lowseq' iv'.
     packetize_frame plain_format 40 20 2 (Some (\<lambda>iv d. (iv, d))) 3 900 7 0
       \<lparr>fi_is_idr = True, fi_after_rfi = False, fi_replacements = [([9, 9], [8])],
        fi_payload = [1, 9, 9, 2], fi_latency = 42\<rparr> = Some (ps, lowseq', iv')
     \<and> reassemble (data_bodies plain_format (\<lambda>_ _ d. d) ps) = [1, 42, 0, 2, 11, 0, 0, 0, 1, 8, 2]"
proof -
  let ?fi = "\<lparr>fi_is_idr = True, fi_after_rfi = False, fi_replacements = [([9, 9], [8])],
        fi_payload = [1, 9, 9, 2], fi_latency = 42\<rparr>"
  have "(if fi_is_idr ?fi then apply_replacements (fi_replacements ?fi) (fi_payload ?fi)
      else Some (fi_payload ?fi)) = Some [1, 8, 2]"
    by (simp add: replace_def Let_def)
  moreover have "short_frame_header plain_format 40 True False 42 (length [1, 8, 2 :: u8]) = [1, 42, 0, 2, 11, 0, 0, 0]"
    by (simp add: short_frame_header_def le16_def frame_type_def last_payload_len_def plain_format_def)
  ultimately show ?thesis
    using frame_roundtrip [of plain_format 40 20 2 "Some (\<lambda>iv d. (iv, d))" "\<lambda>_ _ d. d" ?fi 3 900 7 0]
    by (simp add: format_ok_def plain_format_def max_data_shards_per_fec_block_def)
qed

text \<open>
  The bound of two on the client's minimum parity in the round trip is needed: with one data
  shard and three required parity shards the reported percentage is 300, which
  overflows its eight bits into the shard index next to it, and the data shard is announced as
  shard 1.
\<close>

lemma min_parity_overflows_fec_info:
  "fec_parity 1 20 3 = (3, 300)" "fec_index (fec_info 0 1 300) = 1"
  by (simp_all add: fec_parity_def fec_index_def fec_info_def)

subsection \<open>Batches\<close>

lemma send_batches_cover:
  assumes "0 < batch" and "next \<le> x" and "x \<le> n" and "x - next < batch" and "x = n \<longrightarrow> next = n"
  shows "concat (map (\<lambda>(off, c). [off..<off + c]) (send_batches batch n next x)) = [next..<n]
    \<and> (\<forall>(off, c) \<in> set (send_batches batch n next x). 0 < c \<and> c \<le> batch)"
  using assms(2-)
proof (induction "n - x" arbitrary: "next" x)
  case 0
  then show ?case by (simp add: send_batches.simps)
next
  case (Suc k)
  then have x: "x < n" by simp
  show ?case
  proof (cases "x - next + 1 \<ge> batch \<or> x + 1 = n")
    case True
    have "concat (map (\<lambda>(off, c). [off..<off + c]) (send_batches batch n (x + 1) (x + 1))) = [x + 1..<n]
        \<and> (\<forall>(off, c) \<in> set (send_batches batch n (x + 1) (x + 1)). 0 < c \<and> c \<le> batch)"
      using Suc.hyps(2) x assms(1) by (intro Suc.hyps(1)) simp_all
    moreover have "[next..<n] = [next..<x + 1] @ [x + 1..<n]"
      using Suc.prems(1) x upt_add_eq_append [of "next" "x + 1" "n - (x + 1)"] by simp
    moreover have "send_batches batch n next x = (next, x - next + 1) # send_batches batch n (x + 1) (x + 1)"
      using x True by (subst send_batches.simps) simp
    ultimately show ?thesis using Suc.prems(1,3) by simp
  next
    case False
    then have "send_batches batch n next x = send_batches batch n next (x + 1)"
      using x by (subst send_batches.simps) simp
    moreover have "concat (map (\<lambda>(off, c). [off..<off + c]) (send_batches batch n next (x + 1))) = [next..<n]
        \<and> (\<forall>(off, c) \<in> set (send_batches batch n next (x + 1)). 0 < c \<and> c \<le> batch)"
      using Suc False x by (intro Suc.hyps(1)) auto
    ultimately show ?thesis by simp
  qed
qed

text \<open>
  Every shard of a block is submitted exactly once and in order, in non-empty batches; no
  batch exceeds 64 packets or the pacing quantum, nor, if it has more than one packet, the
  configured number of bytes or 64 KiB.
\<close>

theorem batches_partition_shards:
  fixes kb n :: nat
  assumes "0 < packets_per_quantum" and "0 < blocksize"
  defines "batches \<equiv> send_batches (send_batch_size kb blocksize packets_per_quantum) n 0 0"
  shows "concat (map (\<lambda>(off, c). [off..<off + c]) batches) = [0..<n]
    \<and> (\<forall>(off, c) \<in> set batches. 0 < c \<and> c \<le> 64 \<and> c \<le> packets_per_quantum
         \<and> (c = 1 \<or> c * blocksize \<le> min 65536 (kb * 1024)))"
proof -
  let ?m = "min (64 * 1024) (kb * 1024)" and ?b = "send_batch_size kb blocksize packets_per_quantum"
  have pos: "0 < ?b" and le: "?b \<le> 64" "?b \<le> packets_per_quantum" "?b \<le> max 1 (?m div blocksize)"
    using assms(1) by (simp_all add: send_batch_size_def Let_def)
  have bytes: "c = 1 \<or> c * blocksize \<le> ?m" if "0 < c" "c \<le> ?b" for c
  proof (cases "c = 1")
    case False
    with that le(3) have "c \<le> ?m div blocksize" by auto
    then have "c * blocksize \<le> ?m div blocksize * blocksize" by (rule mult_le_mono1)
    also have "\<dots> \<le> ?m" by (rule div_times_less_eq_dividend)
    finally show ?thesis by simp
  qed simp
  from send_batches_cover [OF pos, of 0 0 n] pos
  have cov: "concat (map (\<lambda>(off, c). [off..<off + c]) batches) = [0..<n]"
    and each: "\<forall>(off, c) \<in> set batches. 0 < c \<and> c \<le> ?b" by (auto simp: batches_def)
  have "0 < c \<and> c \<le> 64 \<and> c \<le> packets_per_quantum \<and> (c = 1 \<or> c * blocksize \<le> min 65536 (kb * 1024))"
    if "(off, c) \<in> set batches" for off c
  proof -
    from each that have "0 < c" "c \<le> ?b" by auto
    with le(1,2) bytes [of c] show ?thesis by simp
  qed
  with cov show ?thesis by auto
qed

theorem batches_partition_shards_witness:
  "send_batches (send_batch_size 2 1024 5) 5 0 0 = [(0, 2), (2, 2), (4, 1)]
   \<and> concat (map (\<lambda>(off, c). [off..<off + c]) (send_batches (send_batch_size 2 1024 5) 5 0 0)) = [0..<5]"
  using batches_partition_shards [of 5 1024 2 5]
  by (simp add: send_batches.simps send_batch_size_def Let_def)

end
