(* ===== verification/Pyrowave_Contract.thy ===== *)
theory Pyrowave_Contract
  imports Prelude
begin

unbundle bit_operations_syntax

text \<open>
  The contract of the PyroWave codec with its clients (\<^verbatim>\<open>src/pyrowave/contract.h\<close>): profiles and their
  wire bits, the parser of the client's FEC status, session limits, the adaptive FEC controller; and
  the control-stream handler that feeds it (\<^verbatim>\<open>src/stream.cpp\<close>). C++ \<open>int\<close> and \<open>int64_t\<close> values stay far
  inside their ranges and are integers; unsigned fields are words of their width. The two functions
  that scale by a \<open>double\<close> are left out.
\<close>

subsection \<open>Profiles\<close>

definition kServerSdr420 :: u32 where "kServerSdr420 = 0x00800000"
definition kServerSdr444 :: u32 where "kServerSdr444 = 0x01000000"
definition kServerHdr420 :: u32 where "kServerHdr420 = 0x02000000"
definition kServerHdr444 :: u32 where "kServerHdr444 = 0x04000000"

datatype profile = Sdr420 | Sdr444 | Hdr420 | Hdr444

definition profile_of :: "bool \<Rightarrow> bool \<Rightarrow> profile" where
  "profile_of hdr chroma444 =
     (if hdr then (if chroma444 then Hdr444 else Hdr420) else (if chroma444 then Sdr444 else Sdr420))"

definition profile_index :: "profile \<Rightarrow> nat" where
  "profile_index p = (case p of Sdr420 \<Rightarrow> 0 | Sdr444 \<Rightarrow> 1 | Hdr420 \<Rightarrow> 2 | Hdr444 \<Rightarrow> 3)"

definition profile_bit :: "profile \<Rightarrow> u8" where
  "profile_bit p = push_bit (profile_index p) 1"

definition profile_mask_supports :: "u8 \<Rightarrow> bool \<Rightarrow> bool \<Rightarrow> bool" where
  "profile_mask_supports profiles hdr chroma444 \<longleftrightarrow> (profiles AND profile_bit (profile_of hdr chroma444)) \<noteq> 0"

definition profile_server_bit :: "profile \<Rightarrow> u32" where
  "profile_server_bit p = (case p of Sdr420 \<Rightarrow> kServerSdr420 | Sdr444 \<Rightarrow> kServerSdr444
     | Hdr420 \<Rightarrow> kServerHdr420 | Hdr444 \<Rightarrow> kServerHdr444)"

definition server_codec_mask_for_profiles :: "u8 \<Rightarrow> bool \<Rightarrow> u32" where
  "server_codec_mask_for_profiles profiles allow_yuv444 =
     fold (\<lambda>p result.
         let is_444 = (p = Sdr444 \<or> p = Hdr444)
         in if (\<not> is_444 \<or> allow_yuv444) \<and> (profiles AND profile_bit p) \<noteq> 0
            then result OR profile_server_bit p else result)
       [Sdr420, Sdr444, Hdr420, Hdr444] 0"

definition parse_wire_bool :: "string \<Rightarrow> bool option" where
  "parse_wire_bool value = (if value = ''0'' then Some False else if value = ''1'' then Some True else None)"

subsection \<open>The client's FEC status\<close>

record frame_fec_status =
  frame_index :: u32
  highest_received_sequence :: u16
  next_contiguous_sequence :: u16
  missing_before_highest :: u16
  total_data_packets :: u16
  total_parity_packets :: u16
  received_data_packets :: u16
  received_parity_packets :: u16
  status_fec_percentage :: u8
  block_index :: u8
  block_count :: u8

definition has_loss :: "frame_fec_status \<Rightarrow> bool" where
  "has_loss s \<longleftrightarrow> missing_before_highest s \<noteq> 0 \<or>
     (ucast (received_data_packets s) :: u32) + ucast (received_parity_packets s)
       < ucast (total_data_packets s) + ucast (total_parity_packets s)"

definition unrecoverable :: "frame_fec_status \<Rightarrow> bool" where
  "unrecoverable s \<longleftrightarrow>
     (ucast (received_data_packets s) :: u32) + ucast (received_parity_packets s) < ucast (total_data_packets s)"

definition kFrameFecStatusWireSize :: nat where "kFrameFecStatusWireSize = 21"

definition be16 :: "u8 list \<Rightarrow> nat \<Rightarrow> u16" where
  "be16 payload offset = push_bit 8 (ucast (payload ! offset)) OR ucast (payload ! (offset + 1))"

definition be32 :: "u8 list \<Rightarrow> nat \<Rightarrow> u32" where
  "be32 payload offset = push_bit 24 (ucast (payload ! offset)) OR push_bit 16 (ucast (payload ! (offset + 1)))
     OR push_bit 8 (ucast (payload ! (offset + 2))) OR ucast (payload ! (offset + 3))"

definition parse_frame_fec_status :: "u8 list \<Rightarrow> frame_fec_status option" where
  "parse_frame_fec_status payload =
     (if length payload \<noteq> kFrameFecStatusWireSize then None
      else let result = \<lparr>frame_index = be32 payload 0, highest_received_sequence = be16 payload 4,
             next_contiguous_sequence = be16 payload 6, missing_before_highest = be16 payload 8,
             total_data_packets = be16 payload 10, total_parity_packets = be16 payload 12,
             received_data_packets = be16 payload 14, received_parity_packets = be16 payload 16,
             status_fec_percentage = payload ! 18, block_index = payload ! 19, block_count = payload ! 20\<rparr>
           in if total_data_packets result = 0 \<or> received_data_packets result > total_data_packets result \<or>
                 received_parity_packets result > total_parity_packets result \<or>
                 block_count result < 1 \<or> block_count result > 4 \<or> block_index result \<ge> block_count result
              then None else Some result)"

subsection \<open>Session limits\<close>

definition kDefaultBitrateKbps :: int where "kDefaultBitrateKbps = 700000"
definition kMaxBitrateMbps :: int where "kMaxBitrateMbps = 10000"

definition bitrate_kbps :: "int \<Rightarrow> u64" where
  "bitrate_kbps mbps = (if mbps < 0 \<or> mbps > kMaxBitrateMbps then 0
     else if mbps = 0 then of_int kDefaultBitrateKbps else of_int mbps * 1000)"

definition frame_budget_bytes :: "int \<Rightarrow> int \<Rightarrow> u64" where
  "frame_budget_bytes kbps fps =
     (if kbps \<le> 0 \<or> fps \<le> 0 then 0 else (of_int kbps * 1000) div (of_int fps * 8))"

definition max_frame_bytes :: "int \<Rightarrow> u64" where
  "max_frame_bytes packet_size =
     (if packet_size < 256 \<or> packet_size > 2048 then 0 else of_int (packet_size - 128) * (4 * 1023) - 1024)"

definition max_target_bytes :: "int \<Rightarrow> u64" where
  "max_target_bytes packet_size = (let hard_max = max_frame_bytes packet_size in hard_max - hard_max div 4)"

definition valid_session :: "int \<Rightarrow> int \<Rightarrow> int \<Rightarrow> int \<Rightarrow> int \<Rightarrow> bool" where
  "valid_session width height fps kbps packet_size \<longleftrightarrow>
     width \<ge> 128 \<and> width \<le> 8192 \<and> height \<ge> 128 \<and> height \<le> 8192 \<and> even width \<and> even height \<and>
     fps \<ge> 1 \<and> fps \<le> 240 \<and> kbps \<ge> 1 \<and> kbps \<le> 10000000 \<and> max_target_bytes packet_size > 0 \<and>
     frame_budget_bytes kbps fps \<le> max_target_bytes packet_size"

subsection \<open>The adaptive FEC controller\<close>

definition clamp :: "int \<Rightarrow> int \<Rightarrow> int \<Rightarrow> int" where
  "clamp v lo hi = (if v < lo then lo else if hi < v then hi else v)"

definition next_adaptive_fec_boost :: "int \<Rightarrow> int" where
  "next_adaptive_fec_boost current = (let bounded = clamp current 0 16 in if bounded \<ge> 12 then 16 else bounded + 4)"

definition effective_fec_percentage :: "int \<Rightarrow> int \<Rightarrow> int \<Rightarrow> int" where
  "effective_fec_percentage base boost elapsed_since_loss_ms =
     (let valid_base = max base 0
      in if elapsed_since_loss_ms \<ge> 10000 \<or> boost \<le> 0 \<or> valid_base \<ge> 25 then valid_base
         else valid_base + min boost (25 - valid_base))"

definition fec_video_scale_percent :: "int \<Rightarrow> int \<Rightarrow> int" where
  "fec_video_scale_percent base effective =
     (let valid_base = clamp base 0 1000000; valid_effective = clamp effective valid_base 1000000
      in if valid_effective \<le> valid_base then 100
         else let numerator = 100 * (100 + valid_base) in clamp (numerator div (100 + valid_effective)) 1 100)"

definition apply_video_scale_percent_u64 :: "u64 \<Rightarrow> int \<Rightarrow> u64" where
  "apply_video_scale_percent_u64 value percent =
     (let bounded = of_int (clamp percent 1 100)
      in (value div 100) * bounded + ((value mod 100) * bounded) div 100)"

definition apply_video_scale_percent :: "int \<Rightarrow> int \<Rightarrow> int" where
  "apply_video_scale_percent value percent =
     (if value \<le> 0 then 0
      else min (uint (apply_video_scale_percent_u64 (of_int value) percent)) 2147483647)"

record fec_update =
  up_fec_percentage :: int
  up_video_scale_percent :: int
  up_scale_changed :: bool

record fec_controller =
  fc_base :: int
  fc_boost :: int
  fc_last_scale :: int
  fc_last_loss_ms :: int
  fc_has_loss :: bool

definition fec_controller_init :: fec_controller where
  "fec_controller_init = \<lparr>fc_base = 0, fc_boost = 0, fc_last_scale = 100, fc_last_loss_ms = 0, fc_has_loss = False\<rparr>"

definition set_base :: "int \<Rightarrow> fec_controller \<Rightarrow> fec_controller" where
  "set_base base c = c\<lparr>fc_base := max base 0, fc_boost := 0, fc_last_loss_ms := 0, fc_has_loss := False,
     fc_last_scale := 100\<rparr>"

definition snapshot_locked :: "int \<Rightarrow> fec_controller \<Rightarrow> fec_controller \<times> fec_update" where
  "snapshot_locked elapsed_ms c =
     (let pct = effective_fec_percentage (fc_base c) (fc_boost c) elapsed_ms;
          scale = fec_video_scale_percent (fc_base c) pct
      in (c\<lparr>fc_last_scale := scale\<rparr>,
          \<lparr>up_fec_percentage = pct, up_video_scale_percent = scale, up_scale_changed = (scale \<noteq> fc_last_scale c)\<rparr>))"

definition report_loss :: "int \<Rightarrow> fec_controller \<Rightarrow> fec_controller \<times> fec_update" where
  "report_loss now_ms c =
     snapshot_locked 0 (c\<lparr>fc_last_loss_ms := now_ms, fc_has_loss := True,
       fc_boost := next_adaptive_fec_boost (fc_boost c)\<rparr>)"

definition sample :: "int \<Rightarrow> fec_controller \<Rightarrow> fec_controller \<times> fec_update" where
  "sample now_ms c =
     (let elapsed_ms = (if fc_has_loss c then max 0 (now_ms - fc_last_loss_ms c) else 10000)
      in case snapshot_locked elapsed_ms c of (c', result) \<Rightarrow>
           (if elapsed_ms \<ge> 10000 then c'\<lparr>fc_boost := 0\<rparr> else c', result))"

subsection \<open>The feedback handler\<close>

record feedback_config =
  fb_is_pyrowave :: bool
  fb_adaptive_fec :: int
  fb_adaptive_bitrate :: int
  fb_refresh_interval :: int

record feedback_state =
  fb_frame_transmitted :: bool
  fb_last_loss_frame :: u32
  fb_last_unrecoverable_frame :: u32
  fb_fec :: fec_controller

datatype feedback_event = FecScale int | Loss | Idr

definition on_frame_fec_status ::
  "feedback_config \<Rightarrow> int \<Rightarrow> u8 list \<Rightarrow> feedback_state \<Rightarrow> feedback_state \<times> feedback_event list" where
  "on_frame_fec_status cfg now_ms payload st =
     (if \<not> fb_is_pyrowave cfg then (st, [])
      else case parse_frame_fec_status payload of
        None \<Rightarrow> (st, [])
      | Some status \<Rightarrow>
          if \<not> fb_frame_transmitted st \<or> \<not> has_loss status then (st, [])
          else
            let first = (fb_last_loss_frame st \<noteq> frame_index status);
                st1 = st\<lparr>fb_last_loss_frame := frame_index status\<rparr>;
                (st2, ev2) =
                  (if first then
                     let (st', ev') =
                           (if fb_adaptive_fec cfg \<noteq> 0 then
                              (case report_loss now_ms (fb_fec st1) of (c, update) \<Rightarrow>
                                 (st1\<lparr>fb_fec := c\<rparr>,
                                  if up_scale_changed update then [FecScale (up_video_scale_percent update)] else []))
                            else (st1, []))
                     in (st', ev' @ (if fb_adaptive_bitrate cfg \<noteq> 0 then [Loss] else []))
                   else (st1, []))
            in if unrecoverable status \<and> fb_refresh_interval cfg > 0 then
                 (st2\<lparr>fb_last_unrecoverable_frame := frame_index status\<rparr>,
                  ev2 @ (if fb_last_unrecoverable_frame st2 \<noteq> frame_index status then [Idr] else []))
               else (st2, ev2))"

subsection \<open>The controller keeps the wire budget\<close>

datatype fec_op = SetBase int | ReportLoss int | Sample int

definition fec_step :: "fec_controller \<Rightarrow> fec_op \<Rightarrow> fec_controller \<times> fec_update option" where
  "fec_step c op = (case op of
     SetBase base \<Rightarrow> (set_base base c, None)
   | ReportLoss now_ms \<Rightarrow> map_prod id Some (report_loss now_ms c)
   | Sample now_ms \<Rightarrow> map_prod id Some (sample now_ms c))"

definition fec_ok :: "fec_controller \<Rightarrow> bool" where
  "fec_ok c \<longleftrightarrow> 0 \<le> fc_base c \<and> 0 \<le> fc_boost c \<and> fc_boost c \<le> 16"

lemma next_boost_range: "0 \<le> next_adaptive_fec_boost b \<and> next_adaptive_fec_boost b \<le> 16"
  by (simp add: next_adaptive_fec_boost_def clamp_def Let_def)

interpretation fec_run: machine_invariant fec_step fec_ok
  using next_boost_range
  by unfold_locales
    (auto simp: fec_ok_def fec_step_def set_base_def report_loss_def sample_def snapshot_locked_def Let_def
      split: fec_op.splits)

lemma effective_range:
  "0 \<le> base \<Longrightarrow> base \<le> effective_fec_percentage base boost e \<and> effective_fec_percentage base boost e \<le> max base 25"
  by (auto simp: effective_fec_percentage_def Let_def)

lemma scale_budget:
  assumes "0 \<le> base" and "base \<le> eff" and "eff \<le> max base 25"
  shows "1 \<le> fec_video_scale_percent base eff \<and> fec_video_scale_percent base eff \<le> 100 \<and>
    fec_video_scale_percent base eff * (100 + eff) \<le> 100 * (100 + base)"
proof (cases "eff = base")
  case True
  then show ?thesis using assms by (auto simp: fec_video_scale_percent_def clamp_def Let_def)
next
  case False
  with assms have b: "base < 25" "base < eff" "eff \<le> 25" by auto
  define q where "q = 100 * (100 + base) div (100 + eff)"
  have q1: "1 \<le> q"
    using b assms(1) by (auto simp: q_def int_one_le_iff_zero_less pos_imp_zdiv_pos_iff)
  have q2: "q * (100 + eff) \<le> 100 * (100 + base)"
  proof -
    have "0 \<le> 100 * (100 + base) mod (100 + eff)" using b assms(1) by simp
    with div_mult_mod_eq [of "100 * (100 + base)" "100 + eff"] show ?thesis
      unfolding q_def by linarith
  qed
  have q3: "q \<le> 100"
  proof -
    have "q * (100 + eff) \<le> 100 * (100 + eff)" using q2 b by simp
    then show ?thesis by (rule mult_right_le_imp_le) (use b assms(1) in simp)
  qed
  have "fec_video_scale_percent base eff = q"
    using b assms(1) q1 q3 by (auto simp: fec_video_scale_percent_def clamp_def Let_def q_def)
  with q1 q2 q3 show ?thesis by simp
qed

definition scale_before :: "fec_update option list \<Rightarrow> int" where
  "scale_before outs =
     (if outs = [] then 100 else case last outs of None \<Rightarrow> 100 | Some u \<Rightarrow> up_video_scale_percent u)"

lemma scale_before_snoc: "scale_before (outs @ [x]) = (case x of None \<Rightarrow> 100 | Some u \<Rightarrow> up_video_scale_percent u)"
  by (simp add: scale_before_def)

lemma last_scale_tracks:
  "fc_last_scale (machine_state fec_step fec_controller_init ops) =
     scale_before (machine_outputs fec_step fec_controller_init ops)"
proof (induction ops rule: rev_induct)
  case (snoc op ops)
  show ?case
    by (cases op) (simp_all add: scale_before_snoc fec_step_def set_base_def report_loss_def sample_def
        snapshot_locked_def Let_def)
qed (simp add: fec_controller_init_def scale_before_def)

lemma sample_expired:
  assumes "0 \<le> fc_base c" and "fc_has_loss c \<longrightarrow> 10000 \<le> t - fc_last_loss_ms c"
  shows "up_fec_percentage (snd (sample t c)) = fc_base c \<and> up_video_scale_percent (snd (sample t c)) = 100 \<and>
    fc_boost (fst (sample t c)) = 0"
proof -
  define e where "e = (if fc_has_loss c then max 0 (t - fc_last_loss_ms c) else 10000)"
  have e: "10000 \<le> e" using assms(2) by (auto simp: e_def)
  have "effective_fec_percentage (fc_base c) (fc_boost c) e = fc_base c"
    using e assms(1) by (simp add: effective_fec_percentage_def Let_def)
  moreover have "fec_video_scale_percent (fc_base c) (fc_base c) = 100"
    using assms(1) by (simp add: fec_video_scale_percent_def clamp_def Let_def)
  ultimately show ?thesis
    using e by (simp add: sample_def snapshot_locked_def Let_def flip: e_def)
qed

text \<open>
  C38. Adaptive FEC stays inside the negotiated wire budget: over every sequence of configurations,
  loss reports and samples, each update announces a parity percentage between the configured base and
  the larger of the base and 25, and a video scale between 1 and 100 such that scaled video plus
  parity is at most the unscaled video with the base parity; it says that the scale changed exactly
  when it differs from the last one announced. A sample ten seconds after the last loss is back at
  the base and full scale, and clears the boost.
\<close>

theorem adaptive_fec_within_budget:
  fixes ops
  defines "c n \<equiv> machine_state fec_step fec_controller_init (take n ops)"
    and "outs \<equiv> machine_outputs fec_step fec_controller_init ops"
  shows "\<forall>n < length ops. \<forall>u. outs ! n = Some u \<longrightarrow>
      fc_base (c n) \<le> up_fec_percentage u \<and> up_fec_percentage u \<le> max (fc_base (c n)) 25 \<and>
      1 \<le> up_video_scale_percent u \<and> up_video_scale_percent u \<le> 100 \<and>
      up_video_scale_percent u * (100 + up_fec_percentage u) \<le> 100 * (100 + fc_base (c n)) \<and>
      (up_scale_changed u \<longleftrightarrow> up_video_scale_percent u \<noteq> scale_before (take n outs)) \<and>
      (\<forall>t. ops ! n = Sample t \<and> (fc_has_loss (c n) \<longrightarrow> 10000 \<le> t - fc_last_loss_ms (c n)) \<longrightarrow>
         up_fec_percentage u = fc_base (c n) \<and> up_video_scale_percent u = 100 \<and> fc_boost (c (Suc n)) = 0)"
proof (intro allI impI)
  fix n u
  assume n: "n < length ops" and u: "outs ! n = Some u"
  let ?c = "c n"
  have ok: "fec_ok ?c"
    unfolding c_def by (rule fec_run.run_inv) (simp add: fec_ok_def fec_controller_init_def)
  have step: "snd (fec_step ?c (ops ! n)) = Some u" and next_c: "c (Suc n) = fst (fec_step ?c (ops ! n))"
    using n u by (simp_all add: outs_def c_def machine_outputs_nth take_Suc_conv_app_nth)
  have before: "scale_before (take n outs) = fc_last_scale ?c"
  proof -
    have "take n outs = machine_outputs fec_step fec_controller_init (take n ops)"
      using n machine_outputs_append [of fec_step fec_controller_init "take n ops" "drop n ops"]
      by (simp add: outs_def)
    then show ?thesis by (simp add: c_def last_scale_tracks)
  qed
  have base: "0 \<le> fc_base ?c" using ok by (simp add: fec_ok_def)
  obtain boost e where pct: "up_fec_percentage u = effective_fec_percentage (fc_base ?c) boost e"
    and scale: "up_video_scale_percent u = fec_video_scale_percent (fc_base ?c) (up_fec_percentage u)"
    and changed: "up_scale_changed u \<longleftrightarrow> up_video_scale_percent u \<noteq> fc_last_scale ?c"
    using step by (cases "ops ! n") (auto simp: fec_step_def report_loss_def sample_def snapshot_locked_def Let_def)
  note range = effective_range [OF base, of boost e, folded pct]
  note budget = scale_budget [OF base, of "up_fec_percentage u", folded scale]
  have expiry: "up_fec_percentage u = fc_base ?c \<and> up_video_scale_percent u = 100 \<and> fc_boost (c (Suc n)) = 0"
    if t: "ops ! n = Sample t" "fc_has_loss ?c \<longrightarrow> 10000 \<le> t - fc_last_loss_ms ?c" for t
    using sample_expired [OF base t(2)] step by (auto simp: next_c fec_step_def t(1))
  show "fc_base ?c \<le> up_fec_percentage u \<and> up_fec_percentage u \<le> max (fc_base ?c) 25 \<and>
      1 \<le> up_video_scale_percent u \<and> up_video_scale_percent u \<le> 100 \<and>
      up_video_scale_percent u * (100 + up_fec_percentage u) \<le> 100 * (100 + fc_base ?c) \<and>
      (up_scale_changed u \<longleftrightarrow> up_video_scale_percent u \<noteq> scale_before (take n outs)) \<and>
      (\<forall>t. ops ! n = Sample t \<and> (fc_has_loss ?c \<longrightarrow> 10000 \<le> t - fc_last_loss_ms ?c) \<longrightarrow>
         up_fec_percentage u = fc_base ?c \<and> up_video_scale_percent u = 100 \<and> fc_boost (c (Suc n)) = 0)"
    unfolding before using range budget changed expiry by blast
qed

theorem adaptive_fec_within_budget_witness:
  "\<exists>u. machine_outputs fec_step fec_controller_init [SetBase 20, ReportLoss 0] ! 1 = Some u \<and>
     up_video_scale_percent u * (100 + up_fec_percentage u) \<le> 100 * (100 + 20)"
proof -
  let ?ops = "[SetBase 20, ReportLoss 0]"
  obtain u where u: "machine_outputs fec_step fec_controller_init ?ops ! 1 = Some u"
    by (simp add: fec_step_def report_loss_def snapshot_locked_def Let_def)
  moreover have "fc_base (machine_state fec_step fec_controller_init (take 1 ?ops)) = 20"
    by (simp add: fec_step_def set_base_def)
  ultimately show ?thesis using adaptive_fec_within_budget [of ?ops] by fastforce
qed

subsection \<open>The status on the wire\<close>

text \<open>The packed big-endian layout the client sends.\<close>

definition bytes_be16 :: "u16 \<Rightarrow> u8 list" where
  "bytes_be16 w = [ucast (drop_bit 8 w), ucast w]"

definition bytes_be32 :: "u32 \<Rightarrow> u8 list" where
  "bytes_be32 w = [ucast (drop_bit 24 w), ucast (drop_bit 16 w), ucast (drop_bit 8 w), ucast w]"

definition status_wire :: "frame_fec_status \<Rightarrow> u8 list" where
  "status_wire s = bytes_be32 (frame_index s) @ bytes_be16 (highest_received_sequence s) @
     bytes_be16 (next_contiguous_sequence s) @ bytes_be16 (missing_before_highest s) @
     bytes_be16 (total_data_packets s) @ bytes_be16 (total_parity_packets s) @
     bytes_be16 (received_data_packets s) @ bytes_be16 (received_parity_packets s) @
     [status_fec_percentage s, block_index s, block_count s]"

definition status_valid :: "frame_fec_status \<Rightarrow> bool" where
  "status_valid s \<longleftrightarrow> total_data_packets s \<noteq> 0 \<and> received_data_packets s \<le> total_data_packets s \<and>
     received_parity_packets s \<le> total_parity_packets s \<and> 1 \<le> block_count s \<and> block_count s \<le> 4 \<and>
     block_index s < block_count s"

lemma join_be16: "push_bit 8 (ucast (ucast (drop_bit 8 w) :: u8)) OR ucast (ucast w :: u8) = (w :: u16)"
  by (rule bit_eqI) (auto simp: bit_simps)

lemma join_be32:
  "push_bit 24 (ucast (ucast (drop_bit 24 w) :: u8)) OR push_bit 16 (ucast (ucast (drop_bit 16 w) :: u8)) OR
     push_bit 8 (ucast (ucast (drop_bit 8 w) :: u8)) OR ucast (ucast w :: u8) = (w :: u32)"
proof (rule bit_eqI, goal_cases)
  case (1 n)
  then show ?case by (cases "n < 16"; cases "n < 24") (auto simp: bit_simps)
qed

lemma split_be16:
  "bytes_be16 (push_bit 8 (ucast a) OR ucast b) = [a, b]"
  by (auto simp: bytes_be16_def intro!: bit_eqI) (auto simp: bit_simps dest!: bit_imp_le_length)

lemma split_be32:
  "bytes_be32 (push_bit 24 (ucast a) OR push_bit 16 (ucast b) OR push_bit 8 (ucast c) OR ucast d) = [a, b, c, d]"
  by (auto simp: bytes_be32_def intro!: bit_eqI) (auto simp: bit_simps dest!: bit_imp_le_length)

lemma unat_widen: "unat (ucast (w :: u16) :: u32) = unat w"
  using unsigned_less [of w, where ?'a = nat] by (simp add: unsigned_ucast_eq take_bit_nat_eq_self)

lemma status_wire_length: "length (status_wire s) = 21"
  by (simp add: status_wire_def bytes_be16_def bytes_be32_def)

lemma parse_status_wire: "parse_frame_fec_status (status_wire s) = (if status_valid s then Some s else None)"
proof -
  have "be32 (status_wire s) 0 = frame_index s" "be16 (status_wire s) 4 = highest_received_sequence s"
    "be16 (status_wire s) 6 = next_contiguous_sequence s" "be16 (status_wire s) 8 = missing_before_highest s"
    "be16 (status_wire s) 10 = total_data_packets s" "be16 (status_wire s) 12 = total_parity_packets s"
    "be16 (status_wire s) 14 = received_data_packets s" "be16 (status_wire s) 16 = received_parity_packets s"
    "status_wire s ! 18 = status_fec_percentage s" "status_wire s ! 19 = block_index s"
    "status_wire s ! 20 = block_count s"
    by (simp_all add: be32_def be16_def status_wire_def bytes_be16_def bytes_be32_def join_be16 join_be32)
  then show ?thesis
    by (auto simp: parse_frame_fec_status_def kFrameFecStatusWireSize_def status_wire_length status_valid_def Let_def
        not_le not_less)
qed

lemma status_wire_surj:
  assumes "length p = 21"
  shows "\<exists>s. p = status_wire s"
proof -
  let ?s = "\<lparr>frame_index = be32 p 0, highest_received_sequence = be16 p 4,
     next_contiguous_sequence = be16 p 6, missing_before_highest = be16 p 8, total_data_packets = be16 p 10,
     total_parity_packets = be16 p 12, received_data_packets = be16 p 14, received_parity_packets = be16 p 16,
     status_fec_percentage = p ! 18, block_index = p ! 19, block_count = p ! 20\<rparr>"
  have "status_wire ?s = [p ! 0, p ! 1, p ! 2, p ! 3, p ! 4, p ! 5, p ! 6, p ! 7, p ! 8, p ! 9, p ! 10, p ! 11,
     p ! 12, p ! 13, p ! 14, p ! 15, p ! 16, p ! 17, p ! 18, p ! 19, p ! 20]"
    by (simp add: status_wire_def be32_def be16_def split_be16 split_be32 numeral_2_eq_2)
  also have "\<dots> = map (\<lambda>i. p ! i) [0..<21]" by (simp add: upt_rec eval_nat_numeral)
  also have "\<dots> = p" using map_nth [of p] assms by simp
  finally show ?thesis by metis
qed

text \<open>
  The parser of the client's FEC status accepts exactly the valid statuses: a payload is accepted
  with result \<open>s\<close> exactly when it is the 21-byte big-endian encoding of \<open>s\<close> and \<open>s\<close> is consistent (some
  data packets, nothing received beyond the totals, one of one to four blocks). Every other payload
  is dropped, and on an accepted status the comparisons of the packet counts cannot wrap around.
\<close>

theorem parse_frame_fec_status_exact:
  "(parse_frame_fec_status p = Some s \<longleftrightarrow> p = status_wire s \<and> status_valid s) \<and>
   (unrecoverable s \<longleftrightarrow> unat (received_data_packets s) + unat (received_parity_packets s) < unat (total_data_packets s))"
proof
  show "parse_frame_fec_status p = Some s \<longleftrightarrow> p = status_wire s \<and> status_valid s"
  proof
    assume some: "parse_frame_fec_status p = Some s"
    then have "length p = 21"
      by (auto simp: parse_frame_fec_status_def kFrameFecStatusWireSize_def split: if_splits)
    then obtain s' where "p = status_wire s'" using status_wire_surj by blast
    with some show "p = status_wire s \<and> status_valid s" by (simp add: parse_status_wire split: if_splits)
  qed (simp add: parse_status_wire)
  show "unrecoverable s \<longleftrightarrow> unat (received_data_packets s) + unat (received_parity_packets s) < unat (total_data_packets s)"
    using unsigned_less [of "received_data_packets s", where ?'a = nat]
      unsigned_less [of "received_parity_packets s", where ?'a = nat]
    by (simp add: unrecoverable_def word_less_nat_alt unat_word_ariths unat_widen)
qed

end
