(* ===== verification/Encoder_Probe.thy ===== *)
theory Encoder_Probe
  imports Prelude
begin

unbundle bit_operations_syntax

text \<open>
  The encoder probe of \<^verbatim>\<open>src/video.cpp\<close>: \<open>validate_config\<close>, \<open>validate_encoder\<close> with its fault shield
  \<open>validate_encoder_safe\<close> (\<^verbatim>\<open>src/encoder_probe_shield.h\<close>), the registry of codecs whose
  probe faulted (\<^verbatim>\<open>src/encoder_probe_suppression.h\<close>), the probe cache, the selection in
  \<open>probe_encoders\<close>, and the snapshot that carries its result to a worker process.

  What the graphics drivers answer is a parameter, \<open>driver\<close>: whether a display is obtained for a
  configuration, whether a codec is supported, and how one validation run of a configuration goes.
  Each of the three may also fault, which is \<open>None\<close>. The answers of one pass are functions of the
  configuration: the code asks no question twice within a pass except a repeated validation,
  which has its attempt number.
\<close>

subsection \<open>Codecs and the registry of faulted probes\<close>

datatype codec = c_h264 | c_hevc | c_av1 | c_unattributed

definition is_suppressible :: "codec \<Rightarrow> bool" where
  "is_suppressible codec = (codec = c_hevc \<or> codec = c_av1)"

definition codec_name :: "codec \<Rightarrow> string" where
  "codec_name codec = (case codec of c_h264 \<Rightarrow> ''H.264'' | c_hevc \<Rightarrow> ''HEVC'' | c_av1 \<Rightarrow> ''AV1''
     | c_unattributed \<Rightarrow> ''an unattributed stage'')"

definition index_of :: "codec \<Rightarrow> nat" where
  "index_of codec = (case codec of c_h264 \<Rightarrow> 0 | c_hevc \<Rightarrow> 1 | c_av1 \<Rightarrow> 2 | c_unattributed \<Rightarrow> 3)"

type_synonym registry = "string \<rightharpoonup> bool list"

definition suppress :: "registry \<Rightarrow> string \<Rightarrow> codec \<Rightarrow> registry" where
  "suppress entries encoder_name codec =
     (if \<not> is_suppressible codec then entries
      else entries(encoder_name \<mapsto>
        (case entries encoder_name of None \<Rightarrow> replicate 3 False | Some a \<Rightarrow> a)[index_of codec := True]))"

definition is_suppressed :: "registry \<Rightarrow> string \<Rightarrow> codec \<Rightarrow> bool" where
  "is_suppressed entries encoder_name codec =
     (if \<not> is_suppressible codec then False
      else case entries encoder_name of None \<Rightarrow> False | Some a \<Rightarrow> a ! index_of codec)"

definition registry_clear :: "registry \<Rightarrow> registry" where
  "registry_clear entries = Map.empty"

subsection \<open>Encoders and their capability bits\<close>

datatype flag = PASSED | REF_FRAMES_RESTRICT | DYNAMIC_RANGE | YUV444 | VUI_PARAMETERS

type_synonym capabilities = "flag \<Rightarrow> bool"

abbreviation caps_set :: capabilities where "caps_set \<equiv> (\<lambda>_. True)"
abbreviation caps_reset :: capabilities where "caps_reset \<equiv> (\<lambda>_. False)"

record encoder =
  enc_name :: string
  enc_dev_type :: nat
  enc_flags :: u32
  enc_h264 :: capabilities
  enc_hevc :: capabilities
  enc_av1 :: capabilities

definition H264_ONLY :: u32 where "H264_ONLY = push_bit 2 1"
definition REF_FRAMES_INVALIDATION :: u32 where "REF_FRAMES_INVALIDATION = push_bit 8 1"
definition YUV444_SUPPORT :: u32 where "YUV444_SUPPORT = push_bit 10 1"

definition has_flag :: "encoder \<Rightarrow> u32 \<Rightarrow> bool" where
  "has_flag e f = (enc_flags e AND f \<noteq> 0)"

definition enc_caps :: "encoder \<Rightarrow> codec \<Rightarrow> capabilities" where
  "enc_caps e c = (case c of c_hevc \<Rightarrow> enc_hevc e | c_av1 \<Rightarrow> enc_av1 e | _ \<Rightarrow> enc_h264 e)"

definition set_caps :: "codec \<Rightarrow> capabilities \<Rightarrow> encoder \<Rightarrow> encoder" where
  "set_caps c caps e = (case c of c_hevc \<Rightarrow> e\<lparr>enc_hevc := caps\<rparr> | c_av1 \<Rightarrow> e\<lparr>enc_av1 := caps\<rparr>
     | _ \<Rightarrow> e\<lparr>enc_h264 := caps\<rparr>)"

definition all_caps :: "capabilities \<Rightarrow> encoder \<Rightarrow> encoder" where
  "all_caps caps e = e\<lparr>enc_h264 := caps, enc_hevc := caps, enc_av1 := caps\<rparr>"

subsection \<open>Configurations and drivers\<close>

record config =
  cfg_width :: int
  cfg_height :: int
  cfg_framerate :: int
  cfg_framerateX100 :: int
  cfg_bitrate :: int
  cfg_slicesPerFrame :: int
  cfg_numRefFrames :: int
  cfg_encoderCscMode :: int
  cfg_videoFormat :: int
  cfg_dynamicRange :: int
  cfg_prefer_sdr_10bit :: bool
  cfg_chromaSamplingType :: int
  cfg_enableIntraRefresh :: int

definition config_sdr :: "int \<Rightarrow> config" where
  "config_sdr numRefFrames = \<lparr>cfg_width = 1920, cfg_height = 1080, cfg_framerate = 60,
     cfg_framerateX100 = 6000, cfg_bitrate = 1000, cfg_slicesPerFrame = 1,
     cfg_numRefFrames = numRefFrames, cfg_encoderCscMode = 1, cfg_videoFormat = 0,
     cfg_dynamicRange = 0, cfg_prefer_sdr_10bit = False, cfg_chromaSamplingType = 0,
     cfg_enableIntraRefresh = 0\<rparr>"

definition config_max_ref_frames :: config where "config_max_ref_frames = config_sdr 1"
definition config_autoselect :: config where "config_autoselect = config_sdr 0"
definition config_h264_yuv444 :: config where
  "config_h264_yuv444 = (config_sdr 0)\<lparr>cfg_chromaSamplingType := 1\<rparr>"
definition generic_hdr_config :: config where
  "generic_hdr_config = (config_sdr 0)\<lparr>cfg_encoderCscMode := 3, cfg_videoFormat := 1, cfg_dynamicRange := 1\<rparr>"

text \<open>One validation run: whether the encode device, the session and the converted image were
  obtained, and the packet the encode loop ends with (\<open>None\<close> when \<open>encode\<close> reports an error): whether
  it is an IDR frame, whether it is an avcodec packet, and whether its SPS is valid.\<close>

record probe_run =
  pr_device :: bool
  pr_session :: bool
  pr_image :: bool
  pr_packet :: "(bool \<times> bool \<times> bool) option"

record driver =
  drv_reset_display :: "nat \<Rightarrow> config \<Rightarrow> bool option"
  drv_supported :: "string \<Rightarrow> codec \<Rightarrow> config \<Rightarrow> bool option"
  drv_run :: "string \<Rightarrow> config \<Rightarrow> nat \<Rightarrow> probe_run option"

definition validate_once :: "config \<Rightarrow> probe_run \<Rightarrow> int option" where
  "validate_once config run =
     (if \<not> pr_device run then None
      else if \<not> pr_session run then None
      else if \<not> pr_image run then None
      else case pr_packet run of
             None \<Rightarrow> None
           | Some (idr, avcodec, sps) \<Rightarrow>
               if \<not> idr then None
               else Some (if cfg_videoFormat config \<le> 1
                          then if avcodec then (if sps then 1 else 0) else 1
                          else 0))"

text \<open>The retry loop; the outer \<open>None\<close> is a fault.\<close>

fun validate_attempts :: "driver \<Rightarrow> string \<Rightarrow> config \<Rightarrow> nat \<Rightarrow> nat \<Rightarrow> int option" where
  "validate_attempts drv name config attempt 0 = Some (-1)"
| "validate_attempts drv name config attempt (Suc left) =
     (case drv_run drv name config attempt of
        None \<Rightarrow> None
      | Some run \<Rightarrow>
          (case validate_once config run of
             Some flag \<Rightarrow> Some flag
           | None \<Rightarrow> validate_attempts drv name config (attempt + 1) left))"

definition validate_config :: "driver \<Rightarrow> string \<Rightarrow> config \<Rightarrow> int option" where
  "validate_config drv name config =
     validate_attempts drv name config 1 (if 1 \<le> cfg_videoFormat config then 3 else 1)"

subsection \<open>Validating one encoder\<close>

text \<open>
  The state a probe works on: the encoder, which codec is in flight, and the device type of the
  cached probe display. A stage faults, returns from \<open>validate_encoder\<close>, or goes on.
\<close>

record probe_state =
  ps_encoder :: encoder
  ps_in_flight :: codec
  ps_cached :: "nat option"

datatype 'a stage = Fault | Return bool | Next 'a

definition andthen ::
  "probe_state \<times> 'a stage \<Rightarrow> (probe_state \<Rightarrow> 'a \<Rightarrow> probe_state \<times> 'b stage) \<Rightarrow> probe_state \<times> 'b stage" where
  "andthen r k = (case snd r of Fault \<Rightarrow> (fst r, Fault) | Return b \<Rightarrow> (fst r, Return b) | Next a \<Rightarrow> k (fst r) a)"

definition ask :: "'a option \<Rightarrow> probe_state \<Rightarrow> probe_state \<times> 'a stage" where
  "ask answer st = (st, case answer of None \<Rightarrow> Fault | Some a \<Rightarrow> Next a)"

record probe_settings =
  set_hevc_mode :: int
  set_av1_mode :: int
  set_force_header_replace :: bool

definition test_codec :: "probe_settings \<Rightarrow> registry \<Rightarrow> encoder \<Rightarrow> codec \<Rightarrow> bool" where
  "test_codec cfg reg e c =
     (let mode = (if c = c_hevc then set_hevc_mode cfg else set_av1_mode cfg)
      in (2 \<le> mode \<or> mode = 0 \<and> \<not> has_flag e H264_ONLY) \<and> \<not> is_suppressed reg (enc_name e) c)"

text \<open>Up to the check that H.264 is supported at all: everything here is shared setup.\<close>

definition stage_display :: "driver \<Rightarrow> probe_state \<Rightarrow> probe_state \<times> unit stage" where
  "stage_display drv st0 =
     (let st = st0\<lparr>ps_encoder := all_caps caps_set (ps_encoder st0)\<rparr>; e = ps_encoder st;
          cleared = (\<lambda>s. s\<lparr>ps_encoder := all_caps caps_reset (ps_encoder s)\<rparr>)
      in andthen
           (if ps_cached st = Some (enc_dev_type e) then (st, Next True)
            else andthen (ask (drv_reset_display drv (enc_dev_type e) config_autoselect) st)
                   (\<lambda>s ok. (s\<lparr>ps_cached := if ok then Some (enc_dev_type e) else None\<rparr>, Next ok)))
           (\<lambda>s disp.
              if \<not> disp then (cleared s, Return False)
              else andthen (ask (drv_supported drv (enc_name e) c_h264 config_autoselect) s)
                     (\<lambda>s supported.
                        if \<not> supported then (cleared s, Return False)
                        else (s\<lparr>ps_in_flight := c_h264\<rparr>, Next ()))))"

text \<open>The H.264 probe; it hands on the result with the maximum number of reference frames.\<close>

definition vui_flag :: "int \<Rightarrow> int \<Rightarrow> bool" where
  "vui_flag a b = (a AND 1 \<noteq> 0 \<and> b AND 1 \<noteq> 0)"

definition stage_h264 :: "driver \<Rightarrow> bool \<Rightarrow> probe_state \<Rightarrow> probe_state \<times> int stage" where
  "stage_h264 drv expect_failure st =
     (let name = enc_name (ps_encoder st); run = (\<lambda>c s. ask (validate_config drv name c) s) in
      andthen (if expect_failure then (st, Next (-1)) else run config_max_ref_frames st)
        (\<lambda>s max_ref. andthen (if 0 \<le> max_ref then (s, Next max_ref) else run config_autoselect s)
          (\<lambda>s autoselect.
             if autoselect < 0
             then (s\<lparr>ps_encoder := all_caps caps_reset (ps_encoder s)\<rparr>, Return False)
             else andthen (if expect_failure then run config_max_ref_frames s else (s, Next max_ref))
               (\<lambda>s max_ref.
                  (s\<lparr>ps_encoder := (ps_encoder s)\<lparr>enc_h264 := (enc_h264 (ps_encoder s))
                       (VUI_PARAMETERS := vui_flag max_ref autoselect,
                        REF_FRAMES_RESTRICT := 0 \<le> max_ref, PASSED := True)\<rparr>\<rparr>, Next max_ref)))))"

text \<open>The probe of HEVC or AV1 (the two blocks of the source differ only in the codec).\<close>

definition codec_format :: "codec \<Rightarrow> int" where
  "codec_format c = (case c of c_hevc \<Rightarrow> 1 | c_av1 \<Rightarrow> 2 | _ \<Rightarrow> 0)"

definition stage_codec :: "driver \<Rightarrow> bool \<Rightarrow> codec \<Rightarrow> int \<Rightarrow> probe_state \<Rightarrow> probe_state \<times> unit stage" where
  "stage_codec drv test c max_ref_h264 st0 =
     (if \<not> test then (st0\<lparr>ps_encoder := set_caps c caps_reset (ps_encoder st0)\<rparr>, Next ())
      else let st = st0\<lparr>ps_in_flight := c\<rparr>; name = enc_name (ps_encoder st);
               with_format = (\<lambda>cfg. cfg\<lparr>cfg_videoFormat := codec_format c\<rparr>);
               run = (\<lambda>cfg s. ask (validate_config drv name (with_format cfg)) s)
           in andthen (ask (drv_supported drv name c (with_format config_autoselect)) st)
             (\<lambda>s supported.
                if \<not> supported then (s\<lparr>ps_encoder := set_caps c caps_reset (ps_encoder s)\<rparr>, Next ())
                else andthen (run config_max_ref_frames s)
                  (\<lambda>s max_ref. andthen
                     (if 0 \<le> max_ref \<or> 0 \<le> max_ref_h264 then (s, Next max_ref) else run config_autoselect s)
                     (\<lambda>s autoselect.
                        (s\<lparr>ps_encoder := set_caps c ((enc_caps (ps_encoder s) c)
                             (VUI_PARAMETERS := vui_flag max_ref autoselect,
                              REF_FRAMES_RESTRICT := 0 \<le> max_ref,
                              PASSED := 0 \<le> max_ref \<or> 0 \<le> autoselect)) (ps_encoder s)\<rparr>, Next ())))))"

text \<open>The H.264 4:4:4 probe, then the shared reset from SDR to HDR.\<close>

definition stage_h264_yuv444 :: "driver \<Rightarrow> probe_state \<Rightarrow> probe_state \<times> unit stage" where
  "stage_h264_yuv444 drv st0 =
     (let st = st0\<lparr>ps_in_flight := c_h264\<rparr>; e = ps_encoder st;
          put = (\<lambda>b s. (s\<lparr>ps_encoder := (ps_encoder s)\<lparr>enc_h264 := (enc_h264 (ps_encoder s))(YUV444 := b)\<rparr>\<rparr>, Next ()))
      in if has_flag e YUV444_SUPPORT
         then andthen (ask (drv_supported drv (enc_name e) c_h264 config_h264_yuv444) st)
                (\<lambda>s supported. if \<not> supported then put False s
                   else andthen (ask (validate_config drv (enc_name e) config_h264_yuv444) s)
                          (\<lambda>s r. put (0 \<le> r) s))
         else put False st)"

definition stage_hdr_display :: "driver \<Rightarrow> probe_state \<Rightarrow> probe_state \<times> unit stage" where
  "stage_hdr_display drv st0 =
     (let st = st0\<lparr>ps_in_flight := c_unattributed, ps_cached := None\<rparr>
      in andthen (ask (drv_reset_display drv (enc_dev_type (ps_encoder st)) generic_hdr_config) st)
           (\<lambda>s disp. if disp then (s, Next ()) else (s, Return False)))"

text \<open>The lambda \<open>test_hdr_and_yuv444\<close>, with the assignment of the codec in flight before its call.\<close>

definition test_hdr_and_yuv444 :: "driver \<Rightarrow> codec \<Rightarrow> probe_state \<Rightarrow> probe_state \<times> unit stage" where
  "test_hdr_and_yuv444 drv c st0 =
     (let st = st0\<lparr>ps_in_flight := c\<rparr>; e = ps_encoder st; name = enc_name e;
          config = (\<lambda>chroma. generic_hdr_config\<lparr>cfg_videoFormat := codec_format c, cfg_chromaSamplingType := chroma\<rparr>);
          works = (\<lambda>chroma s. andthen (ask (drv_supported drv name c (config chroma)) s)
                     (\<lambda>s supported. if \<not> supported then (s, Next False)
                        else andthen (ask (validate_config drv name (config chroma)) s) (\<lambda>s r. (s, Next (0 \<le> r)))));
          put = (\<lambda>f s. s\<lparr>ps_encoder := set_caps c (f (enc_caps (ps_encoder s) c)) (ps_encoder s)\<rparr>)
      in if \<not> enc_caps e c PASSED then (put (\<lambda>_. caps_reset) st, Next ())
         else andthen (if has_flag e YUV444_SUPPORT then works 1 st else (st, Next False))
                (\<lambda>s ok444.
                   if ok444 then (put (\<lambda>caps. caps(DYNAMIC_RANGE := True, YUV444 := True)) s, Next ())
                   else andthen (works 0 (put (\<lambda>caps. caps(YUV444 := False)) s))
                          (\<lambda>s ok420. (put (\<lambda>caps. caps(DYNAMIC_RANGE := ok420)) s, Next ()))))"

definition stage_finish :: "probe_settings \<Rightarrow> probe_state \<Rightarrow> probe_state \<times> unit stage" where
  "stage_finish cfg st =
     (let e = ps_encoder st; force = set_force_header_replace cfg
      in (st\<lparr>ps_in_flight := c_unattributed,
             ps_encoder := e\<lparr>enc_h264 := (enc_h264 e)(VUI_PARAMETERS := enc_h264 e VUI_PARAMETERS \<and> \<not> force),
                             enc_hevc := (enc_hevc e)(VUI_PARAMETERS := enc_hevc e VUI_PARAMETERS \<and> \<not> force)\<rparr>\<rparr>,
          Return True))"

definition validate_encoder ::
  "driver \<Rightarrow> probe_settings \<Rightarrow> registry \<Rightarrow> bool \<Rightarrow> probe_state \<Rightarrow> probe_state \<times> unit stage" where
  "validate_encoder drv cfg reg expect_failure st =
     (let test = test_codec cfg reg (ps_encoder st) in
      andthen (stage_display drv st) (\<lambda>s _.
      andthen (stage_h264 drv expect_failure s) (\<lambda>s max_ref_h264.
      andthen (stage_codec drv (test c_hevc) c_hevc max_ref_h264 s) (\<lambda>s _.
      andthen (stage_codec drv (test c_av1) c_av1 max_ref_h264 s) (\<lambda>s _.
      andthen (stage_h264_yuv444 drv s) (\<lambda>s _.
      andthen (stage_hdr_display drv s) (\<lambda>s _.
      andthen (test_hdr_and_yuv444 drv c_hevc
                (s\<lparr>ps_encoder := (ps_encoder s)\<lparr>enc_h264 := (enc_h264 (ps_encoder s))(DYNAMIC_RANGE := False)\<rparr>\<rparr>)) (\<lambda>s _.
      andthen (test_hdr_and_yuv444 drv c_av1 s) (\<lambda>s _.
      stage_finish cfg s)))))))))"

text \<open>The shield: a fault is attributed to the codec in flight, discards the encoder's bits and
  drops the cached display.\<close>

definition validate_encoder_safe ::
  "driver \<Rightarrow> probe_settings \<Rightarrow> registry \<Rightarrow> bool \<Rightarrow> encoder \<Rightarrow> nat option \<Rightarrow> bool \<times> encoder \<times> nat option \<times> registry" where
  "validate_encoder_safe drv cfg reg expect_failure e cached =
     (case validate_encoder drv cfg reg expect_failure
             \<lparr>ps_encoder = e, ps_in_flight = c_unattributed, ps_cached = cached\<rparr> of
        (s, Return b) \<Rightarrow> (b, ps_encoder s, ps_cached s, reg)
      | (s, _) \<Rightarrow> (False, all_caps caps_reset (ps_encoder s), None,
                   if ps_in_flight s = c_unattributed then reg
                   else suppress reg (enc_name (ps_encoder s)) (ps_in_flight s)))"

subsection \<open>Reasoning about stages\<close>

text \<open>\<open>outcome r F R Q\<close>: what holds of the state when the stage faults, returns and goes on.\<close>

definition outcome ::
  "probe_state \<times> 'a stage \<Rightarrow> (probe_state \<Rightarrow> bool) \<Rightarrow> (bool \<Rightarrow> probe_state \<Rightarrow> bool) \<Rightarrow> ('a \<Rightarrow> probe_state \<Rightarrow> bool) \<Rightarrow> bool" where
  "outcome r F R Q = (case snd r of Fault \<Rightarrow> F (fst r) | Return b \<Rightarrow> R b (fst r) | Next a \<Rightarrow> Q a (fst r))"

named_theorems stage_simps \<open>computing the outcome of a composed stage\<close>

lemma outcome_andthen [stage_simps]:
  "outcome (andthen r k) F R Q = outcome r F R (\<lambda>a s. outcome (k s a) F R Q)"
  by (simp add: outcome_def andthen_def split: stage.splits)

lemma outcome_ask [stage_simps]:
  "outcome (ask answer st) F R Q = (case answer of None \<Rightarrow> F st | Some a \<Rightarrow> Q a st)"
  by (simp add: outcome_def ask_def split: option.splits)

lemma outcome_results [stage_simps]:
  "outcome (st, Next a) F R Q = Q a st"
  "outcome (st, Return b) F R Q = R b st"
  "outcome (st, Fault) F R Q = F st"
  by (simp_all add: outcome_def)

lemma outcome_if [stage_simps]:
  "outcome (if c then r else r') F R Q = (if c then outcome r F R Q else outcome r' F R Q)"
  by simp

lemma outcome_mono:
  assumes "outcome r F R Q"
    and "\<And>s. F s \<Longrightarrow> F' s" and "\<And>b s. R b s \<Longrightarrow> R' b s" and "\<And>a s. Q a s \<Longrightarrow> Q' a s"
  shows "outcome r F' R' Q'"
  using assms by (auto simp: outcome_def split: stage.splits)

lemma enc_caps_set_caps [simp]:
  "enc_caps (set_caps c caps e) c = caps"
  "\<lbrakk>c = c_hevc \<or> c = c_av1; d \<noteq> c\<rbrakk> \<Longrightarrow> enc_caps (set_caps c caps e) d = enc_caps e d"
  "c \<noteq> c_h264 \<Longrightarrow> c \<noteq> c_unattributed \<Longrightarrow> enc_h264 (set_caps c caps e) = enc_h264 e"
  "enc_name (set_caps c caps e) = enc_name e"
  "enc_flags (set_caps c caps e) = enc_flags e"
  "enc_dev_type (set_caps c caps e) = enc_dev_type e"
  by (cases c; auto simp: enc_caps_def set_caps_def split: codec.split)+

lemma enc_caps_h264 [simp]:
  "enc_caps (e\<lparr>enc_h264 := x\<rparr>) c_hevc = enc_caps e c_hevc"
  "enc_caps (e\<lparr>enc_h264 := x\<rparr>) c_av1 = enc_caps e c_av1"
  "enc_caps e c_h264 = enc_h264 e"
  by (simp_all add: enc_caps_def)

lemma all_caps_simps [simp]:
  "enc_name (all_caps x e) = enc_name e" "enc_flags (all_caps x e) = enc_flags e"
  "enc_dev_type (all_caps x e) = enc_dev_type e" "enc_caps (all_caps x e) c = x" "enc_h264 (all_caps x e) = x"
  by (cases c; simp add: all_caps_def enc_caps_def)+

subsection \<open>Capability bits are backed by a successful validation\<close>

definition works :: "driver \<Rightarrow> string \<Rightarrow> (config \<Rightarrow> bool) \<Rightarrow> bool" where
  "works drv name P = (\<exists>cfg r. P cfg \<and> validate_config drv name cfg = Some r \<and> 0 \<le> r)"

definition bits_backed :: "driver \<Rightarrow> encoder \<Rightarrow> codec \<Rightarrow> bool" where
  "bits_backed drv e c \<longleftrightarrow>
     (let this = (\<lambda>P. works drv (enc_name e) (\<lambda>cfg. cfg_videoFormat cfg = codec_format c \<and> P cfg)) in
      (enc_caps e c PASSED \<longrightarrow> this (\<lambda>_. True))
      \<and> (enc_caps e c DYNAMIC_RANGE \<longrightarrow> this (\<lambda>cfg. cfg_dynamicRange cfg = 1))
      \<and> (enc_caps e c YUV444 \<longrightarrow> this (\<lambda>cfg. cfg_chromaSamplingType cfg = 1))
      \<and> (c \<noteq> c_h264 \<and> \<not> enc_caps e c PASSED \<longrightarrow> enc_caps e c = caps_reset))"

lemma works_intro:
  "\<lbrakk>validate_config drv name cfg = Some r; 0 \<le> r; P cfg\<rbrakk> \<Longrightarrow> works drv name P"
  by (auto simp: works_def)

lemmas config_defs = config_max_ref_frames_def config_autoselect_def config_h264_yuv444_def
  generic_hdr_config_def config_sdr_def

text \<open>What is known about the bits between the stages: H.264 has passed; the other codecs have
  passed only if they work.\<close>

definition passed_backed :: "driver \<Rightarrow> encoder \<Rightarrow> codec \<Rightarrow> bool" where
  "passed_backed drv e c \<longleftrightarrow> (enc_caps e c PASSED \<longrightarrow>
     works drv (enc_name e) (\<lambda>cfg. cfg_videoFormat cfg = codec_format c))"

abbreviation kept :: "encoder \<Rightarrow> encoder \<Rightarrow> bool" where
  "kept e e' \<equiv> enc_name e' = enc_name e \<and> enc_flags e' = enc_flags e \<and> enc_dev_type e' = enc_dev_type e"

lemma stage_display_outcome:
  "outcome (stage_display drv st) (\<lambda>s. kept (ps_encoder st) (ps_encoder s))
     (\<lambda>b s. \<not> b \<and> kept (ps_encoder st) (ps_encoder s))
     (\<lambda>_ s. kept (ps_encoder st) (ps_encoder s))"
  by (simp add: stage_display_def Let_def stage_simps split: option.splits)

lemma stage_h264_outcome:
  "outcome (stage_h264 drv x st) (\<lambda>s. kept (ps_encoder st) (ps_encoder s))
     (\<lambda>b s. \<not> b \<and> kept (ps_encoder st) (ps_encoder s))
     (\<lambda>_ s. kept (ps_encoder st) (ps_encoder s) \<and> enc_h264 (ps_encoder s) PASSED
       \<and> passed_backed drv (ps_encoder s) c_h264)"
  apply (simp add: stage_h264_def Let_def stage_simps passed_backed_def split: option.splits)
  apply (auto intro: works_intro simp: config_defs codec_format_def)
  done

lemma stage_codec_outcome:
  assumes "c = c_hevc \<or> c = c_av1"
  shows "outcome (stage_codec drv test c m st) (\<lambda>s. kept (ps_encoder st) (ps_encoder s))
     (\<lambda>b s. False)
     (\<lambda>_ s. kept (ps_encoder st) (ps_encoder s) \<and> enc_h264 (ps_encoder s) = enc_h264 (ps_encoder st)
       \<and> (\<forall>d. d \<noteq> c \<longrightarrow> enc_caps (ps_encoder s) d = enc_caps (ps_encoder st) d)
       \<and> passed_backed drv (ps_encoder s) c)"
  using assms
  apply (simp add: stage_codec_def Let_def stage_simps passed_backed_def split: option.splits)
  apply (auto intro: works_intro simp: config_defs)
  done

lemma stage_h264_yuv444_outcome:
  "outcome (stage_h264_yuv444 drv st) (\<lambda>s. kept (ps_encoder st) (ps_encoder s)) (\<lambda>b s. False)
     (\<lambda>_ s. kept (ps_encoder st) (ps_encoder s)
       \<and> enc_h264 (ps_encoder s) PASSED = enc_h264 (ps_encoder st) PASSED
       \<and> (enc_h264 (ps_encoder s) YUV444 \<longrightarrow> works drv (enc_name (ps_encoder st))
             (\<lambda>cfg. cfg_videoFormat cfg = 0 \<and> cfg_chromaSamplingType cfg = 1))
       \<and> (\<forall>d. d = c_hevc \<or> d = c_av1 \<longrightarrow> enc_caps (ps_encoder s) d = enc_caps (ps_encoder st) d))"
  apply (simp add: stage_h264_yuv444_def Let_def stage_simps split: option.splits)
  apply (auto intro: works_intro simp: config_defs)
  done

lemma stage_hdr_display_outcome:
  "outcome (stage_hdr_display drv st) (\<lambda>s. kept (ps_encoder st) (ps_encoder s))
     (\<lambda>b s. \<not> b \<and> kept (ps_encoder st) (ps_encoder s)) (\<lambda>_ s. ps_encoder s = ps_encoder st)"
  by (simp add: stage_hdr_display_def Let_def stage_simps split: option.splits)

lemma test_hdr_outcome:
  assumes "c = c_hevc \<or> c = c_av1" and "passed_backed drv (ps_encoder st) c"
  shows "outcome (test_hdr_and_yuv444 drv c st) (\<lambda>s. kept (ps_encoder st) (ps_encoder s)) (\<lambda>b s. False)
     (\<lambda>_ s. kept (ps_encoder st) (ps_encoder s) \<and> enc_h264 (ps_encoder s) = enc_h264 (ps_encoder st)
       \<and> (\<forall>d. d \<noteq> c \<longrightarrow> enc_caps (ps_encoder s) d = enc_caps (ps_encoder st) d)
       \<and> bits_backed drv (ps_encoder s) c)"
  using assms
  apply (simp add: test_hdr_and_yuv444_def Let_def stage_simps passed_backed_def bits_backed_def split: option.splits)
  apply (auto intro: works_intro simp: config_defs)
  done

text \<open>The bits an encoder has when \<open>validate_encoder\<close> returns true.\<close>

definition validated :: "driver \<Rightarrow> encoder \<Rightarrow> bool" where
  "validated drv e \<longleftrightarrow> enc_h264 e PASSED \<and> \<not> enc_h264 e DYNAMIC_RANGE
     \<and> bits_backed drv e c_h264 \<and> bits_backed drv e c_hevc \<and> bits_backed drv e c_av1"

lemma bits_backed_cong:
  "\<lbrakk>enc_name e' = enc_name e; enc_caps e' c = enc_caps e c\<rbrakk> \<Longrightarrow> bits_backed drv e' c = bits_backed drv e c"
  by (simp add: bits_backed_def)

lemma passed_backed_cong:
  "\<lbrakk>enc_name e' = enc_name e; enc_caps e' c PASSED = enc_caps e c PASSED\<rbrakk>
     \<Longrightarrow> passed_backed drv e' c = passed_backed drv e c"
  by (simp add: passed_backed_def)

lemma stage_finish_outcome:
  assumes "validated drv (ps_encoder st)"
  shows "outcome (stage_finish cfg st) (\<lambda>s. False)
    (\<lambda>b s. kept (ps_encoder st) (ps_encoder s) \<and> validated drv (ps_encoder s)) (\<lambda>_ _. False)"
  using assms
  by (auto simp: stage_finish_def Let_def stage_simps validated_def bits_backed_def enc_caps_def fun_eq_iff
      split: if_splits)

lemma hdr_stages_outcome:
  assumes "enc_h264 (ps_encoder st) PASSED" and "\<not> enc_h264 (ps_encoder st) DYNAMIC_RANGE"
    and "bits_backed drv (ps_encoder st) c_h264"
    and "passed_backed drv (ps_encoder st) c_hevc" and "passed_backed drv (ps_encoder st) c_av1"
  shows "outcome (andthen (test_hdr_and_yuv444 drv c_hevc st) (\<lambda>s _.
      andthen (test_hdr_and_yuv444 drv c_av1 s) (\<lambda>s _. stage_finish cfg s)))
    (\<lambda>s. kept (ps_encoder st) (ps_encoder s))
    (\<lambda>b s. kept (ps_encoder st) (ps_encoder s) \<and> validated drv (ps_encoder s)) (\<lambda>_ _. False)"
  unfolding outcome_andthen
proof (rule outcome_mono [OF test_hdr_outcome [of c_hevc drv st]])
  fix a and s :: probe_state
  assume s: "kept (ps_encoder st) (ps_encoder s) \<and> enc_h264 (ps_encoder s) = enc_h264 (ps_encoder st)
       \<and> (\<forall>d. d \<noteq> c_hevc \<longrightarrow> enc_caps (ps_encoder s) d = enc_caps (ps_encoder st) d)
       \<and> bits_backed drv (ps_encoder s) c_hevc"
  show "outcome (test_hdr_and_yuv444 drv c_av1 s) (\<lambda>s. kept (ps_encoder st) (ps_encoder s))
    (\<lambda>b s. kept (ps_encoder st) (ps_encoder s) \<and> validated drv (ps_encoder s))
    (\<lambda>_ s. outcome (stage_finish cfg s) (\<lambda>s. kept (ps_encoder st) (ps_encoder s))
      (\<lambda>b s. kept (ps_encoder st) (ps_encoder s) \<and> validated drv (ps_encoder s)) (\<lambda>_ _. False))"
  proof (rule outcome_mono [OF test_hdr_outcome [of c_av1 drv s]])
    show "passed_backed drv (ps_encoder s) c_av1"
      using s assms(5) passed_backed_cong [of "ps_encoder s" "ps_encoder st" c_av1] by simp
    fix a and t :: probe_state
    assume t: "kept (ps_encoder s) (ps_encoder t) \<and> enc_h264 (ps_encoder t) = enc_h264 (ps_encoder s)
       \<and> (\<forall>d. d \<noteq> c_av1 \<longrightarrow> enc_caps (ps_encoder t) d = enc_caps (ps_encoder s) d)
       \<and> bits_backed drv (ps_encoder t) c_av1"
    have "validated drv (ps_encoder t)"
      using s t assms(1-3) bits_backed_cong [of "ps_encoder t" "ps_encoder st" c_h264 drv]
        bits_backed_cong [of "ps_encoder t" "ps_encoder s" c_hevc drv]
      by (simp add: validated_def)
    then show "outcome (stage_finish cfg t) (\<lambda>s. kept (ps_encoder st) (ps_encoder s))
      (\<lambda>b s. kept (ps_encoder st) (ps_encoder s) \<and> validated drv (ps_encoder s)) (\<lambda>_ _. False)"
      using s t by (intro outcome_mono [OF stage_finish_outcome]) auto
  qed (use s in auto)
qed (use assms in auto)

lemma outcome_seq:
  "\<lbrakk>outcome r F R P; \<And>a s. P a s \<Longrightarrow> outcome (k s a) F R Q\<rbrakk> \<Longrightarrow> outcome (andthen r k) F R Q"
  unfolding outcome_andthen by (erule outcome_mono)

text \<open>The stages in sequence: what is known after each of them about the encoder \<open>e\<close> started with.\<close>

definition known :: "driver \<Rightarrow> encoder \<Rightarrow> nat \<Rightarrow> probe_state \<Rightarrow> bool" where
  "known drv e n s \<longleftrightarrow> kept e (ps_encoder s)
     \<and> (1 \<le> n \<longrightarrow> enc_h264 (ps_encoder s) PASSED \<and> passed_backed drv (ps_encoder s) c_h264)
     \<and> (2 \<le> n \<longrightarrow> passed_backed drv (ps_encoder s) c_hevc)
     \<and> (3 \<le> n \<longrightarrow> passed_backed drv (ps_encoder s) c_av1)
     \<and> (4 \<le> n \<longrightarrow> (enc_h264 (ps_encoder s) YUV444 \<longrightarrow> works drv (enc_name (ps_encoder s))
             (\<lambda>cfg. cfg_videoFormat cfg = 0 \<and> cfg_chromaSamplingType cfg = 1)))"

abbreviation ends :: "driver \<Rightarrow> encoder \<Rightarrow> bool \<Rightarrow> probe_state \<Rightarrow> bool" where
  "ends drv e b s \<equiv> kept e (ps_encoder s) \<and> (b \<longrightarrow> validated drv (ps_encoder s))"

lemma known_display:
  "kept e (ps_encoder st) \<Longrightarrow>
     outcome (stage_display drv st) (\<lambda>s. kept e (ps_encoder s)) (ends drv e) (\<lambda>_. known drv e 0)"
  by (rule outcome_mono [OF stage_display_outcome]) (auto simp: known_def)

lemma known_h264:
  "known drv e 0 st \<Longrightarrow>
     outcome (stage_h264 drv x st) (\<lambda>s. kept e (ps_encoder s)) (ends drv e) (\<lambda>_. known drv e 1)"
  by (rule outcome_mono [OF stage_h264_outcome]) (auto simp: known_def)

lemma known_hevc:
  "known drv e 1 st \<Longrightarrow>
     outcome (stage_codec drv t c_hevc m st) (\<lambda>s. kept e (ps_encoder s)) (ends drv e) (\<lambda>_. known drv e 2)"
  by (rule outcome_mono [OF stage_codec_outcome [of c_hevc]]) (auto simp: known_def passed_backed_def)

lemma known_av1:
  "known drv e 2 st \<Longrightarrow>
     outcome (stage_codec drv t c_av1 m st) (\<lambda>s. kept e (ps_encoder s)) (ends drv e) (\<lambda>_. known drv e 3)"
  by (rule outcome_mono [OF stage_codec_outcome [of c_av1]]) (auto simp: known_def passed_backed_def)

lemma known_yuv444:
  "known drv e 3 st \<Longrightarrow>
     outcome (stage_h264_yuv444 drv st) (\<lambda>s. kept e (ps_encoder s)) (ends drv e) (\<lambda>_. known drv e 4)"
  by (rule outcome_mono [OF stage_h264_yuv444_outcome]) (auto simp: known_def passed_backed_def)

lemma known_hdr_display:
  "known drv e 4 st \<Longrightarrow>
     outcome (stage_hdr_display drv st) (\<lambda>s. kept e (ps_encoder s)) (ends drv e) (\<lambda>_. known drv e 4)"
  by (rule outcome_mono [OF stage_hdr_display_outcome]) (auto simp: known_def)

lemma known_hdr:
  assumes "known drv e 4 s"
  defines "st \<equiv> s\<lparr>ps_encoder := (ps_encoder s)\<lparr>enc_h264 := (enc_h264 (ps_encoder s))(DYNAMIC_RANGE := False)\<rparr>\<rparr>"
  shows "outcome (andthen (test_hdr_and_yuv444 drv c_hevc st) (\<lambda>s _.
      andthen (test_hdr_and_yuv444 drv c_av1 s) (\<lambda>s _. stage_finish cfg s)))
    (\<lambda>s. kept e (ps_encoder s)) (ends drv e) (\<lambda>_ _. False)"
proof (rule outcome_mono [OF hdr_stages_outcome])
  show "enc_h264 (ps_encoder st) PASSED" "\<not> enc_h264 (ps_encoder st) DYNAMIC_RANGE"
    "passed_backed drv (ps_encoder st) c_hevc" "passed_backed drv (ps_encoder st) c_av1"
    using assms by (auto simp: known_def passed_backed_def)
  show "bits_backed drv (ps_encoder st) c_h264"
    using assms by (auto simp: known_def passed_backed_def bits_backed_def Let_def codec_format_def)
qed (use assms in \<open>auto simp: known_def\<close>)

lemma validate_encoder_outcome:
  "outcome (validate_encoder drv cfg reg x st) (\<lambda>s. kept (ps_encoder st) (ps_encoder s))
    (ends drv (ps_encoder st)) (\<lambda>_ _. False)"
  unfolding validate_encoder_def Let_def
  by (rule outcome_seq, rule known_display, simp, rule outcome_seq, erule known_h264,
      rule outcome_seq, erule known_hevc, rule outcome_seq, erule known_av1,
      rule outcome_seq, erule known_yuv444, rule outcome_seq, erule known_hdr_display, erule known_hdr)

lemma validate_encoder_safe_validated:
  assumes "validate_encoder_safe drv cfg reg x e cached = (True, e', cached', reg')"
  shows "validated drv e'" and "enc_name e' = enc_name e" and "reg' = reg"
proof -
  obtain s r where v: "validate_encoder drv cfg reg x
      \<lparr>ps_encoder = e, ps_in_flight = c_unattributed, ps_cached = cached\<rparr> = (s, r)" by fastforce
  with assms have r: "r = Return True" "e' = ps_encoder s" "reg' = reg"
    by (auto simp: validate_encoder_safe_def split: stage.splits)
  from validate_encoder_outcome [of drv cfg reg x
      "\<lparr>ps_encoder = e, ps_in_flight = c_unattributed, ps_cached = cached\<rparr>"]
  show "validated drv e'" and "enc_name e' = enc_name e" unfolding v r by (simp_all add: stage_simps)
  show "reg' = reg" by (rule r)
qed

text \<open>
  C7. When a probe of an encoder succeeds, H.264 has passed, and every capability bit that says a
  codec works, works in HDR or works in 4:4:4 is backed by a validation of a configuration of that
  codec, with ten bits or with 4:4:4 respectively, that succeeded in this probe. A codec that did not
  pass has no bit left, although all bits are set before probing.
\<close>

theorem probe_bits_backed:
  assumes "validate_encoder_safe drv cfg reg expect_failure e cached = (True, e', cached', reg')"
  shows "enc_h264 e' PASSED \<and> \<not> enc_h264 e' DYNAMIC_RANGE
    \<and> bits_backed drv e' c_h264 \<and> bits_backed drv e' c_hevc \<and> bits_backed drv e' c_av1
    \<and> enc_name e' = enc_name e \<and> reg' = reg"
  using validate_encoder_safe_validated [OF assms] by (simp add: validated_def)

text \<open>A driver for concrete evaluations: H.264 and HEVC work, HEVC in ten bits but not in 4:4:4.\<close>

definition sample_driver :: driver where
  "sample_driver = \<lparr>drv_reset_display = (\<lambda>_ _. Some True),
     drv_supported = (\<lambda>_ c _. Some (c \<noteq> c_av1)),
     drv_run = (\<lambda>_ cfg _. Some \<lparr>pr_device = cfg_chromaSamplingType cfg = 0, pr_session = True, pr_image = True,
                 pr_packet = Some (True, True, True)\<rparr>)\<rparr>"

definition sample_encoder :: encoder where
  "sample_encoder = \<lparr>enc_name = ''nvenc'', enc_dev_type = 1, enc_flags = YUV444_SUPPORT,
     enc_h264 = caps_reset, enc_hevc = caps_reset, enc_av1 = caps_reset\<rparr>"

definition sample_settings :: probe_settings where
  "sample_settings = \<lparr>set_hevc_mode = 0, set_av1_mode = 0, set_force_header_replace = False\<rparr>"

lemmas probe_eval = validate_encoder_def stage_display_def stage_h264_def
  stage_codec_def stage_h264_yuv444_def stage_hdr_display_def test_hdr_and_yuv444_def stage_finish_def
  validate_config_def validate_once_def test_codec_def is_suppressed_def is_suppressible_def
  config_defs codec_format_def vui_flag_def has_flag_def H264_ONLY_def YUV444_SUPPORT_def
  set_caps_def enc_caps_def all_caps_def numeral_3_eq_3 Let_def

lemmas sample_defs = sample_driver_def sample_encoder_def sample_settings_def

lemma outcome_returns:
  "outcome r (\<lambda>_. False) R (\<lambda>_ _. False) \<Longrightarrow> \<exists>s b. r = (s, Return b) \<and> R b s"
  by (cases r) (auto simp: outcome_def split: stage.splits)

lemma sample_run:
  "\<exists>e'. validate_encoder_safe sample_driver sample_settings Map.empty False sample_encoder None
      = (True, e', None, Map.empty)
    \<and> enc_hevc e' PASSED \<and> enc_hevc e' DYNAMIC_RANGE \<and> \<not> enc_hevc e' YUV444 \<and> \<not> enc_av1 e' PASSED"
proof -
  let ?st = "\<lparr>ps_encoder = sample_encoder, ps_in_flight = c_unattributed, ps_cached = None\<rparr>"
  have "outcome (validate_encoder sample_driver sample_settings Map.empty False ?st) (\<lambda>_. False)
      (\<lambda>b s. b \<and> ps_cached s = None \<and> enc_hevc (ps_encoder s) PASSED \<and> enc_hevc (ps_encoder s) DYNAMIC_RANGE
        \<and> \<not> enc_hevc (ps_encoder s) YUV444 \<and> \<not> enc_av1 (ps_encoder s) PASSED) (\<lambda>_ _. False)"
    by (simp add: stage_simps probe_eval sample_defs)
  from outcome_returns [OF this] obtain s where s: "validate_encoder sample_driver sample_settings Map.empty False ?st = (s, Return True)"
    "ps_cached s = None" "enc_hevc (ps_encoder s) PASSED" "enc_hevc (ps_encoder s) DYNAMIC_RANGE"
    "\<not> enc_hevc (ps_encoder s) YUV444" "\<not> enc_av1 (ps_encoder s) PASSED"
    by (elim exE conjE) simp
  then have run: "validate_encoder_safe sample_driver sample_settings Map.empty False sample_encoder None
      = (True, ps_encoder s, None, Map.empty)"
    by (simp add: validate_encoder_safe_def)
  with s show ?thesis by blast
qed

theorem probe_bits_backed_witness:
  "\<exists>e'. validate_encoder_safe sample_driver sample_settings Map.empty False sample_encoder None
      = (True, e', None, Map.empty)
    \<and> enc_hevc e' PASSED \<and> enc_hevc e' DYNAMIC_RANGE \<and> \<not> enc_hevc e' YUV444 \<and> \<not> enc_av1 e' PASSED
    \<and> bits_backed sample_driver e' c_hevc"
  using sample_run probe_bits_backed by blast

subsection \<open>Faults\<close>

text \<open>
  The registry as a set of pairs, and its refinement: \<open>suppress\<close> inserts a suppressible pair,
  \<open>is_suppressed\<close> tests membership.
\<close>

definition registry_ok :: "registry \<Rightarrow> bool" where
  "registry_ok reg \<longleftrightarrow> (\<forall>name a. reg name = Some a \<longrightarrow> length a = 3)"

definition suppressed_pairs :: "registry \<Rightarrow> (string \<times> codec) set" where
  "suppressed_pairs reg = {(name, c). is_suppressed reg name c}"

lemma index_of_suppressible: "is_suppressible c \<Longrightarrow> index_of c < 3"
  by (cases c) (simp_all add: is_suppressible_def index_of_def)

lemma index_of_inject: "\<lbrakk>is_suppressible c; is_suppressible d\<rbrakk> \<Longrightarrow> index_of c = index_of d \<longleftrightarrow> c = d"
  by (cases c; cases d) (simp_all add: is_suppressible_def index_of_def)

lemma registry_ok_suppress: "registry_ok reg \<Longrightarrow> registry_ok (suppress reg name c)"
  by (auto simp: registry_ok_def suppress_def split: option.splits)

lemma suppressed_pairs_suppress:
  assumes "registry_ok reg"
  shows "suppressed_pairs (suppress reg name c)
    = (if is_suppressible c then insert (name, c) (suppressed_pairs reg) else suppressed_pairs reg)"
proof (cases "is_suppressible c")
  case True
  have "is_suppressed (suppress reg name c) n d \<longleftrightarrow> (n, d) = (name, c) \<or> is_suppressed reg n d" for n d
    using assms True index_of_suppressible index_of_inject
    by (auto simp: is_suppressed_def suppress_def registry_ok_def nth_list_update split: option.splits)
  with True show ?thesis by (auto simp: suppressed_pairs_def)
qed (simp add: suppress_def suppressed_pairs_def)

text \<open>Where a probe can fault: never with HEVC or AV1 in flight unless the codec is tested.\<close>

definition blameable :: "(codec \<Rightarrow> bool) \<Rightarrow> probe_state \<Rightarrow> bool" where
  "blameable test s \<longleftrightarrow> (is_suppressible (ps_in_flight s) \<longrightarrow> test (ps_in_flight s))"

text \<open>A codec that is not tested has no bit when the HDR stages run.\<close>

definition untested_cleared :: "(codec \<Rightarrow> bool) \<Rightarrow> codec set \<Rightarrow> probe_state \<Rightarrow> bool" where
  "untested_cleared test cs s \<longleftrightarrow> (\<forall>c \<in> cs. \<not> test c \<longrightarrow> \<not> enc_caps (ps_encoder s) c PASSED)"

abbreviation any_end :: "bool \<Rightarrow> probe_state \<Rightarrow> bool" where "any_end \<equiv> (\<lambda>_ _. True)"

lemma blame_display:
  "ps_in_flight st = c_unattributed \<Longrightarrow>
     outcome (stage_display drv st) (blameable test) any_end (\<lambda>_ s. ps_in_flight s = c_h264)"
  by (simp add: stage_display_def Let_def stage_simps blameable_def is_suppressible_def split: option.splits)

lemma blame_h264:
  "ps_in_flight st = c_h264 \<Longrightarrow>
     outcome (stage_h264 drv x st) (blameable test) any_end (\<lambda>_ s. blameable test s)"
  by (simp add: stage_h264_def Let_def stage_simps blameable_def is_suppressible_def split: option.splits)

lemma blame_codec:
  assumes "c = c_hevc \<or> c = c_av1" and "blameable test st" and "untested_cleared test cs st" and "c \<notin> cs"
    and "cs \<subseteq> {c_hevc, c_av1}"
  shows "outcome (stage_codec drv (test c) c m st) (blameable test) any_end
    (\<lambda>_ s. blameable test s \<and> untested_cleared test (insert c cs) s)"
proof -
  have other: "d \<in> cs \<Longrightarrow> d \<noteq> c" for d using assms(4) by blast
  show ?thesis
    using assms other
    by (simp add: stage_codec_def Let_def stage_simps blameable_def untested_cleared_def split: option.splits)
qed

lemma blame_yuv444:
  "untested_cleared test {c_hevc, c_av1} st \<Longrightarrow>
     outcome (stage_h264_yuv444 drv st) (blameable test) any_end (\<lambda>_ s. untested_cleared test {c_hevc, c_av1} s)"
  by (simp add: stage_h264_yuv444_def Let_def stage_simps blameable_def untested_cleared_def is_suppressible_def
      split: option.splits)

lemma blame_hdr_display:
  "untested_cleared test {c_hevc, c_av1} st \<Longrightarrow>
     outcome (stage_hdr_display drv st) (blameable test) any_end (\<lambda>_ s. untested_cleared test {c_hevc, c_av1} s)"
  by (simp add: stage_hdr_display_def Let_def stage_simps blameable_def untested_cleared_def is_suppressible_def
      split: option.splits)

lemma blame_test_hdr:
  assumes "c = c_hevc \<or> c = c_av1" and "untested_cleared test {c_hevc, c_av1} st"
  shows "outcome (test_hdr_and_yuv444 drv c st) (blameable test) any_end
    (\<lambda>_ s. untested_cleared test {c_hevc, c_av1} s)"
  using assms
  by (elim disjE; simp add: test_hdr_and_yuv444_def Let_def stage_simps blameable_def untested_cleared_def
      split: option.splits; blast)

lemma blame_finish:
  "outcome (stage_finish cfg st) F any_end Q"
  by (simp add: stage_finish_def Let_def stage_simps)

lemma validate_encoder_blame:
  assumes "ps_in_flight st = c_unattributed"
  shows "outcome (validate_encoder drv cfg reg x st)
    (blameable (test_codec cfg reg (ps_encoder st))) any_end (\<lambda>_ _. True)"
  unfolding validate_encoder_def Let_def
  by (rule outcome_seq, rule blame_display, rule assms, rule outcome_seq, erule blame_h264,
      rule outcome_seq, rule blame_codec [where cs = "{}"], simp, assumption,
      simp add: untested_cleared_def, simp, simp, elim conjE,
      rule outcome_seq, rule blame_codec [where cs = "{c_hevc}"], simp, assumption, assumption, simp, simp,
      elim conjE, rule outcome_seq, rule blame_yuv444, simp add: insert_commute,
      rule outcome_seq, erule blame_hdr_display, rule outcome_seq, rule blame_test_hdr, simp,
      simp add: untested_cleared_def, rule outcome_seq, rule blame_test_hdr, simp, assumption,
      rule blame_finish)

text \<open>A driver that faults, for one encoder, only when asked about the codec \<open>c\<close>.\<close>

definition faults_only_on :: "driver \<Rightarrow> string \<Rightarrow> codec \<Rightarrow> bool" where
  "faults_only_on drv name c \<longleftrightarrow>
     (\<forall>d cfg. drv_reset_display drv d cfg \<noteq> None)
     \<and> (\<forall>c' cfg. c' \<noteq> c \<longrightarrow> drv_supported drv name c' cfg \<noteq> None)
     \<and> (\<forall>cfg n. cfg_videoFormat cfg \<noteq> codec_format c \<longrightarrow> drv_run drv name cfg n \<noteq> None)"

lemma validate_attempts_total:
  "\<lbrakk>faults_only_on drv name c; cfg_videoFormat cfg \<noteq> codec_format c\<rbrakk> \<Longrightarrow>
     validate_attempts drv name cfg n k \<noteq> None"
  by (induction k arbitrary: n) (auto simp: faults_only_on_def split: option.splits)

lemma quiet_driver:
  assumes "faults_only_on drv name c" and "c = c_hevc \<or> c = c_av1"
  shows "drv_reset_display drv d cfg \<noteq> None"
    and "c' \<noteq> c \<Longrightarrow> drv_supported drv name c' cfg \<noteq> None"
    and "cfg_videoFormat cfg \<noteq> codec_format c \<Longrightarrow> validate_config drv name cfg \<noteq> None"
    and "drv_supported drv name c_h264 cfg \<noteq> None"
    and "validate_config drv name config_max_ref_frames \<noteq> None"
    and "validate_config drv name config_autoselect \<noteq> None"
    and "validate_config drv name config_h264_yuv444 \<noteq> None"
proof -
  show "drv_reset_display drv d cfg \<noteq> None" and "c' \<noteq> c \<Longrightarrow> drv_supported drv name c' cfg \<noteq> None"
    using assms(1) by (simp_all add: faults_only_on_def)
  show "drv_supported drv name c_h264 cfg \<noteq> None"
    using assms by (auto simp: faults_only_on_def)
  have total: "cfg_videoFormat cfg \<noteq> codec_format c \<Longrightarrow> validate_config drv name cfg \<noteq> None" for cfg
    unfolding validate_config_def by (rule validate_attempts_total [OF assms(1)])
  then show "cfg_videoFormat cfg \<noteq> codec_format c \<Longrightarrow> validate_config drv name cfg \<noteq> None" .
  have fmts: "cfg_videoFormat config_max_ref_frames \<noteq> codec_format c"
    "cfg_videoFormat config_autoselect \<noteq> codec_format c" "cfg_videoFormat config_h264_yuv444 \<noteq> codec_format c"
    using assms(2) by (auto simp: config_defs codec_format_def)
  show "validate_config drv name config_max_ref_frames \<noteq> None" by (rule total [OF fmts(1)])
  show "validate_config drv name config_autoselect \<noteq> None" by (rule total [OF fmts(2)])
  show "validate_config drv name config_h264_yuv444 \<noteq> None" by (rule total [OF fmts(3)])
qed

abbreviation on_name :: "string \<Rightarrow> probe_state \<Rightarrow> bool" where
  "on_name name s \<equiv> enc_name (ps_encoder s) = name"

abbreviation in_flight_is :: "codec \<Rightarrow> probe_state \<Rightarrow> bool" where
  "in_flight_is c s \<equiv> ps_in_flight s = c"

lemma codec_format_inject:
  "\<lbrakk>c = c_hevc \<or> c = c_av1; d = c_hevc \<or> d = c_av1\<rbrakk> \<Longrightarrow> codec_format d = codec_format c \<longleftrightarrow> d = c"
  by (auto simp: codec_format_def)

lemma quiet_display:
  "\<lbrakk>faults_only_on drv name c; c = c_hevc \<or> c = c_av1; on_name name st\<rbrakk> \<Longrightarrow>
     outcome (stage_display drv st) (in_flight_is c) any_end (\<lambda>_. on_name name)"
  by (simp add: stage_display_def Let_def stage_simps quiet_driver(1,4) [of drv name c] split: option.splits)

lemma quiet_h264:
  "\<lbrakk>faults_only_on drv name c; c = c_hevc \<or> c = c_av1; on_name name st\<rbrakk> \<Longrightarrow>
     outcome (stage_h264 drv x st) (in_flight_is c) any_end (\<lambda>_. on_name name)"
  by (simp add: stage_h264_def Let_def stage_simps quiet_driver(5,6) [of drv name c] split: option.splits)

lemma quiet_codec:
  assumes "faults_only_on drv name c" and "c = c_hevc \<or> c = c_av1" and "d = c_hevc \<or> d = c_av1"
    and "on_name name st"
  shows "outcome (stage_codec drv t d m st) (in_flight_is c) any_end (\<lambda>_. on_name name)"
proof (cases "d = c")
  case True
  then show ?thesis using assms(4)
    by (auto simp: stage_codec_def Let_def stage_simps split: option.splits)
next
  case False
  then show ?thesis
    using assms(4) codec_format_inject [OF assms(2,3)]
    by (simp add: stage_codec_def Let_def stage_simps quiet_driver(2,3) [OF assms(1,2)] split: option.splits)
qed

lemma quiet_yuv444:
  "\<lbrakk>faults_only_on drv name c; c = c_hevc \<or> c = c_av1; on_name name st\<rbrakk> \<Longrightarrow>
     outcome (stage_h264_yuv444 drv st) (in_flight_is c) any_end (\<lambda>_. on_name name)"
  by (simp add: stage_h264_yuv444_def Let_def stage_simps quiet_driver(4,7) [of drv name c] split: option.splits)

lemma quiet_hdr_display:
  "\<lbrakk>faults_only_on drv name c; c = c_hevc \<or> c = c_av1; on_name name st\<rbrakk> \<Longrightarrow>
     outcome (stage_hdr_display drv st) (in_flight_is c) any_end (\<lambda>_. on_name name)"
  by (simp add: stage_hdr_display_def Let_def stage_simps quiet_driver(1) [of drv name c] split: option.splits)

lemma quiet_test_hdr:
  assumes "faults_only_on drv name c" and "c = c_hevc \<or> c = c_av1" and "d = c_hevc \<or> d = c_av1"
    and "on_name name st"
  shows "outcome (test_hdr_and_yuv444 drv d st) (in_flight_is c) any_end (\<lambda>_. on_name name)"
proof (cases "d = c")
  case True
  then show ?thesis using assms(4)
    by (auto simp: test_hdr_and_yuv444_def Let_def stage_simps split: option.splits)
next
  case False
  then show ?thesis
    using assms(4) codec_format_inject [OF assms(2,3)]
    by (simp add: test_hdr_and_yuv444_def Let_def stage_simps quiet_driver(2,3) [OF assms(1,2)] split: option.splits)
qed

lemma validate_encoder_quiet:
  assumes q: "faults_only_on drv (enc_name (ps_encoder st)) c" "c = c_hevc \<or> c = c_av1"
  shows "outcome (validate_encoder drv cfg reg x st) (in_flight_is c) any_end (\<lambda>_ _. True)"
  unfolding validate_encoder_def Let_def
  by (rule outcome_seq, rule quiet_display [OF q], rule refl, rule outcome_seq, erule quiet_h264 [OF q],
      rule outcome_seq, erule quiet_codec [OF q, rotated], simp, rule outcome_seq, erule quiet_codec [OF q, rotated], simp,
      rule outcome_seq, erule quiet_yuv444 [OF q], rule outcome_seq, erule quiet_hdr_display [OF q],
      rule outcome_seq, rule quiet_test_hdr [OF q], simp, simp,
      rule outcome_seq, erule quiet_test_hdr [OF q, rotated], simp, rule blame_finish)

text \<open>
  A driver fault costs at most the codec whose probe was in flight. A fault during the probe of
  HEVC or AV1 hits a codec that was not suppressed for this encoder and suppresses exactly it; any
  other fault, and any probe without a fault, leaves the registry alone; H.264 is never suppressed.
  If the driver faults only on one of these codecs and that codec is suppressed, the probe of the
  encoder runs to completion.
\<close>

theorem faulted_codec_suppressed:
  fixes drv :: driver and cfg :: probe_settings and x :: bool and e :: encoder and cached :: "nat option"
  assumes "registry_ok reg"
  defines "v \<equiv> validate_encoder drv cfg reg x \<lparr>ps_encoder = e, ps_in_flight = c_unattributed, ps_cached = cached\<rparr>"
    and "reg' \<equiv> snd (snd (snd (validate_encoder_safe drv cfg reg x e cached)))"
  shows "(snd v = Fault \<and> is_suppressible (ps_in_flight (fst v)) \<longrightarrow>
      \<not> is_suppressed reg (enc_name e) (ps_in_flight (fst v))
      \<and> suppressed_pairs reg' = insert (enc_name e, ps_in_flight (fst v)) (suppressed_pairs reg))
    \<and> (\<not> (snd v = Fault \<and> is_suppressible (ps_in_flight (fst v))) \<longrightarrow> reg' = reg)
    \<and> \<not> is_suppressed reg' (enc_name e) c_h264
    \<and> (\<forall>c. is_suppressible c \<and> faults_only_on drv (enc_name e) c \<and> is_suppressed reg (enc_name e) c
         \<longrightarrow> (\<exists>b. snd v = Return b))"
proof -
  let ?st = "\<lparr>ps_encoder = e, ps_in_flight = c_unattributed, ps_cached = cached\<rparr>"
  obtain s r where v: "v = (s, r)" by fastforce
  have out: "outcome v (\<lambda>s. enc_name (ps_encoder s) = enc_name e) any_end (\<lambda>_ _. False)"
    using validate_encoder_outcome [of drv cfg reg x ?st] unfolding v_def
    by (rule outcome_mono) auto
  have blame: "outcome v (blameable (test_codec cfg reg e)) any_end (\<lambda>_ _. True)"
    using validate_encoder_blame [of ?st drv cfg reg x] unfolding v_def by simp
  have reg': "reg' = (if r = Fault \<and> ps_in_flight s \<noteq> c_unattributed
      then suppress reg (enc_name e) (ps_in_flight s) else reg)"
    using out unfolding reg'_def validate_encoder_safe_def v_def [symmetric] v
    by (auto simp: outcome_def split: stage.splits)
  have test: "\<not> is_suppressed reg (enc_name e) c" if "test_codec cfg reg e c" for c
    using that by (simp add: test_codec_def Let_def)
  have quiet: "\<exists>b. r = Return b"
    if c: "is_suppressible c" "faults_only_on drv (enc_name e) c" "is_suppressed reg (enc_name e) c" for c
  proof (cases r)
    case Fault
    have "outcome v (in_flight_is c) any_end (\<lambda>_ _. True)"
      using validate_encoder_quiet [of drv ?st c cfg reg x] c(1,2) unfolding v_def by (simp add: is_suppressible_def)
    with Fault blame test c show ?thesis by (simp add: v outcome_def blameable_def)
  qed (use out in \<open>auto simp: v outcome_def\<close>)
  have noop: "suppress reg n c = reg" if "\<not> is_suppressible c" for n c using that by (simp add: suppress_def)
  have "\<not> is_suppressed reg' (enc_name e) c_h264" by (simp add: is_suppressed_def is_suppressible_def)
  moreover have "\<not> is_suppressible c_unattributed" by (simp add: is_suppressible_def)
  ultimately show ?thesis
    using blame test reg' quiet noop suppressed_pairs_suppress [OF assms(1)]
    by (auto simp: v outcome_def blameable_def)
qed

definition faulty_hevc :: driver where
  "faulty_hevc = sample_driver\<lparr>drv_run := (\<lambda>n cfg k. if cfg_videoFormat cfg = 1 then None else drv_run sample_driver n cfg k)\<rparr>"

theorem faulted_codec_suppressed_witness:
  "\<exists>reg. suppressed_pairs (snd (snd (snd (validate_encoder_safe faulty_hevc sample_settings Map.empty False sample_encoder None))))
      = {(''nvenc'', c_hevc)}
    \<and> registry_ok reg \<and> is_suppressed reg ''nvenc'' c_hevc
    \<and> (\<exists>b. snd (validate_encoder faulty_hevc sample_settings reg False
         \<lparr>ps_encoder = sample_encoder, ps_in_flight = c_unattributed, ps_cached = None\<rparr>) = Return b)"
proof -
  let ?v = "validate_encoder faulty_hevc sample_settings Map.empty False
         \<lparr>ps_encoder = sample_encoder, ps_in_flight = c_unattributed, ps_cached = None\<rparr>"
  let ?reg = "suppress Map.empty ''nvenc'' c_hevc"
  have ok: "registry_ok Map.empty" by (simp add: registry_ok_def)
  have none: "suppressed_pairs Map.empty = {}" by (simp add: suppressed_pairs_def is_suppressed_def)
  have name: "enc_name sample_encoder = ''nvenc''" by (simp add: sample_encoder_def)
  have only: "faults_only_on faulty_hevc ''nvenc'' c_hevc"
    by (simp add: faults_only_on_def faulty_hevc_def sample_driver_def codec_format_def)
  have "outcome ?v (\<lambda>s. ps_in_flight s = c_hevc) (\<lambda>_ _. False) (\<lambda>_ _. False)"
    by (simp add: stage_simps probe_eval sample_defs faulty_hevc_def)
  then have "snd ?v = Fault \<and> ps_in_flight (fst ?v) = c_hevc" by (auto simp: outcome_def split: stage.splits)
  with faulted_codec_suppressed [OF ok, of faulty_hevc sample_settings False sample_encoder None] none name
  have "suppressed_pairs (snd (snd (snd (validate_encoder_safe faulty_hevc sample_settings Map.empty False sample_encoder None))))
      = {(''nvenc'', c_hevc)}"
    by (simp add: is_suppressible_def)
  moreover have "is_suppressed ?reg ''nvenc'' c_hevc"
    by (simp add: is_suppressed_def suppress_def is_suppressible_def index_of_def)
  moreover have "registry_ok ?reg" by (rule registry_ok_suppress [OF ok])
  ultimately show ?thesis
    using faulted_codec_suppressed [of ?reg faulty_hevc sample_settings False sample_encoder None] only name
    by (auto simp: is_suppressible_def)
qed

end
