(* ===== verification/Encoder_Selection.thy ===== *)
theory Encoder_Selection
  imports Encoder_Probe "HOL-Library.Multiset" "HOL-Library.Char_ord" "HOL-Library.List_Lexorder" "HOL-Library.Product_Lexorder"
begin

unbundle bit_operations_syntax

text \<open>
  Choosing an encoder: the probe cache, \<open>probe_encoders_impl\<close> and the snapshot that hands the
  result to the isolated video worker (\<open>export_encoder_probe_snapshot\<close>,
  \<open>import_encoder_probe_snapshot\<close>), all in \<^verbatim>\<open>src/video.cpp\<close>.

  The global variables of the file are the record \<open>probe_globals\<close>; an encoder is named by its
  position in the list \<open>encoders\<close>. What one call reads from elsewhere (configuration, GPUs, the
  gates in front of the probe, the drivers) is the record \<open>probe_env\<close>.
\<close>

subsection \<open>The probe cache\<close>

record probe_cache =
  pc_key :: string
  pc_valid :: bool
  pc_hdr_supported :: bool
  pc_hevc_passed :: bool
  pc_hevc_hdr_supported :: bool
  pc_av1_passed :: bool
  pc_av1_hdr_supported :: bool
  pc_failure_key :: string
  pc_failure_count :: nat

fun decimal :: "nat \<Rightarrow> string" where
  "decimal n = (if n < 10 then [char_of (48 + n)] else decimal (n div 10) @ [char_of (48 + n mod 10)])"

text \<open>A GPU: vendor, device, description, dedicated memory; the comparison of the sort is the
  lexicographic order of these four.\<close>

type_synonym gpu = "nat \<times> nat \<times> string \<times> nat"

definition build_probe_cache_key :: "nat \<Rightarrow> nat \<Rightarrow> gpu list \<Rightarrow> string" where
  "build_probe_cache_key hevc_mode av1_mode gpus =
     ''hevc'' @ decimal hevc_mode @ ''|av1'' @ decimal av1_mode @ ''|gpu|''
     @ (if gpus = [] then ''nogpu''
        else concat (map (\<lambda>(vendor, device, description, memory).
               decimal vendor @ '':'' @ decimal device @ '':'' @ description @ '':'' @ decimal memory @ '';'')
             (sort gpus)))"

definition probe_cache_matches ::
  "probe_cache \<Rightarrow> string \<Rightarrow> bool \<Rightarrow> bool \<Rightarrow> bool \<Rightarrow> bool \<Rightarrow> bool \<Rightarrow> bool" where
  "probe_cache_matches st key want_hdr want_hevc want_hevc_hdr want_av1 want_av1_hdr =
     (if pc_valid st \<and> pc_key st = key \<and> (\<not> want_hdr \<or> pc_hdr_supported st)
      then let hevc_supported = pc_hevc_passed st \<and> (\<not> want_hevc_hdr \<or> pc_hevc_hdr_supported st);
               av1_supported = pc_av1_passed st \<and> (\<not> want_av1_hdr \<or> pc_av1_hdr_supported st)
           in \<not> (want_hevc \<and> \<not> hevc_supported \<or> want_av1 \<and> \<not> av1_supported)
      else False)"

definition update_probe_cache ::
  "probe_cache \<Rightarrow> string \<Rightarrow> bool \<Rightarrow> bool \<Rightarrow> bool \<Rightarrow> bool \<Rightarrow> bool \<Rightarrow> bool \<Rightarrow> probe_cache" where
  "update_probe_cache st key success hdr_supported hevc_passed hevc_hdr av1_passed av1_hdr =
     (if success
      then \<lparr>pc_key = key, pc_valid = True, pc_hdr_supported = hdr_supported, pc_hevc_passed = hevc_passed,
            pc_hevc_hdr_supported = hevc_hdr, pc_av1_passed = av1_passed, pc_av1_hdr_supported = av1_hdr,
            pc_failure_key = [], pc_failure_count = 0\<rparr>
      else \<lparr>pc_key = [], pc_valid = False, pc_hdr_supported = False, pc_hevc_passed = False,
            pc_hevc_hdr_supported = False, pc_av1_passed = False, pc_av1_hdr_supported = False,
            pc_failure_key = key,
            pc_failure_count = (if pc_failure_key st = key then pc_failure_count st + 1 else 1)\<rparr>)"

definition probe_failed :: "probe_cache \<Rightarrow> string \<Rightarrow> probe_cache" where
  "probe_failed st key = update_probe_cache st key False False False False False False"

subsection \<open>Globals and environment\<close>

record probe_globals =
  g_encoders :: "encoder list"
  g_registry :: registry
  g_cache :: probe_cache
  g_chosen :: "nat option"
  g_hevc_mode :: int
  g_av1_mode :: int
  g_ref_frames_invalidation :: bool
  g_yuv444 :: "bool list"
  g_supported :: "bool list"
  g_attempted :: bool

record probe_env =
  env_hevc_mode :: nat
  env_av1_mode :: nat
  env_encoder :: string
  env_force_header_replace :: bool
  env_gpus :: "gpu list"
  env_stack_down :: bool
  env_d3d_healthy :: bool
  env_allow_probing :: bool
  env_driver :: driver

subsection \<open>The three searches\<close>

text \<open>What the searches thread: the encoders, the cached display and the registry.\<close>

type_synonym search_state = "encoder list \<times> nat option \<times> registry"

definition validate_at ::
  "driver \<Rightarrow> probe_settings \<Rightarrow> nat option \<Rightarrow> nat \<Rightarrow> search_state \<Rightarrow> bool \<times> search_state" where
  "validate_at drv cfg previous i st =
     (case st of (encs, cached, reg) \<Rightarrow>
      case validate_encoder_safe drv cfg reg (previous \<noteq> None \<and> previous \<noteq> Some i) (encs ! i) cached of
        (ok, e, cached', reg') \<Rightarrow> (ok, encs[i := e], cached', reg'))"

text \<open>Each search returns the encoder it chose, the encoders left in the list, and the state.\<close>

fun search_named ::
  "driver \<Rightarrow> probe_settings \<Rightarrow> nat option \<Rightarrow> string \<Rightarrow> nat list \<Rightarrow> search_state \<Rightarrow> nat option \<times> nat list \<times> search_state" where
  "search_named drv cfg prev name [] st = (None, [], st)"
| "search_named drv cfg prev name (i # is) st =
     (if enc_name (fst st ! i) = name
      then (case validate_at drv cfg prev i st of (ok, st') \<Rightarrow>
              if ok then (Some i, i # is, st') else (None, is, st'))
      else (case search_named drv cfg prev name is st of (r, rest, st') \<Rightarrow> (r, i # rest, st')))"

definition lacks_codec :: "probe_settings \<Rightarrow> encoder \<Rightarrow> bool" where
  "lacks_codec cfg e =
     (2 \<le> set_hevc_mode cfg \<and> \<not> enc_hevc e PASSED \<or> 2 \<le> set_av1_mode cfg \<and> \<not> enc_av1 e PASSED)"

definition lacks_hdr :: "probe_settings \<Rightarrow> encoder \<Rightarrow> bool" where
  "lacks_hdr cfg e =
     (set_hevc_mode cfg = 3 \<and> \<not> enc_hevc e DYNAMIC_RANGE \<or> set_av1_mode cfg = 3 \<and> \<not> enc_av1 e DYNAMIC_RANGE)"

fun search_codec ::
  "driver \<Rightarrow> probe_settings \<Rightarrow> nat option \<Rightarrow> nat list \<Rightarrow> search_state \<Rightarrow> nat option \<times> nat list \<times> search_state" where
  "search_codec drv cfg prev [] st = (None, [], st)"
| "search_codec drv cfg prev (i # is) st =
     (case validate_at drv cfg prev i st of (ok, st') \<Rightarrow>
        if \<not> ok then search_codec drv cfg prev is st'
        else if lacks_codec cfg (fst st' ! i) \<or> lacks_hdr cfg (fst st' ! i)
        then (case search_codec drv cfg prev is st' of (r, rest, st'') \<Rightarrow> (r, i # rest, st''))
        else (Some i, i # is, st'))"

fun search_any ::
  "driver \<Rightarrow> probe_settings \<Rightarrow> nat option \<Rightarrow> nat list \<Rightarrow> search_state \<Rightarrow> nat option \<times> nat list \<times> search_state" where
  "search_any drv cfg prev [] st = (None, [], st)"
| "search_any drv cfg prev (i # is) st =
     (case validate_at drv cfg prev i st of (ok, st') \<Rightarrow>
        if ok then (Some i, i # is, st') else search_any drv cfg prev is st')"

definition adjust_mode :: "int \<Rightarrow> capabilities \<Rightarrow> int" where
  "adjust_mode mode caps =
     (if mode = 3 \<and> \<not> caps DYNAMIC_RANGE then 0 else if mode = 2 \<and> \<not> caps PASSED then 0 else mode)"

definition adjust_encoder_constraints :: "probe_settings \<Rightarrow> encoder \<Rightarrow> probe_settings" where
  "adjust_encoder_constraints cfg e =
     cfg\<lparr>set_hevc_mode := adjust_mode (set_hevc_mode cfg) (enc_hevc e),
         set_av1_mode := adjust_mode (set_av1_mode cfg) (enc_av1 e)\<rparr>"

text \<open>The searches in the order of the code: the configured encoder if there is one, an encoder with
  the wanted codecs if the configuration wants some, any encoder.\<close>

definition select_encoder ::
  "driver \<Rightarrow> probe_settings \<Rightarrow> nat option \<Rightarrow> string \<Rightarrow> nat list \<Rightarrow> search_state
    \<Rightarrow> nat option \<times> probe_settings \<times> search_state" where
  "select_encoder drv cfg prev name list st =
     (let (r1, list1, st1) = (if name \<noteq> [] then search_named drv cfg prev name list st else (None, list, st))
      in case r1 of
           Some i \<Rightarrow> (Some i, adjust_encoder_constraints cfg (fst st1 ! i), st1)
         | None \<Rightarrow>
             (let (r2, list2, st2) = (if 2 \<le> set_hevc_mode cfg \<or> 2 \<le> set_av1_mode cfg
                                      then search_codec drv cfg prev list1 st1 else (None, list1, st1))
              in case r2 of
                   Some i \<Rightarrow> (Some i, cfg, st2)
                 | None \<Rightarrow>
                     (case search_any drv cfg prev list2 st2 of (r3, _, st3) \<Rightarrow>
                      case r3 of
                        Some i \<Rightarrow> (Some i, adjust_encoder_constraints cfg (fst st3 ! i), st3)
                      | None \<Rightarrow> (None, cfg, st3))))"

subsection \<open>The probe\<close>

definition final_mode :: "int \<Rightarrow> capabilities \<Rightarrow> int" where
  "final_mode mode caps =
     (if mode = 0 then (if caps PASSED then (if caps DYNAMIC_RANGE then 3 else 2) else 1) else mode)"

definition publish_encoder :: "string \<Rightarrow> nat \<Rightarrow> probe_settings \<Rightarrow> probe_globals \<Rightarrow> probe_globals" where
  "publish_encoder key i cfg g =
     (let e = g_encoders g ! i; h264 = enc_h264 e; hevc = enc_hevc e; av1 = enc_av1 e
      in g\<lparr>g_chosen := Some i,
           g_hevc_mode := final_mode (set_hevc_mode cfg) hevc,
           g_av1_mode := final_mode (set_av1_mode cfg) av1,
           g_ref_frames_invalidation := has_flag e REF_FRAMES_INVALIDATION,
           g_yuv444 := [h264 PASSED \<and> h264 YUV444, hevc PASSED \<and> hevc YUV444, av1 PASSED \<and> av1 YUV444],
           g_supported := [h264 PASSED, hevc PASSED, av1 PASSED],
           g_cache := update_probe_cache (g_cache g) key True (hevc DYNAMIC_RANGE \<or> av1 DYNAMIC_RANGE)
                        (hevc PASSED) (hevc DYNAMIC_RANGE) (av1 PASSED) (av1 DYNAMIC_RANGE)\<rparr>)"

text \<open>The flags the guard \<open>restore_previous_probe_state\<close> brings back when no encoder is found.\<close>

definition probe_encoders_impl :: "probe_env \<Rightarrow> probe_globals \<Rightarrow> probe_globals \<times> int" where
  "probe_encoders_impl env g =
     (let key = build_probe_cache_key (env_hevc_mode env) (env_av1_mode env) (env_gpus env);
          hevc_auto = (env_hevc_mode env = 0); av1_auto = (env_av1_mode env = 0);
          wants_hdr = (env_hevc_mode env = 3 \<or> env_av1_mode env = 3);
          wants_hevc = (2 \<le> env_hevc_mode env \<or> hevc_auto);
          wants_hevc_hdr = (env_hevc_mode env = 3 \<or> hevc_auto);
          wants_av1 = (2 \<le> env_av1_mode env \<or> av1_auto);
          wants_av1_hdr = (env_av1_mode env = 3 \<or> av1_auto);
          failed = (\<lambda>g. (g\<lparr>g_cache := probe_failed (g_cache g) key\<rparr>, - 1))
      in if probe_cache_matches (g_cache g) key wants_hdr wants_hevc wants_hevc_hdr wants_av1 wants_av1_hdr
         then (g\<lparr>g_attempted := True\<rparr>, 0)
         else if env_stack_down env then failed g
         else if \<not> env_d3d_healthy env then failed g
         else if \<not> env_allow_probing env then failed g
         else
           let cfg = \<lparr>set_hevc_mode = int (env_hevc_mode env), set_av1_mode = int (env_av1_mode env),
                      set_force_header_replace = env_force_header_replace env\<rparr>;
               (r, cfg', (encs, _, reg)) =
                 select_encoder (env_driver env) cfg (g_chosen g) (env_encoder env)
                   [0..<length (g_encoders g)] (g_encoders g, None, g_registry g);
               g1 = g\<lparr>g_attempted := True, g_encoders := encs, g_registry := reg\<rparr>
           in case r of
                None \<Rightarrow> failed g1
              | Some i \<Rightarrow> (publish_encoder key i cfg' g1, 0))"

subsection \<open>The snapshot for the worker\<close>

record snapshot =
  sn_version :: nat
  sn_encoder_name :: string
  sn_hevc_mode :: int
  sn_av1_mode :: int
  sn_capabilities :: "u32 list"
  sn_ref_frames_invalidation :: nat
  sn_yuv444 :: "nat list"
  sn_supported :: "nat list"

definition wire_version :: nat where "wire_version = 1"

definition flag_index :: "flag \<Rightarrow> nat" where
  "flag_index f = (case f of PASSED \<Rightarrow> 0 | REF_FRAMES_RESTRICT \<Rightarrow> 1 | DYNAMIC_RANGE \<Rightarrow> 2 | YUV444 \<Rightarrow> 3
     | VUI_PARAMETERS \<Rightarrow> 4)"

definition to_ulong :: "capabilities \<Rightarrow> u32" where
  "to_ulong caps =
     (\<Sum>f \<leftarrow> [PASSED, REF_FRAMES_RESTRICT, DYNAMIC_RANGE, YUV444, VUI_PARAMETERS].
        if caps f then push_bit (flag_index f) 1 else 0)"

definition of_ulong :: "u32 \<Rightarrow> capabilities" where
  "of_ulong w f = bit w (flag_index f)"

definition name_size :: nat where "name_size = 32"

abbreviation wire_bool :: "bool \<Rightarrow> nat" where "wire_bool b \<equiv> (if b then 1 else 0)"

definition export_encoder_probe_snapshot :: "probe_globals \<Rightarrow> snapshot option" where
  "export_encoder_probe_snapshot g =
     (case g_chosen g of
        None \<Rightarrow> None
      | Some i \<Rightarrow>
          if \<not> g_attempted g then None
          else let e = g_encoders g ! i in
               if length (enc_name e) \<ge> name_size then None
               else Some \<lparr>sn_version = wire_version,
                          sn_encoder_name = enc_name e @ replicate (name_size - length (enc_name e)) (CHR 0x00),
                          sn_hevc_mode = g_hevc_mode g, sn_av1_mode = g_av1_mode g,
                          sn_capabilities = [to_ulong (enc_h264 e), to_ulong (enc_hevc e), to_ulong (enc_av1 e)],
                          sn_ref_frames_invalidation = wire_bool (g_ref_frames_invalidation g),
                          sn_yuv444 = map wire_bool (g_yuv444 g),
                          sn_supported = map wire_bool (g_supported g)\<rparr>)"

text \<open>\<open>std::find_if\<close> over the encoders: the position of the first one with the name.\<close>

fun find_encoder :: "string \<Rightarrow> encoder list \<Rightarrow> nat option" where
  "find_encoder name [] = None"
| "find_encoder name (e # es) =
     (if enc_name e = name then Some 0 else map_option Suc (find_encoder name es))"

definition codec_consistent :: "nat \<Rightarrow> nat \<Rightarrow> u32 \<Rightarrow> bool" where
  "codec_consistent supported yuv444 caps \<longleftrightarrow>
     (supported \<noteq> 0) = (caps AND push_bit (flag_index PASSED) 1 \<noteq> 0)
     \<and> (yuv444 \<noteq> 0) = (caps AND push_bit (flag_index YUV444) 1 \<noteq> 0)"

definition import_encoder_probe_snapshot :: "snapshot \<Rightarrow> probe_globals \<Rightarrow> probe_globals option" where
  "import_encoder_probe_snapshot sn g =
     (if sn_version sn \<noteq> wire_version then None
      else if sn_hevc_mode sn < 0 \<or> sn_hevc_mode sn > 3 \<or> sn_av1_mode sn < 0 \<or> sn_av1_mode sn > 3 then None
      else if \<not> (sn_ref_frames_invalidation sn \<le> 1 \<and> list_all (\<lambda>v. v \<le> 1) (sn_yuv444 sn)
                 \<and> list_all (\<lambda>v. v \<le> 1) (sn_supported sn)) then None
      else if CHR 0x00 \<notin> set (sn_encoder_name sn) then None
      else case find_encoder (takeWhile (\<lambda>c. c \<noteq> CHR 0x00) (sn_encoder_name sn)) (g_encoders g) of
             None \<Rightarrow> None
           | Some i \<Rightarrow>
               if list_ex (\<lambda>v. v AND NOT (push_bit 5 1 - 1) \<noteq> 0) (sn_capabilities sn) then None
               else if \<not> list_all (\<lambda>(s, y, c). codec_consistent s y c)
                          (zip (sn_supported sn) (zip (sn_yuv444 sn) (sn_capabilities sn))) then None
               else Some (g\<lparr>g_encoders := (g_encoders g)[i := (g_encoders g ! i)
                              \<lparr>enc_h264 := of_ulong (sn_capabilities sn ! 0),
                               enc_hevc := of_ulong (sn_capabilities sn ! 1),
                               enc_av1 := of_ulong (sn_capabilities sn ! 2)\<rparr>],
                            g_hevc_mode := sn_hevc_mode sn, g_av1_mode := sn_av1_mode sn,
                            g_ref_frames_invalidation := sn_ref_frames_invalidation sn \<noteq> 0,
                            g_yuv444 := map (\<lambda>v. v \<noteq> 0) (sn_yuv444 sn),
                            g_supported := map (\<lambda>v. v \<noteq> 0) (sn_supported sn),
                            g_chosen := Some i, g_attempted := True\<rparr>))"

subsection \<open>What the searches find\<close>

text \<open>A search keeps the encoders apart from their bits, and what it chooses has been validated.\<close>

definition same_encoders :: "encoder list \<Rightarrow> encoder list \<Rightarrow> bool" where
  "same_encoders es es' \<longleftrightarrow> length es' = length es \<and> map enc_name es' = map enc_name es"

lemma same_encoders_refl [simp]: "same_encoders es es"
  by (simp add: same_encoders_def)

lemma same_encoders_trans: "\<lbrakk>same_encoders a b; same_encoders b c\<rbrakk> \<Longrightarrow> same_encoders a c"
  by (simp add: same_encoders_def)

lemma validate_encoder_safe_name:
  "enc_name (fst (snd (validate_encoder_safe drv cfg reg x e cached))) = enc_name e"
proof -
  let ?st = "\<lparr>ps_encoder = e, ps_in_flight = c_unattributed, ps_cached = cached\<rparr>"
  obtain s r where v: "validate_encoder drv cfg reg x ?st = (s, r)" by fastforce
  from validate_encoder_outcome [of drv cfg reg x ?st] have "enc_name (ps_encoder s) = enc_name e"
    unfolding v by (auto simp: outcome_def split: stage.splits)
  then show ?thesis unfolding validate_encoder_safe_def v by (auto split: stage.splits)
qed

lemma validate_at_sound:
  assumes "validate_at drv cfg prev i st = (ok, st')" and "i < length (fst st)"
  shows "same_encoders (fst st) (fst st')" and "ok \<Longrightarrow> validated drv (fst st' ! i)"
proof -
  obtain encs cached reg where st: "st = (encs, cached, reg)" by (cases st)
  obtain ok' e cached' reg' where safe:
    "validate_encoder_safe drv cfg reg (prev \<noteq> None \<and> prev \<noteq> Some i) (encs ! i) cached = (ok', e, cached', reg')"
    by (metis prod_cases4)
  with assms(1) have r: "ok = ok'" "st' = (encs[i := e], cached', reg')"
    unfolding validate_at_def st by simp_all
  have "enc_name e = enc_name (encs ! i)"
    using validate_encoder_safe_name [of drv cfg reg "prev \<noteq> None \<and> prev \<noteq> Some i" "encs ! i" cached] safe by simp
  then show "same_encoders (fst st) (fst st')"
    using assms(2) by (auto simp: st r same_encoders_def map_update list_update_same_conv)
  assume ok
  then have "validate_encoder_safe drv cfg reg (prev \<noteq> None \<and> prev \<noteq> Some i) (encs ! i) cached = (True, e, cached', reg')"
    using safe r by simp
  from validate_encoder_safe_validated [OF this] show "validated drv (fst st' ! i)"
    using assms(2) by (simp add: st r)
qed

lemma search_named_sound:
  "\<lbrakk>search_named drv cfg prev name list st = (r, rest, st'); \<forall>i \<in> set list. i < length (fst st)\<rbrakk> \<Longrightarrow>
     same_encoders (fst st) (fst st') \<and> set rest \<subseteq> set list
     \<and> (\<forall>i. r = Some i \<longrightarrow> i \<in> set list \<and> validated drv (fst st' ! i))"
proof (induction drv cfg prev name list st arbitrary: r rest st' rule: search_named.induct)
  case (2 drv cfg prev name i "is" st)
  then show ?case
    by (auto split: if_splits prod.splits dest: validate_at_sound)
qed simp

lemma search_codec_sound:
  "\<lbrakk>search_codec drv cfg prev list st = (r, rest, st'); \<forall>i \<in> set list. i < length (fst st)\<rbrakk> \<Longrightarrow>
     same_encoders (fst st) (fst st') \<and> set rest \<subseteq> set list
     \<and> (\<forall>i. r = Some i \<longrightarrow> i \<in> set list \<and> validated drv (fst st' ! i)
          \<and> \<not> lacks_codec cfg (fst st' ! i) \<and> \<not> lacks_hdr cfg (fst st' ! i))"
proof (induction list arbitrary: st r rest st')
  case (Cons i "is")
  obtain ok st1 where v: "validate_at drv cfg prev i st = (ok, st1)" by (meson surj_pair)
  note s = validate_at_sound [OF v]
  have same: "same_encoders (fst st) (fst st1)" using s(1) Cons.prems(2) by simp
  then have len: "\<forall>j \<in> set is. j < length (fst st1)" using Cons.prems(2) by (simp add: same_encoders_def)
  obtain r2 rest2 st2 where t: "search_codec drv cfg prev is st1 = (r2, rest2, st2)" by (metis prod_cases3)
  note IH = Cons.IH [OF t len]
  show ?case
    using Cons.prems v t IH same s(2) same_encoders_trans [OF same]
    by (auto split: if_splits)
qed simp

lemma search_any_sound:
  "\<lbrakk>search_any drv cfg prev list st = (r, rest, st'); \<forall>i \<in> set list. i < length (fst st)\<rbrakk> \<Longrightarrow>
     same_encoders (fst st) (fst st')
     \<and> (\<forall>i. r = Some i \<longrightarrow> i \<in> set list \<and> validated drv (fst st' ! i))"
proof (induction list arbitrary: st r rest st')
  case (Cons i "is")
  obtain ok st1 where v: "validate_at drv cfg prev i st = (ok, st1)" by (meson surj_pair)
  note s = validate_at_sound [OF v]
  have same: "same_encoders (fst st) (fst st1)" using s(1) Cons.prems(2) by simp
  then have len: "\<forall>j \<in> set is. j < length (fst st1)" using Cons.prems(2) by (simp add: same_encoders_def)
  obtain r2 rest2 st2 where t: "search_any drv cfg prev is st1 = (r2, rest2, st2)" by (metis prod_cases3)
  note IH = Cons.IH [OF t len]
  show ?case
    using Cons.prems v t IH same s(2) same_encoders_trans [OF same]
    by (auto split: if_splits)
qed simp

text \<open>The modes that go with a chosen encoder: a mode of two or three is covered by its bits.\<close>

definition mode_covered :: "int \<Rightarrow> capabilities \<Rightarrow> bool" where
  "mode_covered mode caps \<longleftrightarrow> mode \<in> {1, 2, 3} \<and> (2 \<le> mode \<longrightarrow> caps PASSED) \<and> (mode = 3 \<longrightarrow> caps DYNAMIC_RANGE)"

lemma adjusted_mode_covered:
  assumes "mode \<in> {0, 1, 2, 3}" and "caps DYNAMIC_RANGE \<longrightarrow> caps PASSED"
  shows "mode_covered (final_mode (adjust_mode mode caps) caps) caps"
  using assms by (auto simp: mode_covered_def final_mode_def adjust_mode_def)

lemma required_mode_covered:
  assumes "mode \<in> {0, 1, 2, 3}" and "2 \<le> mode \<longrightarrow> caps PASSED" and "mode = 3 \<longrightarrow> caps DYNAMIC_RANGE"
  shows "mode_covered (final_mode mode caps) caps"
  using assms by (auto simp: mode_covered_def final_mode_def)

lemma validated_hdr_passed:
  assumes "validated drv e"
  shows "enc_hevc e DYNAMIC_RANGE \<longrightarrow> enc_hevc e PASSED" "enc_av1 e DYNAMIC_RANGE \<longrightarrow> enc_av1 e PASSED"
proof -
  have "\<not> enc_caps e c PASSED \<longrightarrow> enc_caps e c = caps_reset" if "c = c_hevc \<or> c = c_av1" for c
    using assms that by (auto simp: validated_def bits_backed_def Let_def)
  from this [of c_hevc] this [of c_av1]
  show "enc_hevc e DYNAMIC_RANGE \<longrightarrow> enc_hevc e PASSED" "enc_av1 e DYNAMIC_RANGE \<longrightarrow> enc_av1 e PASSED"
    by (auto simp: enc_caps_def)
qed

lemma select_encoder_sound:
  assumes sel: "select_encoder drv cfg prev name list st = (r, cfg', st')"
    and len: "\<forall>i \<in> set list. i < length (fst st)"
    and modes: "set_hevc_mode cfg \<in> {0, 1, 2, 3}" "set_av1_mode cfg \<in> {0, 1, 2, 3}"
  shows "same_encoders (fst st) (fst st')
    \<and> (\<forall>i. r = Some i \<longrightarrow> i \<in> set list \<and> validated drv (fst st' ! i)
        \<and> mode_covered (final_mode (set_hevc_mode cfg') (enc_hevc (fst st' ! i))) (enc_hevc (fst st' ! i))
        \<and> mode_covered (final_mode (set_av1_mode cfg') (enc_av1 (fst st' ! i))) (enc_av1 (fst st' ! i)))"
proof -
  have adjusted: "mode_covered (final_mode (set_hevc_mode (adjust_encoder_constraints cfg e)) (enc_hevc e)) (enc_hevc e)
      \<and> mode_covered (final_mode (set_av1_mode (adjust_encoder_constraints cfg e)) (enc_av1 e)) (enc_av1 e)"
    if "validated drv e" for e
    using adjusted_mode_covered [OF modes(1)] adjusted_mode_covered [OF modes(2)] validated_hdr_passed [OF that]
    by (simp add: adjust_encoder_constraints_def)
  have required: "mode_covered (final_mode (set_hevc_mode cfg) (enc_hevc e)) (enc_hevc e)
      \<and> mode_covered (final_mode (set_av1_mode cfg) (enc_av1 e)) (enc_av1 e)"
    if "\<not> lacks_codec cfg e" "\<not> lacks_hdr cfg e" for e
    using that required_mode_covered [OF modes(1)] required_mode_covered [OF modes(2)]
    by (auto simp: lacks_codec_def lacks_hdr_def)
  obtain r1 list1 st1 where 1: "(if name \<noteq> [] then search_named drv cfg prev name list st else (None, list, st)) = (r1, list1, st1)"
    by (metis prod_cases3)
  have s1: "same_encoders (fst st) (fst st1) \<and> set list1 \<subseteq> set list
      \<and> (\<forall>i. r1 = Some i \<longrightarrow> i \<in> set list \<and> validated drv (fst st1 ! i))"
    using 1 search_named_sound [OF _ len, of drv cfg prev name r1 list1 st1] by (auto split: if_splits)
  have len1: "\<forall>i \<in> set list1. i < length (fst st1)" using s1 len by (auto simp: same_encoders_def)
  obtain r2 list2 st2 where 2: "(if 2 \<le> set_hevc_mode cfg \<or> 2 \<le> set_av1_mode cfg
      then search_codec drv cfg prev list1 st1 else (None, list1, st1)) = (r2, list2, st2)"
    by (metis prod_cases3)
  have s2: "same_encoders (fst st1) (fst st2) \<and> set list2 \<subseteq> set list1
      \<and> (\<forall>i. r2 = Some i \<longrightarrow> i \<in> set list1 \<and> validated drv (fst st2 ! i)
          \<and> \<not> lacks_codec cfg (fst st2 ! i) \<and> \<not> lacks_hdr cfg (fst st2 ! i))"
    using 2 search_codec_sound [OF _ len1, of drv cfg prev r2 list2 st2] by (auto split: if_splits)
  have len2: "\<forall>i \<in> set list2. i < length (fst st2)" using s2 len1 by (auto simp: same_encoders_def)
  obtain r3 list3 st3 where 3: "search_any drv cfg prev list2 st2 = (r3, list3, st3)" by (metis prod_cases3)
  note s3 = search_any_sound [OF 3 len2]
  have same2: "same_encoders (fst st) (fst st2)" and same3: "same_encoders (fst st) (fst st3)"
    using s1 s2 s3 by (blast intro: same_encoders_trans)+
  consider i where "r1 = Some i" "(r, cfg', st') = (Some i, adjust_encoder_constraints cfg (fst st1 ! i), st1)"
    | i where "r2 = Some i" "(r, cfg', st') = (Some i, cfg, st2)"
    | i where "r3 = Some i" "(r, cfg', st') = (Some i, adjust_encoder_constraints cfg (fst st3 ! i), st3)"
    | "(r, cfg', st') = (None, cfg, st3)"
    using sel unfolding select_encoder_def Let_def 1 prod.case 2 3
    by (auto split: option.splits)
  then show ?thesis
    using s1 s2 s3 same2 same3 adjusted required by cases (auto 0 3)
qed

subsection \<open>The probe as a whole\<close>

text \<open>What the rest of the host reads after a successful probe.\<close>

definition selection_sound :: "driver \<Rightarrow> probe_globals \<Rightarrow> bool" where
  "selection_sound drv g \<longleftrightarrow> (\<exists>i e. g_chosen g = Some i \<and> i < length (g_encoders g) \<and> e = g_encoders g ! i
     \<and> validated drv e
     \<and> mode_covered (g_hevc_mode g) (enc_hevc e) \<and> mode_covered (g_av1_mode g) (enc_av1 e)
     \<and> g_supported g = [enc_h264 e PASSED, enc_hevc e PASSED, enc_av1 e PASSED]
     \<and> g_yuv444 g = [enc_h264 e PASSED \<and> enc_h264 e YUV444, enc_hevc e PASSED \<and> enc_hevc e YUV444,
                     enc_av1 e PASSED \<and> enc_av1 e YUV444]
     \<and> g_ref_frames_invalidation g = has_flag e REF_FRAMES_INVALIDATION \<and> g_attempted g)"

text \<open>Whether the call is answered from the cache.\<close>

definition cache_hit :: "probe_env \<Rightarrow> probe_globals \<Rightarrow> bool" where
  "cache_hit env g = probe_cache_matches (g_cache g)
     (build_probe_cache_key (env_hevc_mode env) (env_av1_mode env) (env_gpus env))
     (env_hevc_mode env = 3 \<or> env_av1_mode env = 3)
     (2 \<le> env_hevc_mode env \<or> env_hevc_mode env = 0) (env_hevc_mode env = 3 \<or> env_hevc_mode env = 0)
     (2 \<le> env_av1_mode env \<or> env_av1_mode env = 0) (env_av1_mode env = 3 \<or> env_av1_mode env = 0)"

text \<open>The call unfolded along its three ways out.\<close>

lemma probe_encoders_impl_cases:
  obtains (hit) "cache_hit env g" "probe_encoders_impl env g = (g\<lparr>g_attempted := True\<rparr>, 0)"
  | (gate) key where "\<not> cache_hit env g"
      "probe_encoders_impl env g = (g\<lparr>g_cache := probe_failed (g_cache g) key\<rparr>, - 1)"
  | (run) key cfg r cfg' encs cached reg where "\<not> cache_hit env g"
      "cfg = \<lparr>set_hevc_mode = int (env_hevc_mode env), set_av1_mode = int (env_av1_mode env),
              set_force_header_replace = env_force_header_replace env\<rparr>"
      "select_encoder (env_driver env) cfg (g_chosen g) (env_encoder env) [0..<length (g_encoders g)]
         (g_encoders g, None, g_registry g) = (r, cfg', encs, cached, reg)"
      "probe_encoders_impl env g = (case r of
         None \<Rightarrow> (g\<lparr>g_attempted := True, g_encoders := encs, g_registry := reg, g_cache := probe_failed (g_cache g) key\<rparr>, - 1)
       | Some i \<Rightarrow> (publish_encoder key i cfg' (g\<lparr>g_attempted := True, g_encoders := encs, g_registry := reg\<rparr>), 0))"
proof -
  let ?key = "build_probe_cache_key (env_hevc_mode env) (env_av1_mode env) (env_gpus env)"
  let ?cfg = "\<lparr>set_hevc_mode = int (env_hevc_mode env), set_av1_mode = int (env_av1_mode env),
              set_force_header_replace = env_force_header_replace env\<rparr>"
  obtain r cfg' encs cached reg where sel:
    "select_encoder (env_driver env) ?cfg (g_chosen g) (env_encoder env) [0..<length (g_encoders g)]
         (g_encoders g, None, g_registry g) = (r, cfg', encs, cached, reg)"
    by (metis prod_cases5)
  have hit: "cache_hit env g \<Longrightarrow> probe_encoders_impl env g = (g\<lparr>g_attempted := True\<rparr>, 0)"
    by (simp add: probe_encoders_impl_def Let_def cache_hit_def)
  have gate: "\<lbrakk>\<not> cache_hit env g; env_stack_down env \<or> \<not> env_d3d_healthy env \<or> \<not> env_allow_probing env\<rbrakk>
      \<Longrightarrow> probe_encoders_impl env g = (g\<lparr>g_cache := probe_failed (g_cache g) ?key\<rparr>, - 1)"
    by (auto simp: probe_encoders_impl_def Let_def cache_hit_def)
  have run: "\<lbrakk>\<not> cache_hit env g; \<not> (env_stack_down env \<or> \<not> env_d3d_healthy env \<or> \<not> env_allow_probing env)\<rbrakk>
      \<Longrightarrow> probe_encoders_impl env g = (case r of
         None \<Rightarrow> (g\<lparr>g_attempted := True, g_encoders := encs, g_registry := reg, g_cache := probe_failed (g_cache g) ?key\<rparr>, - 1)
       | Some i \<Rightarrow> (publish_encoder ?key i cfg' (g\<lparr>g_attempted := True, g_encoders := encs, g_registry := reg\<rparr>), 0))"
    unfolding probe_encoders_impl_def Let_def sel by (simp add: cache_hit_def split: option.split)
  show thesis
  proof (cases "cache_hit env g")
    case True
    then show thesis using hit that(1) by blast
  next
    case False
    show thesis
    proof (cases "env_stack_down env \<or> \<not> env_d3d_healthy env \<or> \<not> env_allow_probing env")
      case True
      from that(2) [OF False gate [OF False True]] show thesis .
    next
      case no_gate: False
      from that(3) [OF False refl sel run [OF False no_gate]] show thesis .
    qed
  qed
qed

lemma published_selection:
  assumes "probe_encoders_impl env g = (g', 0)" and "\<not> cache_hit env g"
    and "env_hevc_mode env \<le> 3" and "env_av1_mode env \<le> 3"
  shows "selection_sound (env_driver env) g' \<and> map enc_name (g_encoders g') = map enc_name (g_encoders g)"
proof (cases rule: probe_encoders_impl_cases [of env g])
  case (run key cfg r cfg' encs cached reg)
  then obtain i where i: "r = Some i"
    and g': "g' = publish_encoder key i cfg' (g\<lparr>g_attempted := True, g_encoders := encs, g_registry := reg\<rparr>)"
    using assms(1) by (auto split: option.splits)
  have "set_hevc_mode cfg \<in> {0, 1, 2, 3}" "set_av1_mode cfg \<in> {0, 1, 2, 3}"
    using assms(3,4) run(2) by auto
  from select_encoder_sound [OF run(3) _ this] i
  have sel: "same_encoders (g_encoders g) encs" "i < length (g_encoders g)" "validated (env_driver env) (encs ! i)"
    "mode_covered (final_mode (set_hevc_mode cfg') (enc_hevc (encs ! i))) (enc_hevc (encs ! i))"
    "mode_covered (final_mode (set_av1_mode cfg') (enc_av1 (encs ! i))) (enc_av1 (encs ! i))"
    by auto
  then show ?thesis
    unfolding g' by (auto simp: selection_sound_def publish_encoder_def Let_def same_encoders_def)
qed (use assms in auto)

text \<open>
  C8. A probe that runs and reports success publishes an encoder of the list whose capability bits
  were validated by the drivers in this probe; the active HEVC and AV1 modes are 1, 2 or 3, a mode of
  two needs a codec that passed and a mode of three one that works in HDR, whatever the
  configuration asked for; the published flags are those of the chosen encoder.
\<close>

theorem probe_publishes_sound_selection:
  assumes "probe_encoders_impl env g = (g', 0)" and "\<not> cache_hit env g"
    and "env_hevc_mode env \<le> 3" and "env_av1_mode env \<le> 3"
  shows "selection_sound (env_driver env) g' \<and> map enc_name (g_encoders g') = map enc_name (g_encoders g)"
  using assms by (rule published_selection)

text \<open>
  A probe that fails leaves the choice as it was: the chosen encoder, the active modes and the
  published flags are unchanged, and the result is not cached, so that the next call probes again.
\<close>

theorem failed_probe_keeps_selection:
  assumes "probe_encoders_impl env g = (g', - 1)"
  shows "g_chosen g' = g_chosen g \<and> g_hevc_mode g' = g_hevc_mode g \<and> g_av1_mode g' = g_av1_mode g
    \<and> g_ref_frames_invalidation g' = g_ref_frames_invalidation g
    \<and> g_yuv444 g' = g_yuv444 g \<and> g_supported g' = g_supported g
    \<and> (\<forall>env'. \<not> cache_hit env' g')"
proof (cases rule: probe_encoders_impl_cases [of env g])
  case (gate key)
  with assms show ?thesis
    by (auto simp: cache_hit_def probe_cache_matches_def probe_failed_def update_probe_cache_def)
next
  case (run key cfg r cfg' encs cached reg)
  with assms show ?thesis
    by (auto simp: cache_hit_def probe_cache_matches_def probe_failed_def update_probe_cache_def split: option.splits)
qed (use assms in auto)

subsection \<open>The snapshot\<close>

lemma to_ulong_expand:
  "to_ulong caps = (if caps PASSED then 1 else 0) + (if caps REF_FRAMES_RESTRICT then 2 else 0)
     + (if caps DYNAMIC_RANGE then 4 else 0) + (if caps YUV444 then 8 else 0) + (if caps VUI_PARAMETERS then 16 else 0)"
  by (simp add: to_ulong_def flag_index_def)

lemma to_ulong_bits:
  "bit (to_ulong caps) 0 = caps PASSED" "bit (to_ulong caps) 1 = caps REF_FRAMES_RESTRICT"
  "bit (to_ulong caps) 2 = caps DYNAMIC_RANGE" "bit (to_ulong caps) 3 = caps YUV444"
  "bit (to_ulong caps) 4 = caps VUI_PARAMETERS" "to_ulong caps AND NOT (push_bit 5 1 - 1) = 0"
  unfolding to_ulong_expand
  by (cases "caps PASSED"; cases "caps REF_FRAMES_RESTRICT"; cases "caps DYNAMIC_RANGE"; cases "caps YUV444";
      cases "caps VUI_PARAMETERS"; simp)+

lemma of_ulong_to_ulong [simp]: "of_ulong (to_ulong caps) = caps"
proof
  fix f show "of_ulong (to_ulong caps) f = caps f"
    by (cases f) (simp_all add: of_ulong_def flag_index_def to_ulong_bits to_ulong_bits(2) [unfolded One_nat_def])
qed

lemma to_ulong_masks:
  "(to_ulong caps AND push_bit (flag_index PASSED) 1 \<noteq> 0) = caps PASSED"
  "(to_ulong caps AND push_bit (flag_index YUV444) 1 \<noteq> 0) = caps YUV444"
  unfolding to_ulong_expand
  by (cases "caps PASSED"; cases "caps REF_FRAMES_RESTRICT"; cases "caps DYNAMIC_RANGE"; cases "caps YUV444";
      cases "caps VUI_PARAMETERS"; simp add: flag_index_def)+

lemma find_encoder_first:
  "\<lbrakk>distinct (map enc_name es); i < length es\<rbrakk> \<Longrightarrow> find_encoder (enc_name (es ! i)) es = Some i"
proof (induction es arbitrary: i)
  case (Cons e es)
  then show ?case by (cases i) (auto simp: image_iff Bex_def in_set_conv_nth)
qed simp

lemma validated_yuv444_passed:
  assumes "validated drv e"
  shows "(enc_h264 e PASSED \<and> enc_h264 e YUV444) = enc_h264 e YUV444"
    "(enc_hevc e PASSED \<and> enc_hevc e YUV444) = enc_hevc e YUV444"
    "(enc_av1 e PASSED \<and> enc_av1 e YUV444) = enc_av1 e YUV444"
proof -
  have "\<not> enc_caps e c PASSED \<longrightarrow> enc_caps e c = caps_reset" if "c = c_hevc \<or> c = c_av1" for c
    using assms that by (auto simp: validated_def bits_backed_def Let_def)
  from this [of c_hevc] this [of c_av1]
  show "(enc_hevc e PASSED \<and> enc_hevc e YUV444) = enc_hevc e YUV444"
    "(enc_av1 e PASSED \<and> enc_av1 e YUV444) = enc_av1 e YUV444" by (auto simp: enc_caps_def)
  show "(enc_h264 e PASSED \<and> enc_h264 e YUV444) = enc_h264 e YUV444"
    using assms by (simp add: validated_def)
qed

lemma takeWhile_terminated:
  "\<lbrakk>CHR 0x00 \<notin> set name; 0 < k\<rbrakk> \<Longrightarrow> takeWhile (\<lambda>c. c \<noteq> CHR 0x00) (name @ replicate k (CHR 0x00)) = name"
  by (subst takeWhile_append2) (auto simp: takeWhile_replicate)

text \<open>
  C9. A worker that has the same encoders accepts the snapshot of every sound selection and then has
  the same selection: encoder, capability bits, active modes and flags.
\<close>

theorem snapshot_roundtrip:
  assumes "selection_sound drv g" and "g_chosen g = Some i"
    and "length (enc_name (g_encoders g ! i)) < name_size" and "CHR 0x00 \<notin> set (enc_name (g_encoders g ! i))"
    and "map enc_name (g_encoders w) = map enc_name (g_encoders g)" and "distinct (map enc_name (g_encoders g))"
  shows "\<exists>sn w'. export_encoder_probe_snapshot g = Some sn \<and> import_encoder_probe_snapshot sn w = Some w'
    \<and> g_chosen w' = Some i \<and> g_attempted w'
    \<and> enc_h264 (g_encoders w' ! i) = enc_h264 (g_encoders g ! i)
    \<and> enc_hevc (g_encoders w' ! i) = enc_hevc (g_encoders g ! i)
    \<and> enc_av1 (g_encoders w' ! i) = enc_av1 (g_encoders g ! i)
    \<and> g_hevc_mode w' = g_hevc_mode g \<and> g_av1_mode w' = g_av1_mode g
    \<and> g_ref_frames_invalidation w' = g_ref_frames_invalidation g
    \<and> g_yuv444 w' = g_yuv444 g \<and> g_supported w' = g_supported g"
proof -
  define e where "e = g_encoders g ! i"
  from assms(1,2) have i: "i < length (g_encoders g)" and val: "validated drv e"
    and modes: "mode_covered (g_hevc_mode g) (enc_hevc e)" "mode_covered (g_av1_mode g) (enc_av1 e)"
    and flags: "g_supported g = [enc_h264 e PASSED, enc_hevc e PASSED, enc_av1 e PASSED]"
      and yuv: "g_yuv444 g = [enc_h264 e PASSED \<and> enc_h264 e YUV444, enc_hevc e PASSED \<and> enc_hevc e YUV444,
        enc_av1 e PASSED \<and> enc_av1 e YUV444]" and att: "g_attempted g"
    by (auto simp: selection_sound_def e_def)
  define sn where "sn = \<lparr>sn_version = wire_version,
    sn_encoder_name = enc_name e @ replicate (name_size - length (enc_name e)) (CHR 0x00),
    sn_hevc_mode = g_hevc_mode g, sn_av1_mode = g_av1_mode g,
    sn_capabilities = [to_ulong (enc_h264 e), to_ulong (enc_hevc e), to_ulong (enc_av1 e)],
    sn_ref_frames_invalidation = wire_bool (g_ref_frames_invalidation g),
    sn_yuv444 = map wire_bool (g_yuv444 g), sn_supported = map wire_bool (g_supported g)\<rparr>"
  have ex: "export_encoder_probe_snapshot g = Some sn"
    using assms(2,3) att by (simp add: export_encoder_probe_snapshot_def Let_def sn_def e_def)
  have lw: "length (g_encoders w) = length (g_encoders g)" using assms(5) by (metis length_map)
  have nm: "enc_name (g_encoders w ! i) = enc_name e" using assms(5) i lw unfolding e_def by (metis nth_map)
  have "find_encoder (enc_name e) (g_encoders w) = Some i"
    using find_encoder_first [of "g_encoders w" i] assms(5,6) i lw nm by simp
  moreover have "takeWhile (\<lambda>c. c \<noteq> CHR 0x00) (sn_encoder_name sn) = enc_name e"
    using assms(3,4) by (simp add: sn_def e_def takeWhile_terminated)
  ultimately have found: "find_encoder (takeWhile (\<lambda>c. c \<noteq> CHR 0x00) (sn_encoder_name sn)) (g_encoders w) = Some i" by simp
  have checks: "sn_version sn = wire_version"
    "\<not> (sn_hevc_mode sn < 0 \<or> sn_hevc_mode sn > 3 \<or> sn_av1_mode sn < 0 \<or> sn_av1_mode sn > 3)"
    "sn_ref_frames_invalidation sn \<le> 1 \<and> list_all (\<lambda>v. v \<le> 1) (sn_yuv444 sn) \<and> list_all (\<lambda>v. v \<le> 1) (sn_supported sn)"
    "CHR 0x00 \<in> set (sn_encoder_name sn)"
    "\<not> list_ex (\<lambda>v. v AND NOT (push_bit 5 1 - 1) \<noteq> 0) (sn_capabilities sn)"
    "list_all (\<lambda>(s, y, c). codec_consistent s y c) (zip (sn_supported sn) (zip (sn_yuv444 sn) (sn_capabilities sn)))"
    using modes flags yuv [unfolded validated_yuv444_passed [OF val]] assms(3)
    by (auto simp: sn_def mode_covered_def codec_consistent_def to_ulong_bits(6) to_ulong_masks e_def
        simp del: push_bit_of_1)
  from checks found obtain w' where im: "import_encoder_probe_snapshot sn w = Some w'"
    and w': "w' = w\<lparr>g_encoders := (g_encoders w)[i := (g_encoders w ! i)
        \<lparr>enc_h264 := of_ulong (sn_capabilities sn ! 0), enc_hevc := of_ulong (sn_capabilities sn ! 1),
         enc_av1 := of_ulong (sn_capabilities sn ! 2)\<rparr>],
      g_hevc_mode := sn_hevc_mode sn, g_av1_mode := sn_av1_mode sn,
      g_ref_frames_invalidation := sn_ref_frames_invalidation sn \<noteq> 0,
      g_yuv444 := map (\<lambda>v. v \<noteq> 0) (sn_yuv444 sn), g_supported := map (\<lambda>v. v \<noteq> 0) (sn_supported sn),
      g_chosen := Some i, g_attempted := True\<rparr>"
    unfolding import_encoder_probe_snapshot_def found by simp
  have flags': "map (\<lambda>v. v \<noteq> (0 :: nat)) (map wire_bool bs) = bs" for bs
    by (induction bs) simp_all
  show ?thesis
    using ex im lw i flags' by (auto simp: w' sn_def e_def)
qed

definition sample_globals :: probe_globals where
  "sample_globals = \<lparr>g_encoders = [sample_encoder], g_registry = Map.empty,
     g_cache = update_probe_cache undefined [] True False False False False False,
     g_chosen = None, g_hevc_mode = 0, g_av1_mode = 0, g_ref_frames_invalidation = False,
     g_yuv444 = [False, False, False], g_supported = [False, False, False], g_attempted = False\<rparr>"

definition sample_env :: probe_env where
  "sample_env = \<lparr>env_hevc_mode = 0, env_av1_mode = 0, env_encoder = [], env_force_header_replace = False,
     env_gpus = [], env_stack_down = False, env_d3d_healthy = True, env_allow_probing = True,
     env_driver = sample_driver\<rparr>"

lemma sample_not_cached: "\<not> cache_hit sample_env sample_globals"
  by (simp add: cache_hit_def probe_cache_matches_def sample_globals_def sample_env_def update_probe_cache_def)

lemma sample_probe:
  "\<exists>g'. probe_encoders_impl sample_env sample_globals = (g', 0) \<and> g_chosen g' = Some 0"
proof -
  obtain e' where "validate_encoder_safe sample_driver sample_settings Map.empty False sample_encoder None
      = (True, e', None, Map.empty)" using sample_run by blast
  then have run: "validate_encoder_safe sample_driver \<lparr>set_hevc_mode = 0, set_av1_mode = 0, set_force_header_replace = False\<rparr>
      Map.empty False sample_encoder None = (True, e', None, Map.empty)" by (simp add: sample_settings_def)
  show ?thesis
    using sample_not_cached
    by (simp add: probe_encoders_impl_def cache_hit_def sample_env_def sample_globals_def select_encoder_def
        validate_at_def run publish_encoder_def Let_def)
qed

theorem probe_publishes_sound_selection_witness:
  "\<exists>g'. probe_encoders_impl sample_env sample_globals = (g', 0) \<and> selection_sound sample_driver g'"
proof -
  obtain g' where run: "probe_encoders_impl sample_env sample_globals = (g', 0)" using sample_probe by blast
  from probe_publishes_sound_selection [OF run sample_not_cached] have "selection_sound sample_driver g'"
    by (simp add: sample_env_def)
  with run show ?thesis by blast
qed

theorem failed_probe_keeps_selection_witness:
  "\<exists>g'. probe_encoders_impl (sample_env\<lparr>env_stack_down := True\<rparr>) sample_globals = (g', - 1)
     \<and> g_chosen g' = None \<and> \<not> cache_hit sample_env g'"
proof -
  have "\<exists>g'. probe_encoders_impl (sample_env\<lparr>env_stack_down := True\<rparr>) sample_globals = (g', - 1)"
    using sample_not_cached by (simp add: probe_encoders_impl_def Let_def cache_hit_def sample_env_def)
  then obtain g' where run: "probe_encoders_impl (sample_env\<lparr>env_stack_down := True\<rparr>) sample_globals = (g', - 1)" by blast
  from failed_probe_keeps_selection [OF run] run show ?thesis by (auto simp: sample_globals_def)
qed

theorem snapshot_roundtrip_witness:
  "\<exists>g' sn w'. probe_encoders_impl sample_env sample_globals = (g', 0)
     \<and> export_encoder_probe_snapshot g' = Some sn \<and> import_encoder_probe_snapshot sn sample_globals = Some w'
     \<and> g_chosen w' = Some 0 \<and> g_hevc_mode w' = g_hevc_mode g'"
proof -
  obtain g' where run: "probe_encoders_impl sample_env sample_globals = (g', 0)" "g_chosen g' = Some 0"
    using sample_probe by blast
  have "selection_sound sample_driver g' \<and> map enc_name (g_encoders g') = map enc_name (g_encoders sample_globals)"
    using published_selection [OF run(1) sample_not_cached] by (simp add: sample_env_def)
  then have sound: "selection_sound sample_driver g'"
    and names: "map enc_name (g_encoders g') = [''nvenc'']"
    by (simp_all add: sample_globals_def sample_encoder_def)
  then have "enc_name (g_encoders g' ! 0) = ''nvenc''" by (cases "g_encoders g'") auto
  with snapshot_roundtrip [OF sound run(2), of sample_globals] names run(1) show ?thesis
    by (auto simp: name_size_def sample_globals_def sample_encoder_def)
qed

text \<open>
  A failed probe restores the published flags but not the capability bits it cleared on the chosen
  encoder: after a probe that finds no display, the host still has a chosen encoder and
  exports a snapshot, and every worker rejects it, because the flags say that H.264 is supported and
  the bits do not.
\<close>

definition no_display :: driver where
  "no_display = sample_driver\<lparr>drv_reset_display := (\<lambda>_ _. Some False)\<rparr>"

lemma no_display_clears:
  "validate_encoder_safe no_display cfg reg x e None = (False, all_caps caps_reset (all_caps caps_set e), None, reg)"
  by (simp add: validate_encoder_safe_def validate_encoder_def stage_display_def andthen_def ask_def Let_def
      no_display_def)

lemma failed_probe_breaks_snapshot:
  assumes "g_encoders g = [e]" and "g_chosen g = Some 0" and "selection_sound drv g"
    and "\<not> cache_hit (sample_env\<lparr>env_driver := no_display\<rparr>) g" and "length (enc_name e) < name_size"
  shows "\<exists>g' sn. probe_encoders_impl (sample_env\<lparr>env_driver := no_display\<rparr>) g = (g', - 1)
    \<and> export_encoder_probe_snapshot g' = Some sn \<and> (\<forall>w. import_encoder_probe_snapshot sn w = None)"
proof -
  let ?e = "all_caps caps_reset (all_caps caps_set e)"
  have sup: "g_supported g = [True, enc_hevc e PASSED, enc_av1 e PASSED]" "length (g_yuv444 g) = 3"
    using assms(1-3) by (auto simp: selection_sound_def validated_def)
  have "\<exists>g'. probe_encoders_impl (sample_env\<lparr>env_driver := no_display\<rparr>) g = (g', - 1)
      \<and> g_encoders g' = [?e] \<and> g_chosen g' = Some 0 \<and> g_attempted g' \<and> g_supported g' = g_supported g
      \<and> g_yuv444 g' = g_yuv444 g"
    using assms(1,2,4)
    by (simp add: probe_encoders_impl_def cache_hit_def sample_env_def select_encoder_def validate_at_def
        no_display_clears Let_def)
  then obtain g' where g': "probe_encoders_impl (sample_env\<lparr>env_driver := no_display\<rparr>) g = (g', - 1)"
    "g_encoders g' = [?e]" "g_chosen g' = Some 0" "g_attempted g'" "g_supported g' = g_supported g"
    "g_yuv444 g' = g_yuv444 g" by blast
  obtain y ys where y: "g_yuv444 g = y # ys" using sup(2) by (cases "g_yuv444 g") auto
  have none: "to_ulong caps_reset = 0" by (simp add: to_ulong_expand)
  obtain sn where sn: "export_encoder_probe_snapshot g' = Some sn"
    "sn_supported sn = 1 # map wire_bool [enc_hevc e PASSED, enc_av1 e PASSED]"
    "sn_yuv444 sn = wire_bool y # map wire_bool ys" "sn_capabilities sn = [0, 0, 0]"
    using g' sup(1) y assms(5)
    by (auto simp: export_encoder_probe_snapshot_def Let_def all_caps_def none)
  have "import_encoder_probe_snapshot sn w = None" for w
    by (simp add: import_encoder_probe_snapshot_def sn codec_consistent_def split: option.splits)
  with g'(1) sn(1) show ?thesis by blast
qed

text \<open>The cache key does not depend on the order in which the GPUs are enumerated.\<close>

lemma cache_key_order_independent:
  "mset gpus = mset gpus' \<Longrightarrow> build_probe_cache_key h a gpus = build_probe_cache_key h a gpus'"
proof -
  assume "mset gpus = mset gpus'"
  then have "sort gpus = sort gpus'" by (intro properties_for_sort) simp_all
  with \<open>mset gpus = mset gpus'\<close> show ?thesis by (auto simp: build_probe_cache_key_def)
qed

end
