(* ===== verification/Ring_Liveness.thy ===== *)
theory Ring_Liveness
  imports Prelude
begin

text \<open>
  The liveness ladder of the virtual display's frame ring
  (\<^verbatim>\<open>src/platform/windows/vgd_ring_liveness.h\<close>): from samples of the ring header it decides whether the
  reader consumes, waits, rebuilds the capture or gives the ring up; the recovery clock, shared by
  two entry points, travels from a destroyed reader to the next one. Durations are nanoseconds.
\<close>

definition ring_uninitialized :: u32 where "ring_uninitialized = 0"
definition ring_active :: u32 where "ring_active = 1"
definition ring_rebuilding :: u32 where "ring_rebuilding = 2"
definition ring_dead :: u32 where "ring_dead = 3"

lemmas ring_state_defs = ring_uninitialized_def ring_active_def ring_rebuilding_def ring_dead_def

datatype worker_ring_binding = Reject | Ready | Provisional

definition classify_worker_ring_binding ::
  "32 word \<Rightarrow> u32 \<Rightarrow> u32 \<Rightarrow> u64 \<Rightarrow> u32 \<Rightarrow> u32 \<Rightarrow> u32 \<Rightarrow> worker_ring_binding" where
  "classify_worker_ring_binding status_result state generation latest_sequence transport_flags
       expected_generation expected_transport_flags =
     (if status_result \<noteq> 0 \<or> (state \<noteq> ring_active \<and> state \<noteq> ring_rebuilding) \<or> generation = 0 \<or>
         (expected_generation \<noteq> 0 \<and> generation \<noteq> expected_generation) then Reject
      else if state = ring_rebuilding \<and> latest_sequence = 0 \<and> transport_flags = 0 then Provisional
      else if state = ring_active \<and> latest_sequence \<noteq> 0 \<and> transport_flags = expected_transport_flags then Ready
      else Reject)"

datatype ring_verdict = Consume | Wait | Reinit | Broken

datatype ring_reason = Healthy | RingDead | HeartbeatStale | HeartbeatLost | Recovering | Rebuilding
  | RecoveryBudgetExpired | GpuReset | DeliveryStall

record ring_sample =
  rs_state :: u32
  rs_generation :: u32
  latest_sequence :: u64
  delivered_sequence :: u64
  heartbeat_valid :: bool
  heartbeat_age :: duration
  tdr_edge :: bool

record ring_decision =
  rd_verdict :: ring_verdict
  rd_reason :: ring_reason
  first_report :: bool

record recovery_clock =
  rc_started :: time_point
  rc_last_seen :: time_point

record ring_config =
  heartbeat_stale :: duration
  heartbeat_reinit_grace :: duration
  delivery_stall :: duration
  recovery_budget :: duration
  recovery_clock_handoff_grace :: duration
  trust_rebuilding_heartbeat :: bool

definition default_ring_config :: ring_config where
  "default_ring_config = \<lparr>heartbeat_stale = 2000 * 1000000, heartbeat_reinit_grace = 10 * 1000000000,
     delivery_stall = 5 * 1000000000, recovery_budget = 11 * 60 * 1000000000,
     recovery_clock_handoff_grace = 30 * 1000000000, trust_rebuilding_heartbeat = True\<rparr>"

definition vgd_wait_slice :: "duration \<Rightarrow> duration \<Rightarrow> duration \<Rightarrow> duration" where
  "vgd_wait_slice caller_timeout already_waited max_slice =
     (let remaining = caller_timeout - already_waited
      in if remaining \<le> 0 then 0 else if remaining < max_slice then remaining else max_slice)"

record ring_liveness =
  rl_config :: ring_config
  rl_generation :: "u32 option"
  retired_sequence :: u64
  undelivered_since :: "time_point option"
  heartbeat_stale_since :: "time_point option"
  rebuilding_since :: "time_point option"
  rebuilding_seen :: "time_point option"
  last_reason :: "ring_reason option"

definition ring_init :: "ring_config \<Rightarrow> ring_liveness" where
  "ring_init cfg = \<lparr>rl_config = cfg, rl_generation = None, retired_sequence = 0, undelivered_since = None,
     heartbeat_stale_since = None, rebuilding_since = None, rebuilding_seen = None, last_reason = None\<rparr>"

definition heartbeat_live :: "ring_liveness \<Rightarrow> ring_sample \<Rightarrow> bool" where
  "heartbeat_live l s \<longleftrightarrow> heartbeat_valid s \<and> heartbeat_age s \<le> heartbeat_stale (rl_config l)"

definition rebuilding_and_alive :: "ring_liveness \<Rightarrow> ring_sample \<Rightarrow> bool" where
  "rebuilding_and_alive l s \<longleftrightarrow> trust_rebuilding_heartbeat (rl_config l) \<and> rs_state s = ring_rebuilding \<and>
     heartbeat_live l s"

definition within_recovery_budget :: "ring_liveness \<Rightarrow> time_point \<Rightarrow> ring_liveness \<times> bool" where
  "within_recovery_budget l now =
     (let since = (case rebuilding_since l of None \<Rightarrow> now | Some t \<Rightarrow> t)
      in (l\<lparr>rebuilding_since := Some since, rebuilding_seen := Some now\<rparr>,
          now - since \<le> recovery_budget (rl_config l)))"

definition clear_recovery_clock :: "ring_liveness \<Rightarrow> ring_liveness" where
  "clear_recovery_clock l = l\<lparr>rebuilding_since := None, rebuilding_seen := None\<rparr>"

definition note_generation :: "ring_sample \<Rightarrow> ring_liveness \<Rightarrow> ring_liveness" where
  "note_generation s l =
     (case rl_generation l of
        None \<Rightarrow> l\<lparr>rl_generation := Some (rs_generation s)\<rparr>
      | Some g \<Rightarrow>
          if g = rs_generation s then l
          else l\<lparr>rl_generation := Some (rs_generation s), retired_sequence := latest_sequence s,
                 undelivered_since := None\<rparr>)"

definition decide :: "ring_verdict \<Rightarrow> ring_reason \<Rightarrow> ring_liveness \<Rightarrow> ring_liveness \<times> ring_decision" where
  "decide verdict reason l =
     (l\<lparr>last_reason := Some reason\<rparr>,
      \<lparr>rd_verdict = verdict, rd_reason = reason, first_report = (last_reason l \<noteq> Some reason)\<rparr>)"

text \<open>The ladder below the recovery branch, rung by rung: delivery, rebuilding without a heartbeat,
  the stale heartbeat.\<close>

definition ladder_delivery :: "ring_sample \<Rightarrow> time_point \<Rightarrow> ring_liveness \<Rightarrow> ring_liveness \<times> ring_decision" where
  "ladder_delivery s now l =
     (if latest_sequence s > delivered_sequence s \<and> latest_sequence s > retired_sequence l then
        (case undelivered_since l of
           None \<Rightarrow> decide Consume Healthy (l\<lparr>undelivered_since := Some now\<rparr>)
         | Some t \<Rightarrow>
             if now - t > delivery_stall (rl_config l) then decide Broken DeliveryStall l
             else decide Consume Healthy l)
      else decide Consume Healthy (l\<lparr>undelivered_since := None\<rparr>))"

definition ladder_rebuilding :: "ring_sample \<Rightarrow> time_point \<Rightarrow> ring_liveness \<Rightarrow> ring_liveness \<times> ring_decision" where
  "ladder_rebuilding s now l =
     (if rs_state s = ring_rebuilding then
        (case within_recovery_budget l now of (l', within) \<Rightarrow>
           if \<not> within then decide Reinit RecoveryBudgetExpired l'
           else decide Wait Rebuilding (l'\<lparr>undelivered_since := None\<rparr>))
      else ladder_delivery s now l)"

definition ladder_heartbeat :: "ring_sample \<Rightarrow> time_point \<Rightarrow> ring_liveness \<Rightarrow> ring_liveness \<times> ring_decision" where
  "ladder_heartbeat s now l =
     (if heartbeat_valid s then
        if heartbeat_age s > heartbeat_stale (rl_config l) then
          (let since = (case heartbeat_stale_since l of None \<Rightarrow> now | Some t \<Rightarrow> t);
               l' = l\<lparr>heartbeat_stale_since := Some since\<rparr>
           in if now - since > heartbeat_reinit_grace (rl_config l) then decide Reinit HeartbeatLost l'
              else decide Wait HeartbeatStale l')
        else ladder_rebuilding s now (l\<lparr>heartbeat_stale_since := None\<rparr>)
      else ladder_rebuilding s now l)"

definition evaluate :: "ring_liveness \<Rightarrow> ring_sample \<times> time_point \<Rightarrow> ring_liveness \<times> ring_decision" where
  "evaluate l obs =
     (let s = fst obs; now = snd obs;
          l1 = note_generation s l;
          l2 = (if rs_state s \<noteq> ring_rebuilding then clear_recovery_clock l1 else l1)
      in if rs_state s = ring_dead then decide Reinit RingDead l2
         else if rebuilding_and_alive l2 s then
           (case within_recovery_budget l2 now of (l3, within) \<Rightarrow>
              if \<not> within then decide Reinit RecoveryBudgetExpired l3
              else decide Wait Recovering (l3\<lparr>undelivered_since := None, heartbeat_stale_since := None\<rparr>))
         else if tdr_edge s then decide Reinit GpuReset l2
         else ladder_heartbeat s now l2)"

definition recovering :: "ring_sample \<Rightarrow> time_point \<Rightarrow> ring_liveness \<Rightarrow> ring_liveness \<times> bool" where
  "recovering s now l =
     (if rs_state s \<noteq> ring_rebuilding then (clear_recovery_clock l, False)
      else if \<not> rebuilding_and_alive l s then (l, False)
      else within_recovery_budget l now)"

definition adopt_recovery_start :: "recovery_clock option \<Rightarrow> time_point \<Rightarrow> ring_liveness \<Rightarrow> ring_liveness" where
  "adopt_recovery_start clock now l =
     (case clock of
        None \<Rightarrow> l
      | Some c \<Rightarrow>
          if now - rc_last_seen c > recovery_clock_handoff_grace (rl_config l) then l
          else l\<lparr>rebuilding_since := Some (rc_started c), rebuilding_seen := Some (rc_last_seen c)\<rparr>)"

definition recovery_start :: "ring_liveness \<Rightarrow> recovery_clock option" where
  "recovery_start l =
     (case rebuilding_since l of
        None \<Rightarrow> None
      | Some t \<Rightarrow> Some \<lparr>rc_started = t, rc_last_seen = (case rebuilding_seen l of None \<Rightarrow> t | Some u \<Rightarrow> u)\<rparr>)"

definition reset_recovery_clock :: "ring_liveness \<Rightarrow> ring_liveness" where
  "reset_recovery_clock l = clear_recovery_clock l"

definition note_delivered :: "ring_liveness \<Rightarrow> ring_liveness" where
  "note_delivered l = l\<lparr>undelivered_since := None\<rparr>"

definition rebuilding_for :: "ring_liveness \<Rightarrow> time_point \<Rightarrow> duration" where
  "rebuilding_for l now = (case rebuilding_since l of None \<Rightarrow> 0 | Some t \<Rightarrow> now - t)"

subsection \<open>One outage, one budget\<close>

text \<open>What happens to the readers of one ring during an outage: either entry point is asked, or the
  reader is destroyed and the next one adopts the clock. The output says whether the host keeps
  waiting.\<close>

datatype ring_op = Evaluate ring_sample | Ask ring_sample | Handoff

definition ring_step :: "ring_liveness \<Rightarrow> time_point \<times> ring_op \<Rightarrow> ring_liveness \<times> bool option" where
  "ring_step l op = (case snd op of
     Evaluate s \<Rightarrow> (case evaluate l (s, fst op) of (l', d) \<Rightarrow> (l', Some (rd_verdict d = Wait)))
   | Ask s \<Rightarrow> (case recovering s (fst op) l of (l', waits) \<Rightarrow> (l', Some waits))
   | Handoff \<Rightarrow> (adopt_recovery_start (recovery_start l) (fst op) (ring_init (rl_config l)), None))"

definition alive_sample :: "ring_config \<Rightarrow> ring_sample \<Rightarrow> bool" where
  "alive_sample cfg s \<longleftrightarrow> rs_state s = ring_rebuilding \<and> heartbeat_valid s \<and> heartbeat_age s \<le> heartbeat_stale cfg"

fun rides_out :: "ring_config \<Rightarrow> time_point \<Rightarrow> (time_point \<times> ring_op) list \<Rightarrow> bool" where
  "rides_out cfg seen [] = True"
| "rides_out cfg seen ((t, Evaluate s) # ops) = (alive_sample cfg s \<and> rides_out cfg t ops)"
| "rides_out cfg seen ((t, Ask s) # ops) = (alive_sample cfg s \<and> rides_out cfg t ops)"
| "rides_out cfg seen ((t, Handoff) # ops) =
     (t - seen \<le> recovery_clock_handoff_grace cfg \<and> rides_out cfg seen ops)"

definition waits_within :: "duration \<Rightarrow> time_point \<Rightarrow> time_point \<times> ring_op \<Rightarrow> bool option" where
  "waits_within budget t0 op = (case snd op of Handoff \<Rightarrow> None | _ \<Rightarrow> Some (fst op - t0 \<le> budget))"

definition clock_runs :: "ring_config \<Rightarrow> time_point \<Rightarrow> time_point \<Rightarrow> ring_liveness \<Rightarrow> bool" where
  "clock_runs cfg t0 seen l \<longleftrightarrow> rl_config l = cfg \<and> rebuilding_since l = Some t0 \<and> rebuilding_seen l = Some seen"

lemma note_generation_frame [simp]:
  "rl_config (note_generation s l) = rl_config l"
  "rebuilding_since (note_generation s l) = rebuilding_since l"
  "rebuilding_seen (note_generation s l) = rebuilding_seen l"
  "heartbeat_stale_since (note_generation s l) = heartbeat_stale_since l"
  by (simp_all add: note_generation_def split: option.splits)

lemma observe_alive:
  assumes "rl_config l = cfg" and "rebuilding_since l = Some t0 \<or> rebuilding_since l = None \<and> t0 = t"
    and "trust_rebuilding_heartbeat cfg" and "alive_sample cfg s" and "op = Evaluate s \<or> op = Ask s"
  shows "snd (ring_step l (t, op)) = Some (t - t0 \<le> recovery_budget cfg) \<and> clock_runs cfg t0 t (fst (ring_step l (t, op)))"
proof -
  have nd: "ring_rebuilding \<noteq> ring_dead" by (simp add: ring_state_defs)
  show ?thesis
    using assms nd
    by (auto simp: ring_step_def evaluate_def recovering_def rebuilding_and_alive_def heartbeat_live_def alive_sample_def
        within_recovery_budget_def decide_def clock_runs_def Let_def)
qed

lemma handoff_keeps_clock:
  assumes "clock_runs cfg t0 seen l" and "t - seen \<le> recovery_clock_handoff_grace cfg"
  shows "clock_runs cfg t0 seen (fst (ring_step l (t, Handoff))) \<and> snd (ring_step l (t, Handoff)) = None"
  using assms by (simp add: ring_step_def clock_runs_def recovery_start_def adopt_recovery_start_def ring_init_def)

lemma outage_run:
  assumes "trust_rebuilding_heartbeat cfg" and "clock_runs cfg t0 seen l" and "rides_out cfg seen ops"
  shows "machine_outputs ring_step l ops = map (waits_within (recovery_budget cfg) t0) ops"
  using assms(2,3)
proof (induction ops arbitrary: seen l)
  case (Cons op ops)
  obtain t kind where op: "op = (t, kind)" by (meson surj_pair)
  show ?case
  proof (cases "kind = Handoff")
    case True
    with Cons op handoff_keeps_clock [of cfg t0 seen l t] show ?thesis by (auto simp: waits_within_def)
  next
    case False
    then obtain s where s: "kind = Evaluate s \<or> kind = Ask s" by (cases kind) auto
    with Cons.prems op have "alive_sample cfg s" "rides_out cfg t ops" by auto
    with observe_alive [of l cfg t0 t s kind] assms(1) Cons op s False show ?thesis
      by (auto simp: waits_within_def clock_runs_def)
  qed
qed simp

text \<open>
  One outage gets one budget, however many readers it spans and whichever way they ask: from the
  first observation of a rebuilding ring with a live heartbeat, through any number of observations by
  either entry point and of readers destroyed and replaced within the handoff grace, the host keeps
  waiting at a time exactly when it is within the recovery budget of that first observation.
\<close>

theorem one_outage_one_budget:
  assumes "trust_rebuilding_heartbeat cfg" and "alive_sample cfg s" and "op = Evaluate s \<or> op = Ask s"
    and "rides_out cfg t0 ops" and "0 \<le> recovery_budget cfg"
  shows "machine_outputs ring_step (ring_init cfg) ((t0, op) # ops) =
    map (waits_within (recovery_budget cfg) t0) ((t0, op) # ops)"
proof -
  have "snd (ring_step (ring_init cfg) (t0, op)) = Some (t0 - t0 \<le> recovery_budget cfg) \<and>
      clock_runs cfg t0 t0 (fst (ring_step (ring_init cfg) (t0, op)))"
    using assms by (intro observe_alive) (simp_all add: ring_init_def)
  with outage_run [OF assms(1) _ assms(4)] assms(3,5) show ?thesis
    by (auto simp: waits_within_def)
qed

definition recovering_sample :: ring_sample where
  "recovering_sample = \<lparr>rs_state = ring_rebuilding, rs_generation = 1, latest_sequence = 9, delivered_sequence = 8,
     heartbeat_valid = True, heartbeat_age = 0, tdr_edge = True\<rparr>"

theorem one_outage_one_budget_witness:
  "machine_outputs ring_step (ring_init default_ring_config)
     [(0, Evaluate recovering_sample), (20000000000, Handoff), (21000000000, Ask recovering_sample),
      (700000000000, Evaluate recovering_sample)] = [Some True, None, Some True, Some False]"
  using one_outage_one_budget [of default_ring_config recovering_sample "Evaluate recovering_sample" 0
      "[(20000000000, Handoff), (21000000000, Ask recovering_sample), (700000000000, Evaluate recovering_sample)]"]
  by (simp add: default_ring_config_def alive_sample_def recovering_sample_def waits_within_def)

subsection \<open>When the reader is declared broken\<close>

definition newer :: "ring_sample \<Rightarrow> bool" where
  "newer s \<longleftrightarrow> latest_sequence s > delivered_sequence s"

text \<open>The samples that reach the last rung of the ladder.\<close>

definition deliverable :: "ring_config \<Rightarrow> ring_sample \<Rightarrow> bool" where
  "deliverable cfg s \<longleftrightarrow> rs_state s \<noteq> ring_dead \<and> rs_state s \<noteq> ring_rebuilding \<and> \<not> tdr_edge s \<and>
     \<not> (heartbeat_valid s \<and> heartbeat_age s > heartbeat_stale cfg)"

lemma decide_results [simp]:
  "undelivered_since (fst (decide v r l)) = undelivered_since l" "rl_generation (fst (decide v r l)) = rl_generation l"
  "rl_config (fst (decide v r l)) = rl_config l" "rd_verdict (snd (decide v r l)) = v" "rd_reason (snd (decide v r l)) = r"
  "first_report (snd (decide v r l)) \<longleftrightarrow> last_reason l \<noteq> Some r" "last_reason (fst (decide v r l)) = Some r"
  by (simp_all add: decide_def)

lemma clock_frame [simp]:
  "undelivered_since (fst (within_recovery_budget l now)) = undelivered_since l"
  "rl_generation (fst (within_recovery_budget l now)) = rl_generation l"
  "rl_config (fst (within_recovery_budget l now)) = rl_config l"
  "undelivered_since (clear_recovery_clock l) = undelivered_since l"
  "rl_generation (clear_recovery_clock l) = rl_generation l"
  "rl_config (clear_recovery_clock l) = rl_config l"
  by (simp_all add: within_recovery_budget_def clear_recovery_clock_def Let_def)

lemma note_generation_result:
  "rl_generation (note_generation s l) = Some (rs_generation s)"
  "undelivered_since (note_generation s l) =
     (if rl_generation l = None \<or> rl_generation l = Some (rs_generation s) then undelivered_since l else None)"
  by (auto simp: note_generation_def split: option.splits)

lemmas ladder_defs = evaluate_def ladder_heartbeat_def ladder_rebuilding_def ladder_delivery_def Let_def split_beta

lemma evaluate_frame:
  "rl_config (fst (evaluate l (s, now))) = rl_config l"
  "rl_generation (fst (evaluate l (s, now))) = Some (rs_generation s)"
  by (simp_all add: ladder_defs note_generation_result split: option.splits)

lemma evaluate_undelivered:
  assumes "undelivered_since (fst (evaluate l (s, now))) = Some u"
  shows "u = now \<and> newer s \<or>
    undelivered_since l = Some u \<and> (rl_generation l = None \<or> rl_generation l = Some (rs_generation s)) \<and>
    (deliverable (rl_config l) s \<longrightarrow> newer s)"
  using assms
  by (auto simp: ladder_defs note_generation_result newer_def deliverable_def rebuilding_and_alive_def
      split: option.splits if_splits)

lemma evaluate_broken:
  assumes "rd_verdict (snd (evaluate l (s, now))) = Broken"
  shows "\<exists>u. undelivered_since l = Some u \<and> now - u > delivery_stall (rl_config l) \<and> newer s \<and>
    deliverable (rl_config l) s \<and> (rl_generation l = None \<or> rl_generation l = Some (rs_generation s))"
  using assms
  by (auto simp: ladder_defs note_generation_result newer_def deliverable_def rebuilding_and_alive_def
      split: option.splits if_splits)

text \<open>The evidence at the end of a history: a sample from which on one generation held and every sample
  that could have delivered had a newer frame waiting.\<close>

definition evidence :: "ring_config \<Rightarrow> (ring_sample \<times> time_point) list \<Rightarrow> nat \<Rightarrow> bool" where
  "evidence cfg obs i \<longleftrightarrow> i < length obs \<and> newer (fst (obs ! i)) \<and>
     (\<forall>j. i \<le> j \<and> j < length obs \<longrightarrow> rs_generation (fst (obs ! j)) = rs_generation (fst (obs ! i)) \<and>
        (deliverable cfg (fst (obs ! j)) \<longrightarrow> newer (fst (obs ! j))))"

lemma evidence_snoc:
  assumes "evidence cfg obs i" and "rs_generation s = rs_generation (fst (last obs))" and "deliverable cfg s \<longrightarrow> newer s"
  shows "evidence cfg (obs @ [(s, now)]) i"
proof -
  have i: "i < length obs" "newer (fst (obs ! i))"
    and old: "\<And>j. \<lbrakk>i \<le> j; j < length obs\<rbrakk> \<Longrightarrow> rs_generation (fst (obs ! j)) = rs_generation (fst (obs ! i)) \<and>
      (deliverable cfg (fst (obs ! j)) \<longrightarrow> newer (fst (obs ! j)))"
    using assms(1) unfolding evidence_def by blast+
  have gen: "rs_generation s = rs_generation (fst (obs ! i))"
  proof -
    have "i \<le> length obs - 1" "length obs - 1 < length obs" "obs \<noteq> []" using i(1) by auto
    with old [of "length obs - 1"] assms(2) show ?thesis by (simp add: last_conv_nth)
  qed
  show ?thesis
    unfolding evidence_def
  proof (intro conjI allI impI)
    fix j assume j: "i \<le> j \<and> j < length (obs @ [(s, now)])"
    show "rs_generation (fst ((obs @ [(s, now)]) ! j)) = rs_generation (fst ((obs @ [(s, now)]) ! i))"
      using j i(1) old [of j] gen by (cases "j < length obs") (simp_all add: nth_append)
    assume "deliverable cfg (fst ((obs @ [(s, now)]) ! j))"
    then show "newer (fst ((obs @ [(s, now)]) ! j))"
      using j old [of j] assms(3) by (cases "j < length obs") (simp_all add: nth_append)
  qed (use i in \<open>simp_all add: nth_append\<close>)
qed

lemma evaluate_history:
  fixes cfg
  defines "l \<equiv> \<lambda>obs. machine_state evaluate (ring_init cfg) obs"
  shows "rl_config (l obs) = cfg \<and> rl_generation (l obs) = (if obs = [] then None else Some (rs_generation (fst (last obs)))) \<and>
    (\<forall>u. undelivered_since (l obs) = Some u \<longrightarrow> (\<exists>i. evidence cfg obs i \<and> snd (obs ! i) = u))"
proof (induction obs rule: rev_induct)
  case Nil
  show ?case by (simp add: l_def ring_init_def)
next
  case (snoc o1 obs)
  obtain s now where o1: "o1 = (s, now)" by (meson surj_pair)
  have step: "l (obs @ [o1]) = fst (evaluate (l obs) (s, now))" by (simp add: l_def o1)
  have "\<exists>i. evidence cfg (obs @ [o1]) i \<and> snd ((obs @ [o1]) ! i) = u"
    if u: "undelivered_since (l (obs @ [o1])) = Some u" for u
  proof -
    from evaluate_undelivered [OF u [unfolded step]] show ?thesis
    proof
      assume "u = now \<and> newer s"
      then show ?thesis by (intro exI [of _ "length obs"]) (auto simp: evidence_def o1 nth_append less_Suc_eq)
    next
      assume old: "undelivered_since (l obs) = Some u \<and> (rl_generation (l obs) = None \<or>
        rl_generation (l obs) = Some (rs_generation s)) \<and> (deliverable (rl_config (l obs)) s \<longrightarrow> newer s)"
      then obtain i where i: "evidence cfg obs i" "snd (obs ! i) = u" using snoc by blast
      then have "obs \<noteq> []" "i < length obs" unfolding evidence_def by auto
      with old snoc have "evidence cfg (obs @ [(s, now)]) i" by (intro evidence_snoc i(1)) auto
      with i \<open>i < length obs\<close> show ?thesis by (auto simp: o1 nth_append)
    qed
  qed
  moreover have "rl_config (l (obs @ [o1])) = cfg" using snoc by (simp add: step evaluate_frame)
  moreover have "rl_generation (l (obs @ [o1])) = Some (rs_generation (fst o1))"
    unfolding step by (simp add: evaluate_frame o1)
  ultimately show ?case by simp
qed

text \<open>
  C31. A reader is declared broken only on sustained evidence: over every sequence of samples, the
  verdict Broken comes only when, more than the stall limit earlier, a sample already showed a frame
  newer than the last delivered one, and since then the ring stayed in one generation and every
  sample of a live ring still had an undelivered newer frame. An idle desktop, an outage or a
  generation change never leads to it.
\<close>

theorem broken_needs_evidence:
  assumes "last (machine_outputs evaluate (ring_init cfg) (obs @ [(s, now)])) = d" and "rd_verdict d = Broken"
  shows "deliverable cfg s \<and> (\<exists>i < length obs. evidence cfg (obs @ [(s, now)]) i \<and>
    now - snd (obs ! i) > delivery_stall cfg)"
proof -
  let ?l = "machine_state evaluate (ring_init cfg) obs"
  have "rd_verdict (snd (evaluate ?l (s, now))) = Broken" using assms by simp
  from evaluate_broken [OF this] evaluate_history [of cfg obs] obtain u where
    u: "undelivered_since ?l = Some u" "now - u > delivery_stall cfg" "newer s" "deliverable cfg s"
      "rl_generation ?l = None \<or> rl_generation ?l = Some (rs_generation s)" by auto
  with evaluate_history [of cfg obs] obtain i where i: "evidence cfg obs i" "snd (obs ! i) = u" by blast
  then have "obs \<noteq> []" "i < length obs" unfolding evidence_def by auto
  moreover from this u evaluate_history [of cfg obs] have "evidence cfg (obs @ [(s, now)]) i"
    by (intro evidence_snoc i(1)) auto
  ultimately show ?thesis using u i by blast
qed

definition stalled_sample :: ring_sample where
  "stalled_sample = \<lparr>rs_state = ring_active, rs_generation = 1, latest_sequence = 9, delivered_sequence = 8,
     heartbeat_valid = False, heartbeat_age = 0, tdr_edge = False\<rparr>"

theorem broken_needs_evidence_witness:
  "\<exists>i < 2. evidence default_ring_config [(stalled_sample, 0), (stalled_sample, 3000000000), (stalled_sample, 6000000000)] i"
proof -
  let ?obs = "[(stalled_sample, 0), (stalled_sample, 3000000000)]"
  have "rd_verdict (last (machine_outputs evaluate (ring_init default_ring_config) (?obs @ [(stalled_sample, 6000000000)]))) = Broken"
    by (simp add: ladder_defs stalled_sample_def ring_init_def default_ring_config_def note_generation_def
        clear_recovery_clock_def rebuilding_and_alive_def ring_state_defs decide_def)
  from broken_needs_evidence [OF refl this] show ?thesis by (auto simp: numeral_2_eq_2)
qed

end
