(* ===== verification/Ring_Reader.thy ===== *)
theory Ring_Reader
  imports Ring_Liveness
begin

unbundle bit_operations_syntax

text \<open>
  The reader of the virtual display's frame ring (\<^verbatim>\<open>src/platform/windows/display_vgd.cpp\<close>): the table of
  recovery clocks that outlives a reader, the admission of a ring, and one capture step from the
  liveness ladder through the claim of a slot to its copy and release. The driver's library, Direct3D
  and the clock are inputs of a step; what a step does to the ring (claims, mutexes) is its output.
\<close>

subsection \<open>Process-wide state\<close>

text \<open>\<open>std::map\<close> by session: an association list in the order of its keys.\<close>

type_synonym clock_table = "(u64 \<times> recovery_clock) list"

record vgd_globals =
  g_broken_session :: u64
  g_pre_admission_session :: u64
  g_pre_admission_attempted_session :: u64
  g_recovery_clocks :: clock_table

definition kMaxTrackedRecoveryClocks :: nat where "kMaxTrackedRecoveryClocks = 8"
definition kRecoveryClockRepublishInterval :: duration where "kRecoveryClockRepublishInterval = 1000000000"
definition kMaxOpenFailures :: nat where "kMaxOpenFailures = 20"
definition kFirstDuckInPlaceDriverBuild :: u32 where "kFirstDuckInPlaceDriverBuild = 16"

definition clock_erase :: "u64 \<Rightarrow> clock_table \<Rightarrow> clock_table" where
  "clock_erase k t = filter (\<lambda>e. fst e \<noteq> k) t"

fun clock_put :: "u64 \<Rightarrow> recovery_clock \<Rightarrow> clock_table \<Rightarrow> clock_table" where
  "clock_put k c [] = [(k, c)]"
| "clock_put k c ((k', c') # t) =
     (if k = k' then (k, c) # t else if k < k' then (k, c) # (k', c') # t else (k', c') # clock_put k c t)"

text \<open>The loop that looks for the oldest clock of another session; of equally old ones the first stays.\<close>

definition older_of ::
  "u64 \<Rightarrow> u64 \<times> recovery_clock \<Rightarrow> (u64 \<times> recovery_clock) option \<Rightarrow> (u64 \<times> recovery_clock) option" where
  "older_of session_id e oldest =
     (if fst e = session_id then oldest
      else case oldest of
             None \<Rightarrow> Some e
           | Some best \<Rightarrow> if rc_started (snd e) < rc_started (snd best) then Some e else oldest)"

definition oldest_other :: "u64 \<Rightarrow> clock_table \<Rightarrow> (u64 \<times> recovery_clock) option" where
  "oldest_other session_id t = fold (older_of session_id) t None"

lemma fold_older_Some:
  "fold (older_of k) t init = Some e \<Longrightarrow> (\<forall>b. init = Some b \<longrightarrow> b \<in> S \<and> fst b \<noteq> k) \<Longrightarrow> e \<in> S \<union> set t \<and> fst e \<noteq> k"
proof (induction t arbitrary: init S)
  case (Cons a t)
  have "\<forall>b. older_of k a init = Some b \<longrightarrow> b \<in> insert a S \<and> fst b \<noteq> k"
    using Cons.prems(2) by (auto simp: older_of_def split: option.splits)
  with Cons.IH [of "older_of k a init" "insert a S"] Cons.prems(1) show ?case by simp
qed simp

lemma oldest_other_Some: "oldest_other k t = Some e \<Longrightarrow> e \<in> set t \<and> fst e \<noteq> k"
  using fold_older_Some [of k t None e "{}"] by (simp add: oldest_other_def)

function evict_clocks :: "u64 \<Rightarrow> clock_table \<Rightarrow> clock_table" where
  "evict_clocks session_id t =
     (if length t > kMaxTrackedRecoveryClocks then
        (case oldest_other session_id t of
           None \<Rightarrow> t
         | Some e \<Rightarrow> evict_clocks session_id (clock_erase (fst e) t))
      else t)"
  by pat_completeness auto
termination
proof (relation "measure (\<lambda>(_, t). length t)", goal_cases)
  case (2 session_id t e)
  then have "e \<in> set t" using oldest_other_Some by blast
  then show ?case by (auto simp: clock_erase_def length_filter_less)
qed simp

declare evict_clocks.simps [simp del]

definition store_recovery_clock :: "u64 \<Rightarrow> recovery_clock option \<Rightarrow> vgd_globals \<Rightarrow> vgd_globals" where
  "store_recovery_clock session_id clock g =
     g\<lparr>g_recovery_clocks := (case clock of
         None \<Rightarrow> clock_erase session_id (g_recovery_clocks g)
       | Some c \<Rightarrow> evict_clocks session_id (clock_put session_id c (g_recovery_clocks g)))\<rparr>"

definition load_recovery_clock :: "u64 \<Rightarrow> vgd_globals \<Rightarrow> recovery_clock option" where
  "load_recovery_clock session_id g = map_of (g_recovery_clocks g) session_id"

definition mark_vgd_ring_broken :: "u64 \<Rightarrow> vgd_globals \<Rightarrow> vgd_globals" where
  "mark_vgd_ring_broken session_id g =
     (if session_id \<noteq> 0 then
        (let prior_session = g_pre_admission_session g;
             g1 = g\<lparr>g_pre_admission_session := session_id\<rparr>
         in if prior_session \<noteq> session_id then g1\<lparr>g_pre_admission_attempted_session := 0\<rparr> else g1)
      else g)"

subsection \<open>The reader\<close>

record ring_status =
  st_state :: u32
  st_generation :: u32
  st_latest_sequence :: u64
  st_transport_flags :: u32
  st_heartbeat_qpc :: u64
  st_qpc_frequency :: u64

record ring_frame =
  fr_index :: u32
  fr_generation :: u32
  fr_sequence :: u64
  fr_ready_fence_value :: u64

record ring_target =
  tg_session_id :: u64
  tg_ring_slots :: u32
  tg_generation :: u32
  tg_transport_flags :: u32

text \<open>A cached slot texture; the flag says whether it was opened with a keyed mutex.\<close>

type_synonym slot_entry = "bool option"

record reader =
  rr_ring :: bool
  rr_session_id :: u64
  rr_ring_slots :: u32
  rr_fence_transport :: bool
  rr_fence_required :: bool
  rr_transport_generation :: u32
  rr_texture_generation :: u32
  rr_slot_textures :: "slot_entry list"
  rr_last_sequence :: u64
  rr_first_frame_deadline :: "time_point option"
  rr_cadence_window_start :: "time_point option"
  rr_cadence_window_base_seq :: u64
  rr_cadence_claimed :: u32
  rr_tdr_marks_at_open :: u64
  rr_tdr_allocations_dropped :: bool
  rr_liveness :: ring_liveness
  rr_published_recovery_start :: "recovery_clock option"
  rr_open_failures :: nat
  rr_open_failed_device_removed :: bool
  rr_cursor :: bool
  rr_last_frame :: bool
  rr_width :: u32
  rr_height :: u32
  rr_capture_format :: "u32 option"

definition release_shared_allocations :: "reader \<Rightarrow> reader" where
  "release_shared_allocations r = r\<lparr>rr_slot_textures := [], rr_last_frame := False\<rparr>"

definition publish_recovery_clock :: "reader \<Rightarrow> vgd_globals \<Rightarrow> reader \<times> vgd_globals" where
  "publish_recovery_clock r g =
     (case recovery_start (rr_liveness r) of
        None \<Rightarrow>
          if rr_published_recovery_start r \<noteq> None
          then (r\<lparr>rr_published_recovery_start := None\<rparr>, store_recovery_clock (rr_session_id r) None g)
          else (r, g)
      | Some clock \<Rightarrow>
          if (case rr_published_recovery_start r of
                None \<Rightarrow> False
              | Some p \<Rightarrow> rc_started p = rc_started clock \<and>
                  rc_last_seen clock - rc_last_seen p < kRecoveryClockRepublishInterval)
          then (r, g)
          else (r\<lparr>rr_published_recovery_start := Some clock\<rparr>,
                store_recovery_clock (rr_session_id r) (Some clock) g))"

text \<open>\<open>heartbeat_age\<close> is the difference of the performance counter to the heartbeat's.\<close>

definition read_ring_sample :: "ring_status option \<Rightarrow> duration \<Rightarrow> bool \<Rightarrow> reader \<Rightarrow> ring_sample option" where
  "read_ring_sample status age edge r =
     map_option (\<lambda>s.
         let valid = st_qpc_frequency s \<noteq> 0 \<and> st_heartbeat_qpc s \<noteq> 0
         in \<lparr>rs_state = st_state s, rs_generation = st_generation s, latest_sequence = st_latest_sequence s,
             delivered_sequence = rr_last_sequence r, heartbeat_valid = valid,
             heartbeat_age = (if valid then age else 0), tdr_edge = edge\<rparr>) status"

definition is_recovering ::
  "ring_status option \<Rightarrow> duration \<Rightarrow> time_point \<Rightarrow> reader \<Rightarrow> vgd_globals \<Rightarrow> (reader \<times> vgd_globals) \<times> bool" where
  "is_recovering status age now r g =
     (if \<not> rr_ring r then ((r, g), False)
      else case read_ring_sample status age False r of
        None \<Rightarrow> ((r, g), False)
      | Some s \<Rightarrow>
          if rr_last_sequence r = 0 \<and> latest_sequence s = 0 then ((r, g), False)
          else case recovering s now (rr_liveness r) of (l, rec) \<Rightarrow>
            (publish_recovery_clock (r\<lparr>rr_liveness := l\<rparr>) g, rec))"

subsection \<open>Claiming a slot\<close>

text \<open>The flags of the driver's header, which is not part of the repository.\<close>

record vgd_api =
  va_d3d12_fence_transport :: u32
  va_fence_transport_required :: u32

datatype ring_action = ClaimSlot u32 | ReleaseSlot u32 | AcquireMutex u32 | ReleaseMutex u32

text \<open>One round of the polling loop: what the claim returned, whether the deadline has passed, and
  whether the cursor synchronized after that differs from the one last delivered. The loop carries the
  last such answer; its result is \<open>None\<close> when the rounds given do not end it.\<close>

record claim_poll =
  po_frame :: "ring_frame option"
  po_deadline :: bool
  po_cursor_pending :: bool

record claim_result =
  cl_actions :: "ring_action list"
  cl_frame :: "ring_frame option"
  cl_cursor_pending :: bool

fun claim_loop :: "bool \<Rightarrow> u64 \<Rightarrow> bool \<Rightarrow> claim_poll list \<Rightarrow> claim_result option" where
  "claim_loop cursor last_sequence pending [] = None"
| "claim_loop cursor last_sequence pending (p # ps) =
     (let go_on = (\<lambda>acts.
            if po_deadline p then Some \<lparr>cl_actions = acts, cl_frame = None, cl_cursor_pending = pending\<rparr>
            else let pending' = (if cursor then po_cursor_pending p else pending)
                 in if cursor \<and> pending'
                    then Some \<lparr>cl_actions = acts, cl_frame = None, cl_cursor_pending = pending'\<rparr>
                    else map_option (\<lambda>c. c\<lparr>cl_actions := acts @ cl_actions c\<rparr>)
                           (claim_loop cursor last_sequence pending' ps))
      in case po_frame p of
           None \<Rightarrow> go_on []
         | Some f \<Rightarrow>
             if fr_sequence f > last_sequence
             then Some \<lparr>cl_actions = [ClaimSlot (fr_index f)], cl_frame = Some f, cl_cursor_pending = pending\<rparr>
             else go_on [ClaimSlot (fr_index f), ReleaseSlot (fr_index f)])"

definition refresh_transport :: "vgd_api \<Rightarrow> ring_status option \<Rightarrow> reader \<Rightarrow> reader \<times> bool" where
  "refresh_transport api status r =
     (case status of
        None \<Rightarrow> (r, False)
      | Some s \<Rightarrow>
          let fence = (st_transport_flags s AND va_d3d12_fence_transport api \<noteq> 0);
              required = (st_transport_flags s AND va_fence_transport_required api \<noteq> 0)
          in if rr_fence_required r \<and> (\<not> fence \<or> \<not> required) \<or>
                st_generation s = rr_transport_generation r \<and> fence \<noteq> rr_fence_transport r then (r, False)
             else if fence = rr_fence_transport r then (r\<lparr>rr_transport_generation := st_generation s\<rparr>, True)
             else (r\<lparr>rr_fence_transport := fence, rr_fence_required := required,
                     rr_transport_generation := st_generation s, rr_slot_textures := [],
                     rr_texture_generation := 0\<rparr>, True))"

text \<open>How opening a shared texture ends: no device interface, a failed open (with the flag that the
  device was removed), no keyed mutex, or success.\<close>

datatype texture_open = NoDevice1 | OpenFailed bool | NoKeyedMutex | Opened

definition slot_texture :: "texture_open \<Rightarrow> u32 \<Rightarrow> u32 \<Rightarrow> reader \<Rightarrow> reader \<times> slot_entry" where
  "slot_texture open_result generation slot r0 =
     (let r1 = r0\<lparr>rr_open_failed_device_removed := False\<rparr>;
          r2 = (if rr_texture_generation r1 \<noteq> generation
                then r1\<lparr>rr_slot_textures := [], rr_texture_generation := generation\<rparr> else r1);
          r3 = (if rr_slot_textures r2 = []
                then r2\<lparr>rr_slot_textures := replicate (unat (rr_ring_slots r2)) None\<rparr> else r2)
      in if unat slot \<ge> length (rr_slot_textures r3) then (r3, None)
         else case rr_slot_textures r3 ! unat slot of
           Some m \<Rightarrow> (r3, Some m)
         | None \<Rightarrow>
             (case open_result of
                NoDevice1 \<Rightarrow> (r3, None)
              | OpenFailed removed \<Rightarrow> (r3\<lparr>rr_open_failed_device_removed := removed\<rparr>, None)
              | NoKeyedMutex \<Rightarrow>
                  if \<not> rr_fence_transport r3 then (r3, None)
                  else (r3\<lparr>rr_slot_textures := (rr_slot_textures r3)[unat slot := Some False]\<rparr>, Some False)
              | Opened \<Rightarrow>
                  (r3\<lparr>rr_slot_textures := (rr_slot_textures r3)[unat slot := Some (\<not> rr_fence_transport r3)]\<rparr>,
                   Some (\<not> rr_fence_transport r3))))"

subsection \<open>One capture step\<close>

datatype capture_result = CaptureOk | CaptureReinit | CaptureTimeout | CaptureInterrupted | CaptureError

datatype acquire_result = Acquired_S_OK | WaitAbandoned | WaitTimeout | AcquireFailed

definition acquired :: "acquire_result \<Rightarrow> bool" where
  "acquired a \<longleftrightarrow> a = Acquired_S_OK \<or> a = WaitAbandoned"

text \<open>What a step reads from outside, in the order in which it reads it.\<close>

record snapshot_input =
  si_tdr_event_count :: u64
  si_status :: "ring_status option"
  si_heartbeat_age :: duration
  si_now :: time_point
  si_cursor_pending :: bool
  si_polls :: "claim_poll list"
  si_transport_status :: "ring_status option"
  si_open :: texture_open
  si_fence_prepared :: bool
  si_fence_wait :: bool
  si_slot_mutex :: acquire_result
  si_desc_width :: u32
  si_desc_height :: u32
  si_desc_format :: u32
  si_free_image :: bool
  si_image_complete :: bool
  si_image_mutex :: acquire_result
  si_last_frame_created :: bool
  si_copy_finished :: bool
  si_done_at :: time_point

text \<open>What it does: the result, the actions on the ring, the sequence number of a fresh frame it delivers,
  whether it redelivers the last frame with a new cursor, the recovery flag it publishes, and the
  counts (claimed, published) it reports.\<close>

record snapshot_output =
  so_result :: capture_result
  so_actions :: "ring_action list"
  so_delivered :: "u64 option"
  so_redelivered :: bool
  so_recovering :: "bool option"
  so_cadence :: "(u32 \<times> u64) option"

abbreviation gives_up :: "capture_result \<Rightarrow> bool option \<Rightarrow> snapshot_output" where
  "gives_up res flag \<equiv> \<lparr>so_result = res, so_actions = [], so_delivered = None, so_redelivered = False,
     so_recovering = flag, so_cadence = None\<rparr>"

definition update_cadence :: "u64 \<Rightarrow> time_point \<Rightarrow> reader \<Rightarrow> reader \<times> (u32 \<times> u64) option" where
  "update_cadence sequence cadence_now r =
     (let r1 = (if rr_cadence_window_start r = None \<or> sequence < rr_cadence_window_base_seq r
                then r\<lparr>rr_cadence_window_start := Some cadence_now,
                       rr_cadence_window_base_seq := (if sequence > 0 then sequence - 1 else 0),
                       rr_cadence_claimed := 0\<rparr>
                else r);
          r2 = r1\<lparr>rr_cadence_claimed := rr_cadence_claimed r1 + 1\<rparr>;
          elapsed = cadence_now - the (rr_cadence_window_start r2)
      in if elapsed \<ge> 30 * 1000000000
         then (r2\<lparr>rr_cadence_window_start := Some cadence_now, rr_cadence_window_base_seq := sequence,
                  rr_cadence_claimed := 0\<rparr>,
               Some (rr_cadence_claimed r2, sequence - rr_cadence_window_base_seq r2))
         else (r2, None))"

text \<open>From the held slot mutex (if any) to the delivered image: size and format checks, the pooled image,
  the copy. The result says how the step ends and whether the frame went out.\<close>

definition copy_slot :: "snapshot_input \<Rightarrow> reader \<Rightarrow> reader \<times> capture_result" where
  "copy_slot si r0 =
     (let r = (if rr_capture_format r0 = None then r0\<lparr>rr_capture_format := Some (si_desc_format si)\<rparr> else r0)
      in if si_desc_width si \<noteq> rr_width r \<or> si_desc_height si \<noteq> rr_height r then (r, CaptureReinit)
         else if rr_capture_format r \<noteq> Some (si_desc_format si) then (r, CaptureReinit)
         else if \<not> si_free_image si then (r, CaptureInterrupted)
         else if \<not> si_image_complete si then (r, CaptureReinit)
         else if \<not> acquired (si_image_mutex si) then (r, CaptureReinit)
         else let r' = (if rr_cursor r \<and> \<not> rr_last_frame r then r\<lparr>rr_last_frame := si_last_frame_created si\<rparr> else r)
              in if rr_fence_transport r' \<and> \<not> si_copy_finished si then (r', CaptureReinit) else (r', CaptureOk))"

text \<open>Nothing was claimed: a moved cursor over an idle desktop redelivers the last frame.\<close>

definition redeliver :: "snapshot_input \<Rightarrow> bool \<Rightarrow> reader \<Rightarrow> capture_result \<times> bool" where
  "redeliver si pending r =
     (if rr_cursor r \<and> rr_last_frame r \<and> rr_capture_format r \<noteq> None \<and> pending then
        if \<not> si_free_image si then (CaptureInterrupted, False)
        else if \<not> si_image_complete si then (CaptureReinit, False)
        else if \<not> acquired (si_image_mutex si) then (CaptureReinit, False)
        else (CaptureOk, True)
      else (CaptureTimeout, False))"

text \<open>The step with a claimed frame: the reader and the broken session afterwards, the result, the
  actions after the claim, whether the frame was delivered, and the report.\<close>

definition consume_frame ::
  "vgd_api \<Rightarrow> snapshot_input \<Rightarrow> ring_frame \<Rightarrow> reader \<Rightarrow> vgd_globals \<Rightarrow>
     (reader \<times> vgd_globals) \<times> capture_result \<times> ring_action list \<times> (u32 \<times> u64) option" where
  "consume_frame api si f r g =
     (let release = [ReleaseSlot (fr_index f)]
      in case refresh_transport api (si_transport_status si) r of (r1, transport_ok) \<Rightarrow>
        if \<not> transport_ok then ((r1, g), CaptureReinit, release, None)
        else case slot_texture (si_open si) (fr_generation f) (fr_index f) r1 of (r2, slot) \<Rightarrow>
          (case slot of
             None \<Rightarrow>
               if rr_open_failed_device_removed r2
               then ((release_shared_allocations (r2\<lparr>rr_open_failures := 0\<rparr>), g), CaptureReinit, release, None)
               else let r3 = r2\<lparr>rr_open_failures := rr_open_failures r2 + 1\<rparr>
                    in if rr_open_failures r3 \<ge> kMaxOpenFailures
                       then ((r3, g\<lparr>g_broken_session := rr_session_id r3\<rparr>), CaptureReinit, release, None)
                       else ((r3, g), CaptureTimeout, release, None)
           | Some has_mutex \<Rightarrow>
               let r3 = r2\<lparr>rr_open_failures := 0\<rparr>
               in if rr_fence_transport r3 \<and> (fr_ready_fence_value f = 0 \<or> \<not> si_fence_prepared si)
                  then ((r3, g), CaptureReinit, release, None)
                  else if rr_fence_transport r3 \<and> \<not> si_fence_wait si then ((r3, g), CaptureReinit, release, None)
                  else if \<not> rr_fence_transport r3 \<and> si_slot_mutex si = WaitTimeout
                  then ((r3, g), CaptureTimeout, release, None)
                  else if \<not> rr_fence_transport r3 \<and> \<not> acquired (si_slot_mutex si)
                  then ((r3, g), CaptureReinit, release, None)
                  else
                    let actions = (if \<not> rr_fence_transport r3 then [AcquireMutex (fr_index f)] else [])
                          @ (if has_mutex then [ReleaseMutex (fr_index f)] else []) @ release
                    in case copy_slot si r3 of (r4, res) \<Rightarrow>
                      if res \<noteq> CaptureOk then ((r4, g), res, actions, None)
                      else let r5 = r4\<lparr>rr_last_sequence := fr_sequence f,
                                       rr_liveness := note_delivered (rr_liveness r4)\<rparr>
                           in case update_cadence (fr_sequence f) (si_done_at si) r5 of (r6, report) \<Rightarrow>
                             ((r6, g), CaptureOk, actions, report)))"

text \<open>The switch on the ladder's verdict, with the claim of a slot as its last case. \<open>None\<close>: the polling
  loop has not ended yet.\<close>

definition act_on_verdict ::
  "vgd_api \<Rightarrow> snapshot_input \<Rightarrow> ring_decision \<Rightarrow> reader \<Rightarrow> vgd_globals \<Rightarrow>
     ((reader \<times> vgd_globals) \<times> snapshot_output) option" where
  "act_on_verdict api si d r g =
     (let flag = Some (rd_reason d = Recovering)
      in case rd_verdict d of
           Wait \<Rightarrow> Some ((r, g), gives_up CaptureTimeout flag)
         | Reinit \<Rightarrow>
             if rd_reason d = RecoveryBudgetExpired then
               (let g1 = g\<lparr>g_broken_session := rr_session_id r\<rparr>;
                    (r2, g2) = publish_recovery_clock (r\<lparr>rr_liveness := reset_recovery_clock (rr_liveness r)\<rparr>) g1
                in Some ((release_shared_allocations r2, g2), gives_up CaptureReinit flag))
             else Some ((release_shared_allocations r, g), gives_up CaptureReinit flag)
         | Broken \<Rightarrow>
             Some ((release_shared_allocations r, g\<lparr>g_broken_session := rr_session_id r\<rparr>), gives_up CaptureReinit flag)
         | Consume \<Rightarrow>
             (case claim_loop (rr_cursor r) (rr_last_sequence r) (si_cursor_pending si) (si_polls si) of
                None \<Rightarrow> None
              | Some c \<Rightarrow>
                  (case cl_frame c of
                     None \<Rightarrow>
                       (case redeliver si (cl_cursor_pending c) r of (res, again) \<Rightarrow>
                          Some ((r, g), \<lparr>so_result = res, so_actions = cl_actions c, so_delivered = None,
                            so_redelivered = again, so_recovering = flag, so_cadence = None\<rparr>))
                   | Some f \<Rightarrow>
                       (case consume_frame api si f r g of (st, res, acts, report) \<Rightarrow>
                          Some (st, \<lparr>so_result = res, so_actions = cl_actions c @ acts,
                            so_delivered = (if res = CaptureOk then Some (fr_sequence f) else None),
                            so_redelivered = False, so_recovering = flag, so_cadence = report\<rparr>)))))"

definition first_frame_overdue :: "ring_sample \<Rightarrow> time_point \<Rightarrow> reader \<Rightarrow> bool" where
  "first_frame_overdue s now r \<longleftrightarrow> rr_last_sequence r = 0 \<and> latest_sequence s = 0 \<and>
     (case rr_first_frame_deadline r of None \<Rightarrow> False | Some d \<Rightarrow> now \<ge> d)"

definition drop_on_reset :: "bool \<Rightarrow> reader \<Rightarrow> reader" where
  "drop_on_reset edge r =
     (if edge \<and> \<not> rr_tdr_allocations_dropped r
      then (release_shared_allocations r)\<lparr>rr_tdr_allocations_dropped := True\<rparr> else r)"

definition snapshot ::
  "vgd_api \<Rightarrow> snapshot_input \<Rightarrow> reader \<Rightarrow> vgd_globals \<Rightarrow> ((reader \<times> vgd_globals) \<times> snapshot_output) option" where
  "snapshot api si r0 g =
     (if \<not> rr_ring r0 then Some ((r0, g), gives_up CaptureError None)
      else
        let edge = (si_tdr_event_count si \<noteq> rr_tdr_marks_at_open r0); r = drop_on_reset edge r0
        in (case read_ring_sample (si_status si) (si_heartbeat_age si) edge r of
              None \<Rightarrow> Some ((release_shared_allocations r, g), gives_up CaptureReinit None)
            | Some s \<Rightarrow>
                (if first_frame_overdue s (si_now si) r
                 then Some ((release_shared_allocations r, g\<lparr>g_broken_session := rr_session_id r\<rparr>),
                            gives_up CaptureReinit None)
                 else
                   (case evaluate (rr_liveness r) (s, si_now si) of (l, d) \<Rightarrow>
                      (case publish_recovery_clock (r\<lparr>rr_liveness := l\<rparr>) g of (r', g') \<Rightarrow>
                         act_on_verdict api si d r' g')))))"

subsection \<open>Opening a reader\<close>

text \<open>One round of the admission of a ring handed to an isolated worker: the status call, the performance
  counter (\<open>None\<close>: it could not be read) and whether the deadline has passed.\<close>

record admission_poll =
  ap_result :: "32 word"
  ap_status :: ring_status
  ap_qpc :: "int option"
  ap_deadline :: bool

definition heartbeat_fresh :: "int option \<Rightarrow> ring_status \<Rightarrow> bool" where
  "heartbeat_fresh qpc s \<longleftrightarrow>
     (case qpc of
        None \<Rightarrow> False
      | Some n \<Rightarrow> n \<ge> 0 \<and> st_qpc_frequency s \<noteq> 0 \<and> st_heartbeat_qpc s \<noteq> 0 \<and>
          of_int n \<ge> st_heartbeat_qpc s \<and> of_int n - st_heartbeat_qpc s \<le> st_qpc_frequency s * 2)"

definition bind_target :: "32 word \<Rightarrow> ring_status \<Rightarrow> ring_target \<Rightarrow> worker_ring_binding" where
  "bind_target result s t =
     classify_worker_ring_binding result (st_state s) (st_generation s) (st_latest_sequence s) (st_transport_flags s)
       (tg_generation t) (tg_transport_flags t)"

fun admission_loop ::
  "ring_target \<Rightarrow> bool \<Rightarrow> admission_poll list \<Rightarrow> (worker_ring_binding \<times> bool \<times> ring_target \<times> ring_status) option" where
  "admission_loop t fresh [] = None"
| "admission_loop t fresh (p # ps) =
     (let s = ap_status p in
      if ap_result p \<noteq> 0 \<or> st_state s = ring_dead then Some (Reject, fresh, t, s)
      else
        let t' = (if tg_generation t \<noteq> 0 \<and> st_generation s \<noteq> 0 \<and> st_generation s \<noteq> tg_generation t
                  then t\<lparr>tg_generation := 0\<rparr> else t);
            binding = bind_target (ap_result p) s t';
            fresh' = heartbeat_fresh (ap_qpc p) s
        in if binding = Ready \<and> fresh' then Some (binding, fresh', t', s)
           else if binding = Provisional then Some (binding, fresh', t', s)
           else if ap_deadline p then Some (binding, fresh', t', s)
           else admission_loop t' fresh' ps)"

record init_input =
  ii_target :: "ring_target option"
  ii_requalified :: bool
  ii_ring_opens :: "bool list"
  ii_worker :: bool
  ii_admission :: "admission_poll list"
  ii_display_init :: bool
  ii_confirm_result :: "32 word"
  ii_confirm_status :: ring_status
  ii_tdr_event_count :: u64
  ii_now :: time_point
  ii_driver_build :: "u32 option"
  ii_cursor_open :: bool
  ii_cursor_render :: bool
  ii_width :: u32
  ii_height :: u32

text \<open>The circuit breaker and the single requalification of a ring that missed its first frame: whether
  the ring may be opened, and the globals afterwards.\<close>

definition admit_session :: "u64 \<Rightarrow> bool \<Rightarrow> vgd_globals \<Rightarrow> vgd_globals \<times> bool" where
  "admit_session session_id requalified g =
     (if g_broken_session g = session_id then (g, False)
      else if g_pre_admission_session g = session_id then
        if g_pre_admission_attempted_session g \<noteq> 0 then (g, False)
        else let g1 = g\<lparr>g_pre_admission_attempted_session := session_id\<rparr>
             in if requalified then (g1\<lparr>g_pre_admission_session := 0\<rparr>, True) else (g1, False)
      else (g, True))"

definition liveness_config :: "u32 option \<Rightarrow> ring_config" where
  "liveness_config driver_build =
     (let cfg = default_ring_config\<lparr>trust_rebuilding_heartbeat :=
            (case driver_build of None \<Rightarrow> False | Some b \<Rightarrow> b \<ge> kFirstDuckInPlaceDriverBuild)\<rparr>
      in case driver_build of
           None \<Rightarrow> cfg
         | Some b \<Rightarrow> if b \<ge> 20 then cfg\<lparr>recovery_budget := 10 * 1000000000\<rparr> else cfg)"

definition open_reader :: "vgd_api \<Rightarrow> init_input \<Rightarrow> ring_target \<Rightarrow> vgd_globals \<Rightarrow> reader" where
  "open_reader api ii t g =
     (let published = load_recovery_clock (tg_session_id t) g
      in \<lparr>rr_ring = True, rr_session_id = tg_session_id t, rr_ring_slots = tg_ring_slots t,
          rr_fence_transport = (tg_transport_flags t AND va_d3d12_fence_transport api \<noteq> 0),
          rr_fence_required = (tg_transport_flags t AND va_fence_transport_required api \<noteq> 0),
          rr_transport_generation = tg_generation t, rr_texture_generation = 0, rr_slot_textures = [],
          rr_last_sequence = 0, rr_first_frame_deadline = Some (ii_now ii + 5 * 1000000000),
          rr_cadence_window_start = None, rr_cadence_window_base_seq = 0, rr_cadence_claimed = 0,
          rr_tdr_marks_at_open = ii_tdr_event_count ii, rr_tdr_allocations_dropped = False,
          rr_liveness = adopt_recovery_start published (ii_now ii) (ring_init (liveness_config (ii_driver_build ii))),
          rr_published_recovery_start = published, rr_open_failures = 0, rr_open_failed_device_removed = False,
          rr_cursor = ii_cursor_open ii, rr_last_frame = False, rr_width = ii_width ii, rr_height = ii_height ii,
          rr_capture_format = None\<rparr>)"

text \<open>\<open>init\<close>: the globals afterwards, and the reader if it was opened. For a worker the admission may
  still be waiting, which is \<open>None\<close>.\<close>

definition reader_init :: "vgd_api \<Rightarrow> init_input \<Rightarrow> vgd_globals \<Rightarrow> (vgd_globals \<times> reader option) option" where
  "reader_init api ii g =
     (case ii_target ii of
        None \<Rightarrow> Some (g, None)
      | Some t \<Rightarrow>
          (case admit_session (tg_session_id t) (ii_requalified ii) g of (g', admitted) \<Rightarrow>
             let finish = (\<lambda>t.
                   if \<not> ii_display_init ii then Some (g', None)
                   else if ii_worker ii \<and> bind_target (ii_confirm_result ii) (ii_confirm_status ii) t \<noteq> Ready
                   then Some (g', None)
                   else if ii_cursor_open ii \<and> \<not> ii_cursor_render ii then Some (g', None)
                   else Some (g', Some (open_reader api ii t g')))
             in if \<not> admitted then Some (g', None)
                else if True \<notin> set (take 10 (ii_ring_opens ii)) then Some (g', None)
                else if \<not> ii_worker ii then finish t
                else (case admission_loop t False (ii_admission ii) of
                       None \<Rightarrow> None
                     | Some (binding, fresh, t', s) \<Rightarrow>
                         if binding \<noteq> Ready \<or> \<not> fresh then Some (g', None)
                         else finish (if tg_generation t' = 0 then t'\<lparr>tg_generation := st_generation s\<rparr> else t'))))"

subsection \<open>Every claim is released\<close>

text \<open>At most one slot claimed, its mutex only while it is claimed, and nothing held at the end.\<close>

fun ring_ok :: "u32 option \<Rightarrow> bool \<Rightarrow> ring_action list \<Rightarrow> bool" where
  "ring_ok claim locked [] \<longleftrightarrow> claim = None \<and> \<not> locked"
| "ring_ok claim locked (ClaimSlot i # acts) \<longleftrightarrow> claim = None \<and> ring_ok (Some i) False acts"
| "ring_ok claim locked (AcquireMutex i # acts) \<longleftrightarrow> claim = Some i \<and> \<not> locked \<and> ring_ok claim True acts"
| "ring_ok claim locked (ReleaseMutex i # acts) \<longleftrightarrow> claim = Some i \<and> locked \<and> ring_ok claim False acts"
| "ring_ok claim locked (ReleaseSlot i # acts) \<longleftrightarrow> claim = Some i \<and> \<not> locked \<and> ring_ok None False acts"

text \<open>Textures are cached with a mutex exactly under the keyed-mutex transport; the report window starts
  at or below the last delivered frame and has not counted more frames than were published since.\<close>

definition textures_match :: "reader \<Rightarrow> bool" where
  "textures_match r \<longleftrightarrow> (\<forall>m. Some m \<in> set (rr_slot_textures r) \<longrightarrow> m = (\<not> rr_fence_transport r))"

definition cadence_ok :: "reader \<Rightarrow> bool" where
  "cadence_ok r \<longleftrightarrow> rr_cadence_window_start r \<noteq> None \<longrightarrow>
     rr_cadence_window_base_seq r \<le> rr_last_sequence r \<and>
     unat (rr_cadence_claimed r) + unat (rr_cadence_window_base_seq r) \<le> unat (rr_last_sequence r)"

definition reader_ok :: "reader \<times> vgd_globals \<Rightarrow> bool" where
  "reader_ok st \<longleftrightarrow> textures_match (fst st) \<and> cadence_ok (fst st)"

lemma release_frame [simp]:
  "textures_match (release_shared_allocations r)" "cadence_ok (release_shared_allocations r) = cadence_ok r"
  "rr_last_sequence (release_shared_allocations r) = rr_last_sequence r"
  "rr_session_id (release_shared_allocations r) = rr_session_id r"
  "rr_liveness (release_shared_allocations r) = rr_liveness r"
  "rr_open_failures (release_shared_allocations r) = rr_open_failures r"
  by (simp_all add: release_shared_allocations_def textures_match_def cadence_ok_def)

lemma publish_frame [simp]:
  "textures_match (fst (publish_recovery_clock r g)) = textures_match r"
  "cadence_ok (fst (publish_recovery_clock r g)) = cadence_ok r"
  "rr_last_sequence (fst (publish_recovery_clock r g)) = rr_last_sequence r"
  "rr_session_id (fst (publish_recovery_clock r g)) = rr_session_id r"
  "rr_liveness (fst (publish_recovery_clock r g)) = rr_liveness r"
  by (simp_all add: publish_recovery_clock_def textures_match_def cadence_ok_def split: option.splits)

lemma liveness_frame [simp]:
  "textures_match (r\<lparr>rr_liveness := l\<rparr>) = textures_match r" "cadence_ok (r\<lparr>rr_liveness := l\<rparr>) = cadence_ok r"
  "textures_match (r\<lparr>rr_open_failures := n\<rparr>) = textures_match r" "cadence_ok (r\<lparr>rr_open_failures := n\<rparr>) = cadence_ok r"
  by (simp_all add: textures_match_def cadence_ok_def)

lemma drop_on_reset_frame [simp]:
  "textures_match r \<Longrightarrow> textures_match (drop_on_reset e r)" "cadence_ok (drop_on_reset e r) = cadence_ok r"
  "rr_last_sequence (drop_on_reset e r) = rr_last_sequence r" "rr_session_id (drop_on_reset e r) = rr_session_id r"
  "rr_liveness (drop_on_reset e r) = rr_liveness r" "rr_open_failures (drop_on_reset e r) = rr_open_failures r"
  by (simp_all add: drop_on_reset_def release_shared_allocations_def textures_match_def cadence_ok_def)

lemma claim_loop_result:
  "claim_loop cursor n pending ps = Some c \<Longrightarrow>
     (case cl_frame c of
        None \<Rightarrow> ring_ok None False (cl_actions c)
      | Some f \<Rightarrow> fr_sequence f > n \<and> (\<forall>acts. ring_ok None False (cl_actions c @ acts) = ring_ok (Some (fr_index f)) False acts))"
proof (induction ps arbitrary: pending c)
  case (Cons p ps)
  show ?case
  proof (cases "\<exists>f. po_frame p = Some f \<and> fr_sequence f > n")
    case True
    with Cons.prems show ?thesis by auto
  next
    case False
    then obtain pre where pre: "pre = [] \<or> (\<exists>i. pre = [ClaimSlot i, ReleaseSlot i])"
      and "claim_loop cursor n pending (p # ps) =
        (if po_deadline p then Some \<lparr>cl_actions = pre, cl_frame = None, cl_cursor_pending = pending\<rparr>
         else let pending' = (if cursor then po_cursor_pending p else pending)
              in if cursor \<and> pending' then Some \<lparr>cl_actions = pre, cl_frame = None, cl_cursor_pending = pending'\<rparr>
                 else map_option (\<lambda>c. c\<lparr>cl_actions := pre @ cl_actions c\<rparr>) (claim_loop cursor n pending' ps))"
      by (cases "po_frame p") auto
    then consider "cl_frame c = None" "cl_actions c = pre"
      | q c' where "claim_loop cursor n q ps = Some c'" "c = c'\<lparr>cl_actions := pre @ cl_actions c'\<rparr>"
      using Cons.prems by (auto simp: Let_def split: if_splits)
    then show ?thesis
    proof cases
      case 1
      with pre show ?thesis by auto
    next
      case 2
      have skip: "ring_ok None False (pre @ acts) = ring_ok None False acts" for acts using pre by auto
      have "cl_frame c = cl_frame c'" "cl_actions c = pre @ cl_actions c'" by (simp_all add: 2(2))
      with Cons.IH [OF 2(1)] show ?thesis by (simp add: skip split: option.splits)
    qed
  qed
qed simp

lemma refresh_transport_frame:
  assumes "refresh_transport api s r = (r', ok)"
  shows "rr_last_sequence r' = rr_last_sequence r" "rr_session_id r' = rr_session_id r"
    "cadence_ok r' = cadence_ok r" "textures_match r \<Longrightarrow> textures_match r'"
    "rr_open_failures r' = rr_open_failures r"
  using assms by (auto simp: refresh_transport_def Let_def textures_match_def cadence_ok_def split: option.splits if_splits)

lemma slot_texture_frame:
  assumes "slot_texture o1 gen slot r = (r', e)"
  shows "rr_last_sequence r' = rr_last_sequence r" "rr_session_id r' = rr_session_id r"
    "cadence_ok r' = cadence_ok r" "rr_fence_transport r' = rr_fence_transport r"
    "rr_open_failures r' = rr_open_failures r"
  using assms
  by (auto simp: slot_texture_def Let_def cadence_ok_def split: option.splits if_splits texture_open.splits)

lemma slot_texture_match:
  assumes "slot_texture o1 gen slot r = (r', e)" and "textures_match r"
  shows "textures_match r' \<and> (\<forall>m. e = Some m \<longrightarrow> m = (\<not> rr_fence_transport r'))"
  using assms
  by (auto simp: slot_texture_def Let_def textures_match_def dest!: set_update_subset_insert [THEN subsetD]
      split: option.splits if_splits texture_open.splits)
    (metis nth_mem not_le)+

lemma copy_slot_frame:
  assumes "copy_slot si r = (r', res)"
  shows "rr_last_sequence r' = rr_last_sequence r" "rr_session_id r' = rr_session_id r"
    "cadence_ok r' = cadence_ok r" "textures_match r' = textures_match r"
    "rr_open_failures r' = rr_open_failures r"
  using assms by (auto simp: copy_slot_def Let_def textures_match_def cadence_ok_def split: if_splits)

lemma unat_Suc_le: "unat (w + 1 :: 'a :: len word) \<le> unat w + 1"
  by (simp add: unat_word_ariths)

lemma window_count:
  fixes n :: u64
  assumes "cadence_ok r" and "rr_last_sequence r < n"
  defines "fresh \<equiv> rr_cadence_window_start r = None \<or> n < rr_cadence_window_base_seq r"
  defines "base \<equiv> (if fresh then (if n > 0 then n - 1 else 0) else rr_cadence_window_base_seq r)"
    and "claimed \<equiv> (if fresh then 0 else rr_cadence_claimed r)"
  shows "base < n \<and> unat (claimed + 1) + unat base \<le> unat n"
proof -
  have n: "0 < n" "unat (rr_last_sequence r) < unat n"
    using assms(2) by (metis word_not_simps(1) word_neq_0_conv, simp add: word_less_nat_alt)
  have "base < n \<and> unat claimed + unat base < unat n"
  proof (cases fresh)
    case True
    have "unat (n - 1) = unat n - 1" using n(1) by (simp add: unat_minus_one word_gt_0)
    moreover have "0 < unat n" using n(2) by simp
    ultimately show ?thesis using True n(1) by (simp add: base_def claimed_def word_less_nat_alt)
  next
    case False
    then have "rr_cadence_window_start r \<noteq> None" by (simp add: fresh_def)
    with assms(1) have "rr_cadence_window_base_seq r \<le> rr_last_sequence r"
      "unat (rr_cadence_claimed r) + unat (rr_cadence_window_base_seq r) \<le> unat (rr_last_sequence r)"
      by (simp_all add: cadence_ok_def)
    with assms(2) n(2) False show ?thesis by (simp add: base_def claimed_def)
  qed
  with unat_Suc_le [of claimed] show ?thesis by linarith
qed

lemma update_cadence_ok:
  fixes l :: ring_liveness and n :: u64
  assumes "cadence_ok r" and "rr_last_sequence r < n"
    and "update_cadence n t (r\<lparr>rr_last_sequence := n, rr_liveness := l\<rparr>) = (r', report)"
  shows "cadence_ok r'" "report = Some (c, p) \<Longrightarrow> unat c \<le> unat p" "textures_match r' = textures_match r"
    "rr_last_sequence r' = n" "rr_session_id r' = rr_session_id r"
proof -
  define fresh where "fresh \<longleftrightarrow> rr_cadence_window_start r = None \<or> n < rr_cadence_window_base_seq r"
  define base where "base = (if fresh then (if n > 0 then n - 1 else 0) else rr_cadence_window_base_seq r)"
  define claimed where "claimed = (if fresh then 0 else rr_cadence_claimed r)"
  have count: "base < n" "unat (claimed + 1) + unat base \<le> unat n"
    using window_count [OF assms(1,2)] by (simp_all add: base_def claimed_def fresh_def)
  have diff: "unat (n - base) = unat n - unat base" using count(1) by (simp add: unat_sub)
  have up: "rr_last_sequence r' = n \<and> rr_session_id r' = rr_session_id r \<and> textures_match r' = textures_match r \<and>
      (report = None \<and> rr_cadence_window_base_seq r' = base \<and> rr_cadence_claimed r' = claimed + 1 \<or>
       report = Some (claimed + 1, n - base) \<and> rr_cadence_window_base_seq r' = n \<and> rr_cadence_claimed r' = 0)"
    using assms(3)
    by (auto simp: update_cadence_def Let_def base_def claimed_def fresh_def textures_match_def split: if_splits)
  then show "rr_last_sequence r' = n" "rr_session_id r' = rr_session_id r" "textures_match r' = textures_match r" by blast+
  show "cadence_ok r'" using up count by (auto simp: cadence_ok_def)
  show "unat c \<le> unat p" if "report = Some (c, p)" using up that count diff by auto
qed

text \<open>What one step with a claimed frame does.\<close>

definition step_ok :: "reader \<Rightarrow> reader \<Rightarrow> u64 option \<Rightarrow> (u32 \<times> u64) option \<Rightarrow> bool" where
  "step_ok r r' delivered report \<longleftrightarrow> textures_match r' \<and> cadence_ok r' \<and> rr_session_id r' = rr_session_id r \<and>
     (case delivered of None \<Rightarrow> rr_last_sequence r' = rr_last_sequence r
      | Some n \<Rightarrow> rr_last_sequence r < n \<and> rr_last_sequence r' = n) \<and>
     (\<forall>c p. report = Some (c, p) \<longrightarrow> unat c \<le> unat p)"

lemma consume_frame_ok:
  assumes "textures_match r" and "cadence_ok r" and "rr_last_sequence r < fr_sequence f"
    and step: "consume_frame api si f r g = ((r', g'), res, acts, report)"
  shows "step_ok r r' (if res = CaptureOk then Some (fr_sequence f) else None) report \<and>
    ring_ok (Some (fr_index f)) False acts"
proof -
  obtain r1 ok1 where r1: "refresh_transport api (si_transport_status si) r = (r1, ok1)" by (meson surj_pair)
  note f1 = refresh_transport_frame [OF r1]
  obtain r2 e where r2: "slot_texture (si_open si) (fr_generation f) (fr_index f) r1 = (r2, e)" by (meson surj_pair)
  note f2 = slot_texture_frame [OF r2] and m2 = slot_texture_match [OF r2 f1(4) [OF assms(1)]]
  obtain r4 res4 where r4: "copy_slot si (r2\<lparr>rr_open_failures := 0\<rparr>) = (r4, res4)" by (meson surj_pair)
  note f4 = copy_slot_frame [OF r4]
  have idle: "step_ok r x None None" if "x \<in> {r1, r2, r4}" for x
    using that f1 f2 m2 f4 assms(1,2) by (auto simp: step_ok_def)
  have idle2: "step_ok r (r2\<lparr>rr_open_failures := n\<rparr>) None None"
    "step_ok r (release_shared_allocations (r2\<lparr>rr_open_failures := n\<rparr>)) None None" for n
    using idle [of r2] by (simp_all add: step_ok_def)
  have m: "m = (\<not> rr_fence_transport r2)" if "e = Some m" for m using m2 that by blast
  let ?full = "(if \<not> rr_fence_transport r2 then [AcquireMutex (fr_index f)] else [])
    @ (if \<not> rr_fence_transport r2 then [ReleaseMutex (fr_index f)] else []) @ [ReleaseSlot (fr_index f)]"
  have acts: "acts = [ReleaseSlot (fr_index f)] \<or> acts = ?full"
    using step m by (auto simp: consume_frame_def Let_def r1 r2 r4 split: option.splits if_splits prod.splits)
  have "step_ok r r' (if res = CaptureOk then Some (fr_sequence f) else None) report"
  proof (cases "res = CaptureOk")
    case True
    then have "update_cadence (fr_sequence f) (si_done_at si)
        (r4\<lparr>rr_last_sequence := fr_sequence f, rr_liveness := note_delivered (rr_liveness r4)\<rparr>) = (r', report)"
      using step by (auto simp: consume_frame_def Let_def r1 r2 r4 split: option.splits if_splits prod.splits)
    moreover have "cadence_ok r4" "rr_last_sequence r4 < fr_sequence f" "textures_match r4" "rr_session_id r4 = rr_session_id r"
      using idle [of r4] assms(3) by (simp_all add: step_ok_def)
    ultimately show ?thesis
      using update_cadence_ok [of r4 "fr_sequence f" "si_done_at si" "note_delivered (rr_liveness r4)" r' report]
        idle [of r4] assms(3) True by (auto simp: step_ok_def)
  next
    case False
    then show ?thesis
      using step idle [of r1] idle [of r4] idle2
      by (auto simp: consume_frame_def Let_def r1 r2 r4 split: option.splits if_splits prod.splits)
  qed
  with acts show ?thesis by auto
qed

lemma step_ok_gives_up: "textures_match r \<Longrightarrow> cadence_ok r \<Longrightarrow> step_ok r r None None"
  by (simp add: step_ok_def)

lemma act_on_verdict_ok:
  assumes "textures_match r" and "cadence_ok r" and "act_on_verdict api si d r g = Some ((r', g'), out)"
  shows "step_ok r r' (so_delivered out) (so_cadence out) \<and> ring_ok None False (so_actions out)"
proof (cases "rd_verdict d = Consume")
  case False
  with assms show ?thesis
    by (auto simp: act_on_verdict_def step_ok_def Let_def split_beta split: ring_verdict.splits if_splits)
next
  case True
  then obtain c where c: "claim_loop (rr_cursor r) (rr_last_sequence r) (si_cursor_pending si) (si_polls si) = Some c"
    using assms(3) by (auto simp: act_on_verdict_def Let_def split: option.splits)
  note loop = claim_loop_result [OF c]
  show ?thesis
  proof (cases "cl_frame c")
    case None
    with True c loop assms show ?thesis by (auto simp: act_on_verdict_def step_ok_def Let_def split: prod.splits)
  next
    case (Some f)
    obtain r1 g1 res acts report where s: "consume_frame api si f r g = ((r1, g1), res, acts, report)"
      by (metis surj_pair)
    from consume_frame_ok [OF assms(1,2) _ s] loop Some True c assms(3) s show ?thesis
      by (auto simp: act_on_verdict_def Let_def)
  qed
qed

lemma snapshot_ok:
  assumes "textures_match r" and "cadence_ok r" and "snapshot api si r g = Some ((r', g'), out)"
  shows "step_ok r r' (so_delivered out) (so_cadence out) \<and> ring_ok None False (so_actions out)"
proof -
  define edge where "edge \<longleftrightarrow> si_tdr_event_count si \<noteq> rr_tdr_marks_at_open r"
  define r1 where "r1 = drop_on_reset edge r"
  have r1: "textures_match r1" "cadence_ok r1" "rr_last_sequence r1 = rr_last_sequence r" "rr_session_id r1 = rr_session_id r"
    using assms(1,2) by (simp_all add: r1_def)
  show ?thesis
  proof (cases "\<exists>s. rr_ring r \<and> read_ring_sample (si_status si) (si_heartbeat_age si) edge r1 = Some s \<and>
      \<not> first_frame_overdue s (si_now si) r1")
    case False
    with assms r1 show ?thesis
      by (auto simp: snapshot_def Let_def step_ok_def simp flip: edge_def r1_def split: if_splits option.splits)
  next
    case True
    then obtain s where s: "rr_ring r" "read_ring_sample (si_status si) (si_heartbeat_age si) edge r1 = Some s"
      "\<not> first_frame_overdue s (si_now si) r1" by blast
    obtain l d where e: "evaluate (rr_liveness r1) (s, si_now si) = (l, d)" by (meson surj_pair)
    define r2 where "r2 = fst (publish_recovery_clock (r1\<lparr>rr_liveness := l\<rparr>) g)"
    have r2: "textures_match r2" "cadence_ok r2" "rr_last_sequence r2 = rr_last_sequence r" "rr_session_id r2 = rr_session_id r"
      using r1 by (simp_all add: r2_def)
    have "act_on_verdict api si d r2 (snd (publish_recovery_clock (r1\<lparr>rr_liveness := l\<rparr>) g)) = Some ((r', g'), out)"
      using assms(3) s e by (simp add: snapshot_def Let_def split_beta r2_def flip: edge_def r1_def)
    from act_on_verdict_ok [OF r2(1,2) this] r2(3,4) show ?thesis by (simp add: step_ok_def split: option.splits)
  qed
qed

subsection \<open>Over a whole capture\<close>

definition capture_step ::
  "vgd_api \<Rightarrow> reader \<times> vgd_globals \<Rightarrow> snapshot_input \<Rightarrow> (reader \<times> vgd_globals) \<times> snapshot_output option" where
  "capture_step api st si =
     (case snapshot api si (fst st) (snd st) of None \<Rightarrow> (st, None) | Some (st', out) \<Rightarrow> (st', Some out))"

interpretation capture: machine_invariant "capture_step api" reader_ok for api
proof
  fix st i
  assume "reader_ok st"
  then show "reader_ok (fst (capture_step api st i))"
    using snapshot_ok [of "fst st" api i "snd st"]
    by (auto simp: capture_step_def reader_ok_def step_ok_def split: option.splits)
qed

definition delivered_frames :: "snapshot_output option list \<Rightarrow> u64 list" where
  "delivered_frames outs = List.map_filter (\<lambda>out. Option.bind out so_delivered) outs"

lemma delivered_above:
  assumes "reader_ok st"
  shows "sorted_wrt (<) (delivered_frames (machine_outputs (capture_step api) st is)) \<and>
    (\<forall>n \<in> set (delivered_frames (machine_outputs (capture_step api) st is)). rr_last_sequence (fst st) < n)"
  using assms
proof (induction "is" arbitrary: st)
  case Nil
  then show ?case by (simp add: delivered_frames_def map_filter_simps)
next
  case (Cons i "is")
  let ?st' = "fst (capture_step api st i)"
  have ok': "reader_ok ?st'" using Cons.prems by (rule capture.step_inv)
  note IH = Cons.IH [OF ok']
  have step: "case Option.bind (snd (capture_step api st i)) so_delivered of
      None \<Rightarrow> rr_last_sequence (fst ?st') = rr_last_sequence (fst st)
    | Some n \<Rightarrow> rr_last_sequence (fst st) < n \<and> rr_last_sequence (fst ?st') = n"
    using snapshot_ok [of "fst st" api i "snd st"] Cons.prems
    by (auto simp: capture_step_def reader_ok_def step_ok_def split: option.splits)
  then show ?case
    using IH by (auto simp: delivered_frames_def map_filter_simps split: option.splits)
qed

lemma step_release_and_report:
  assumes "reader_ok st" and "snd (capture_step api st i) = Some out"
  shows "ring_ok None False (so_actions out) \<and> (\<forall>c p. so_cadence out = Some (c, p) \<longrightarrow> unat c \<le> unat p)"
  using assms snapshot_ok [of "fst st" api i "snd st"]
  by (auto simp: capture_step_def reader_ok_def step_ok_def split: option.splits)

text \<open>The branch that opens a new window for a sequence number below the window's base is never taken.\<close>

lemma window_never_restarts:
  assumes "cadence_ok r" and "rr_last_sequence r < n" and "rr_cadence_window_start r \<noteq> None"
  shows "\<not> n < rr_cadence_window_base_seq r"
  using assms by (auto simp: cadence_ok_def)

lemma open_reader_ok: "reader_ok (open_reader api ii t g, g')"
  by (simp add: reader_ok_def open_reader_def textures_match_def cadence_ok_def Let_def)

text \<open>
  C32. Capture from the ring is safe for the driver and in order for the client: over every sequence of
  capture steps of every reader, whatever the driver and Direct3D answer, each step releases every slot
  it claimed and every slot mutex it took, never holding two slots; the frames delivered have strictly
  increasing sequence numbers; and no report counts more frames claimed than published.
\<close>

theorem ring_capture_in_order:
  fixes inputs ii api t g
  defines "outs \<equiv> machine_outputs (capture_step api) (open_reader api ii t g, g) inputs"
  shows "sorted_wrt (<) (delivered_frames outs) \<and>
    (\<forall>out. Some out \<in> set outs \<longrightarrow>
       ring_ok None False (so_actions out) \<and> (\<forall>c p. so_cadence out = Some (c, p) \<longrightarrow> unat c \<le> unat p))"
proof (intro conjI)
  show "sorted_wrt (<) (delivered_frames outs)"
    unfolding outs_def using delivered_above [OF open_reader_ok] by blast
  show "\<forall>out. Some out \<in> set outs \<longrightarrow>
      ring_ok None False (so_actions out) \<and> (\<forall>c p. so_cadence out = Some (c, p) \<longrightarrow> unat c \<le> unat p)"
  proof (intro allI impI)
    fix out
    assume "Some out \<in> set outs"
    then obtain n where n: "n < length inputs"
      "snd (capture_step api (machine_state (capture_step api) (open_reader api ii t g, g) (take n inputs)) (inputs ! n)) = Some out"
      by (auto simp: outs_def in_set_conv_nth machine_outputs_nth)
    from step_release_and_report [OF capture.run_inv [OF open_reader_ok] n(2)]
    show "ring_ok None False (so_actions out) \<and> (\<forall>c p. so_cadence out = Some (c, p) \<longrightarrow> unat c \<le> unat p)" .
  qed
qed

text \<open>A reader of an active ring that delivers frame seven and, asked again, does not deliver it twice.\<close>

definition demo_api :: vgd_api where
  "demo_api = \<lparr>va_d3d12_fence_transport = 1, va_fence_transport_required = 2\<rparr>"

definition demo_status :: ring_status where
  "demo_status = \<lparr>st_state = ring_active, st_generation = 1, st_latest_sequence = 7, st_transport_flags = 0,
     st_heartbeat_qpc = 0, st_qpc_frequency = 0\<rparr>"

definition demo_target :: ring_target where
  "demo_target = \<lparr>tg_session_id = 5, tg_ring_slots = 3, tg_generation = 1, tg_transport_flags = 0\<rparr>"

definition demo_init :: init_input where
  "demo_init = \<lparr>ii_target = Some demo_target, ii_requalified = False, ii_ring_opens = [True], ii_worker = False,
     ii_admission = [], ii_display_init = True, ii_confirm_result = 0, ii_confirm_status = demo_status,
     ii_tdr_event_count = 0, ii_now = 0, ii_driver_build = Some 17, ii_cursor_open = False, ii_cursor_render = False,
     ii_width = 1920, ii_height = 1080\<rparr>"

definition demo_globals :: vgd_globals where
  "demo_globals = \<lparr>g_broken_session = 0, g_pre_admission_session = 0, g_pre_admission_attempted_session = 0,
     g_recovery_clocks = []\<rparr>"

definition demo_input :: "ring_status \<Rightarrow> duration \<Rightarrow> time_point \<Rightarrow> snapshot_input" where
  "demo_input status age now = \<lparr>si_tdr_event_count = 0, si_status = Some status, si_heartbeat_age = age, si_now = now,
     si_cursor_pending = False,
     si_polls = [\<lparr>po_frame = Some \<lparr>fr_index = 2, fr_generation = 1, fr_sequence = 7, fr_ready_fence_value = 0\<rparr>,
                  po_deadline = True, po_cursor_pending = False\<rparr>],
     si_transport_status = Some status, si_open = Opened, si_fence_prepared = True, si_fence_wait = True,
     si_slot_mutex = Acquired_S_OK, si_desc_width = 1920, si_desc_height = 1080, si_desc_format = 28,
     si_free_image = True, si_image_complete = True, si_image_mutex = Acquired_S_OK, si_last_frame_created = True,
     si_copy_finished = True, si_done_at = now\<rparr>"

lemmas demo_defs = demo_api_def demo_status_def demo_target_def demo_init_def demo_globals_def demo_input_def

lemmas reader_defs = capture_step_def snapshot_def act_on_verdict_def consume_frame_def copy_slot_def slot_texture_def
  refresh_transport_def redeliver_def update_cadence_def first_frame_overdue_def drop_on_reset_def read_ring_sample_def
  publish_recovery_clock_def recovery_start_def open_reader_def load_recovery_clock_def adopt_recovery_start_def
  release_shared_allocations_def acquired_def note_delivered_def

lemmas ladder_eval = ladder_defs decide_def note_generation_def clear_recovery_clock_def rebuilding_and_alive_def
  heartbeat_live_def within_recovery_budget_def ring_state_defs ring_init_def liveness_config_def default_ring_config_def
  kFirstDuckInPlaceDriverBuild_def

theorem ring_capture_in_order_witness:
  "let outs = machine_outputs (capture_step demo_api) (open_reader demo_api demo_init demo_target demo_globals, demo_globals)
       [demo_input demo_status 0 0, demo_input demo_status 0 1000000]
   in delivered_frames outs = [7] \<and> map (map_option so_actions) outs =
        [Some [ClaimSlot 2, AcquireMutex 2, ReleaseMutex 2, ReleaseSlot 2], Some [ClaimSlot 2, ReleaseSlot 2]] \<and>
      sorted_wrt (<) (delivered_frames outs)"
proof -
  let ?outs = "machine_outputs (capture_step demo_api) (open_reader demo_api demo_init demo_target demo_globals, demo_globals)
       [demo_input demo_status 0 0, demo_input demo_status 0 1000000]"
  have run: "delivered_frames ?outs = [7] \<and> map (map_option so_actions) ?outs =
      [Some [ClaimSlot 2, AcquireMutex 2, ReleaseMutex 2, ReleaseSlot 2], Some [ClaimSlot 2, ReleaseSlot 2]]"
    by code_simp
  with ring_capture_in_order [of demo_api demo_init demo_target demo_globals
      "[demo_input demo_status 0 0, demo_input demo_status 0 1000000]"]
  show ?thesis by (simp only: Let_def)
qed

end
