(* ===== verification/Recovery.thy ===== *)
theory Recovery
  imports Prelude
begin

text \<open>
  How encoder threads ride out a display outage, and the small policies around it: the recovery gate
  (\<^verbatim>\<open>src/encoder_recovery_gate.h\<close>) and the wait built on it (\<open>hold_for_display_recovery\<close>), the
  revocable 4:4:4 fallback (\<^verbatim>\<open>src/yuv444_fallback.h\<close>, \<open>downgrade_yuv444_to_420\<close>), the bounded wait
  for a display at startup (\<^verbatim>\<open>src/startup_display_wait.h\<close>), the D3D11 circuit
  (\<^verbatim>\<open>src/gpu_recovery_policy.h\<close>) and the mode reconciliation (\<^verbatim>\<open>src/requested_display_mode.h\<close>).
\<close>

subsection \<open>The recovery gate\<close>

datatype encoder_recovery_action = Hold | Fail

record recovery_gate =
  gate_hold_ceiling :: duration
  gate_held :: duration
  gate_last_observation :: "time_point option"
  gate_last_was_recovering :: bool

definition default_hold_ceiling :: duration where
  "default_hold_ceiling = 16 * 60 * 1000000000"

definition gate_init :: "duration \<Rightarrow> recovery_gate" where
  "gate_init ceiling = \<lparr>gate_hold_ceiling = ceiling, gate_held = 0, gate_last_observation = None,
     gate_last_was_recovering = False\<rparr>"

definition gate_evaluate :: "recovery_gate \<Rightarrow> bool \<times> time_point \<Rightarrow> recovery_gate \<times> encoder_recovery_action" where
  "gate_evaluate g obs =
     (let capture_recovering = fst obs; now = snd obs;
          held = (case gate_last_observation g of
                    Some last_obs \<Rightarrow>
                      if gate_last_was_recovering g \<and> now - last_obs > 0
                      then gate_held g + (now - last_obs) else gate_held g
                  | None \<Rightarrow> gate_held g);
          g' = g\<lparr>gate_held := held, gate_last_observation := Some now,
                 gate_last_was_recovering := capture_recovering\<rparr>
      in (g', if \<not> capture_recovering then Fail
              else if held > gate_hold_ceiling g then Fail else Hold))"

definition note_progress :: "recovery_gate \<Rightarrow> recovery_gate" where
  "note_progress g = g\<lparr>gate_held := 0, gate_last_observation := None, gate_last_was_recovering := False\<rparr>"

definition held_for :: "recovery_gate \<Rightarrow> duration" where
  "held_for g = gate_held g"

text \<open>
  The wait of an encoder thread. Reading \<open>n\<close> of the outside world is \<open>world n\<close>: whether the session is
  ending, what the capture source says, and the clock. The loop takes fuel; \<open>None\<close> is "still waiting".
\<close>

type_synonym world = "nat \<Rightarrow> bool \<times> bool \<times> time_point"

fun hold_loop :: "nat \<Rightarrow> world \<Rightarrow> nat \<Rightarrow> recovery_gate \<Rightarrow> (recovery_gate \<times> nat) option" where
  "hold_loop 0 world n g = None"
| "hold_loop (Suc fuel) world n g =
     (if fst (world n) then Some (g, n)
      else case gate_evaluate g (snd (world n)) of (g', action) \<Rightarrow>
        if action = Hold then hold_loop fuel world (n + 1) g' else Some (g', n))"

definition hold_for_display_recovery :: "nat \<Rightarrow> world \<Rightarrow> recovery_gate \<Rightarrow> (recovery_gate \<times> bool) option" where
  "hold_for_display_recovery fuel world g =
     (case gate_evaluate g (snd (world 0)) of (g0, action) \<Rightarrow>
        if action \<noteq> Hold \<or> fst (world 0) then Some (g0, False)
        else case hold_loop fuel world 1 g0 of
               None \<Rightarrow> None
             | Some (g1, n) \<Rightarrow>
                 if fst (world (n + 1)) then Some (g1, False)
                 else if fst (snd (world (n + 1))) then Some (g1, False)
                 else Some (g1, True))"

subsection \<open>Giving up 4:4:4\<close>

datatype yuv444_fallback = NotApplicable | Keep444 | Try420

definition kYuv420 :: int where "kYuv420 = 0"
definition kYuv444 :: int where "kYuv444 = 1"

text \<open>The fallback object works on the session's chroma in place: the state is the chroma and the
  provisional flag.\<close>

definition fallback_attempt :: "int \<Rightarrow> bool \<Rightarrow> int \<times> bool \<times> yuv444_fallback" where
  "fallback_attempt chroma capture_recovering =
     (if chroma \<noteq> kYuv444 then (chroma, False, NotApplicable)
      else if capture_recovering then (chroma, False, Keep444)
      else (kYuv420, True, Try420))"

definition fallback_settle :: "int \<Rightarrow> bool \<Rightarrow> bool \<Rightarrow> int \<times> bool \<times> bool" where
  "fallback_settle chroma provisional retry_succeeded =
     (if \<not> provisional then (chroma, provisional, False)
      else if retry_succeeded then (chroma, False, True)
      else (kYuv444, False, False))"

definition pyrowave_kCodec :: int where "pyrowave_kCodec = 3"

text \<open>One failed encoder build: the chroma afterwards, and whether the downgrade stands (which is when
  the client is told).\<close>

definition downgrade_yuv444_to_420 :: "int \<Rightarrow> int \<Rightarrow> bool \<Rightarrow> bool \<Rightarrow> int \<times> bool" where
  "downgrade_yuv444_to_420 videoFormat chroma capture_recovering retry_succeeded =
     (if videoFormat = pyrowave_kCodec \<and> chroma = 1 then (chroma, False)
      else case fallback_attempt chroma capture_recovering of (chroma1, provisional, verdict) \<Rightarrow>
        (case verdict of
           NotApplicable \<Rightarrow> (chroma1, False)
         | Keep444 \<Rightarrow> (chroma1, False)
         | Try420 \<Rightarrow>
             (case fallback_settle chroma1 provisional retry_succeeded of (chroma2, _, stands) \<Rightarrow>
                (chroma2, stands))))"

subsection \<open>Waiting for a display at startup\<close>

record display_wait_result =
  display_ready :: bool
  wait_aborted :: bool
  wait_attempts :: nat

text \<open>Poll \<open>i\<close> reads \<open>should_abort i\<close> and, after the sleep, \<open>ready i\<close>.\<close>

fun display_wait_loop ::
  "(nat \<Rightarrow> bool) \<Rightarrow> (nat \<Rightarrow> bool) \<Rightarrow> nat \<Rightarrow> nat \<Rightarrow> nat \<Rightarrow> display_wait_result" where
  "display_wait_loop should_abort ready i attempts 0 =
     \<lparr>display_ready = False, wait_aborted = False, wait_attempts = attempts\<rparr>"
| "display_wait_loop should_abort ready i attempts (Suc polls) =
     (if should_abort i then \<lparr>display_ready = False, wait_aborted = True, wait_attempts = attempts\<rparr>
      else if ready i then \<lparr>display_ready = True, wait_aborted = False, wait_attempts = attempts + 1\<rparr>
      else display_wait_loop should_abort ready (i + 1) (attempts + 1) polls)"

definition wait_for_physical_display ::
  "int \<Rightarrow> (nat \<Rightarrow> bool) \<Rightarrow> (nat \<Rightarrow> bool) \<Rightarrow> display_wait_result" where
  "wait_for_physical_display max_polls should_abort ready =
     display_wait_loop should_abort ready 0 1 (nat max_polls)"

subsection \<open>The D3D11 circuit and the display mode\<close>

record gpu_circuit =
  force_d3d11 :: bool
  abort_generation :: u64

definition open_d3d11_circuit :: "gpu_circuit \<Rightarrow> gpu_circuit \<times> bool" where
  "open_d3d11_circuit c =
     (\<lparr>force_d3d11 = True, abort_generation = abort_generation c + 1\<rparr>, \<not> force_d3d11 c)"

record display_mode =
  mode_width :: int
  mode_height :: int
  mode_fps :: int

definition mode_valid :: "display_mode \<Rightarrow> bool" where
  "mode_valid m = (mode_width m > 0 \<and> mode_height m > 0 \<and> mode_fps m > 0)"

definition should_reconcile :: "bool \<Rightarrow> bool \<Rightarrow> display_mode \<Rightarrow> display_mode \<Rightarrow> bool" where
  "should_reconcile virtual_display explicit_per_client_override launch_mode rtsp_mode =
     (virtual_display \<and> \<not> explicit_per_client_override \<and> mode_valid rtsp_mode \<and> launch_mode \<noteq> rtsp_mode)"

subsection \<open>The gate measures the outage\<close>

text \<open>The reference: the time between consecutive observations, counted where the earlier one saw
  recovery.\<close>

fun outage :: "(bool \<times> time_point) list \<Rightarrow> duration" where
  "outage ((r, t) # (r', t') # rest) = (if r then max 0 (t' - t) else 0) + outage ((r', t') # rest)"
| "outage obs = 0"

lemma gate_evaluate_state:
  "fst (gate_evaluate g (r, t)) = g\<lparr>gate_held := gate_held g +
       (case gate_last_observation g of
          Some u \<Rightarrow> if gate_last_was_recovering g then max 0 (t - u) else 0 | None \<Rightarrow> 0),
     gate_last_observation := Some t, gate_last_was_recovering := r\<rparr>"
  by (simp add: gate_evaluate_def Let_def split: option.splits)

lemma gate_evaluate_action:
  "snd (gate_evaluate g (r, t)) = Hold \<longleftrightarrow> r \<and> gate_held (fst (gate_evaluate g (r, t))) \<le> gate_hold_ceiling g"
  by (simp add: gate_evaluate_def Let_def not_less split: option.splits)

lemma outage_snoc:
  "outage (obs @ [(r, t), (r', t')]) = outage (obs @ [(r, t)]) + (if r then max 0 (t' - t) else 0)"
proof (induction obs)
  case (Cons o1 obs)
  then show ?case by (cases obs; cases o1) auto
qed simp

lemma gate_run:
  assumes "obs \<noteq> []"
  shows "machine_state gate_evaluate (gate_init c) obs = \<lparr>gate_hold_ceiling = c, gate_held = outage obs,
    gate_last_observation = Some (snd (last obs)), gate_last_was_recovering = fst (last obs)\<rparr>"
  using assms
proof (induction obs rule: rev_induct)
  case (snoc o2 obs)
  obtain r' t' where o2: "o2 = (r', t')" by (cases o2)
  show ?case
  proof (cases obs rule: rev_cases)
    case Nil
    then show ?thesis by (simp add: o2 gate_evaluate_state gate_init_def)
  next
    case (snoc obs' o1)
    obtain r t where o1: "o1 = (r, t)" by (cases o1)
    have "machine_state gate_evaluate (gate_init c) obs = \<lparr>gate_hold_ceiling = c, gate_held = outage obs,
        gate_last_observation = Some t, gate_last_was_recovering = r\<rparr>"
      using snoc.IH snoc by (simp add: o1)
    then show ?thesis
      using snoc outage_snoc [of obs' r t r' t'] by (simp add: o1 o2 gate_evaluate_state)
  qed
qed simp

lemma note_progress_init: "note_progress g = gate_init (gate_hold_ceiling g)"
  by (cases g) (simp add: note_progress_def gate_init_def)

lemma outage_wall_time:
  "sorted (map snd obs) \<Longrightarrow> obs \<noteq> [] \<Longrightarrow> outage obs \<le> snd (last obs) - snd (hd obs)"
  by (induction obs rule: outage.induct) auto

lemma gate_measures_outage_parts:
  assumes "sorted (map snd (obs @ [(r, t)]))"
  shows "held_for (machine_state gate_evaluate (note_progress g) (obs @ [(r, t)])) = outage (obs @ [(r, t)])"
    and "last (machine_outputs gate_evaluate (note_progress g) (obs @ [(r, t)])) = Hold
      \<longleftrightarrow> r \<and> outage (obs @ [(r, t)]) \<le> gate_hold_ceiling g"
    and "outage (obs @ [(r, t)]) \<le> t - snd (hd (obs @ [(r, t)]))"
proof -
  let ?g = "machine_state gate_evaluate (note_progress g) obs"
  have run: "fst (gate_evaluate ?g (r, t)) = \<lparr>gate_hold_ceiling = gate_hold_ceiling g,
      gate_held = outage (obs @ [(r, t)]), gate_last_observation = Some t, gate_last_was_recovering = r\<rparr>"
    using gate_run [of "obs @ [(r, t)]" "gate_hold_ceiling g"] by (simp add: note_progress_init)
  then show "held_for (machine_state gate_evaluate (note_progress g) (obs @ [(r, t)])) = outage (obs @ [(r, t)])"
    by (simp add: held_for_def)
  have "gate_hold_ceiling ?g = gate_hold_ceiling g"
    using arg_cong [OF run, of gate_hold_ceiling] by (simp add: gate_evaluate_state)
  with run show "last (machine_outputs gate_evaluate (note_progress g) (obs @ [(r, t)])) = Hold
      \<longleftrightarrow> r \<and> outage (obs @ [(r, t)]) \<le> gate_hold_ceiling g"
    by (simp add: gate_evaluate_action)
  show "outage (obs @ [(r, t)]) \<le> t - snd (hd (obs @ [(r, t)]))"
    using outage_wall_time [OF assms] by simp
qed

text \<open>
  C10. The gate measures the outage, not the wall clock: after any non-decreasing sequence of
  observations since the last progress, the time held is exactly the time spent between an
  observation that saw recovery and the next one, however often the source flapped; the verdict is
  Hold exactly when the source is recovering and that time is within the ceiling; and the time held
  never exceeds the time passed since the first observation, so no ceiling expires early.
\<close>

theorem gate_measures_outage:
  assumes "sorted (map snd (obs @ [(r, t)]))"
  shows "held_for (machine_state gate_evaluate (note_progress g) (obs @ [(r, t)])) = outage (obs @ [(r, t)]) \<and>
    (last (machine_outputs gate_evaluate (note_progress g) (obs @ [(r, t)])) = Hold
      \<longleftrightarrow> r \<and> outage (obs @ [(r, t)]) \<le> gate_hold_ceiling g) \<and>
    outage (obs @ [(r, t)]) \<le> t - snd (hd (obs @ [(r, t)]))"
  using gate_measures_outage_parts [OF assms] by blast

theorem gate_measures_outage_witness:
  "last (machine_outputs gate_evaluate (note_progress (gate_init 10))
     [(True, 0), (False, 6), (True, 50), (True, 55)]) = Fail"
proof -
  have "sorted (map snd ([(True, 0), (False, 6), (True, 50)] @ [(True, 55 :: time_point)]))" by simp
  from gate_measures_outage [OF this, of "gate_init 10"]
  show ?thesis by (simp add: gate_init_def note_progress_def gate_evaluate_def)
qed

subsection \<open>The wait ends, and when it asks for a retry\<close>

abbreviation aborting :: "world \<Rightarrow> nat \<Rightarrow> bool" where "aborting w n \<equiv> fst (w n)"
abbreviation recovering :: "world \<Rightarrow> nat \<Rightarrow> bool" where "recovering w n \<equiv> fst (snd (w n))"
abbreviation clock :: "world \<Rightarrow> nat \<Rightarrow> time_point" where "clock w n \<equiv> snd (snd (w n))"

definition hold_ends :: "duration \<Rightarrow> world \<Rightarrow> nat \<Rightarrow> bool" where
  "hold_ends ceiling w n \<longleftrightarrow> aborting w n \<or> \<not> recovering w n \<or> clock w n - clock w 0 > ceiling"

definition holding_gate :: "duration \<Rightarrow> world \<Rightarrow> nat \<Rightarrow> recovery_gate" where
  "holding_gate ceiling w n = \<lparr>gate_hold_ceiling = ceiling, gate_held = clock w n - clock w 0,
     gate_last_observation = Some (clock w n), gate_last_was_recovering = True\<rparr>"

lemma gate_holds_on:
  assumes "clock w n \<le> clock w (Suc n)" and "\<not> hold_ends c w (Suc n)"
  shows "gate_evaluate (holding_gate c w n) (snd (w (Suc n))) = (holding_gate c w (Suc n), Hold)"
  using assms by (auto simp: gate_evaluate_def holding_gate_def hold_ends_def Let_def)

lemma gate_lets_go:
  assumes "clock w n \<le> clock w (Suc n)" and "hold_ends c w (Suc n)" and "\<not> aborting w (Suc n)"
  shows "snd (gate_evaluate (holding_gate c w n) (snd (w (Suc n)))) = Fail"
  using assms by (auto simp: gate_evaluate_def holding_gate_def hold_ends_def Let_def)

lemma hold_loop_stops:
  assumes mono: "\<And>k. clock w k \<le> clock w (Suc k)"
    and "n \<le> m" and "hold_ends c w (Suc m)" and "\<forall>k. n \<le> k \<and> k < m \<longrightarrow> \<not> hold_ends c w (Suc k)"
    and "m - n < fuel"
  shows "\<exists>g. hold_loop fuel w (Suc n) (holding_gate c w n) = Some (g, Suc m)"
  using assms(2-)
proof (induction fuel arbitrary: n)
  case (Suc fuel)
  show ?case
  proof (cases "n = m")
    case True
    with Suc.prems gate_lets_go [of w m c, OF mono] show ?thesis
      by (auto simp: split_beta)
  next
    case False
    with Suc.prems have go: "\<not> hold_ends c w (Suc n)" by simp
    then have "hold_loop (Suc fuel) w (Suc n) (holding_gate c w n)
        = hold_loop fuel w (Suc (Suc n)) (holding_gate c w (Suc n))"
      using gate_holds_on [of w n c, OF mono go] by (simp add: hold_ends_def)
    with Suc.IH [of "Suc n"] Suc.prems False show ?thesis by simp
  qed
qed simp

lemma clock_advances:
  assumes "\<And>k. clock w k + d \<le> clock w (Suc k)"
  shows "clock w 0 + int n * d \<le> clock w n"
proof (induction n)
  case (Suc n)
  with assms [of n] show ?case by (simp add: algebra_simps)
qed simp

lemma hold_first_reading:
  assumes "0 \<le> gate_hold_ceiling g"
  shows "gate_evaluate (note_progress g) (snd (w 0)) =
    ((holding_gate (gate_hold_ceiling g) w 0)\<lparr>gate_last_was_recovering := recovering w 0\<rparr>,
     if recovering w 0 then Hold else Fail)"
  using assms by (simp add: gate_evaluate_def note_progress_def holding_gate_def Let_def)

lemma hold_from_first_reading:
  assumes "0 \<le> gate_hold_ceiling g" and "recovering w 0" and "\<not> aborting w 0"
    and "hold_loop fuel w 1 (holding_gate (gate_hold_ceiling g) w 0) = Some (g', n)"
  shows "hold_for_display_recovery fuel w (note_progress g) =
    Some (g', \<not> aborting w (n + 1) \<and> \<not> recovering w (n + 1))"
proof -
  have "(holding_gate (gate_hold_ceiling g) w 0)\<lparr>gate_last_was_recovering := True\<rparr>
      = holding_gate (gate_hold_ceiling g) w 0"
    by (simp add: holding_gate_def)
  with assms show ?thesis
    by (simp add: hold_for_display_recovery_def hold_first_reading)
qed

lemma first_index_unique:
  fixes n :: nat
  assumes "1 \<le> n" and "P n" and "\<forall>k. 1 \<le> k \<and> k < n \<longrightarrow> \<not> P k"
  shows "(\<exists>i\<ge>1. P i \<and> (\<forall>k. 1 \<le> k \<and> k < i \<longrightarrow> \<not> P k) \<and> Q i) \<longleftrightarrow> Q n"
proof -
  have "i = n" if "1 \<le> i" "P i" "\<forall>k. 1 \<le> k \<and> k < i \<longrightarrow> \<not> P k" for i
    using that assms by (metis linorder_neqE_nat)
  with assms show ?thesis by blast
qed

text \<open>
  C11. The wait for a display always ends: with a clock that advances by at least \<open>d\<close> between two
  readings, a gate that starts an outage returns within as many readings as exhaust its ceiling. It
  asks for a retry exactly when the source was recovering at the first reading, and at the reading
  after the first one that ended the wait (the session ends, the source recovered, or the ceiling
  expired) the session is not ending and the source is no longer recovering.
\<close>

theorem hold_terminates:
  assumes d: "0 < d" and ticks: "\<And>k. clock w k + d \<le> clock w (Suc k)"
    and c: "0 \<le> gate_hold_ceiling g" and fuel: "gate_hold_ceiling g < int fuel * d"
  shows "\<exists>g' retry. hold_for_display_recovery fuel w (note_progress g) = Some (g', retry) \<and>
    (retry \<longleftrightarrow> recovering w 0 \<and> \<not> aborting w 0 \<and>
       (\<exists>n\<ge>1. hold_ends (gate_hold_ceiling g) w n \<and>
          (\<forall>k. 1 \<le> k \<and> k < n \<longrightarrow> \<not> hold_ends (gate_hold_ceiling g) w k) \<and>
          \<not> aborting w (n + 1) \<and> \<not> recovering w (n + 1)))"
proof (cases "recovering w 0 \<and> \<not> aborting w 0")
  case False
  then show ?thesis
    using c by (auto simp: hold_for_display_recovery_def hold_first_reading)
next
  case True
  let ?ends = "\<lambda>m. hold_ends (gate_hold_ceiling g) w (Suc m)"
  define m where "m = (LEAST m. ?ends m)"
  have "0 < fuel" using c fuel d by (cases fuel) auto
  then have late: "?ends (fuel - 1)"
    using clock_advances [of w d fuel, OF ticks] fuel by (simp add: hold_ends_def)
  have m: "?ends m"
    unfolding m_def by (rule LeastI [of ?ends, OF late])
  have first: "\<forall>k<m. \<not> ?ends k"
    unfolding m_def using not_less_Least [of _ ?ends] by blast
  have "m \<le> fuel - 1"
    unfolding m_def by (rule Least_le [of ?ends, OF late])
  then have "m < fuel" using \<open>0 < fuel\<close> by simp
  have mono: "clock w k \<le> clock w (Suc k)" for k
    using ticks [of k] d by simp
  obtain g' where "hold_loop fuel w (Suc 0) (holding_gate (gate_hold_ceiling g) w 0) = Some (g', Suc m)"
    using hold_loop_stops [of w 0 m "gate_hold_ceiling g" fuel, OF mono] m first \<open>m < fuel\<close> by auto
  then have run: "hold_for_display_recovery fuel w (note_progress g) =
      Some (g', \<not> aborting w (Suc m + 1) \<and> \<not> recovering w (Suc m + 1))"
    using True c by (intro hold_from_first_reading) simp_all
  have first': "\<forall>k. 1 \<le> k \<and> k < Suc m \<longrightarrow> \<not> hold_ends (gate_hold_ceiling g) w k"
  proof (intro allI impI)
    fix k assume "1 \<le> k \<and> k < Suc m"
    with first show "\<not> hold_ends (gate_hold_ceiling g) w k" by (cases k) auto
  qed
  show ?thesis
    using run True first_index_unique [of "Suc m" "hold_ends (gate_hold_ceiling g) w"
      "\<lambda>n. \<not> aborting w (n + 1) \<and> \<not> recovering w (n + 1)"] m first'
    by simp
qed

theorem hold_terminates_witness:
  "\<exists>g'. hold_for_display_recovery 100 (\<lambda>n. (False, n < 3, 20 * int n)) (note_progress (gate_init 1000))
     = Some (g', True)"
proof -
  let ?w = "\<lambda>n. (False, n < 3, 20 * int n) :: bool \<times> bool \<times> time_point"
  have "hold_ends 1000 ?w 3" and "\<forall>k. 1 \<le> k \<and> k < 3 \<longrightarrow> \<not> hold_ends 1000 ?w k"
    by (simp_all add: hold_ends_def)
  then have "\<exists>n\<ge>1. hold_ends 1000 ?w n \<and> (\<forall>k. 1 \<le> k \<and> k < n \<longrightarrow> \<not> hold_ends 1000 ?w k) \<and>
      \<not> aborting ?w (n + 1) \<and> \<not> recovering ?w (n + 1)"
    by (intro exI [of _ 3]) simp
  then show ?thesis
    using hold_terminates [of 20 ?w "gate_init 1000" 100] by (auto simp: gate_init_def)
qed

subsection \<open>When 4:4:4 is given up\<close>

text \<open>The builds of one session: each failed 4:4:4 build comes with the source's recovery verdict and
  the outcome of the 4:2:0 retry.\<close>

definition chroma_step :: "int \<Rightarrow> int \<Rightarrow> bool \<times> bool \<Rightarrow> int \<times> bool" where
  "chroma_step videoFormat chroma build = downgrade_yuv444_to_420 videoFormat chroma (fst build) (snd build)"

definition proves_444_bad :: "bool \<times> bool \<Rightarrow> bool" where
  "proves_444_bad build \<longleftrightarrow> \<not> fst build \<and> snd build"

definition revocable_444 :: "int \<Rightarrow> int \<Rightarrow> bool" where
  "revocable_444 videoFormat chroma \<longleftrightarrow> chroma = kYuv444 \<and> videoFormat \<noteq> pyrowave_kCodec"

lemma chroma_step_results:
  shows "fst (chroma_step f c b) = (if revocable_444 f c \<and> proves_444_bad b then kYuv420 else c)"
    and "snd (chroma_step f c b) \<longleftrightarrow> revocable_444 f c \<and> proves_444_bad b"
  by (simp_all add: chroma_step_def downgrade_yuv444_to_420_def fallback_attempt_def fallback_settle_def
      revocable_444_def proves_444_bad_def kYuv444_def kYuv420_def)

lemma not_revocable_420: "\<not> revocable_444 f kYuv420"
  by (simp add: revocable_444_def kYuv444_def kYuv420_def)

lemma chroma_settled:
  "\<not> revocable_444 f c \<Longrightarrow> machine_run (chroma_step f) c builds = (c, replicate (length builds) False)"
  by (induction builds) (simp_all add: chroma_step_results prod_eq_iff)

lemma chroma_downgrade_on_evidence_parts:
  shows "machine_state (chroma_step f) c builds =
      (if revocable_444 f c \<and> (\<exists>b \<in> set builds. proves_444_bad b) then kYuv420 else c)"
    and "\<forall>i < length builds. machine_outputs (chroma_step f) c builds ! i \<longleftrightarrow>
      revocable_444 f c \<and> proves_444_bad (builds ! i) \<and> (\<forall>j<i. \<not> proves_444_bad (builds ! j))"
proof (induction builds arbitrary: c)
  case (Cons b builds)
  {
    case 1
    then show ?case
      using Cons.IH(1) [of c] chroma_settled [OF not_revocable_420, of f builds]
      by (auto simp: chroma_step_results)
  next
    case 2
    show ?case
    proof (intro allI impI)
      fix i assume i: "i < length (b # builds)"
      show "machine_outputs (chroma_step f) c (b # builds) ! i \<longleftrightarrow> revocable_444 f c \<and>
          proves_444_bad ((b # builds) ! i) \<and> (\<forall>j<i. \<not> proves_444_bad ((b # builds) ! j))"
      proof (cases i)
        case 0
        then show ?thesis by (simp add: chroma_step_results)
      next
        case (Suc i')
        then show ?thesis
          using Cons.IH(2) [of c] i chroma_settled [OF not_revocable_420, of f builds]
          by (auto simp: chroma_step_results All_less_Suc2)
      qed
    qed
  }
qed simp_all

text \<open>
  A session loses 4:4:4 only on evidence: over any sequence of failed builds the chroma changes
  exactly when some build failed while the display was not recovering and its 4:2:0 retry
  succeeded, and the client is told at exactly the first such build and never again. A failure during
  an outage, a retry that fails too, a session that is not 4:4:4 and a PyroWave 4:4:4 session change
  nothing and tell nothing.
\<close>

theorem chroma_downgrade_on_evidence:
  "machine_state (chroma_step f) c builds =
      (if revocable_444 f c \<and> (\<exists>b \<in> set builds. proves_444_bad b) then kYuv420 else c) \<and>
    (\<forall>i < length builds. machine_outputs (chroma_step f) c builds ! i \<longleftrightarrow>
      revocable_444 f c \<and> proves_444_bad (builds ! i) \<and> (\<forall>j<i. \<not> proves_444_bad (builds ! j)))"
  by (intro conjI chroma_downgrade_on_evidence_parts)

theorem chroma_downgrade_on_evidence_witness:
  "machine_run (chroma_step 0) kYuv444 [(True, True), (False, False), (False, True), (False, True)]
     = (kYuv420, [False, False, True, False])"
proof -
  let ?builds = "[(True, True), (False, False), (False, True), (False, True)]"
  have rev: "revocable_444 0 kYuv444" by (simp add: revocable_444_def pyrowave_kCodec_def)
  have "machine_outputs (chroma_step 0) kYuv444 ?builds = [False, False, True, False]"
    using conjunct2 [OF chroma_downgrade_on_evidence [of 0 kYuv444 ?builds]] rev
    by (intro nth_equalityI) (auto simp: less_Suc_eq proves_444_bad_def numeral_eq_Suc)
  with conjunct1 [OF chroma_downgrade_on_evidence [of 0 kYuv444 ?builds]] rev show ?thesis
    by (intro prod_eqI) (auto simp: proves_444_bad_def)
qed

subsection \<open>The startup wait\<close>

lemma display_wait_loop_attempts:
  "wait_attempts (display_wait_loop abort ready i a p) \<le> a + p"
proof (induction p arbitrary: i a)
  case (Suc p)
  from Suc.IH [of "i + 1" "a + 1"] show ?case by simp
qed simp

lemma display_wait_loop_ready:
  "display_ready (display_wait_loop abort ready i a p) \<longleftrightarrow>
     (\<exists>k<p. ready (i + k) \<and> (\<forall>j<Suc k. \<not> abort (i + j)))"
proof (induction p arbitrary: i a)
  case (Suc p)
  from Suc.IH [of "i + 1" "a + 1"] show ?case
    by (cases "abort i"; cases "ready i") (simp_all add: Ex_less_Suc2 All_less_Suc2)
qed simp

lemma display_wait_loop_aborted:
  "wait_aborted (display_wait_loop abort ready i a p) \<longleftrightarrow>
     (\<exists>k<p. abort (i + k) \<and> (\<forall>j<k. \<not> abort (i + j) \<and> \<not> ready (i + j)))"
proof (induction p arbitrary: i a)
  case (Suc p)
  from Suc.IH [of "i + 1" "a + 1"] show ?case
    by (cases "abort i"; cases "ready i") (simp_all add: Ex_less_Suc2 All_less_Suc2)
qed simp

lemma startup_wait_decides_parts:
  defines "n m \<equiv> nat (m :: int)"
  shows "wait_attempts (wait_for_physical_display m abort ready) \<le> 1 + n m"
    and "display_ready (wait_for_physical_display m abort ready) \<longleftrightarrow>
      (\<exists>k<n m. ready k \<and> (\<forall>j\<le>k. \<not> abort j))"
    and "wait_aborted (wait_for_physical_display m abort ready) \<longleftrightarrow>
      (\<exists>k<n m. abort k \<and> (\<forall>j<k. \<not> abort j \<and> \<not> ready j))"
    and "\<not> (display_ready (wait_for_physical_display m abort ready) \<and>
      wait_aborted (wait_for_physical_display m abort ready))"
proof -
  show ready: "display_ready (wait_for_physical_display m abort ready) \<longleftrightarrow>
      (\<exists>k<n m. ready k \<and> (\<forall>j\<le>k. \<not> abort j))"
    by (simp add: wait_for_physical_display_def display_wait_loop_ready n_def less_Suc_eq_le)
  show aborted: "wait_aborted (wait_for_physical_display m abort ready) \<longleftrightarrow>
      (\<exists>k<n m. abort k \<and> (\<forall>j<k. \<not> abort j \<and> \<not> ready j))"
    by (simp add: wait_for_physical_display_def display_wait_loop_aborted n_def)
  show "\<not> (display_ready (wait_for_physical_display m abort ready) \<and>
      wait_aborted (wait_for_physical_display m abort ready))"
    unfolding ready aborted by (meson not_le)
  show "wait_attempts (wait_for_physical_display m abort ready) \<le> 1 + n m"
    using display_wait_loop_attempts [of abort ready 0 1 "nat m"]
    by (simp add: wait_for_physical_display_def n_def)
qed

text \<open>
  The startup wait is bounded and decides by the first event: it evaluates the display
  predicate at most \<open>max_polls\<close> times after the initial probe, reports a display exactly when some poll
  within the budget saw one with no abort up to it, reports an abort exactly when the abort came
  before any display, and never both; with no budget it reports neither.
\<close>

theorem startup_wait_decides:
  "wait_attempts (wait_for_physical_display m abort ready) \<le> 1 + nat m \<and>
    (display_ready (wait_for_physical_display m abort ready) \<longleftrightarrow>
      (\<exists>k < nat m. ready k \<and> (\<forall>j\<le>k. \<not> abort j))) \<and>
    (wait_aborted (wait_for_physical_display m abort ready) \<longleftrightarrow>
      (\<exists>k < nat m. abort k \<and> (\<forall>j<k. \<not> abort j \<and> \<not> ready j))) \<and>
    \<not> (display_ready (wait_for_physical_display m abort ready) \<and>
      wait_aborted (wait_for_physical_display m abort ready))"
  by (intro conjI startup_wait_decides_parts)

theorem startup_wait_decides_witness:
  "display_ready (wait_for_physical_display 5 (\<lambda>i. i = 4) (\<lambda>i. i = 3))"
  using startup_wait_decides [of 5 "\<lambda>i. i = 4" "\<lambda>i. i = 3"] by simp

end
