(* ===== verification/Outage.thy ===== *)
theory Outage
  imports Ring_Reader Recovery
begin

text \<open>
  An outage of the GPU seen by all layers: the readers of the ring, which are destroyed and rebuilt
  during it and hand their recovery clock over through the process-wide table (\<^verbatim>\<open>display_vgd.cpp\<close>), the
  capture loop, which defers its own reinitialization (\<^verbatim>\<open>display_base.cpp\<close>), and the encoder's recovery
  gate, which reads the flag the loop publishes.
\<close>

subsection \<open>The table of clocks\<close>

lemma map_of_erase: "k \<noteq> k' \<Longrightarrow> map_of (clock_erase k' t) k = map_of t k"
  by (induction t) (auto simp: clock_erase_def)

lemma map_of_put: "map_of (clock_put k c t) k = Some c"
  by (induction k c t rule: clock_put.induct) auto

lemma map_of_evict: "map_of (evict_clocks k t) k = map_of t k"
proof (induction k t rule: evict_clocks.induct)
  case (1 k t)
  show ?case
  proof (cases "length t > kMaxTrackedRecoveryClocks \<and> oldest_other k t \<noteq> None")
    case True
    then obtain e where e: "oldest_other k t = Some e" by blast
    then have "fst e \<noteq> k" using oldest_other_Some by blast
    with 1 [OF _ e] True e map_of_erase [of k "fst e" t] show ?thesis by (subst evict_clocks.simps) simp
  next
    case False
    then show ?thesis by (subst evict_clocks.simps) (auto split: option.splits)
  qed
qed

lemma load_store: "load_recovery_clock k (store_recovery_clock k (Some c) g) = Some c"
  by (simp add: load_recovery_clock_def store_recovery_clock_def map_of_evict map_of_put)

text \<open>The table stays sorted with distinct keys and holds at most eight clocks.\<close>

definition clocks_ok :: "clock_table \<Rightarrow> bool" where
  "clocks_ok t \<longleftrightarrow> sorted_wrt (<) (map fst t) \<and> length t \<le> kMaxTrackedRecoveryClocks"

lemma sorted_erase: "sorted_wrt (<) (map fst t) \<Longrightarrow> sorted_wrt (<) (map fst (clock_erase k t))"
  unfolding clock_erase_def by (induction t) auto

lemma keys_put: "fst ` set (clock_put k c t) = insert k (fst ` set t)"
  by (induction k c t rule: clock_put.induct) auto

lemma sorted_put: "sorted_wrt (<) (map fst t) \<Longrightarrow> sorted_wrt (<) (map fst (clock_put k c t))"
proof (induction k c t rule: clock_put.induct)
  case (2 k c k' c' t)
  have "\<forall>x \<in> fst ` set (clock_put k c t). k' < x" if "\<not> k \<le> k'"
    unfolding keys_put using that 2(2) by auto
  with 2 show ?case by auto
qed simp

lemma fold_older_None: "fold (older_of k) t init = None \<Longrightarrow> init = None \<and> (\<forall>e \<in> set t. fst e = k)"
proof (induction t arbitrary: init)
  case (Cons a t)
  then have "older_of k a init = None" "\<forall>e \<in> set t. fst e = k" using Cons.IH [of "older_of k a init"] by simp_all
  then show ?case by (auto simp: older_of_def split: if_splits option.splits)
qed simp

lemma oldest_other_None: "oldest_other k t = None \<Longrightarrow> \<forall>e \<in> set t. fst e = k"
  using fold_older_None [of k t None] by (simp add: oldest_other_def)

lemma evict_ok: "sorted_wrt (<) (map fst t) \<Longrightarrow> clocks_ok (evict_clocks k t)"
proof (induction k t rule: evict_clocks.induct)
  case (1 k t)
  show ?case
  proof (cases "length t > kMaxTrackedRecoveryClocks")
    case False
    with 1 show ?thesis by (subst evict_clocks.simps) (simp add: clocks_ok_def)
  next
    case True
    have "oldest_other k t \<noteq> None"
    proof
      assume "oldest_other k t = None"
      then have "set (map fst t) \<subseteq> {k}" using oldest_other_None by fastforce
      then have "card (set (map fst t)) \<le> 1" by (metis card_mono finite.emptyI finite_insert is_singletonI is_singleton_altdef)
      moreover have "distinct (map fst t)" using 1(2) by (simp add: strict_sorted_iff)
      ultimately show False using True distinct_card [of "map fst t"] by (simp add: kMaxTrackedRecoveryClocks_def)
    qed
    with 1 True sorted_erase show ?thesis by (subst evict_clocks.simps) auto
  qed
qed

lemma store_clocks_ok: "clocks_ok (g_recovery_clocks g) \<Longrightarrow> clocks_ok (g_recovery_clocks (store_recovery_clock k c g))"
  using evict_ok sorted_put sorted_erase
  by (auto simp: store_recovery_clock_def clocks_ok_def clock_erase_def split: option.splits
      intro: order_trans [OF length_filter_le])

subsection \<open>Readers come and go\<close>

text \<open>What the readers of one session do during an outage: a capture step, the capture loop's question, or
  the replacement of the reader. The output says whether the host keeps waiting.\<close>

datatype reader_op = Snap snapshot_input | Asked "ring_status option" duration time_point | Reopen init_input

definition reader_step ::
  "vgd_api \<Rightarrow> reader \<times> vgd_globals \<Rightarrow> reader_op \<Rightarrow> (reader \<times> vgd_globals) \<times> bool option" where
  "reader_step api st op = (case op of
     Snap si \<Rightarrow> (case capture_step api st si of (st', out) \<Rightarrow>
       (st', map_option (\<lambda>x. so_result x = CaptureTimeout \<and> so_recovering x = Some True) out))
   | Asked status age now \<Rightarrow> (case is_recovering status age now (fst st) (snd st) of (st', rec) \<Rightarrow> (st', Some rec))
   | Reopen ii \<Rightarrow> (case reader_init api ii (snd st) of
       None \<Rightarrow> (st, None)
     | Some (g, opened) \<Rightarrow> (case opened of None \<Rightarrow> ((fst st, g), Some False) | Some r \<Rightarrow> ((r, g), None))))"

definition alive_status :: "ring_config \<Rightarrow> ring_status option \<Rightarrow> duration \<Rightarrow> bool" where
  "alive_status cfg status age \<longleftrightarrow> (case status of
     None \<Rightarrow> False
   | Some s \<Rightarrow> st_state s = ring_rebuilding \<and> st_latest_sequence s \<noteq> 0 \<and> st_qpc_frequency s \<noteq> 0 \<and>
       st_heartbeat_qpc s \<noteq> 0 \<and> age \<le> heartbeat_stale cfg)"

definition reopens :: "u64 \<Rightarrow> ring_config \<Rightarrow> init_input \<Rightarrow> bool" where
  "reopens session cfg ii \<longleftrightarrow> map_option tg_session_id (ii_target ii) = Some session \<and>
     True \<in> set (take 10 (ii_ring_opens ii)) \<and> \<not> ii_worker ii \<and> ii_display_init ii \<and>
     (ii_cursor_open ii \<longrightarrow> ii_cursor_render ii) \<and> liveness_config (ii_driver_build ii) = cfg"

text \<open>The operations of one outage, from an observation at \<open>seen\<close> on: every observation finds the ring
  rebuilding with a live heartbeat, and readers are replaced within the handoff grace less the second
  by which a stored clock may lag.\<close>

fun outage_ops :: "u64 \<Rightarrow> ring_config \<Rightarrow> time_point \<Rightarrow> reader_op list \<Rightarrow> bool" where
  "outage_ops session cfg seen [] = True"
| "outage_ops session cfg seen (Snap si # ops) =
     (alive_status cfg (si_status si) (si_heartbeat_age si) \<and> outage_ops session cfg (si_now si) ops)"
| "outage_ops session cfg seen (Asked status age now # ops) =
     (alive_status cfg status age \<and> outage_ops session cfg now ops)"
| "outage_ops session cfg seen (Reopen ii # ops) =
     (reopens session cfg ii \<and>
      ii_now ii - seen \<le> recovery_clock_handoff_grace cfg - kRecoveryClockRepublishInterval \<and>
      outage_ops session cfg seen ops)"

fun waits_at :: "duration \<Rightarrow> time_point \<Rightarrow> reader_op \<Rightarrow> bool option" where
  "waits_at budget t0 (Snap si) = Some (si_now si - t0 \<le> budget)"
| "waits_at budget t0 (Asked status age now) = Some (now - t0 \<le> budget)"
| "waits_at budget t0 (Reopen ii) = None"

definition watching :: "u64 \<Rightarrow> ring_config \<Rightarrow> reader \<times> vgd_globals \<Rightarrow> bool" where
  "watching session cfg st \<longleftrightarrow> rr_ring (fst st) \<and> rr_session_id (fst st) = session \<and> rl_config (rr_liveness (fst st)) = cfg \<and>
     g_broken_session (snd st) \<noteq> session \<and> g_pre_admission_session (snd st) \<noteq> session"

definition stored_clock :: "time_point \<Rightarrow> reader \<times> vgd_globals \<Rightarrow> recovery_clock \<Rightarrow> bool" where
  "stored_clock t0 st p \<longleftrightarrow> rr_published_recovery_start (fst st) = Some p \<and> rc_started p = t0 \<and>
     load_recovery_clock (rr_session_id (fst st)) (snd st) = Some p"

definition in_outage :: "u64 \<Rightarrow> ring_config \<Rightarrow> time_point \<Rightarrow> time_point \<Rightarrow> reader \<times> vgd_globals \<Rightarrow> bool" where
  "in_outage session cfg t0 seen st \<longleftrightarrow> watching session cfg st \<and> (\<exists>v. clock_runs cfg t0 v (rr_liveness (fst st))) \<and>
     (\<exists>p. stored_clock t0 st p \<and> seen - rc_last_seen p < kRecoveryClockRepublishInterval)"

definition no_outage :: "u64 \<Rightarrow> ring_config \<Rightarrow> reader \<times> vgd_globals \<Rightarrow> bool" where
  "no_outage session cfg st \<longleftrightarrow> watching session cfg st \<and> rebuilding_since (rr_liveness (fst st)) = None \<and>
     rr_published_recovery_start (fst st) = None"

text \<open>Before an observation at \<open>t\<close>: the outage runs since \<open>t0\<close>, or it starts now.\<close>

definition observing :: "u64 \<Rightarrow> ring_config \<Rightarrow> time_point \<Rightarrow> time_point \<Rightarrow> reader \<times> vgd_globals \<Rightarrow> bool" where
  "observing session cfg t0 t st \<longleftrightarrow> (\<exists>seen. in_outage session cfg t0 seen st) \<or> no_outage session cfg st \<and> t0 = t"

lemma evaluate_alive:
  assumes "rl_config l = cfg" and "rebuilding_since l = Some t0 \<or> rebuilding_since l = None \<and> t0 = t"
    and "trust_rebuilding_heartbeat cfg" and "alive_sample cfg s" and "evaluate l (s, t) = (l', d)"
  shows "clock_runs cfg t0 t l' \<and>
    (if t - t0 \<le> recovery_budget cfg then rd_verdict d = Wait \<and> rd_reason d = Recovering
     else rd_verdict d = Reinit \<and> rd_reason d = RecoveryBudgetExpired)"
proof -
  have nd: "ring_rebuilding \<noteq> ring_dead" by (simp add: ring_state_defs)
  show ?thesis
    using assms nd
    by (auto simp: evaluate_def rebuilding_and_alive_def heartbeat_live_def alive_sample_def
        within_recovery_budget_def decide_def clock_runs_def Let_def)
qed

lemma recovering_alive:
  assumes "rl_config l = cfg" and "rebuilding_since l = Some t0 \<or> rebuilding_since l = None \<and> t0 = t"
    and "trust_rebuilding_heartbeat cfg" and "alive_sample cfg s" and "Ring_Liveness.recovering s t l = (l', rec)"
  shows "clock_runs cfg t0 t l' \<and> (rec \<longleftrightarrow> t - t0 \<le> recovery_budget cfg)"
  using assms
  by (auto simp: recovering_def rebuilding_and_alive_def heartbeat_live_def alive_sample_def
      within_recovery_budget_def clock_runs_def Let_def)

lemma alive_read:
  assumes "alive_status cfg status age"
  obtains s where "read_ring_sample status age edge r = Some s" "alive_sample cfg s" "latest_sequence s \<noteq> 0"
  using assms that by (auto simp: alive_status_def read_ring_sample_def alive_sample_def Let_def split: option.splits)

lemma globals_store [simp]:
  "g_broken_session (store_recovery_clock k c g) = g_broken_session g"
  "g_pre_admission_session (store_recovery_clock k c g) = g_pre_admission_session g"
  by (simp_all add: store_recovery_clock_def)

lemma publish_in_outage:
  assumes "watching session cfg (r, g)" and "clock_runs cfg t0 t (rr_liveness r)"
    and "rr_published_recovery_start r = None \<or> (\<exists>p. stored_clock t0 (r, g) p)"
  shows "in_outage session cfg t0 t (publish_recovery_clock r g)"
proof -
  have clock: "recovery_start (rr_liveness r) = Some \<lparr>rc_started = t0, rc_last_seen = t\<rparr>"
    using assms(2) by (simp add: clock_runs_def recovery_start_def)
  show ?thesis
    using assms load_store [of "rr_session_id r"]
    by (auto simp: publish_recovery_clock_def clock in_outage_def watching_def stored_clock_def
        kRecoveryClockRepublishInterval_def split: option.splits if_splits)
qed

lemma observing_clock:
  assumes "observing session cfg t0 t (r, g)"
  shows "watching session cfg (r, g)"
    "rebuilding_since (rr_liveness r) = Some t0 \<or> rebuilding_since (rr_liveness r) = None \<and> t0 = t"
    "rr_published_recovery_start r = None \<or> (\<exists>p. stored_clock t0 (r, g) p)"
  using assms by (auto simp: observing_def in_outage_def no_outage_def clock_runs_def)

lemma drop_on_reset_outage [simp]:
  "watching session cfg (drop_on_reset e r, g) = watching session cfg (r, g)"
  "rr_published_recovery_start (drop_on_reset e r) = rr_published_recovery_start r"
  "stored_clock t0 (drop_on_reset e r, g) p = stored_clock t0 (r, g) p"
  by (simp_all add: drop_on_reset_def release_shared_allocations_def watching_def stored_clock_def)

lemma with_liveness:
  "watching session cfg (r, g) \<Longrightarrow> rl_config l = cfg \<Longrightarrow> watching session cfg (r\<lparr>rr_liveness := l\<rparr>, g)"
  "stored_clock t0 (r\<lparr>rr_liveness := l\<rparr>, g) p = stored_clock t0 (r, g) p"
  by (simp_all add: watching_def stored_clock_def)

lemma observe_publishes:
  assumes "observing session cfg t0 t (r, g)" and "clock_runs cfg t0 t l"
  shows "in_outage session cfg t0 t (publish_recovery_clock (r\<lparr>rr_liveness := l\<rparr>) g)"
proof (rule publish_in_outage)
  show "watching session cfg (r\<lparr>rr_liveness := l\<rparr>, g)"
    using observing_clock(1) [OF assms(1)] assms(2) by (intro with_liveness) (simp_all add: clock_runs_def)
qed (use assms observing_clock(3) [OF assms(1)] in \<open>simp_all add: with_liveness\<close>)

lemma asked_step:
  assumes "observing session cfg t0 t (r, g)" and "trust_rebuilding_heartbeat cfg" and "alive_status cfg status age"
  shows "snd (reader_step api (r, g) (Asked status age t)) = Some (t - t0 \<le> recovery_budget cfg) \<and>
    in_outage session cfg t0 t (fst (reader_step api (r, g) (Asked status age t)))"
proof -
  note obs = observing_clock [OF assms(1)]
  obtain s where s: "read_ring_sample status age False r = Some s" "alive_sample cfg s" "latest_sequence s \<noteq> 0"
    using alive_read [OF assms(3)] by blast
  obtain l rec where l: "Ring_Liveness.recovering s t (rr_liveness r) = (l, rec)" by (meson surj_pair)
  have "clock_runs cfg t0 t l \<and> (rec \<longleftrightarrow> t - t0 \<le> recovery_budget cfg)"
    using obs(1,2) by (intro recovering_alive [OF _ _ assms(2) s(2) l]) (simp_all add: watching_def)
  with observe_publishes [OF assms(1), of l] obs(1) s l show ?thesis
    by (simp add: reader_step_def is_recovering_def watching_def split_beta)
qed

lemma snap_step:
  assumes "observing session cfg t0 (si_now si) (r, g)" and "trust_rebuilding_heartbeat cfg"
    and "alive_status cfg (si_status si) (si_heartbeat_age si)"
  shows "snd (reader_step api (r, g) (Snap si)) = Some (si_now si - t0 \<le> recovery_budget cfg) \<and>
    (if si_now si - t0 \<le> recovery_budget cfg
     then in_outage session cfg t0 (si_now si) (fst (reader_step api (r, g) (Snap si)))
     else g_broken_session (snd (fst (reader_step api (r, g) (Snap si)))) = session)"
proof -
  define r1 where "r1 = drop_on_reset (si_tdr_event_count si \<noteq> rr_tdr_marks_at_open r) r"
  have obs1: "observing session cfg t0 (si_now si) (r1, g)"
    using assms(1) by (simp add: observing_def in_outage_def no_outage_def r1_def)
  note obs = observing_clock [OF obs1]
  obtain s where s: "read_ring_sample (si_status si) (si_heartbeat_age si) (si_tdr_event_count si \<noteq> rr_tdr_marks_at_open r) r1 = Some s"
    "alive_sample cfg s" "latest_sequence s \<noteq> 0"
    using alive_read [OF assms(3)] by blast
  obtain l d where l: "evaluate (rr_liveness r1) (s, si_now si) = (l, d)" by (meson surj_pair)
  have d: "clock_runs cfg t0 (si_now si) l \<and>
    (if si_now si - t0 \<le> recovery_budget cfg then rd_verdict d = Wait \<and> rd_reason d = Recovering
     else rd_verdict d = Reinit \<and> rd_reason d = RecoveryBudgetExpired)"
    using obs(1,2) by (intro evaluate_alive [OF _ _ assms(2) s(2) l]) (simp_all add: watching_def)
  obtain r2 g2 where p: "publish_recovery_clock (r1\<lparr>rr_liveness := l\<rparr>) g = (r2, g2)" by (meson surj_pair)
  have out: "in_outage session cfg t0 (si_now si) (r2, g2)" using observe_publishes [OF obs1, of l] d p by simp
  have step: "snapshot api si r g = act_on_verdict api si d r2 g2"
    using observing_clock(1) [OF assms(1)] s l p
    by (simp add: snapshot_def Let_def watching_def first_frame_overdue_def flip: r1_def)
  show ?thesis
  proof (cases "si_now si - t0 \<le> recovery_budget cfg")
    case True
    with d out step show ?thesis by (simp add: reader_step_def capture_step_def act_on_verdict_def)
  next
    case False
    have "g_broken_session (snd (publish_recovery_clock (r2\<lparr>rr_liveness := reset_recovery_clock (rr_liveness r2)\<rparr>)
        (g2\<lparr>g_broken_session := rr_session_id r2\<rparr>))) = session"
      using out by (simp add: publish_recovery_clock_def in_outage_def watching_def split: option.splits)
    with False d step show ?thesis
      by (simp add: reader_step_def capture_step_def act_on_verdict_def Let_def split_beta)
  qed
qed

lemma reopen_step:
  assumes "in_outage session cfg t0 seen (r, g)" and "reopens session cfg ii"
    and "ii_now ii - seen \<le> recovery_clock_handoff_grace cfg - kRecoveryClockRepublishInterval"
  shows "snd (reader_step api (r, g) (Reopen ii)) = None \<and> in_outage session cfg t0 seen (fst (reader_step api (r, g) (Reopen ii)))"
proof -
  obtain t where t: "ii_target ii = Some t" "tg_session_id t = session" using assms(2) by (auto simp: reopens_def)
  obtain p where p: "stored_clock t0 (r, g) p" "seen - rc_last_seen p < kRecoveryClockRepublishInterval"
    using assms(1) by (auto simp: in_outage_def)
  have w: "watching session cfg (r, g)" using assms(1) by (simp add: in_outage_def)
  then have admitted: "admit_session session (ii_requalified ii) g = (g, True)"
    by (simp add: admit_session_def watching_def)
  have load: "load_recovery_clock session g = Some p" "rc_started p = t0"
    using p w by (auto simp: stored_clock_def watching_def)
  have "ii_now ii - rc_last_seen p \<le> recovery_clock_handoff_grace cfg" using assms(3) p(2) by linarith
  moreover have "liveness_config (ii_driver_build ii) = cfg" using assms(2) by (simp add: reopens_def)
  ultimately have opened: "in_outage session cfg t0 seen (open_reader api ii t g, g)"
    using w p(2) load t(2)
    by (auto simp: in_outage_def watching_def clock_runs_def stored_clock_def open_reader_def adopt_recovery_start_def
        ring_init_def Let_def)
  have "reader_init api ii g = Some (g, Some (open_reader api ii t g))"
    using assms(2) t admitted by (simp add: reader_init_def reopens_def Let_def)
  with opened show ?thesis by (simp add: reader_step_def)
qed

fun op_time :: "reader_op \<Rightarrow> time_point" where
  "op_time (Snap si) = si_now si"
| "op_time (Asked status age now) = now"
| "op_time (Reopen ii) = ii_now ii"

abbreviation outcome :: "vgd_api \<Rightarrow> u64 \<Rightarrow> ring_config \<Rightarrow> time_point \<Rightarrow> reader \<times> vgd_globals \<Rightarrow> reader_op \<Rightarrow> reader_op list \<Rightarrow> bool" where
  "outcome api session cfg t0 st op ops \<equiv>
     snd (reader_step api st op) = waits_at (recovery_budget cfg) t0 op \<and>
     (waits_at (recovery_budget cfg) t0 op \<noteq> Some False \<longrightarrow>
        (\<exists>seen. in_outage session cfg t0 seen (fst (reader_step api st op)) \<and> outage_ops session cfg seen ops)) \<and>
     (\<forall>si. op = Snap si \<and> waits_at (recovery_budget cfg) t0 op = Some False \<longrightarrow>
        g_broken_session (snd (fst (reader_step api st op))) = session)"

lemma observation_outcome:
  assumes "observing session cfg t0 (op_time op) st" and "trust_rebuilding_heartbeat cfg"
    and "outage_ops session cfg seen (op # ops)" and "waits_at (recovery_budget cfg) t0 op \<noteq> None"
  shows "outcome api session cfg t0 st op ops"
proof (cases op)
  case (Snap si)
  with assms snap_step [of session cfg t0 si "fst st" "snd st" api] show ?thesis by auto
next
  case (Asked status age now)
  with assms asked_step [of session cfg t0 now "fst st" "snd st" status age api] show ?thesis by auto
next
  case (Reopen ii)
  with assms(4) show ?thesis by simp
qed

lemma outage_outcome:
  assumes "in_outage session cfg t0 seen st" and "trust_rebuilding_heartbeat cfg" and "outage_ops session cfg seen (op # ops)"
  shows "outcome api session cfg t0 st op ops"
proof (cases "waits_at (recovery_budget cfg) t0 op = None")
  case False
  moreover have "observing session cfg t0 (op_time op) st" using assms(1) by (auto simp: observing_def)
  ultimately show ?thesis using assms(2,3) observation_outcome by blast
next
  case True
  then obtain ii where "op = Reopen ii" by (cases op) auto
  with assms reopen_step [of session cfg t0 seen "fst st" "snd st" ii api] show ?thesis by auto
qed

lemma outage_steps:
  assumes "trust_rebuilding_heartbeat cfg" and "in_outage session cfg t0 seen st" and "outage_ops session cfg seen ops"
    and "\<forall>op \<in> set (butlast ops). waits_at (recovery_budget cfg) t0 op \<noteq> Some False"
  shows "machine_outputs (reader_step api) st ops = map (waits_at (recovery_budget cfg) t0) ops \<and>
    (\<forall>si. ops \<noteq> [] \<and> last ops = Snap si \<and> waits_at (recovery_budget cfg) t0 (last ops) = Some False \<longrightarrow>
       g_broken_session (snd (machine_state (reader_step api) st ops)) = session)"
  using assms(2-)
proof (induction ops arbitrary: seen st)
  case (Cons op ops)
  have step: "outcome api session cfg t0 st op ops" by (rule outage_outcome [OF Cons.prems(1) assms(1) Cons.prems(2)])
  show ?case
  proof (cases "ops = []")
    case True
    with step show ?thesis by auto
  next
    case False
    then have "waits_at (recovery_budget cfg) t0 op \<noteq> Some False"
      and rest: "\<forall>op \<in> set (butlast ops). waits_at (recovery_budget cfg) t0 op \<noteq> Some False"
      using Cons.prems(3) by auto
    with step obtain seen' where "in_outage session cfg t0 seen' (fst (reader_step api st op))"
      "outage_ops session cfg seen' ops" by blast
    from Cons.IH [OF this rest] False step show ?thesis by simp
  qed
qed simp

lemma broken_session_refused:
  assumes "g_broken_session g = session" and "map_option tg_session_id (ii_target ii) = Some session"
  shows "reader_init api ii g = Some (g, None)"
  using assms by (auto simp: reader_init_def admit_session_def Let_def)

text \<open>
  C13. One outage has one recovery budget, through the code that implements it. Take a driver that rides
  out outages, a reader that is watching the ring in the host process, and the first observation of a
  rebuilding ring with a live heartbeat. Over every sequence of capture steps and questions of the capture
  loop that all find the ring so, and of readers that are replaced in the host process, with success and at
  most 29 seconds after the last observation, handing the clock on through the process-wide table: the host
  waits at every observation within the budget of the first one and stops at the first observation
  beyond it. A capture step beyond it latches the session, and every attempt to open a reader for the
  session is refused for as long as the latch names it (another session's latch replaces it).
\<close>

theorem outage_survives_readers:
  assumes "trust_rebuilding_heartbeat cfg" and "no_outage session cfg st" and "0 \<le> recovery_budget cfg"
    and "outage_ops session cfg t0 (op # ops)" and "waits_at 0 t0 op = Some True" and "op_time op = t0"
    and "\<forall>x \<in> set (butlast (op # ops)). waits_at (recovery_budget cfg) t0 x \<noteq> Some False"
  shows "machine_outputs (reader_step api) st (op # ops) = map (waits_at (recovery_budget cfg) t0) (op # ops) \<and>
    (\<forall>si. last (op # ops) = Snap si \<and> si_now si - t0 > recovery_budget cfg \<longrightarrow>
       g_broken_session (snd (machine_state (reader_step api) st (op # ops))) = session \<and>
       (\<forall>g ii. g_broken_session g = session \<and> map_option tg_session_id (ii_target ii) = Some session \<longrightarrow>
          reader_init api ii g = Some (g, None)))"
proof -
  have now: "waits_at (recovery_budget cfg) t0 op = Some True"
    using assms(3,5,6) by (cases op) auto
  moreover have "observing session cfg t0 (op_time op) st" using assms(2,6) by (simp add: observing_def)
  ultimately have first: "outcome api session cfg t0 st op ops"
    by (intro observation_outcome [OF _ assms(1,4)]) simp_all
  with now obtain seen where seen: "in_outage session cfg t0 seen (fst (reader_step api st op))" "outage_ops session cfg seen ops"
    by auto
  have "\<forall>x \<in> set (butlast ops). waits_at (recovery_budget cfg) t0 x \<noteq> Some False"
    using assms(7) by (cases "ops = []") auto
  note rest = outage_steps [OF assms(1) seen this, of api]
  have "g_broken_session (snd (machine_state (reader_step api) st (op # ops))) = session"
    if si: "last (op # ops) = Snap si" "si_now si - t0 > recovery_budget cfg" for si
  proof -
    have "ops \<noteq> []" using si now by auto
    with rest si show ?thesis by simp
  qed
  moreover have "machine_outputs (reader_step api) st (op # ops) = map (waits_at (recovery_budget cfg) t0) (op # ops)"
    using first rest by simp
  ultimately show ?thesis using broken_session_refused by blast
qed

definition recovering_status :: ring_status where
  "recovering_status = demo_status\<lparr>st_state := ring_rebuilding, st_heartbeat_qpc := 1, st_qpc_frequency := 1\<rparr>"

theorem outage_survives_readers_witness:
  "machine_outputs (reader_step demo_api) (open_reader demo_api demo_init demo_target demo_globals, demo_globals)
     [Asked (Some recovering_status) 0 0, Reopen (demo_init\<lparr>ii_now := 20000000000\<rparr>),
      Snap (demo_input recovering_status 0 21000000000), Snap (demo_input recovering_status 0 700000000000)]
   = [Some True, None, Some True, Some False]"
proof -
  let ?cfg = "liveness_config (Some 17)"
  have cfg: "trust_rebuilding_heartbeat ?cfg" "recovery_budget ?cfg = 660000000000"
    "recovery_clock_handoff_grace ?cfg = 30000000000" "heartbeat_stale ?cfg = 2000000000"
    by (simp_all add: liveness_config_def default_ring_config_def kFirstDuckInPlaceDriverBuild_def)
  have start: "no_outage 5 ?cfg (open_reader demo_api demo_init demo_target demo_globals, demo_globals)"
    by (simp add: no_outage_def watching_def open_reader_def demo_init_def demo_target_def demo_globals_def
        load_recovery_clock_def adopt_recovery_start_def ring_init_def)
  have ops: "outage_ops 5 ?cfg 0 [Asked (Some recovering_status) 0 0, Reopen (demo_init\<lparr>ii_now := 20000000000\<rparr>),
      Snap (demo_input recovering_status 0 21000000000), Snap (demo_input recovering_status 0 700000000000)]"
    by (simp add: alive_status_def reopens_def recovering_status_def demo_status_def demo_init_def demo_target_def
        demo_input_def cfg kRecoveryClockRepublishInterval_def)
  show ?thesis
    using outage_survives_readers [OF cfg(1) start _ ops, of demo_api] by (simp add: cfg demo_input_def)
qed

subsection \<open>The capture loop and the encoder's gate\<close>

text \<open>The branch of the capture loop for a stale factory. The flag is what encoder threads read.\<close>

definition kMaxRecoveryDeferral :: duration where "kMaxRecoveryDeferral = 15 * 60 * 1000000000"
definition kRecoveryProgressLogInterval :: duration where "kRecoveryProgressLogInterval = 15 * 1000000000"

record capture_loop =
  cap_recovering :: bool
  recovery_deferral_started :: "time_point option"
  recovery_deferral_logged :: "time_point option"
  cap_circuit :: gpu_circuit

datatype loop_exit = GoOn | ReinitStale | ReinitCeiling | StopOk

definition stale_factory :: "bool \<Rightarrow> time_point \<Rightarrow> bool \<Rightarrow> capture_loop \<Rightarrow> capture_loop \<times> loop_exit" where
  "stale_factory source_recovering now push_ok c =
     (let c1 = c\<lparr>cap_recovering := source_recovering\<rparr>;
          none = (\<lambda>c. c\<lparr>recovery_deferral_started := None, recovery_deferral_logged := None\<rparr>);
          serve = (\<lambda>c. (c, if push_ok then GoOn else StopOk))
      in if \<not> source_recovering then (none c1, ReinitStale)
         else (case recovery_deferral_started c1 of
                 None \<Rightarrow> serve (c1\<lparr>recovery_deferral_started := Some now, recovery_deferral_logged := Some now,
                                   cap_circuit := fst (open_d3d11_circuit (cap_circuit c1))\<rparr>)
               | Some started \<Rightarrow>
                   if now - started > kMaxRecoveryDeferral
                   then (none (c1\<lparr>cap_recovering := False\<rparr>), ReinitCeiling)
                   else if now - the (recovery_deferral_logged c1) \<ge> kRecoveryProgressLogInterval
                   then serve (c1\<lparr>recovery_deferral_logged := Some now\<rparr>)
                   else serve c1))"

text \<open>All layers together: one round of the capture loop over a stale factory, or one poll of an encoder
  thread that waits.\<close>

record layers =
  ly_reader :: "reader \<times> vgd_globals"
  ly_loop :: capture_loop
  ly_gate :: recovery_gate

datatype layer_event = Tick "ring_status option" duration time_point bool | Poll time_point

datatype layer_output = Loop loop_exit | Gate encoder_recovery_action

definition layer_step :: "layers \<Rightarrow> layer_event \<Rightarrow> layers \<times> layer_output" where
  "layer_step s ev = (case ev of
     Tick status age now push_ok \<Rightarrow>
       (case is_recovering status age now (fst (ly_reader s)) (snd (ly_reader s)) of (st, rec) \<Rightarrow>
          (case stale_factory rec now push_ok (ly_loop s) of (c, res) \<Rightarrow>
             (s\<lparr>ly_reader := st, ly_loop := c\<rparr>, Loop res)))
   | Poll now \<Rightarrow>
       (case gate_evaluate (ly_gate s) (cap_recovering (ly_loop s), now) of (gate, action) \<Rightarrow>
          (s\<lparr>ly_gate := gate\<rparr>, Gate action)))"

text \<open>An outage as the layers see it: observations of a rebuilding ring with a live heartbeat within the
  budget, and polls at most four minutes after the capture loop's last round.\<close>

definition max_round :: duration where "max_round = 4 * 60 * 1000000000"

fun layer_outage :: "ring_config \<Rightarrow> time_point \<Rightarrow> time_point \<Rightarrow> time_point \<Rightarrow> layer_event list \<Rightarrow> bool" where
  "layer_outage cfg t0 seen now [] = True"
| "layer_outage cfg t0 seen now (Tick status age t push_ok # evs) =
     (now \<le> t \<and> alive_status cfg status age \<and> push_ok \<and> t - t0 \<le> recovery_budget cfg \<and> layer_outage cfg t0 t t evs)"
| "layer_outage cfg t0 seen now (Poll t # evs) =
     (now \<le> t \<and> t - seen \<le> max_round \<and> layer_outage cfg t0 seen t evs)"

definition holding_on :: "layer_event \<Rightarrow> layer_output" where
  "holding_on ev = (case ev of Tick _ _ _ _ \<Rightarrow> Loop GoOn | Poll _ \<Rightarrow> Gate Hold)"

text \<open>The gate has held only since the outage began.\<close>

definition gate_in_outage :: "time_point \<Rightarrow> time_point \<Rightarrow> recovery_gate \<Rightarrow> bool" where
  "gate_in_outage t0 now g \<longleftrightarrow> gate_hold_ceiling g = default_hold_ceiling \<and>
     (case gate_last_observation g of
        None \<Rightarrow> gate_held g = 0
      | Some u \<Rightarrow> u \<le> now \<and> gate_held g \<le> u - t0)"

definition layers_in_outage :: "u64 \<Rightarrow> ring_config \<Rightarrow> time_point \<Rightarrow> time_point \<Rightarrow> time_point \<Rightarrow> layers \<Rightarrow> bool" where
  "layers_in_outage session cfg t0 seen now s \<longleftrightarrow> in_outage session cfg t0 seen (ly_reader s) \<and>
     cap_recovering (ly_loop s) \<and> recovery_deferral_started (ly_loop s) = Some t0 \<and>
     gate_in_outage t0 now (ly_gate s) \<and> t0 \<le> now \<and> seen - t0 \<le> recovery_budget cfg"

lemma gate_polls:
  assumes "gate_in_outage t0 now g" and "now \<le> t" and "t0 \<le> now" and "t - t0 \<le> default_hold_ceiling"
  shows "snd (gate_evaluate g (True, t)) = Hold \<and> gate_in_outage t0 t (fst (gate_evaluate g (True, t)))"
  using assms by (auto simp: gate_in_outage_def gate_evaluate_def Let_def split: option.splits)

lemma asked_is_recovering:
  assumes "observing session cfg t0 t st" and "trust_rebuilding_heartbeat cfg" and "alive_status cfg status age"
  shows "snd (is_recovering status age t (fst st) (snd st)) \<longleftrightarrow> t - t0 \<le> recovery_budget cfg"
    "in_outage session cfg t0 t (fst (is_recovering status age t (fst st) (snd st)))"
  using asked_step [of session cfg t0 t "fst st" "snd st" status age] assms
  by (simp_all add: reader_step_def split_beta)

lemma layer_outage_step:
  assumes "layers_in_outage session cfg t0 seen now s" and "trust_rebuilding_heartbeat cfg"
    and "recovery_budget cfg \<le> 11 * 60 * 1000000000" and "layer_outage cfg t0 seen now (ev # evs)"
  shows "snd (layer_step s ev) = holding_on ev \<and>
    (\<exists>seen' now'. layers_in_outage session cfg t0 seen' now' (fst (layer_step s ev)) \<and> layer_outage cfg t0 seen' now' evs)"
proof (cases ev)
  case (Tick status age t push_ok)
  with assms(4) have ev: "now \<le> t" "alive_status cfg status age" "push_ok" "t - t0 \<le> recovery_budget cfg"
    "layer_outage cfg t0 t t evs" by simp_all
  have "observing session cfg t0 t (ly_reader s)" using assms(1) by (auto simp: layers_in_outage_def observing_def)
  note asked = asked_is_recovering [OF this assms(2) ev(2)]
  have "gate_in_outage t0 t (ly_gate s)"
    using assms(1) ev(1) by (auto simp: layers_in_outage_def gate_in_outage_def split: option.splits)
  with asked ev assms(1,3) Tick have "layers_in_outage session cfg t0 t t (fst (layer_step s ev))"
    "snd (layer_step s ev) = Loop GoOn"
    by (auto simp: layer_step_def split_beta stale_factory_def layers_in_outage_def kMaxRecoveryDeferral_def Let_def)
  with ev(5) Tick show ?thesis by (auto simp: holding_on_def)
next
  case (Poll t)
  with assms(4) have ev: "now \<le> t" "t - seen \<le> max_round" "layer_outage cfg t0 seen t evs" by simp_all
  have "t - t0 \<le> default_hold_ceiling"
    using assms(1,3) ev by (simp add: layers_in_outage_def max_round_def default_hold_ceiling_def)
  with assms(1) ev gate_polls [of t0 now "ly_gate s" t] Poll
  have "layers_in_outage session cfg t0 seen t (fst (layer_step s ev))" "snd (layer_step s ev) = Gate Hold"
    by (auto simp: layer_step_def split_beta layers_in_outage_def)
  with ev(3) Poll show ?thesis by (auto simp: holding_on_def)
qed

lemma layer_outage_run:
  assumes "trust_rebuilding_heartbeat cfg" and "recovery_budget cfg \<le> 11 * 60 * 1000000000"
    and "layers_in_outage session cfg t0 seen now s" and "layer_outage cfg t0 seen now evs"
  shows "machine_outputs layer_step s evs = map holding_on evs \<and>
    (\<exists>seen' now'. layers_in_outage session cfg t0 seen' now' (machine_state layer_step s evs))"
  using assms(3,4)
proof (induction evs arbitrary: seen now s)
  case (Cons ev evs)
  from layer_outage_step [OF Cons.prems(1) assms(1,2) Cons.prems(2)] Cons.IH show ?case by fastforce
qed auto

lemma liveness_config_budget:
  assumes "kFirstDuckInPlaceDriverBuild \<le> build"
  shows "trust_rebuilding_heartbeat (liveness_config (Some build))"
    "0 \<le> recovery_budget (liveness_config (Some build))"
    "recovery_budget (liveness_config (Some build)) \<le> 11 * 60 * 1000000000"
  using assms by (simp_all add: liveness_config_def default_ring_config_def Let_def)

text \<open>
  C12. The layers give up from the inside out, as long as the capture loop keeps going round. With a driver that
  rides out outages (build 16 or later), a loop that was not deferring and a gate that just saw progress,
  from the first round of the capture loop that finds the factory stale and the ring recovering, over every
  interleaving of further such rounds and an encoder thread's polls, none later than four minutes after the
  loop's last round: while the ring is within its recovery budget the loop keeps deferring and the encoder
  keeps holding; the first round beyond the budget ends it by the ring's own verdict, clearing the flag. So
  neither the loop's ceiling of fifteen minutes nor the gate's of sixteen ends the wait. (A capture loop that
  stalls for longer is what the gate's ceiling is for.)
\<close>

theorem layers_give_up_inside_out:
  fixes build and s :: layers
  defines "cfg \<equiv> liveness_config (Some build)"
  assumes "kFirstDuckInPlaceDriverBuild \<le> build" and "no_outage session cfg (ly_reader s)"
    and "recovery_deferral_started (ly_loop s) = None" and "ly_gate s = note_progress (gate_init default_hold_ceiling)"
    and "alive_status cfg status age" and "layer_outage cfg t0 t0 t0 evs"
  shows "machine_outputs layer_step s (Tick status age t0 True # evs) = map holding_on (Tick status age t0 True # evs) \<and>
    (\<forall>status' age' t push_ok. alive_status cfg status' age' \<and> t - t0 > recovery_budget cfg \<longrightarrow>
       (let (s', result) = layer_step (machine_state layer_step s (Tick status age t0 True # evs)) (Tick status' age' t push_ok)
        in result = Loop ReinitStale \<and> \<not> cap_recovering (ly_loop s')))"
proof -
  note cfg = liveness_config_budget [OF assms(2), folded cfg_def]
  have "observing session cfg t0 t0 (ly_reader s)" using assms(3) by (simp add: observing_def)
  note asked = asked_is_recovering [OF this cfg(1) assms(6)]
  let ?s1 = "fst (layer_step s (Tick status age t0 True))"
  have gate: "gate_in_outage t0 t0 (ly_gate s)"
    using assms(5) by (simp add: gate_in_outage_def note_progress_def gate_init_def)
  have first: "snd (layer_step s (Tick status age t0 True)) = Loop GoOn" "layers_in_outage session cfg t0 t0 t0 ?s1"
    using asked cfg(2) assms(4) gate
    by (simp_all add: layer_step_def split_beta stale_factory_def layers_in_outage_def Let_def)
  note rest = layer_outage_run [OF cfg(1,3) first(2) assms(7)]
  have "machine_outputs layer_step s (Tick status age t0 True # evs) = map holding_on (Tick status age t0 True # evs)"
    using first(1) rest by (simp add: holding_on_def)
  moreover have "snd (layer_step (machine_state layer_step ?s1 evs) (Tick status' age' t push_ok)) = Loop ReinitStale \<and>
      \<not> cap_recovering (ly_loop (fst (layer_step (machine_state layer_step ?s1 evs) (Tick status' age' t push_ok))))"
    if late: "alive_status cfg status' age'" "t - t0 > recovery_budget cfg" for status' age' t push_ok
  proof -
    have "observing session cfg t0 t (ly_reader (machine_state layer_step ?s1 evs))"
      using rest by (auto simp: layers_in_outage_def observing_def)
    from asked_is_recovering(1) [OF this cfg(1) late(1)] late(2)
    show ?thesis by (simp add: layer_step_def split_beta stale_factory_def Let_def)
  qed
  ultimately show ?thesis by (simp add: split_beta Let_def)
qed

theorem layers_give_up_inside_out_witness:
  "machine_outputs layer_step
     \<lparr>ly_reader = (open_reader demo_api demo_init demo_target demo_globals, demo_globals),
      ly_loop = \<lparr>cap_recovering = False, recovery_deferral_started = None, recovery_deferral_logged = None,
        cap_circuit = \<lparr>force_d3d11 = False, abort_generation = 0\<rparr>\<rparr>,
      ly_gate = note_progress (gate_init default_hold_ceiling)\<rparr>
     [Tick (Some recovering_status) 0 0 True, Poll 1000, Tick (Some recovering_status) 0 600000000000 True,
      Poll 800000000000] = [Loop GoOn, Gate Hold, Loop GoOn, Gate Hold]"
proof -
  let ?s = "\<lparr>ly_reader = (open_reader demo_api demo_init demo_target demo_globals, demo_globals),
      ly_loop = \<lparr>cap_recovering = False, recovery_deferral_started = None, recovery_deferral_logged = None,
        cap_circuit = \<lparr>force_d3d11 = False, abort_generation = 0\<rparr>\<rparr>,
      ly_gate = note_progress (gate_init default_hold_ceiling)\<rparr>"
  let ?cfg = "liveness_config (Some 17)"
  have build: "kFirstDuckInPlaceDriverBuild \<le> 17" by (simp add: kFirstDuckInPlaceDriverBuild_def)
  have cfg: "recovery_budget ?cfg = 660000000000" "heartbeat_stale ?cfg = 2000000000"
    by (simp_all add: liveness_config_def default_ring_config_def kFirstDuckInPlaceDriverBuild_def)
  have start: "no_outage 5 ?cfg (ly_reader ?s)"
    by (simp add: no_outage_def watching_def open_reader_def demo_init_def demo_target_def demo_globals_def
        load_recovery_clock_def adopt_recovery_start_def ring_init_def)
  have alive: "alive_status ?cfg (Some recovering_status) 0"
    by (simp add: alive_status_def recovering_status_def demo_status_def cfg)
  show ?thesis
    using layers_give_up_inside_out [OF build start, of "Some recovering_status" 0 0
        "[Poll 1000, Tick (Some recovering_status) 0 600000000000 True, Poll 800000000000]"] alive
    by (simp add: cfg max_round_def holding_on_def)
qed

end
