(* ===== verification/Tdr_State.thy ===== *)
theory Tdr_State
  imports Prelude
begin

text \<open>
  The process-wide tracker of GPU resets and display-stack failures (\<^verbatim>\<open>src/tdr_state.cpp\<close>): events
  folded into incidents, the rate-limited log line and tray toast, and the latch that refuses
  sessions while the display stack is down and discovers its recovery through a platform probe.

  The steady clock is in nanoseconds and the system clock is a second time stamp of each call.
  The observer hook and the recheck probe are installed or not; the answer of the probe (\<open>None\<close> when
  it throws) is an input of the call that may run it, and what a call makes visible (log line, toast,
  hook, probe, result) is its output. Operations are atomic: a concurrent execution is a sequence of
  operations. A thread that loses the race for the recheck slot answers "down" without probing, as
  a thread does that comes within the interval of the winner's recheck.
\<close>

datatype tdr_source = encoder_d3d11 | dd_test_d3d11 | virtual_display_enumerate
  | query_display_config | encoder_stall | display_stack_down

definition source_label :: "tdr_source \<Rightarrow> string" where
  "source_label source = (case source of
     encoder_d3d11 \<Rightarrow> ''encoder D3D11''
   | dd_test_d3d11 \<Rightarrow> ''Desktop Duplication D3D11''
   | virtual_display_enumerate \<Rightarrow> ''virtual display enumerate''
   | query_display_config \<Rightarrow> ''QueryDisplayConfig''
   | encoder_stall \<Rightarrow> ''encoder stall''
   | display_stack_down \<Rightarrow> ''display stack down'')"

record tdr_event =
  ev_at :: time_point
  ev_source :: tdr_source
  ev_hresult :: int
  ev_detail :: string

record incident =
  inc_started_at :: time_point
  inc_last_at :: time_point
  inc_events :: u64
  inc_first_source :: tdr_source
  inc_last_source :: tdr_source
  inc_hresult :: int
  inc_detail :: string
  inc_terminal :: bool

record tdr_state =
  g_last :: "tdr_event option"
  g_count :: u64
  g_last_log_at :: time_point
  g_last_notify_at :: time_point
  g_incident :: "incident option"
  g_incident_last_steady :: time_point
  g_incident_count :: u64
  g_stack_down :: bool
  g_event_hook :: bool
  g_stack_recheck :: bool
  g_last_recheck_ms :: int

definition tdr_init :: tdr_state where
  "tdr_init = \<lparr>g_last = None, g_count = 0, g_last_log_at = 0, g_last_notify_at = 0, g_incident = None,
     g_incident_last_steady = 0, g_incident_count = 0, g_stack_down = False, g_event_hook = False,
     g_stack_recheck = False, g_last_recheck_ms = 0\<rparr>"

definition kIncidentWindow :: duration where "kIncidentWindow = 5 * 60 * 1000000000"
definition kLogCooldown :: duration where "kLogCooldown = 30 * 1000000000"
definition kNotifyCooldown :: duration where "kNotifyCooldown = 2 * 60 * 1000000000"
definition kStackRecheckEvery :: duration where "kStackRecheckEvery = 5 * 1000000000"

text \<open>What one call makes visible.\<close>

record tdr_output =
  logged :: "(tdr_source \<times> int \<times> string) option"
  toasted :: "string option"
  hooked :: "tdr_source option"
  announced_down :: bool
  probed :: bool
  announced_recovery :: bool
  refused :: bool

definition silent :: tdr_output where
  "silent = \<lparr>logged = None, toasted = None, hooked = None, announced_down = False, probed = False,
     announced_recovery = False, refused = False\<rparr>"

definition toast_body :: "tdr_source \<Rightarrow> string" where
  "toast_body source = ''GPU TDR detected ('' @ source_label source @
     ''). The active stream was ended; the display stack is recovering.''"

definition fresh_incident :: "time_point \<Rightarrow> tdr_source \<Rightarrow> incident" where
  "fresh_incident now_system source = \<lparr>inc_started_at = now_system, inc_last_at = 0, inc_events = 0,
     inc_first_source = source, inc_last_source = source, inc_hresult = 0, inc_detail = '''',
     inc_terminal = False\<rparr>"

definition fold_event :: "time_point \<Rightarrow> tdr_source \<Rightarrow> int \<Rightarrow> string \<Rightarrow> incident \<Rightarrow> incident" where
  "fold_event now_system source hresult detail i =
     i\<lparr>inc_last_at := now_system, inc_last_source := source, inc_hresult := hresult, inc_detail := detail,
       inc_events := inc_events i + 1,
       inc_terminal := (if source = display_stack_down then True else inc_terminal i)\<rparr>"

definition incident_open :: "tdr_state \<Rightarrow> time_point \<Rightarrow> bool" where
  "incident_open s now_steady =
     (g_incident s \<noteq> None \<and> g_incident_last_steady s \<noteq> 0 \<and>
      now_steady - g_incident_last_steady s < kIncidentWindow)"

definition due :: "time_point \<Rightarrow> time_point \<Rightarrow> duration \<Rightarrow> bool" where
  "due last_at now_steady interval = (last_at = 0 \<or> now_steady - last_at \<ge> interval)"

definition mark_event ::
  "time_point \<times> time_point \<Rightarrow> tdr_source \<Rightarrow> int \<Rightarrow> string \<Rightarrow> tdr_state \<Rightarrow> tdr_state \<times> tdr_output" where
  "mark_event now source hresult detail s =
     (let now_steady = fst now; now_system = snd now;
          fold = incident_open s now_steady;
          current = (if fold then the (g_incident s) else fresh_incident now_system source);
          should_log = due (g_last_log_at s) now_steady kLogCooldown;
          should_notify = due (g_last_notify_at s) now_steady kNotifyCooldown
      in (s\<lparr>g_last := Some \<lparr>ev_at = now_system, ev_source = source, ev_hresult = hresult, ev_detail = detail\<rparr>,
            g_count := g_count s + 1,
            g_incident := Some (fold_event now_system source hresult detail current),
            g_incident_count := (if fold then g_incident_count s else g_incident_count s + 1),
            g_incident_last_steady := now_steady,
            g_last_log_at := (if should_log then now_steady else g_last_log_at s),
            g_last_notify_at := (if should_notify then now_steady else g_last_notify_at s)\<rparr>,
          silent\<lparr>logged := (if should_log then Some (source, hresult, detail) else None),
            toasted := (if should_notify then Some (toast_body source) else None),
            hooked := (if g_event_hook s then Some source else None)\<rparr>))"

definition recovery_recent :: "tdr_state \<Rightarrow> time_point \<Rightarrow> duration \<Rightarrow> bool" where
  "recovery_recent s now_system within =
     (case g_last s of None \<Rightarrow> False | Some e \<Rightarrow> now_system - ev_at e \<le> within)"

definition mark_stack_down ::
  "time_point \<times> time_point \<Rightarrow> int \<Rightarrow> string \<Rightarrow> tdr_state \<Rightarrow> tdr_state \<times> tdr_output" where
  "mark_stack_down now hresult detail s =
     (let first = \<not> g_stack_down s
      in case mark_event now display_stack_down hresult detail (s\<lparr>g_stack_down := True\<rparr>) of
           (s', out) \<Rightarrow> (s', out\<lparr>announced_down := first\<rparr>))"

definition note_stack_healthy :: "tdr_state \<Rightarrow> tdr_state \<times> tdr_output" where
  "note_stack_healthy s =
     (if \<not> g_stack_down s then (s\<lparr>g_stack_down := False\<rparr>, silent)
      else (s\<lparr>g_stack_down := False,
              g_incident_last_steady := (if g_incident s \<noteq> None then 0 else g_incident_last_steady s)\<rparr>,
            silent\<lparr>announced_recovery := True\<rparr>))"

definition to_ms :: "time_point \<Rightarrow> int" where
  "to_ms t = t div 1000000"

definition stack_down :: "time_point \<Rightarrow> bool option \<Rightarrow> tdr_state \<Rightarrow> tdr_state \<times> tdr_output" where
  "stack_down now_steady probe s =
     (if \<not> g_stack_down s then (s, silent)
      else if \<not> g_stack_recheck s then (s, silent\<lparr>refused := True\<rparr>)
      else if to_ms now_steady - g_last_recheck_ms s < to_ms kStackRecheckEvery
      then (s, silent\<lparr>refused := True\<rparr>)
      else let s' = s\<lparr>g_last_recheck_ms := to_ms now_steady\<rparr>; healthy = (probe = Some True)
           in if healthy
              then case note_stack_healthy s' of (s'', out) \<Rightarrow> (s'', out\<lparr>probed := True\<rparr>)
              else (s', silent\<lparr>probed := True, refused := True\<rparr>))"

definition set_event_hook :: "bool \<Rightarrow> tdr_state \<Rightarrow> tdr_state" where
  "set_event_hook installed s = s\<lparr>g_event_hook := installed\<rparr>"

definition set_stack_recheck :: "bool \<Rightarrow> tdr_state \<Rightarrow> tdr_state" where
  "set_stack_recheck installed s = s\<lparr>g_stack_recheck := installed\<rparr>"

text \<open>The operations other threads call, in any order, each at its time.\<close>

datatype tdr_op = MarkEvent tdr_source int string | MarkStackDown int string
  | StackDown "bool option" | NoteStackHealthy | SetEventHook bool | SetStackRecheck bool

type_synonym tdr_input = "(time_point \<times> time_point) \<times> tdr_op"

definition tdr_step :: "tdr_state \<Rightarrow> tdr_input \<Rightarrow> tdr_state \<times> tdr_output" where
  "tdr_step s i = (case snd i of
     MarkEvent source hresult detail \<Rightarrow> mark_event (fst i) source hresult detail s
   | MarkStackDown hresult detail \<Rightarrow> mark_stack_down (fst i) hresult detail s
   | StackDown probe \<Rightarrow> stack_down (fst (fst i)) probe s
   | NoteStackHealthy \<Rightarrow> note_stack_healthy s
   | SetEventHook installed \<Rightarrow> (set_event_hook installed s, silent)
   | SetStackRecheck installed \<Rightarrow> (set_stack_recheck installed s, silent))"

abbreviation steady :: "tdr_input \<Rightarrow> time_point" where
  "steady i \<equiv> fst (fst i)"

lemmas tdr_defs = tdr_step_def mark_event_def mark_stack_down_def stack_down_def note_stack_healthy_def
  set_event_hook_def set_stack_recheck_def silent_def Let_def

subsection \<open>Rate limits\<close>

definition stamp :: "time_point \<Rightarrow> time_point option" where
  "stamp t = (if t = 0 then None else Some t)"

interpretation log_line: cooldown tdr_step steady "\<lambda>out. logged out \<noteq> None"
  "\<lambda>s. stamp (g_last_log_at s)" kLogCooldown "\<lambda>s. True" "\<lambda>i. 0 < steady i"
  by unfold_locales (auto simp: tdr_defs due_def stamp_def split: tdr_op.splits if_splits)

interpretation tray_toast: cooldown tdr_step steady "\<lambda>out. toasted out \<noteq> None"
  "\<lambda>s. stamp (g_last_notify_at s)" kNotifyCooldown "\<lambda>s. True" "\<lambda>i. 0 < steady i"
  by unfold_locales (auto simp: tdr_defs due_def stamp_def split: tdr_op.splits if_splits)

interpretation recheck: cooldown tdr_step "\<lambda>i. to_ms (steady i)" probed
  "\<lambda>s. Some (g_last_recheck_ms s)" "to_ms kStackRecheckEvery" "\<lambda>s. True" "\<lambda>i. True"
  by unfold_locales (auto simp: tdr_defs split: tdr_op.splits if_splits)
lemma tdr_rate_limits_parts:
  assumes "sorted (map steady ops)" and "\<forall>op \<in> set ops. 0 < steady op"
  shows "spaced kLogCooldown
      (zip (map steady ops) (map (\<lambda>out. logged out \<noteq> None) (machine_outputs tdr_step s ops)))"
    and "spaced kNotifyCooldown
      (zip (map steady ops) (map (\<lambda>out. toasted out \<noteq> None) (machine_outputs tdr_step s ops)))"
    and "spaced 5000 (zip (map (\<lambda>op. to_ms (steady op)) ops) (map probed (machine_outputs tdr_step s ops)))"
proof -
  have pos: "list_all (\<lambda>i. 0 < steady i) ops" using assms(2) by (simp add: list_all_iff)
  show "spaced kLogCooldown
      (zip (map steady ops) (map (\<lambda>out. logged out \<noteq> None) (machine_outputs tdr_step s ops)))"
    using assms(1) pos by (intro log_line.firings_spaced) simp_all
  show "spaced kNotifyCooldown
      (zip (map steady ops) (map (\<lambda>out. toasted out \<noteq> None) (machine_outputs tdr_step s ops)))"
    using assms(1) pos by (intro tray_toast.firings_spaced) simp_all
  have "mono_on (set (map steady ops)) to_ms"
    by (intro mono_onI) (simp add: to_ms_def zdiv_mono1)
  with assms(1) have "sorted (map (\<lambda>i. to_ms (steady i)) ops)"
    using sorted_map_mono [of "map steady ops" to_ms] by (simp add: comp_def)
  then have "spaced (to_ms kStackRecheckEvery)
      (zip (map (\<lambda>op. to_ms (steady op)) ops) (map probed (machine_outputs tdr_step s ops)))"
    by (intro recheck.firings_spaced) (simp_all add: list_all_iff)
  then show "spaced 5000
      (zip (map (\<lambda>op. to_ms (steady op)) ops) (map probed (machine_outputs tdr_step s ops)))"
    by (simp add: to_ms_def kStackRecheckEvery_def)
qed

text \<open>
  The rate limits hold over every sequence of operations, whatever they are and whichever thread
  issued them: two signature log lines are at least 30 seconds apart, two tray toasts at least two
  minutes, and two runs of the platform probe at least five seconds.
\<close>

theorem tdr_rate_limits:
  assumes "sorted (map steady ops)" and "\<forall>op \<in> set ops. 0 < steady op"
  shows "spaced kLogCooldown
      (zip (map steady ops) (map (\<lambda>out. logged out \<noteq> None) (machine_outputs tdr_step s ops))) \<and>
    spaced kNotifyCooldown
      (zip (map steady ops) (map (\<lambda>out. toasted out \<noteq> None) (machine_outputs tdr_step s ops))) \<and>
    spaced 5000 (zip (map (\<lambda>op. to_ms (steady op)) ops) (map probed (machine_outputs tdr_step s ops)))"
  by (intro conjI tdr_rate_limits_parts [OF assms])

theorem tdr_rate_limits_witness:
  "spaced kLogCooldown (zip [1000000000, 2000000000, 40000000000]
     (map (\<lambda>out. logged out \<noteq> None) (machine_outputs tdr_step tdr_init
       [((1000000000, 7), MarkEvent encoder_stall 0 []), ((2000000000, 8), MarkStackDown 0 []),
        ((40000000000, 9), MarkEvent encoder_stall 0 [])])))"
  using tdr_rate_limits [of "[((1000000000, 7), MarkEvent encoder_stall 0 []),
      ((2000000000, 8), MarkStackDown 0 []), ((40000000000, 9), MarkEvent encoder_stall 0 [])]" tdr_init]
  by simp

subsection \<open>Incidents are clusters of events\<close>

text \<open>The reference reads the finished list of events from its end: an event joins the incident of the
  next one when that came within the window.\<close>

record timed_event =
  te_now :: "time_point \<times> time_point"
  te_source :: tdr_source
  te_hresult :: int
  te_detail :: string

fun clusters :: "timed_event list \<Rightarrow> timed_event list list" where
  "clusters [] = []"
| "clusters (e # es) = (case clusters es of
     [] \<Rightarrow> [[e]]
   | c # cs \<Rightarrow> if fst (te_now (hd c)) - fst (te_now e) < kIncidentWindow then (e # c) # cs
              else [e] # c # cs)"

definition incident_of :: "timed_event list \<Rightarrow> incident" where
  "incident_of c = \<lparr>inc_started_at = snd (te_now (hd c)), inc_last_at = snd (te_now (last c)),
     inc_events = of_nat (length c), inc_first_source = te_source (hd c),
     inc_last_source = te_source (last c), inc_hresult = te_hresult (last c),
     inc_detail = te_detail (last c), inc_terminal = (display_stack_down \<in> te_source ` set c)\<rparr>"

definition mark :: "timed_event \<Rightarrow> tdr_input" where
  "mark e = (te_now e, if te_source e = display_stack_down then MarkStackDown (te_hresult e) (te_detail e)
     else MarkEvent (te_source e) (te_hresult e) (te_detail e))"

lemma clusters_nonempty: "c \<in> set (clusters es) \<Longrightarrow> c \<noteq> []"
  by (induction es arbitrary: c rule: clusters.induct) (auto split: list.splits if_splits)

lemma clusters_eq_Nil [simp]: "clusters es = [] \<longleftrightarrow> es = []"
  by (cases es) (auto split: list.splits)

lemma last_last_clusters: "es \<noteq> [] \<Longrightarrow> last (last (clusters es)) = last es"
proof (induction es)
  case (Cons e es)
  show ?case
  proof (cases "clusters es")
    case Nil
    then show ?thesis by (auto split: list.splits)
  next
    case (Cons c cs)
    moreover have "c \<noteq> []" using Cons clusters_nonempty [of c es] by simp
    moreover have "es \<noteq> []" using Cons by auto
    ultimately show ?thesis using Cons.IH by auto
  qed
qed simp

lemma clusters_snoc:
  assumes "es \<noteq> []"
  shows "clusters (es @ [e]) =
    (if fst (te_now e) - fst (te_now (last es)) < kIncidentWindow
     then butlast (clusters es) @ [last (clusters es) @ [e]] else clusters es @ [[e]])"
  using assms
proof (induction es)
  case (Cons f es)
  show ?case
  proof (cases es)
    case Nil
    then show ?thesis by simp
  next
    case (Cons f' es')
    obtain c cs where cs: "clusters es = c # cs" using Cons clusters_eq_Nil [of es] by (cases "clusters es") blast+
    have "c \<noteq> []" using cs clusters_nonempty [of c es] by simp
    then show ?thesis using Cons.IH Cons cs by simp
  qed
qed simp

lemma mark_step:
  "fst (tdr_step s (mark e)) = fst (mark_event (te_now e) (te_source e) (te_hresult e) (te_detail e)
     (if te_source e = display_stack_down then s\<lparr>g_stack_down := True\<rparr> else s))"
  by (simp add: mark_def tdr_step_def mark_stack_down_def split_beta)

lemma mark_step_incident:
  shows "g_incident (fst (tdr_step s (mark e))) = Some (fold_event (snd (te_now e)) (te_source e) (te_hresult e)
      (te_detail e) (if incident_open s (fst (te_now e)) then the (g_incident s)
                     else fresh_incident (snd (te_now e)) (te_source e)))"
    and "g_incident_count (fst (tdr_step s (mark e))) =
      (if incident_open s (fst (te_now e)) then g_incident_count s else g_incident_count s + 1)"
    and "g_incident_last_steady (fst (tdr_step s (mark e))) = fst (te_now e)"
  by (simp_all add: mark_step mark_event_def incident_open_def Let_def)

lemma fold_event_opens:
  "fold_event (snd (te_now e)) (te_source e) (te_hresult e) (te_detail e)
     (fresh_incident (snd (te_now e)) (te_source e)) = incident_of [e]"
  by (auto simp: fold_event_def fresh_incident_def incident_of_def)

lemma fold_event_continues:
  "c \<noteq> [] \<Longrightarrow> fold_event (snd (te_now e)) (te_source e) (te_hresult e) (te_detail e) (incident_of c)
     = incident_of (c @ [e])"
  by (auto simp: fold_event_def incident_of_def)

definition closed :: "tdr_state \<Rightarrow> bool" where
  "closed s \<longleftrightarrow> g_incident s = None \<or> g_incident_last_steady s = 0"

lemma marks_cluster:
  assumes "closed s" and "\<forall>e \<in> set es. 0 < fst (te_now e)" and "es \<noteq> []"
  shows "g_incident (machine_state tdr_step s (map mark es)) = Some (incident_of (last (clusters es))) \<and>
    g_incident_count (machine_state tdr_step s (map mark es)) = g_incident_count s + of_nat (length (clusters es)) \<and>
    g_incident_last_steady (machine_state tdr_step s (map mark es)) = fst (te_now (last es))"
  using assms(2,3)
proof (induction es rule: rev_induct)
  case (snoc e es)
  show ?case
  proof (cases "es = []")
    case True
    have "\<not> incident_open s (fst (te_now e))" using assms(1) by (auto simp: closed_def incident_open_def)
    with True show ?thesis by (simp add: mark_step_incident fold_event_opens)
  next
    case False
    let ?s = "machine_state tdr_step s (map mark es)"
    from snoc.IH False snoc.prems have IH: "g_incident ?s = Some (incident_of (last (clusters es)))"
        "g_incident_count ?s = g_incident_count s + of_nat (length (clusters es))"
        "g_incident_last_steady ?s = fst (te_now (last es))" by simp_all
    have nz: "fst (te_now (last es)) \<noteq> 0" using bspec [OF snoc.prems(1), of "last es"] last_in_set [OF False] by auto
    have ne: "last (clusters es) \<noteq> []" using clusters_nonempty [of "last (clusters es)" es] False by simp
    have "incident_open ?s (fst (te_now e)) \<longleftrightarrow> fst (te_now e) - fst (te_now (last es)) < kIncidentWindow"
      using IH nz by (simp add: incident_open_def)
    moreover have "length (clusters es) = Suc (length (butlast (clusters es)))" using False by simp
    ultimately show ?thesis
      using False IH ne
      by (simp add: mark_step_incident clusters_snoc fold_event_opens fold_event_continues)
  qed
qed simp

lemma healing_closes:
  "g_stack_down s \<Longrightarrow> closed (fst (note_stack_healthy s))"
  by (simp add: note_stack_healthy_def closed_def)

lemma incidents_are_clusters_parts:
  assumes "closed s" and "\<forall>e \<in> set es. 0 < fst (te_now e)" and "es \<noteq> []"
  shows "g_incident (machine_state tdr_step s (map mark es)) = Some (incident_of (last (clusters es)))"
    and "g_incident_count (machine_state tdr_step s (map mark es)) = g_incident_count s + of_nat (length (clusters es))"
    and "last (last (clusters es)) = last es"
    and "g_stack_down t \<Longrightarrow> closed (fst (note_stack_healthy t))"
  using marks_cluster [OF assms] last_last_clusters [OF assms(3)] healing_closes by simp_all

text \<open>
  Incidents are clusters of events: from a tracker whose incident is closed (initially, and after
  every observed recovery of the stack), any sequence of recorded failures raises the incident
  count by the number of clusters of events less than five minutes apart, and the current incident
  describes the last cluster: when it started and last fired, how many detections it folded, its
  first and last source, and whether any of them was a dead display stack.
\<close>

theorem incidents_are_clusters:
  assumes "closed s" and "\<forall>e \<in> set es. 0 < fst (te_now e)" and "es \<noteq> []"
  shows "g_incident (machine_state tdr_step s (map mark es)) = Some (incident_of (last (clusters es))) \<and>
    g_incident_count (machine_state tdr_step s (map mark es)) = g_incident_count s + of_nat (length (clusters es)) \<and>
    last (last (clusters es)) = last es \<and>
    (\<forall>t. g_stack_down t \<longrightarrow> closed (fst (note_stack_healthy t)))"
  using incidents_are_clusters_parts [OF assms] by blast

theorem incidents_are_clusters_witness:
  "g_incident_count (machine_state tdr_step tdr_init (map mark
     [\<lparr>te_now = (1000000000, 1), te_source = encoder_stall, te_hresult = 0, te_detail = []\<rparr>,
      \<lparr>te_now = (34000000000, 2), te_source = display_stack_down, te_hresult = 5, te_detail = []\<rparr>,
      \<lparr>te_now = (400000000000, 3), te_source = encoder_stall, te_hresult = 0, te_detail = []\<rparr>])) = 2"
proof -
  let ?es = "[\<lparr>te_now = (1000000000, 1), te_source = encoder_stall, te_hresult = 0, te_detail = []\<rparr>,
      \<lparr>te_now = (34000000000, 2), te_source = display_stack_down, te_hresult = 5, te_detail = []\<rparr>,
      \<lparr>te_now = (400000000000, 3), te_source = encoder_stall, te_hresult = 0, te_detail = []\<rparr>]
        :: timed_event list"
  have "closed tdr_init" by (simp add: closed_def tdr_init_def)
  from incidents_are_clusters [OF this, of ?es] show ?thesis
    by (simp add: kIncidentWindow_def tdr_init_def)
qed

lemma incident_toasts_again:
  defines "es \<equiv> map (\<lambda>k. \<lparr>te_now = (k * 33000000000, k), te_source = encoder_stall, te_hresult = 0,
      te_detail = []\<rparr>) [1, 2, 3, 4, 5]"
  shows "length (clusters es) = 1"
    and "map (\<lambda>out. toasted out \<noteq> None) (machine_outputs tdr_step tdr_init (map mark es))
      = [True, False, False, False, True]"
  by (simp_all add: es_def kIncidentWindow_def kNotifyCooldown_def mark_def tdr_step_def mark_event_def
      due_def tdr_init_def silent_def Let_def)

subsection \<open>The latch\<close>

text \<open>An operation reads the stack healthy when it is the report of a success or a recheck whose probe
  answered healthy.\<close>

definition heals :: "tdr_state \<Rightarrow> tdr_input \<Rightarrow> bool" where
  "heals s i \<longleftrightarrow> snd i = NoteStackHealthy \<or> snd i = StackDown (Some True) \<and> probed (snd (tdr_step s i))"

lemma latch_step:
  "g_stack_down (fst (tdr_step s i)) \<longleftrightarrow>
     (\<exists>h d. snd i = MarkStackDown h d) \<or> g_stack_down s \<and> \<not> heals s i"
  by (auto simp: tdr_defs heals_def split: tdr_op.splits if_splits)

lemma latch_refuses:
  "snd i = StackDown p \<Longrightarrow> refused (snd (tdr_step s i)) \<longleftrightarrow> g_stack_down s \<and> \<not> heals s i"
  by (auto simp: tdr_defs heals_def split: if_splits)

lemma latch_recheck:
  "snd i = StackDown p \<Longrightarrow> probed (snd (tdr_step s i)) \<longleftrightarrow>
     g_stack_down s \<and> g_stack_recheck s \<and> 5000 \<le> to_ms (steady i) - g_last_recheck_ms s"
  by (auto simp: tdr_defs to_ms_def kStackRecheckEvery_def split: if_splits)

definition polls :: "tdr_input \<Rightarrow> bool" where
  "polls i \<longleftrightarrow> snd i = StackDown (Some True)"

lemma healthy_polls:
  assumes "g_stack_recheck s" and "list_all polls is" and "sorted (map steady is)"
    and "i \<in> set is" and "5000 \<le> to_ms (steady i) - g_last_recheck_ms s"
  shows "\<not> g_stack_down (machine_state tdr_step s is)"
  using assms
proof (induction "is" arbitrary: s)
  case (Cons j "is")
  have j: "snd j = StackDown (Some True)" using Cons.prems(2) by (simp add: polls_def)
  have unlatched: "\<not> g_stack_down (machine_state tdr_step s is)" if "\<not> g_stack_down s" for s
    using that Cons.prems(2)
    by (induction "is" arbitrary: s) (simp_all add: latch_step polls_def)
  show ?case
  proof (cases "g_stack_down s \<and> \<not> heals s j")
    case False
    then show ?thesis using unlatched j by (simp add: latch_step)
  next
    case True
    then have early: "to_ms (steady j) - g_last_recheck_ms s < 5000"
      using j Cons.prems(1) latch_recheck [OF j, of s] by (auto simp: heals_def)
    with Cons.prems(4,5) have "i \<in> set is" by auto
    moreover have "g_stack_recheck (fst (tdr_step s j)) \<and> g_last_recheck_ms (fst (tdr_step s j)) = g_last_recheck_ms s"
      using j early Cons.prems(1) True by (simp add: tdr_step_def stack_down_def to_ms_def kStackRecheckEvery_def)
    ultimately show ?thesis using Cons by simp
  qed
qed simp

lemma flip_flop:
  assumes "\<And>k. k < n \<Longrightarrow> D (Suc k) \<longleftrightarrow> S k \<or> D k \<and> \<not> R k"
  shows "D n \<longleftrightarrow> D 0 \<and> (\<forall>k<n. \<not> R k) \<or> (\<exists>m<n. S m \<and> (\<forall>k<n. m < k \<longrightarrow> \<not> R k))"
  using assms
proof (induction n)
  case (Suc n)
  from Suc.IH Suc.prems
  have "D n \<longleftrightarrow> D 0 \<and> (\<forall>k<n. \<not> R k) \<or> (\<exists>m<n. S m \<and> (\<forall>k<n. m < k \<longrightarrow> \<not> R k))" by simp
  moreover from Suc.prems have "D (Suc n) \<longleftrightarrow> S n \<or> D n \<and> \<not> R n" by simp
  moreover have "(\<exists>m<Suc n. S m \<and> (\<forall>k<Suc n. m < k \<longrightarrow> \<not> R k)) \<longleftrightarrow>
      S n \<or> (\<exists>m<n. S m \<and> (\<forall>k<n. m < k \<longrightarrow> \<not> R k)) \<and> \<not> R n"
    by (simp add: Ex_less_Suc All_less_Suc) blast
  moreover have "(\<forall>k<Suc n. \<not> R k) \<longleftrightarrow> \<not> R n \<and> (\<forall>k<n. \<not> R k)"
    by (simp add: All_less_Suc)
  ultimately show ?case by argo
qed simp

lemma latch_tracks_stack_parts:
  shows "g_stack_down (machine_state tdr_step s ops) \<longleftrightarrow>
      (g_stack_down s \<and> (\<forall>k < length ops. \<not> heals (machine_state tdr_step s (take k ops)) (ops ! k)) \<or>
       (\<exists>m < length ops. (\<exists>h d. snd (ops ! m) = MarkStackDown h d) \<and>
          (\<forall>k < length ops. m < k \<longrightarrow> \<not> heals (machine_state tdr_step s (take k ops)) (ops ! k))))"
    and "refused (snd (tdr_step t (now, StackDown p))) \<longleftrightarrow> g_stack_down (fst (tdr_step t (now, StackDown p)))"
    and "\<lbrakk>g_stack_recheck t; list_all polls is; sorted (map steady is); i \<in> set is;
        5000 \<le> to_ms (steady i) - g_last_recheck_ms t\<rbrakk> \<Longrightarrow> \<not> g_stack_down (machine_state tdr_step t is)"
proof -
  show "g_stack_down (machine_state tdr_step s ops) \<longleftrightarrow>
      (g_stack_down s \<and> (\<forall>k < length ops. \<not> heals (machine_state tdr_step s (take k ops)) (ops ! k)) \<or>
       (\<exists>m < length ops. (\<exists>h d. snd (ops ! m) = MarkStackDown h d) \<and>
          (\<forall>k < length ops. m < k \<longrightarrow> \<not> heals (machine_state tdr_step s (take k ops)) (ops ! k))))"
  proof -
    have "g_stack_down (machine_state tdr_step s (take (Suc k) ops)) \<longleftrightarrow>
        (\<exists>h d. snd (ops ! k) = MarkStackDown h d) \<or> g_stack_down (machine_state tdr_step s (take k ops)) \<and>
          \<not> heals (machine_state tdr_step s (take k ops)) (ops ! k)" if "k < length ops" for k
      using that by (simp add: take_Suc_conv_app_nth latch_step)
    from flip_flop [of "length ops" "\<lambda>k. g_stack_down (machine_state tdr_step s (take k ops))", OF this]
    show ?thesis by simp
  qed
qed (simp add: latch_step latch_refuses, rule healthy_polls)

text \<open>
  C28. The latch never sticks and never leaks. Over every sequence of operations it is down exactly
  when a dead stack was reported and no healthy reading came after it; a call that asks refuses
  exactly while it stays down. And it discovers recovery on its own: with a probe installed and the
  machine healthy, polling releases it as soon as one poll is five seconds past the last recheck.
\<close>

theorem latch_tracks_stack:
  "(g_stack_down (machine_state tdr_step s ops) \<longleftrightarrow>
      (g_stack_down s \<and> (\<forall>k < length ops. \<not> heals (machine_state tdr_step s (take k ops)) (ops ! k)) \<or>
       (\<exists>m < length ops. (\<exists>h d. snd (ops ! m) = MarkStackDown h d) \<and>
          (\<forall>k < length ops. m < k \<longrightarrow> \<not> heals (machine_state tdr_step s (take k ops)) (ops ! k))))) \<and>
    (refused (snd (tdr_step t (now, StackDown p))) \<longleftrightarrow> g_stack_down (fst (tdr_step t (now, StackDown p)))) \<and>
    (g_stack_recheck t \<and> list_all polls ps \<and> sorted (map steady ps) \<and> i \<in> set ps \<and>
        5000 \<le> to_ms (steady i) - g_last_recheck_ms t \<longrightarrow> \<not> g_stack_down (machine_state tdr_step t ps))"
  using latch_tracks_stack_parts by blast

theorem latch_tracks_stack_witness:
  "\<not> g_stack_down (machine_state tdr_step (tdr_init\<lparr>g_stack_down := True, g_stack_recheck := True,
       g_last_recheck_ms := 1000\<rparr>)
     [((2000000000, 1), StackDown (Some True)), ((6000000000, 2), StackDown (Some True))])"
  using latch_tracks_stack [where i = "((6000000000, 2), StackDown (Some True))" and
      ps = "[((2000000000, 1), StackDown (Some True)), ((6000000000, 2), StackDown (Some True))]" and
      t = "tdr_init\<lparr>g_stack_down := True, g_stack_recheck := True, g_last_recheck_ms := 1000\<rparr>"]
  by (simp add: tdr_init_def polls_def to_ms_def)

end
