(* ===== verification/Hex_Codec.thy ===== *)
theory Hex_Codec
  imports Prelude
begin

text \<open>
  The hexadecimal codec of \<^verbatim>\<open>src/utility.h\<close>, which carries certificates, salts and challenges of the
  pairing exchange: \<open>hex_vec\<close>, \<open>from_hex_vec\<close> and \<open>from_hex\<close> on a 16-byte array. Strings are byte
  lists. The decoder accepts every letter as a digit, skips other characters and reads backwards from
  the end of the text; running off the front of the text would be the \<open>[]\<close> cases of the loop.
\<close>

unbundle bit_operations_syntax

type_synonym bytes = "u8 list"

definition hex_bits :: "u8 list" where
  "hex_bits = [0x30, 0x31, 0x32, 0x33, 0x34, 0x35, 0x36, 0x37, 0x38, 0x39, 0x41, 0x42, 0x43, 0x44, 0x45, 0x46]"

definition hex_byte :: "u8 \<Rightarrow> u8 list" where
  "hex_byte b = [hex_bits ! (unat b div 16), hex_bits ! (unat b mod 16)]"

definition hex_vec :: "bytes \<Rightarrow> bool \<Rightarrow> bytes" where
  "hex_vec bs rv = concat (map hex_byte (if rv then bs else rev bs))"

definition is_convertable :: "u8 \<Rightarrow> bool" where
  "is_convertable ch \<longleftrightarrow> 0x30 \<le> ch \<and> ch \<le> 0x39 \<or> 0x61 \<le> (ch OR 0x20) \<and> (ch OR 0x20) \<le> 0x7A"

definition convert :: "u8 \<Rightarrow> u8" where
  "convert ch = (if 0x30 \<le> ch \<and> ch \<le> 0x39 then ch - 0x30 else (ch OR 32) - 0x61 + 10)"

text \<open>\<open>data\<close> is the text in front of the read position, last character first.\<close>

fun from_hex_loop :: "nat \<Rightarrow> bytes \<Rightarrow> bytes" where
  "from_hex_loop 0 data = []"
| "from_hex_loop (Suc n) data =
     (case dropWhile (Not \<circ> is_convertable) data of
        [] \<Rightarrow> []
      | r # data1 \<Rightarrow>
          (case dropWhile (Not \<circ> is_convertable) data1 of
             [] \<Rightarrow> []
           | l # data2 \<Rightarrow> (push_bit 4 (convert l) OR convert r) # from_hex_loop n data2))"

definition hex_digits :: "bytes \<Rightarrow> nat" where
  "hex_digits hex = length (filter is_convertable hex)"

definition from_hex_vec :: "bytes \<Rightarrow> bool \<Rightarrow> bytes" where
  "from_hex_vec hex rv =
     (let buf = from_hex_loop (hex_digits hex div 2) (rev hex) in if rv then rev buf else buf)"

definition from_hex_array16 :: "bytes \<Rightarrow> bool \<Rightarrow> bytes" where
  "from_hex_array16 hex rv =
     (let buf_size = hex_digits hex div 2;
          buf = from_hex_loop buf_size (rev hex) @ replicate (16 - buf_size) 0
      in if rv then rev buf else buf)"

subsection \<open>The decoder stays inside the text\<close>

lemma length_filter_dropWhile:
  "length (filter P (dropWhile (Not \<circ> P) xs)) = length (filter P xs)"
  by (induction xs) auto

lemma from_hex_loop_length:
  "2 * n \<le> length (filter is_convertable data) \<Longrightarrow> length (from_hex_loop n data) = n"
proof (induction n arbitrary: data)
  case (Suc n)
  let ?d = "dropWhile (Not \<circ> is_convertable)"
  have len: "length (filter is_convertable (?d data)) = length (filter is_convertable data)"
    by (rule length_filter_dropWhile)
  then obtain r d1 where d: "?d data = r # d1" using Suc.prems by (cases "?d data") auto
  have "is_convertable r" using hd_dropWhile [of "Not \<circ> is_convertable" data] d by auto
  then have d1: "2 * n + 1 \<le> length (filter is_convertable d1)" using len Suc.prems d by simp
  have len1: "length (filter is_convertable (?d d1)) = length (filter is_convertable d1)"
    by (rule length_filter_dropWhile)
  then obtain l d2 where d2: "?d d1 = l # d2" using d1 by (cases "?d d1") auto
  have "is_convertable l" using hd_dropWhile [of "Not \<circ> is_convertable" d1] d2 by auto
  then have "2 * n \<le> length (filter is_convertable d2)" using len1 d1 d2 by simp
  then show ?case using Suc.IH d d2 by simp
qed simp

lemma length_from_hex_vec: "length (from_hex_vec hex rv) = hex_digits hex div 2"
  by (simp add: from_hex_vec_def hex_digits_def Let_def from_hex_loop_length flip: rev_filter)

subsection \<open>Decoding undoes encoding\<close>

lemma hex_bits_table: "list_all is_convertable hex_bits" "map convert hex_bits = map of_nat [0..<16]"
  by code_simp+

lemma hex_bits_nth:
  assumes "h < 16"
  shows "is_convertable (hex_bits ! h)" and "convert (hex_bits ! h) = of_nat h"
proof -
  have len: "length hex_bits = 16" by (simp add: hex_bits_def)
  with assms show "is_convertable (hex_bits ! h)"
    using hex_bits_table(1) by (simp add: list_all_length)
  from assms len show "convert (hex_bits ! h) = of_nat h"
    using arg_cong [OF hex_bits_table(2), of "\<lambda>xs. xs ! h"] by simp
qed

lemma nibbles_rejoin:
  "push_bit 4 (of_nat (unat b div 16)) OR of_nat (unat b mod 16) = (b :: u8)"
proof -
  have "unat b div 16 = unat (b div 16)" and "unat b mod 16 = unat (b mod 16)"
    by (simp_all add: unat_div_distrib unat_mod_distrib)
  then have "of_nat (unat b div 16) = drop_bit 4 b" and "of_nat (unat b mod 16) = take_bit 4 b"
    by (simp_all add: drop_bit_eq_div take_bit_eq_mod)
  moreover have "push_bit 4 (drop_bit 4 b) OR take_bit 4 b = b"
    by (rule bit_eqI) (auto simp: bit_simps)
  ultimately show ?thesis by simp
qed

lemma from_hex_loop_hex_byte:
  "from_hex_loop (Suc n) (rev (hex_byte b) @ data) = b # from_hex_loop n data"
proof -
  have "unat b div 16 < 16" "unat b mod 16 < 16" using unsigned_less [of b, where ?'a = nat] by auto
  then show ?thesis by (simp add: hex_byte_def hex_bits_nth nibbles_rejoin)
qed

lemma from_hex_loop_concat:
  "from_hex_loop (length bs) (rev (concat (map hex_byte bs)) @ data) = rev bs"
proof (induction bs arbitrary: data rule: rev_induct)
  case (snoc b bs)
  then show ?case using from_hex_loop_hex_byte [of "length bs" b] by simp
qed simp

lemma hex_digits_concat: "hex_digits (concat (map hex_byte bs)) = 2 * length bs"
proof (induction bs)
  case (Cons b bs)
  have "unat b div 16 < 16" "unat b mod 16 < 16" using unsigned_less [of b, where ?'a = nat] by auto
  with Cons show ?case by (simp add: hex_digits_def hex_byte_def hex_bits_nth)
qed (simp add: hex_digits_def)

lemma from_hex_of_hex_vec:
  shows "from_hex_vec (hex_vec bs rv) rv = bs"
    and "length bs = 16 \<Longrightarrow> from_hex_array16 (hex_vec bs rv) rv = bs"
proof -
  have "from_hex_loop (length (if rv then bs else rev bs)) (rev (hex_vec bs rv)) = (if rv then rev bs else bs)"
    using from_hex_loop_concat [of "if rv then bs else rev bs" "[]"] by (simp add: hex_vec_def)
  moreover have "hex_digits (hex_vec bs rv) = 2 * length bs"
    by (simp add: hex_vec_def hex_digits_concat)
  ultimately show "from_hex_vec (hex_vec bs rv) rv = bs"
    and "length bs = 16 \<Longrightarrow> from_hex_array16 (hex_vec bs rv) rv = bs"
    by (simp_all add: from_hex_vec_def from_hex_array16_def Let_def split: if_splits)
qed

lemma hex_roundtrip_parts:
  shows "from_hex_vec (hex_vec bs rv) rv = bs"
    and "length (from_hex_vec hex rv) = hex_digits hex div 2"
    and "length bs = 16 \<Longrightarrow> from_hex_array16 (hex_vec bs rv) rv = bs"
  by (simp_all add: from_hex_of_hex_vec length_from_hex_vec)

text \<open>
  The hexadecimal codec of the pairing exchange is lossless: decoding an encoded byte string
  gives it back, in either byte order; the decoder never reads in front of the text and returns
  one byte per two digits, whatever characters the text contains.
\<close>

theorem hex_roundtrip:
  "from_hex_vec (hex_vec bs rv) rv = bs \<and> length (from_hex_vec hex rv) = hex_digits hex div 2 \<and>
    (length bs = 16 \<longrightarrow> from_hex_array16 (hex_vec bs rv) rv = bs)"
  by (simp add: from_hex_of_hex_vec length_from_hex_vec)

theorem hex_roundtrip_witness:
  "from_hex_array16 (hex_vec (replicate 16 0xA7) True) True = replicate 16 0xA7"
  using hex_roundtrip [of "replicate 16 0xA7" True] by simp

end
