(* ===== verification/Pairing.thy ===== *)
theory Pairing
  imports Hex_Codec "HOL-Library.Char_ord" "HOL-Library.List_Lexorder" "HOL-Library.Product_Lexorder"
begin

text \<open>
  The pairing exchange of \<^verbatim>\<open>src/nvhttp.cpp\<close>: the pending exchanges keyed by unique id and peer address,
  their four phases, the PIN submitted through the web UI, the outcomes kept for it, and the list of
  authorized devices.

  OpenSSL (hash, AES-ECB, certificates, signatures) is the record \<open>crypto_api\<close>, a parameter. The
  random numbers, fresh identifiers, the clock and the console PIN of a request are its environment;
  a held HTTP response is the number of its connection. Each critical section under
  \<open>map_id_sess_mutex\<close> is one function; \<open>submit_pin\<close> has two, with the network write in between.
  \<open>std::map\<close> is an association list in key order, \<open>std::unordered_map\<close> one in insertion order.
\<close>

record crypto_api =
  sha256 :: "bytes \<Rightarrow> bytes"
  ecb_encrypt :: "bytes \<Rightarrow> bytes \<Rightarrow> bytes"
  ecb_decrypt :: "bytes \<Rightarrow> bytes \<Rightarrow> bytes"
  x509_valid :: "bytes \<Rightarrow> bool"
  x509_signature :: "bytes \<Rightarrow> bytes"
  sign256 :: "bytes \<Rightarrow> bytes \<Rightarrow> bytes"
  verify256 :: "bytes \<Rightarrow> bytes \<Rightarrow> bytes \<Rightarrow> bool"

definition gen_aes_key :: "crypto_api \<Rightarrow> bytes \<Rightarrow> bytes \<Rightarrow> bytes" where
  "gen_aes_key cr salt pin = take 16 (sha256 cr (salt @ pin))"

record conf_intern =
  servercert :: bytes
  pkey :: bytes

subsection \<open>Data\<close>

datatype pair_phase = NONE | GETSERVERCERT | CLIENTCHALLENGE | SERVERCHALLENGERESP | CLIENTPAIRINGSECRET

type_synonym pairing_key = "string \<times> string"

record pair_session =
  uniqueID :: string
  client_cert :: bytes
  client_name :: string
  cipher_key :: "bytes option"
  clienthash :: bytes
  serversecret :: bytes
  serverchallenge :: bytes
  held_response :: "nat option"
  salt :: bytes
  pairing_id :: string
  client_address :: string
  created_at :: time_point
  updated_at :: time_point
  phase_one_generation :: u64
  last_phase :: pair_phase

datatype pairing_state_e = PENDING_PIN | AWAITING_CLIENT | PAIRED | FAILED | EXPIRED_STATE

datatype pin_result_e = PIN_DELIVERED | ALREADY_SUBMITTED | ALREADY_PAIRED | NO_PENDING_REQUEST
  | AMBIGUOUS_REQUEST | UNKNOWN_PAIRING_ID | EXPIRED | INVALID_PIN | RESPONSE_UNAVAILABLE
  | DELIVERY_FAILED | PAIRING_FAILED

record pairing_request =
  rq_pairing_id :: string
  rq_client_address :: string
  rq_state :: pairing_state_e
  rq_age_seconds :: u64
  rq_device_uuid :: string

record pairing_outcome =
  oc_request :: pairing_request
  oc_updated_at :: time_point

record named_cert =
  nc_name :: string
  nc_uuid :: string
  nc_cert :: bytes
  nc_hdr_profile :: string
  nc_display_mode :: string
  nc_output_name_override :: string
  nc_virtual_display_mode_override :: string
  nc_virtual_display_layout_override :: string
  nc_always_use_virtual_display :: bool
  nc_prefer_10bit_sdr :: "bool option"
  nc_last_seen :: "int option"
  nc_config_overrides :: "(string \<times> string) list"

record pairing =
  map_id_sess :: "(pairing_key \<times> pair_session) list"
  pairing_outcomes :: "(string \<times> pairing_outcome) list"
  named_devices :: "named_cert list"
  added_certs :: "bytes list"

definition pairing_init :: pairing where
  "pairing_init = \<lparr>map_id_sess = [], pairing_outcomes = [], named_devices = [], added_certs = []\<rparr>"

definition kPairingSessionTtl :: duration where "kPairingSessionTtl = 5 * 60 * 1000000000"
definition kPairingOutcomeTtl :: duration where "kPairingOutcomeTtl = 5 * 60 * 1000000000"
definition kMaxPendingPairings :: nat where "kMaxPendingPairings = 32"
definition kMaxPendingPairingsPerPeer :: nat where "kMaxPendingPairingsPerPeer = 2"
definition kMaxPairingOutcomes :: nat where "kMaxPairingOutcomes = 64"

text \<open>The XML answer: the fields of the property tree that were put.\<close>

record ptree =
  pt_paired :: "nat option"
  pt_status :: "nat option"
  pt_message :: "string option"
  pt_plaincert :: "bytes option"
  pt_challengeresponse :: "bytes option"
  pt_pairingsecret :: "bytes option"

definition empty_tree :: ptree where
  "empty_tree = \<lparr>pt_paired = None, pt_status = None, pt_message = None, pt_plaincert = None,
     pt_challengeresponse = None, pt_pairingsecret = None\<rparr>"

definition error_tree :: "nat \<Rightarrow> string \<Rightarrow> ptree" where
  "error_tree status msg = empty_tree\<lparr>pt_paired := Some 0, pt_status := Some status, pt_message := Some msg\<rparr>"

definition status_tree :: "nat \<Rightarrow> string \<Rightarrow> ptree" where
  "status_tree status msg = empty_tree\<lparr>pt_status := Some status, pt_message := Some msg\<rparr>"

definition paired_tree :: ptree where
  "paired_tree = empty_tree\<lparr>pt_paired := Some 1, pt_status := Some 200\<rparr>"

subsection \<open>Association lists\<close>

definition assign :: "'k \<Rightarrow> 'v \<Rightarrow> ('k \<times> 'v) list \<Rightarrow> ('k \<times> 'v) list" where
  "assign k v m = map (\<lambda>e. if fst e = k then (k, v) else e) m"

definition erase :: "'k \<Rightarrow> ('k \<times> 'v) list \<Rightarrow> ('k \<times> 'v) list" where
  "erase k m = filter (\<lambda>e. fst e \<noteq> k) m"

definition insert_or_assign :: "'k \<Rightarrow> 'v \<Rightarrow> ('k \<times> 'v) list \<Rightarrow> ('k \<times> 'v) list" where
  "insert_or_assign k v m = (if k \<in> fst ` set m then assign k v m else m @ [(k, v)])"

definition emplace :: "'k::linorder \<Rightarrow> 'v \<Rightarrow> ('k \<times> 'v) list \<Rightarrow> ('k \<times> 'v) list" where
  "emplace k v m = insort_key fst (k, v) m"

subsection \<open>Pure decisions\<close>

definition pairing_state_name :: "pairing_state_e \<Rightarrow> string" where
  "pairing_state_name state = (case state of
     PENDING_PIN \<Rightarrow> ''pending_pin'' | AWAITING_CLIENT \<Rightarrow> ''awaiting_client'' | PAIRED \<Rightarrow> ''paired''
   | FAILED \<Rightarrow> ''failed'' | EXPIRED_STATE \<Rightarrow> ''expired'')"

definition pin_result_name :: "pin_result_e \<Rightarrow> string" where
  "pin_result_name result = (case result of
     PIN_DELIVERED \<Rightarrow> ''pin_delivered'' | ALREADY_SUBMITTED \<Rightarrow> ''already_submitted''
   | ALREADY_PAIRED \<Rightarrow> ''already_paired'' | NO_PENDING_REQUEST \<Rightarrow> ''no_pending_request''
   | AMBIGUOUS_REQUEST \<Rightarrow> ''ambiguous_request'' | UNKNOWN_PAIRING_ID \<Rightarrow> ''unknown_pairing_id''
   | EXPIRED \<Rightarrow> ''expired'' | INVALID_PIN \<Rightarrow> ''invalid_pin''
   | RESPONSE_UNAVAILABLE \<Rightarrow> ''response_unavailable'' | DELIVERY_FAILED \<Rightarrow> ''delivery_failed''
   | PAIRING_FAILED \<Rightarrow> ''pairing_failed'')"

definition pin_accepted :: "pin_result_e \<Rightarrow> bool" where
  "pin_accepted result \<longleftrightarrow> result = PIN_DELIVERED \<or> result = ALREADY_SUBMITTED \<or> result = ALREADY_PAIRED"

definition valid_pin :: "bytes \<Rightarrow> bool" where
  "valid_pin pin \<longleftrightarrow> length pin = 4 \<and> (\<forall>c \<in> set pin. 0x30 \<le> c \<and> c \<le> 0x39)"

definition session_expired :: "time_point \<Rightarrow> time_point \<Rightarrow> bool" where
  "session_expired updated now \<longleftrightarrow> now - updated \<ge> kPairingSessionTtl"

definition phase_one_retry_matches ::
  "string \<Rightarrow> bytes \<Rightarrow> bytes \<Rightarrow> string \<Rightarrow> bytes \<Rightarrow> bytes \<Rightarrow> pair_phase \<Rightarrow> bool" where
  "phase_one_retry_matches expected_address expected_certificate expected_salt
       received_address received_certificate received_salt current_phase =
     (if expected_address = [] \<or> expected_address \<noteq> received_address \<or>
         expected_certificate \<noteq> received_certificate then False
      else current_phase = NONE \<or> expected_salt = received_salt)"

definition phase_one_delivery_is_current :: "pair_phase \<Rightarrow> u64 \<Rightarrow> u64 \<Rightarrow> bool" where
  "phase_one_delivery_is_current current_phase current_generation attempted_generation \<longleftrightarrow>
     current_phase = GETSERVERCERT \<and> current_generation = attempted_generation"

definition outcome_pin_result :: "pairing_state_e \<Rightarrow> pin_result_e" where
  "outcome_pin_result state = (case state of
     PAIRED \<Rightarrow> ALREADY_PAIRED | EXPIRED_STATE \<Rightarrow> EXPIRED | FAILED \<Rightarrow> PAIRING_FAILED | _ \<Rightarrow> UNKNOWN_PAIRING_ID)"

record candidate =
  cd_pairing_id :: string
  awaiting_pin :: bool
  response_available :: bool

definition candidate_result :: "candidate \<Rightarrow> pin_result_e \<times> string" where
  "candidate_result c = (if response_available c then PIN_DELIVERED else RESPONSE_UNAVAILABLE, cd_pairing_id c)"

fun scan_candidates :: "candidate option \<Rightarrow> candidate list \<Rightarrow> pin_result_e \<times> string" where
  "scan_candidates selected [] =
     (case selected of None \<Rightarrow> (NO_PENDING_REQUEST, '''') | Some c \<Rightarrow> candidate_result c)"
| "scan_candidates selected (c # cs) =
     (if \<not> awaiting_pin c then scan_candidates selected cs
      else if selected \<noteq> None then (AMBIGUOUS_REQUEST, '''')
      else scan_candidates (Some c) cs)"

definition select_candidate :: "candidate list \<Rightarrow> string option \<Rightarrow> pin_result_e \<times> string" where
  "select_candidate candidates pid =
     (case pid of
        Some i \<Rightarrow>
          if i \<noteq> [] then
            (case find (\<lambda>c. cd_pairing_id c = i) candidates of
               None \<Rightarrow> (UNKNOWN_PAIRING_ID, i)
             | Some c \<Rightarrow>
                 if \<not> awaiting_pin c then (ALREADY_SUBMITTED, cd_pairing_id c) else candidate_result c)
          else scan_candidates None candidates
      | None \<Rightarrow> scan_candidates None candidates)"

subsection \<open>Outcomes and expiry\<close>

definition record_pairing_outcome_locked ::
  "time_point \<Rightarrow> pair_session \<Rightarrow> pairing_state_e \<Rightarrow> string \<Rightarrow> pairing \<Rightarrow> pairing" where
  "record_pairing_outcome_locked now sess state device_uuid st =
     (if pairing_id sess = [] then st
      else st\<lparr>pairing_outcomes := insert_or_assign (pairing_id sess)
             \<lparr>oc_request = \<lparr>rq_pairing_id = pairing_id sess, rq_client_address = client_address sess,
                rq_state = state, rq_age_seconds = 0, rq_device_uuid = device_uuid\<rparr>,
              oc_updated_at = now\<rparr> (pairing_outcomes st)\<rparr>)"

fun min_element :: "('k \<times> pairing_outcome) list \<Rightarrow> 'k \<times> pairing_outcome" where
  "min_element [] = undefined"
| "min_element [e] = e"
| "min_element (e # e' # es) =
     (let m = min_element (e' # es) in
      if oc_updated_at (snd m) < oc_updated_at (snd e) then m else e)"

lemma min_element_in: "m \<noteq> [] \<Longrightarrow> min_element m \<in> set m"
  by (induction m rule: min_element.induct) (auto simp: Let_def)

lemma length_erase: "length (erase k m) \<le> length m"
  by (simp add: erase_def)

lemma length_erase_less: "e \<in> set m \<Longrightarrow> length (erase (fst e) m) < length m"
  unfolding erase_def by (rule length_filter_less [of e]) simp_all

function drop_oldest :: "('k \<times> pairing_outcome) list \<Rightarrow> ('k \<times> pairing_outcome) list" where
  "drop_oldest m = (if length m > kMaxPairingOutcomes then drop_oldest (erase (fst (min_element m)) m) else m)"
  by pat_completeness auto
termination
  by (relation "measure length") (auto intro!: length_erase_less min_element_in)

declare drop_oldest.simps [simp del]

definition prune_pairing_outcomes_locked ::
  "time_point \<Rightarrow> (string \<times> pairing_outcome) list \<Rightarrow> (string \<times> pairing_outcome) list" where
  "prune_pairing_outcomes_locked now m =
     drop_oldest (filter (\<lambda>e. \<not> now - oc_updated_at (snd e) \<ge> kPairingOutcomeTtl) m)"

text \<open>The pruned state and the held responses of the expired exchanges.\<close>

definition prune_expired_pairings_locked :: "time_point \<Rightarrow> pairing \<Rightarrow> pairing \<times> nat list" where
  "prune_expired_pairings_locked now st =
     (let st0 = st\<lparr>pairing_outcomes := prune_pairing_outcomes_locked now (pairing_outcomes st)\<rparr>;
          expired = filter (\<lambda>e. session_expired (updated_at (snd e)) now) (map_id_sess st0);
          st1 = fold (\<lambda>e. record_pairing_outcome_locked now (snd e) EXPIRED_STATE '''') expired st0;
          st2 = st1\<lparr>map_id_sess := filter (\<lambda>e. \<not> session_expired (updated_at (snd e)) now) (map_id_sess st1)\<rparr>
      in (st2\<lparr>pairing_outcomes := prune_pairing_outcomes_locked now (pairing_outcomes st2)\<rparr>,
          List.map_filter (\<lambda>e. held_response (snd e)) expired))"

definition pairing_request_from_session :: "pair_session \<Rightarrow> time_point \<Rightarrow> pairing_request" where
  "pairing_request_from_session sess now =
     \<lparr>rq_pairing_id = pairing_id sess, rq_client_address = client_address sess,
      rq_state = (if last_phase sess = NONE then PENDING_PIN else AWAITING_CLIENT),
      rq_age_seconds = of_int (max 0 (now - created_at sess) div 1000000000), rq_device_uuid = ''''\<rparr>"

subsection \<open>The phases\<close>

definition remove_session :: "pair_session \<Rightarrow> pairing \<Rightarrow> pairing" where
  "remove_session sess st = st\<lparr>map_id_sess := erase (uniqueID sess, client_address sess) (map_id_sess st)\<rparr>"

definition store_session :: "pairing_key \<Rightarrow> pair_session \<Rightarrow> pairing \<Rightarrow> pairing" where
  "store_session k sess st = st\<lparr>map_id_sess := assign k sess (map_id_sess st)\<rparr>"

definition fail_pair :: "time_point \<Rightarrow> pair_session \<Rightarrow> string \<Rightarrow> pairing \<Rightarrow> pairing \<times> ptree" where
  "fail_pair now sess msg st =
     (remove_session sess (record_pairing_outcome_locked now sess FAILED '''' st), error_tree 400 msg)"

definition getservercert ::
  "crypto_api \<Rightarrow> conf_intern \<Rightarrow> time_point \<Rightarrow> bytes \<Rightarrow> pairing_key \<Rightarrow> pair_session \<Rightarrow> pairing \<Rightarrow> pairing \<times> ptree" where
  "getservercert cr conf now pin k sess st =
     (if last_phase sess \<noteq> NONE then fail_pair now sess ''Out of order call to getservercert'' st
      else let sess1 = sess\<lparr>last_phase := GETSERVERCERT, updated_at := now\<rparr>; st1 = store_session k sess1 st in
        if length (salt sess1) < 32 then fail_pair now sess1 ''Salt too short'' st1
        else let salt16 = from_hex_array16 (take 32 (salt sess1)) True;
                 sess2 = sess1\<lparr>cipher_key := Some (gen_aes_key cr salt16 pin)\<rparr>
             in (store_session k sess2 st1,
                 paired_tree\<lparr>pt_plaincert := Some (hex_vec (servercert conf) True)\<rparr>))"

definition clientchallenge ::
  "crypto_api \<Rightarrow> conf_intern \<Rightarrow> time_point \<Rightarrow> bytes \<Rightarrow> bytes \<Rightarrow> bytes \<Rightarrow> pairing_key \<Rightarrow> pair_session
    \<Rightarrow> pairing \<Rightarrow> pairing \<times> ptree" where
  "clientchallenge cr conf now secret challenge_out challenge k sess st =
     (if last_phase sess \<noteq> GETSERVERCERT then fail_pair now sess ''Out of order call to clientchallenge'' st
      else let sess1 = sess\<lparr>last_phase := CLIENTCHALLENGE, updated_at := now\<rparr>; st1 = store_session k sess1 st in
        case cipher_key sess1 of
          None \<Rightarrow> fail_pair now sess1 ''Cipher key not set'' st1
        | Some key \<Rightarrow>
            let decrypted = ecb_decrypt cr key challenge @ x509_signature cr (servercert conf) @ secret;
                plaintext = sha256 cr decrypted @ challenge_out;
                encrypted = ecb_encrypt cr key plaintext;
                sess2 = sess1\<lparr>serversecret := secret, serverchallenge := challenge_out\<rparr>
            in (store_session k sess2 st1,
                paired_tree\<lparr>pt_challengeresponse := Some (hex_vec encrypted True)\<rparr>))"

definition serverchallengeresp ::
  "crypto_api \<Rightarrow> conf_intern \<Rightarrow> time_point \<Rightarrow> bytes \<Rightarrow> pairing_key \<Rightarrow> pair_session \<Rightarrow> pairing \<Rightarrow> pairing \<times> ptree" where
  "serverchallengeresp cr conf now encrypted_response k sess st =
     (if last_phase sess \<noteq> CLIENTCHALLENGE then fail_pair now sess ''Out of order call to serverchallengeresp'' st
      else let sess1 = sess\<lparr>last_phase := SERVERCHALLENGERESP, updated_at := now\<rparr>; st1 = store_session k sess1 st in
        if cipher_key sess1 = None \<or> serversecret sess1 = []
        then fail_pair now sess1 ''Cipher key or serversecret not set'' st1
        else let decrypted = ecb_decrypt cr (the (cipher_key sess1)) encrypted_response;
                 sess2 = sess1\<lparr>clienthash := decrypted\<rparr>;
                 secret = serversecret sess2;
                 signed = secret @ sign256 cr (pkey conf) secret
             in (store_session k sess2 st1,
                 paired_tree\<lparr>pt_pairingsecret := Some (hex_vec signed True)\<rparr>))"

definition fresh_cert :: "string \<Rightarrow> string \<Rightarrow> bytes \<Rightarrow> named_cert" where
  "fresh_cert name uuid cert = \<lparr>nc_name = name, nc_uuid = uuid, nc_cert = cert, nc_hdr_profile = [],
     nc_display_mode = [], nc_output_name_override = [], nc_virtual_display_mode_override = [],
     nc_virtual_display_layout_override = [], nc_always_use_virtual_display = False, nc_prefer_10bit_sdr = None,
     nc_last_seen = None, nc_config_overrides = []\<rparr>"

definition add_authorized_client :: "string \<Rightarrow> bytes \<Rightarrow> string \<Rightarrow> pairing \<Rightarrow> pairing" where
  "add_authorized_client name cert uuid st =
     st\<lparr>named_devices := named_devices st @ [fresh_cert name uuid cert]\<rparr>"

definition clientpairingsecret ::
  "crypto_api \<Rightarrow> time_point \<Rightarrow> string \<Rightarrow> bytes \<Rightarrow> pairing_key \<Rightarrow> pair_session \<Rightarrow> pairing \<Rightarrow> pairing \<times> ptree" where
  "clientpairingsecret cr now device_uuid client_pairing_secret k sess st =
     (if last_phase sess \<noteq> SERVERCHALLENGERESP
      then fail_pair now sess ''Out of order call to clientpairingsecret'' st
      else let sess1 = sess\<lparr>last_phase := CLIENTPAIRINGSECRET, updated_at := now\<rparr>; st1 = store_session k sess1 st in
        if length client_pairing_secret \<le> 16 then fail_pair now sess1 ''Client pairing secret too short'' st1
        else let secret = take 16 client_pairing_secret; sign = drop 16 client_pairing_secret in
          if \<not> x509_valid cr (client_cert sess1) then fail_pair now sess1 ''Invalid client certificate'' st1
          else let data = serverchallenge sess1 @ x509_signature cr (client_cert sess1) @ secret;
                   same_hash = (sha256 cr data = clienthash sess1);
                   verify = verify256 cr (client_cert sess1) secret sign
               in if same_hash \<and> verify
                  then (remove_session sess1
                          (record_pairing_outcome_locked now sess1 PAIRED device_uuid
                            (add_authorized_client (client_name sess1) (client_cert sess1) device_uuid
                              (st1\<lparr>added_certs := added_certs st1 @ [client_cert sess1]\<rparr>))),
                        empty_tree\<lparr>pt_paired := Some 1, pt_status := Some 200\<rparr>)
                  else (remove_session sess1 (record_pairing_outcome_locked now sess1 FAILED '''' st1),
                        empty_tree\<lparr>pt_paired := Some 0, pt_status := Some 200\<rparr>))"

subsection \<open>The request handler\<close>

record pair_args =
  arg_uniqueid :: "string option"
  arg_phrase :: "string option"
  arg_clientcert :: "bytes option"
  arg_salt :: "bytes option"
  arg_clientchallenge :: "bytes option"
  arg_serverchallengeresp :: "bytes option"
  arg_clientpairingsecret :: "bytes option"

record pair_env =
  env_now :: time_point
  env_address :: string
  env_connection :: nat
  env_stdin_pin :: "bytes option"
  env_new_id :: string
  env_device_uuid :: string
  env_secret :: bytes
  env_challenge :: bytes

record pair_output =
  po_reply :: "ptree option"
  po_threw :: bool
  po_expired :: "nat list"
  po_superseded :: "nat option"
  po_invalidated :: "nat option"

definition answer :: "ptree \<Rightarrow> nat list \<Rightarrow> pair_output" where
  "answer tree expired =
     \<lparr>po_reply = Some tree, po_threw = False, po_expired = expired, po_superseded = None, po_invalidated = None\<rparr>"

definition peer_pending :: "string \<Rightarrow> pairing \<Rightarrow> nat" where
  "peer_pending address st = length (filter (\<lambda>e. client_address (snd e) = address) (map_id_sess st))"

definition new_session :: "string \<Rightarrow> pair_env \<Rightarrow> pair_session" where
  "new_session uniqID env =
     \<lparr>uniqueID = uniqID, client_cert = [], client_name = '''', cipher_key = None, clienthash = [],
      serversecret = [], serverchallenge = [], held_response = None, salt = [],
      pairing_id = env_new_id env, client_address = env_address env, created_at = env_now env,
      updated_at = env_now env, phase_one_generation = 0, last_phase = NONE\<rparr>"

text \<open>The tail of phase one, once the exchange is in the map.\<close>

definition await_pin ::
  "crypto_api \<Rightarrow> conf_intern \<Rightarrow> pair_env \<Rightarrow> bytes \<Rightarrow> bytes \<Rightarrow> pairing_key \<Rightarrow> pair_session \<Rightarrow> nat option
    \<Rightarrow> nat list \<Rightarrow> pairing \<Rightarrow> pairing \<times> pair_output" where
  "await_pin cr conf env cert salt' k sess superseded expired st =
     (let sess1 = sess\<lparr>client_cert := cert, salt := salt',
            phase_one_generation := phase_one_generation sess + 1\<rparr>;
          st1 = store_session k sess1 st
      in case env_stdin_pin env of
           Some pin \<Rightarrow>
             (case getservercert cr conf (env_now env) pin k sess1 st1 of
                (st2, tree) \<Rightarrow> (st2, (answer tree expired)\<lparr>po_superseded := superseded\<rparr>))
         | None \<Rightarrow>
             (store_session k (sess1\<lparr>held_response := Some (env_connection env)\<rparr>) st1,
              (answer empty_tree expired)\<lparr>po_reply := None, po_superseded := superseded\<rparr>))"

definition pair_phase_one ::
  "crypto_api \<Rightarrow> conf_intern \<Rightarrow> pair_env \<Rightarrow> string \<Rightarrow> bytes \<Rightarrow> bytes \<Rightarrow> nat list \<Rightarrow> pairing \<Rightarrow> pairing \<times> pair_output" where
  "pair_phase_one cr conf env uniqID cert salt' expired st =
     (let now = env_now env; k = (uniqID, env_address env) in
      case map_of (map_id_sess st) k of
        Some sess \<Rightarrow>
          if last_phase sess \<noteq> NONE then
            if last_phase sess = GETSERVERCERT \<and>
               phase_one_retry_matches (client_address sess) (client_cert sess) (salt sess)
                 (env_address env) cert salt' (last_phase sess)
            then (store_session k (sess\<lparr>phase_one_generation := phase_one_generation sess + 1, updated_at := now\<rparr>) st,
                  answer (paired_tree\<lparr>pt_plaincert := Some (hex_vec (servercert conf) True)\<rparr>) expired)
            else (st, answer (error_tree 409 ''Pairing exchange already in progress'') expired)
          else if \<not> phase_one_retry_matches (client_address sess) (client_cert sess) (salt sess)
                    (env_address env) cert salt' (last_phase sess)
          then (st, answer (error_tree 409 ''Pairing request identity mismatch'') expired)
          else await_pin cr conf env cert salt' k (sess\<lparr>held_response := None, updated_at := now\<rparr>)
                 (held_response sess) expired st
      | None \<Rightarrow>
          if length (map_id_sess st) \<ge> kMaxPendingPairings
          then (st, answer (error_tree 503 ''Too many pending pairing requests'') expired)
          else if peer_pending (env_address env) st \<ge> kMaxPendingPairingsPerPeer
          then (st, answer (error_tree 503 ''Too many pending pairing requests from this peer'') expired)
          else let sess = new_session uniqID env
               in await_pin cr conf env cert salt' k sess None expired
                    (st\<lparr>map_id_sess := emplace k sess (map_id_sess st)\<rparr>))"

definition pair_later_phase ::
  "crypto_api \<Rightarrow> conf_intern \<Rightarrow> pair_env \<Rightarrow> pair_args \<Rightarrow> string \<Rightarrow> nat list \<Rightarrow> pairing \<Rightarrow> pairing \<times> pair_output" where
  "pair_later_phase cr conf env args uniqID expired st =
     (let now = env_now env; k = (uniqID, env_address env) in
      case map_of (map_id_sess st) k of
        None \<Rightarrow> (st, answer (status_tree 400 ''Invalid uniqueid'') expired)
      | Some sess \<Rightarrow>
          let detached = sess\<lparr>held_response := None\<rparr>; st' = store_session k detached st;
              finish = (\<lambda>(st'', tree). (st'', (answer tree expired)\<lparr>po_invalidated := held_response sess\<rparr>))
          in case arg_clientchallenge args of
               Some c \<Rightarrow> finish (clientchallenge cr conf now (env_secret env) (env_challenge env)
                                  (from_hex_vec c True) k detached st')
             | None \<Rightarrow>
                 (case arg_serverchallengeresp args of
                    Some r \<Rightarrow> finish (serverchallengeresp cr conf now (from_hex_vec r True) k detached st')
                  | None \<Rightarrow>
                      (case arg_clientpairingsecret args of
                         Some s \<Rightarrow> finish (clientpairingsecret cr now (env_device_uuid env)
                                            (from_hex_vec s True) k detached st')
                       | None \<Rightarrow> (st, answer (status_tree 404 ''Invalid pairing request'') expired))))"

definition pair :: "crypto_api \<Rightarrow> conf_intern \<Rightarrow> pair_env \<Rightarrow> pair_args \<Rightarrow> pairing \<Rightarrow> pairing \<times> pair_output" where
  "pair cr conf env args st =
     (case arg_uniqueid args of
        None \<Rightarrow> (st, answer (status_tree 400 ''Missing uniqueid parameter'') [])
      | Some uniqID \<Rightarrow>
          (case prune_expired_pairings_locked (env_now env) st of (st1, expired) \<Rightarrow>
             if arg_phrase args = Some ''getservercert'' then
               (case (arg_clientcert args, arg_salt args) of
                  (Some cert, Some salt') \<Rightarrow>
                    pair_phase_one cr conf env uniqID (from_hex_vec cert True) salt' expired st1
                | _ \<Rightarrow> (st1, (answer empty_tree expired)\<lparr>po_threw := True\<rparr>))
             else if arg_phrase args = Some ''pairchallenge'' then (st1, answer paired_tree expired)
             else pair_later_phase cr conf env args uniqID expired st1))"

subsection \<open>The web UI\<close>

definition state_rank :: "pairing_state_e \<Rightarrow> nat" where
  "state_rank state = (case state of PENDING_PIN \<Rightarrow> 0 | AWAITING_CLIENT \<Rightarrow> 1 | PAIRED \<Rightarrow> 2 | FAILED \<Rightarrow> 3
     | EXPIRED_STATE \<Rightarrow> 4)"

definition get_pairing_requests :: "time_point \<Rightarrow> pairing \<Rightarrow> pairing \<times> pairing_request list \<times> nat list" where
  "get_pairing_requests now st =
     (case prune_expired_pairings_locked now st of (st1, expired) \<Rightarrow>
        let requests = map (\<lambda>e. pairing_request_from_session (snd e) now) (map_id_sess st1) @
              map (\<lambda>e. (oc_request (snd e))\<lparr>rq_age_seconds :=
                     of_int (max 0 (now - oc_updated_at (snd e)) div 1000000000)\<rparr>) (pairing_outcomes st1)
        in (st1, sort_key (\<lambda>r. (state_rank (rq_state r), rq_pairing_id r)) requests, expired))"

definition is_space :: "char \<Rightarrow> bool" where
  "is_space c \<longleftrightarrow> c = CHR '' '' \<or> (9 \<le> (of_char c :: nat) \<and> of_char c \<le> (13 :: nat))"

definition trim_copy :: "string \<Rightarrow> string" where
  "trim_copy s = rev (dropWhile is_space (rev (dropWhile is_space s)))"

text \<open>Where the first critical section of \<open>submit_pin\<close> leaves the call: answered, or with a held
  response to write.\<close>

record submission =
  sub_response :: "nat option"
  sub_tree :: ptree
  sub_id :: string
  sub_generation :: u64

definition candidates_of :: "pairing \<Rightarrow> candidate list" where
  "candidates_of st = map (\<lambda>e. \<lparr>cd_pairing_id = pairing_id (snd e), awaiting_pin = (last_phase (snd e) = NONE),
     response_available = (held_response (snd e) \<noteq> None)\<rparr>) (map_id_sess st)"

definition outcome_result :: "string \<Rightarrow> pairing \<Rightarrow> pin_result_e option" where
  "outcome_result i st =
     (case map_of (pairing_outcomes st) i of
        None \<Rightarrow> None
      | Some oc \<Rightarrow>
          let result = outcome_pin_result (rq_state (oc_request oc))
          in if result \<noteq> UNKNOWN_PAIRING_ID then Some result else None)"

definition submit_pin_begin ::
  "crypto_api \<Rightarrow> conf_intern \<Rightarrow> time_point \<Rightarrow> bytes \<Rightarrow> string \<Rightarrow> string option \<Rightarrow> pairing
    \<Rightarrow> pairing \<times> ((pin_result_e \<times> string) + submission) \<times> nat list" where
  "submit_pin_begin cr conf now pin name pid st =
     (if \<not> valid_pin pin then (st, Inl (INVALID_PIN, ''''), [])
      else case prune_expired_pairings_locked now st of (st1, expired) \<Rightarrow>
        case select_candidate (candidates_of st1) pid of (result, i) \<Rightarrow>
          let known = (if result = UNKNOWN_PAIRING_ID \<and> pid \<noteq> None then outcome_result (the pid) st1 else None)
          in if known \<noteq> None then (st1, Inl (the known, the pid), expired)
             else if result \<noteq> PIN_DELIVERED then (st1, Inl (result, i), expired)
             else case find (\<lambda>e. pairing_id (snd e) = i) (map_id_sess st1) of
                    None \<Rightarrow> (st1, Inl (UNKNOWN_PAIRING_ID, i), expired)
                  | Some (k, sess) \<Rightarrow>
                      let sess1 = sess\<lparr>held_response := None, client_name := trim_copy name\<rparr>;
                          st2 = store_session k sess1 st1
                      in case getservercert cr conf now pin k sess1 st2 of (st3, tree) \<Rightarrow>
                           (st3, Inr \<lparr>sub_response = held_response sess, sub_tree = tree,
                              sub_id = pairing_id sess, sub_generation = phase_one_generation sess\<rparr>, expired))"

definition submit_pin_finish ::
  "time_point \<Rightarrow> submission \<Rightarrow> bool \<Rightarrow> pairing \<Rightarrow> pairing \<times> pin_result_e \<times> string" where
  "submit_pin_finish now sub written st =
     (if \<not> written then
        (case find (\<lambda>e. pairing_id (snd e) = sub_id sub) (map_id_sess st) of
           Some (k, sess) \<Rightarrow>
             if phase_one_delivery_is_current (last_phase sess) (phase_one_generation sess) (sub_generation sub)
             then ((record_pairing_outcome_locked now sess FAILED '''' st)\<lparr>map_id_sess := erase k (map_id_sess st)\<rparr>,
                   DELIVERY_FAILED, sub_id sub)
             else (st, ALREADY_SUBMITTED, sub_id sub)
         | None \<Rightarrow>
             (case outcome_result (sub_id sub) st of
                Some result \<Rightarrow> (st, result, sub_id sub)
              | None \<Rightarrow> (st, DELIVERY_FAILED, sub_id sub)))
      else if pt_paired (sub_tree sub) \<noteq> Some 1 then (st, PAIRING_FAILED, sub_id sub)
      else (st, PIN_DELIVERED, sub_id sub))"

text \<open>Undisturbed by other threads, the call is both sections in a row; the write succeeds only on a
  response that is there.\<close>

definition submit_pin ::
  "crypto_api \<Rightarrow> conf_intern \<Rightarrow> time_point \<Rightarrow> bool \<Rightarrow> bytes \<Rightarrow> string \<Rightarrow> string option \<Rightarrow> pairing
    \<Rightarrow> pairing \<times> pin_result_e \<times> string" where
  "submit_pin cr conf now connected pin name pid st =
     (case submit_pin_begin cr conf now pin name pid st of
        (st1, Inl result, _) \<Rightarrow> (st1, result)
      | (st1, Inr sub, _) \<Rightarrow> submit_pin_finish now sub (sub_response sub \<noteq> None \<and> connected) st1)"

text \<open>The threads: each operation is one critical section, in any order.\<close>

datatype pairing_op = Pair pair_env pair_args
  | SubmitBegin time_point bytes string "string option"
  | SubmitFinish time_point submission bool
  | ListRequests time_point

definition pairing_step :: "crypto_api \<Rightarrow> conf_intern \<Rightarrow> pairing \<Rightarrow> pairing_op \<Rightarrow> pairing \<times> unit" where
  "pairing_step cr conf st op =
     (case op of
        Pair env args \<Rightarrow> fst (pair cr conf env args st)
      | SubmitBegin now pin name pid \<Rightarrow> fst (submit_pin_begin cr conf now pin name pid st)
      | SubmitFinish now sub written \<Rightarrow> fst (submit_pin_finish now sub written st)
      | ListRequests now \<Rightarrow> fst (get_pairing_requests now st), ())"

subsection \<open>The table of pending exchanges\<close>

abbreviation key_of :: "pair_session \<Rightarrow> pairing_key" where
  "key_of s \<equiv> (uniqueID s, client_address s)"

definition table_ok :: "(pair_session \<Rightarrow> bool) \<Rightarrow> pairing \<Rightarrow> bool" where
  "table_ok Q st \<longleftrightarrow> distinct (map fst (map_id_sess st)) \<and>
     (\<forall>(k, s) \<in> set (map_id_sess st). k = key_of s \<and> Q s)"

definition bounded :: "pairing \<Rightarrow> bool" where
  "bounded st \<longleftrightarrow> length (map_id_sess st) \<le> kMaxPendingPairings \<and>
     (\<forall>a. peer_pending a st \<le> kMaxPendingPairingsPerPeer) \<and>
     length (pairing_outcomes st) + length (map_id_sess st) \<le> kMaxPairingOutcomes + kMaxPendingPairings"

lemma map_fst_assign [simp]: "map fst (assign k v m) = map fst m"
  by (induction m) (auto simp: assign_def)

lemma length_assign [simp]: "length (assign k v m) = length m"
  by (simp add: assign_def)

lemma set_assign: "set (assign k v m) \<subseteq> insert (k, v) {e \<in> set m. fst e \<noteq> k}"
  by (auto simp: assign_def)

lemma assign_assign [simp]: "assign k v (assign k u m) = assign k v m"
  by (induction m) (auto simp: assign_def)

lemma erase_assign [simp]: "erase k (assign k v m) = erase k m"
  by (induction m) (auto simp: assign_def erase_def)

lemma map_of_assign: "map_of (assign k v m) k = (if k \<in> fst ` set m then Some v else None)"
  by (induction m) (auto simp: assign_def)

lemma length_insert_or_assign: "length (insert_or_assign k v m) \<le> Suc (length m)"
  by (simp add: insert_or_assign_def)

lemma store_store [simp]: "store_session k s' (store_session k s st) = store_session k s' st"
  by (simp add: store_session_def)

lemma record_outcome_frame [simp]:
  "map_id_sess (record_pairing_outcome_locked now s e u st) = map_id_sess st"
  "named_devices (record_pairing_outcome_locked now s e u st) = named_devices st"
  "added_certs (record_pairing_outcome_locked now s e u st) = added_certs st"
  by (simp_all add: record_pairing_outcome_locked_def)

lemma record_outcome_length:
  "length (pairing_outcomes (record_pairing_outcome_locked now s e u st)) \<le> Suc (length (pairing_outcomes st))"
  by (simp add: record_pairing_outcome_locked_def length_insert_or_assign)

lemma drop_oldest_length: "length (drop_oldest m) \<le> kMaxPairingOutcomes"
  by (induction m rule: drop_oldest.induct) (subst drop_oldest.simps, simp)

lemma prune_outcomes_length: "length (prune_pairing_outcomes_locked now m) \<le> kMaxPairingOutcomes"
  by (simp add: prune_pairing_outcomes_locked_def drop_oldest_length)

lemma fold_record_frame:
  "map_id_sess (fold (\<lambda>e. record_pairing_outcome_locked now (snd e) x u) es st) = map_id_sess st \<and>
   named_devices (fold (\<lambda>e. record_pairing_outcome_locked now (snd e) x u) es st) = named_devices st \<and>
   added_certs (fold (\<lambda>e. record_pairing_outcome_locked now (snd e) x u) es st) = added_certs st"
  by (induction es arbitrary: st) simp_all

lemma prune_frame:
  assumes "prune_expired_pairings_locked now st = (st1, expired)"
  shows "map_id_sess st1 = filter (\<lambda>e. \<not> session_expired (updated_at (snd e)) now) (map_id_sess st)"
    and "named_devices st1 = named_devices st" and "added_certs st1 = added_certs st"
    and "length (pairing_outcomes st1) \<le> kMaxPairingOutcomes"
  using assms by (auto simp: prune_expired_pairings_locked_def Let_def fold_record_frame prune_outcomes_length)

lemma table_ok_filter:
  "table_ok Q st \<Longrightarrow> map_id_sess st1 = filter P (map_id_sess st) \<Longrightarrow> table_ok Q st1"
  by (auto simp: table_ok_def distinct_map_filter)

lemma prune_table_ok:
  "\<lbrakk>prune_expired_pairings_locked now st = (st1, expired); table_ok Q st\<rbrakk> \<Longrightarrow> table_ok Q st1"
  using table_ok_filter prune_frame(1) by metis

lemma prune_bounded:
  assumes "prune_expired_pairings_locked now st = (st1, expired)" and "bounded st"
  shows "bounded st1"
proof -
  note f = prune_frame [OF assms(1)]
  have "length (map_id_sess st1) \<le> kMaxPendingPairings"
    using assms(2) f(1) by (metis bounded_def le_trans length_filter_le)
  moreover have "peer_pending a st1 \<le> kMaxPendingPairingsPerPeer" for a
  proof -
    have "peer_pending a st1 \<le> peer_pending a st"
      unfolding peer_pending_def f(1) filter_filter
      by (rule order_trans [OF _ length_filter_le [of "\<lambda>e. \<not> session_expired (updated_at (snd e)) now"]])
        (simp add: conj_commute filter_filter)
    with assms(2) show ?thesis by (meson bounded_def le_trans)
  qed
  ultimately show ?thesis using f(4) by (simp add: bounded_def)
qed

lemma table_ok_lookup:
  "\<lbrakk>table_ok Q st; map_of (map_id_sess st) k = Some s\<rbrakk> \<Longrightarrow> k = key_of s \<and> Q s"
  by (auto simp: table_ok_def dest: map_of_SomeD)

lemma table_ok_store:
  "\<lbrakk>table_ok Q st; k = key_of s; Q s\<rbrakk> \<Longrightarrow> table_ok Q (store_session k s st)"
  using set_assign [of k s "map_id_sess st"] by (auto simp: table_ok_def store_session_def)

lemma table_ok_remove: "table_ok Q st \<Longrightarrow> table_ok Q (remove_session s st)"
  by (rule table_ok_filter) (auto simp: remove_session_def erase_def)

lemma peer_pending_store:
  assumes "map_of (map_id_sess st) k = Some s" and "distinct (map fst (map_id_sess st))"
    and "client_address s' = client_address s"
  shows "peer_pending a (store_session k s' st) = peer_pending a st"
proof -
  have "length (filter (\<lambda>e. client_address (snd e) = a) (assign k s' m)) =
      length (filter (\<lambda>e. client_address (snd e) = a) m)"
    if "\<forall>e \<in> set m. fst e = k \<longrightarrow> snd e = s" for m
    using that by (induction m) (auto simp: assign_def assms(3))
  moreover have "\<forall>e \<in> set (map_id_sess st). fst e = k \<longrightarrow> snd e = s"
    using assms(1,2) by (metis map_of_is_SomeI option.inject prod.collapse)
  ultimately show ?thesis by (simp add: peer_pending_def store_session_def)
qed

definition pairing_inv :: "(pair_session \<Rightarrow> bool) \<Rightarrow> pairing \<Rightarrow> bool" where
  "pairing_inv Q st \<longleftrightarrow> table_ok Q st \<and> bounded st"

lemma prune_inv:
  "\<lbrakk>prune_expired_pairings_locked now st = (st1, expired); pairing_inv Q st\<rbrakk> \<Longrightarrow> pairing_inv Q st1"
  by (simp add: pairing_inv_def prune_table_ok prune_bounded)

lemma store_inv:
  assumes "pairing_inv Q st" and "map_of (map_id_sess st) k = Some s" and "key_of s' = k" and "Q s'"
  shows "pairing_inv Q (store_session k s' st)"
proof -
  have inv: "table_ok Q st" "bounded st" using assms(1) by (simp_all add: pairing_inv_def)
  have "key_of s' = key_of s" using table_ok_lookup [OF inv(1) assms(2)] assms(3) by blast
  then have "peer_pending a (store_session k s' st) = peer_pending a st" for a
    using inv(1) by (intro peer_pending_store [OF assms(2)]) (auto simp: table_ok_def)
  with inv(2) have "bounded (store_session k s' st)"
    by (simp add: bounded_def) (simp add: store_session_def)
  moreover have "table_ok Q (store_session k s' st)"
    by (rule table_ok_store [OF inv(1) assms(3) [symmetric] assms(4)])
  ultimately show ?thesis by (simp add: pairing_inv_def)
qed

lemma drop_inv:
  assumes "pairing_inv Q st" and "map_of (map_id_sess st) k = Some s"
    and "map_id_sess st' = erase k (map_id_sess st)"
    and "length (pairing_outcomes st') \<le> Suc (length (pairing_outcomes st))"
  shows "pairing_inv Q st'"
proof -
  have "length (map_id_sess st') < length (map_id_sess st)"
    using length_erase_less [OF map_of_SomeD [OF assms(2)]] assms(3) by simp
  moreover have "peer_pending a st' \<le> peer_pending a st" for a
    unfolding peer_pending_def assms(3) erase_def filter_filter
    by (rule order_trans [OF _ length_filter_le [of "\<lambda>e. fst e \<noteq> k"]]) (simp add: conj_commute filter_filter)
  moreover have "table_ok Q st'"
    using assms(1,3) by (auto simp: pairing_inv_def erase_def intro: table_ok_filter)
  ultimately show ?thesis
    using assms(1,4) by (simp add: pairing_inv_def bounded_def) (meson le_trans)
qed

lemma session_frame [simp]:
  "map_id_sess (remove_session s st) = erase (key_of s) (map_id_sess st)"
  "pairing_outcomes (remove_session s st) = pairing_outcomes st"
  "named_devices (remove_session s st) = named_devices st"
  "map_id_sess (store_session k s st) = assign k s (map_id_sess st)"
  "pairing_outcomes (store_session k s st) = pairing_outcomes st"
  "named_devices (store_session k s st) = named_devices st"
  "map_id_sess (add_authorized_client n c u st) = map_id_sess st"
  "pairing_outcomes (add_authorized_client n c u st) = pairing_outcomes st"
  "named_devices (add_authorized_client n c u st) =
     named_devices st @ [fresh_cert n u c]"
  by (simp_all add: remove_session_def store_session_def add_authorized_client_def)

lemma fail_after_store [simp]:
  "key_of s = k \<Longrightarrow> fail_pair now s msg (store_session k s' st) = fail_pair now s msg st"
  by (auto simp: fail_pair_def remove_session_def store_session_def record_pairing_outcome_locked_def)

lemma fail_frame [simp]:
  "named_devices (fst (fail_pair now s msg st)) = named_devices st"
  "added_certs (fst (fail_pair now s msg st)) = added_certs st"
  by (simp_all add: fail_pair_def remove_session_def)

lemma fail_inv:
  "\<lbrakk>pairing_inv Q st; map_of (map_id_sess st) (key_of s) = Some s'\<rbrakk> \<Longrightarrow> pairing_inv Q (fst (fail_pair now s msg st))"
  by (rule drop_inv) (auto simp: fail_pair_def remove_session_def record_outcome_length)

lemma settle_inv:
  assumes "pairing_inv Q st" and "map_of (map_id_sess st) (key_of s) = Some s0"
    and "erase (key_of s) (map_id_sess st1) = erase (key_of s) (map_id_sess st)"
    and "pairing_outcomes st1 = pairing_outcomes st"
  shows "pairing_inv Q (remove_session s (record_pairing_outcome_locked now s e u st1))"
  using assms(3,4) record_outcome_length [of now s e u st1] by (intro drop_inv [OF assms(1,2)]) simp_all

subsection \<open>What an exchange has proved\<close>

text \<open>An exchange past phase one holds the key derived from a PIN given for it, and past phase three the
  hash the client sent under that key. No exchange rests in the last phase.\<close>

definition sess_ok :: "crypto_api \<Rightarrow> (string \<times> bytes) set \<Rightarrow> pair_session \<Rightarrow> bool" where
  "sess_ok cr pins s \<longleftrightarrow> last_phase s \<noteq> CLIENTPAIRINGSECRET \<and>
     (last_phase s \<noteq> NONE \<longrightarrow> (\<exists>pin. (pairing_id s, pin) \<in> pins \<and>
        cipher_key s = Some (gen_aes_key cr (from_hex_array16 (take 32 (salt s)) True) pin))) \<and>
     (last_phase s = SERVERCHALLENGERESP \<longrightarrow>
        (\<exists>resp. clienthash s = ecb_decrypt cr (the (cipher_key s)) resp))"

lemma sess_ok_mono: "sess_ok cr pins s \<Longrightarrow> pins \<subseteq> pins' \<Longrightarrow> sess_ok cr pins' s"
  unfolding sess_ok_def by blast

lemma pairing_inv_mono: "pairing_inv Q st \<Longrightarrow> (\<And>s. Q s \<Longrightarrow> Q' s) \<Longrightarrow> pairing_inv Q' st"
  by (auto simp: pairing_inv_def table_ok_def)

lemma getservercert_inv:
  assumes "pairing_inv (sess_ok cr pins) st" and "map_of (map_id_sess st) k = Some s"
    and "key_of s' = key_of s" and "(pairing_id s', pin) \<in> pins"
  shows "pairing_inv (sess_ok cr pins) (fst (getservercert cr conf now pin k s' st))"
proof -
  have k: "key_of s = k" using table_ok_lookup assms(1,2) by (metis pairing_inv_def)
  show ?thesis
    using assms(2-) k
    by (auto simp: getservercert_def Let_def sess_ok_def intro!: fail_inv [OF assms(1)] store_inv [OF assms(1)])
qed

lemma clientchallenge_inv:
  assumes "pairing_inv (sess_ok cr pins) st" and "map_of (map_id_sess st) k = Some s0"
    and "key_of s = key_of s0" and "sess_ok cr pins s"
  shows "pairing_inv (sess_ok cr pins) (fst (clientchallenge cr conf now sec out ch k s st))"
proof -
  have k: "key_of s0 = k" using table_ok_lookup assms(1,2) by (metis pairing_inv_def)
  show ?thesis
    using assms(2-) k
    by (auto simp: clientchallenge_def Let_def sess_ok_def split: option.splits
        intro!: fail_inv [OF assms(1)] store_inv [OF assms(1)])
qed

lemma serverchallengeresp_inv:
  assumes "pairing_inv (sess_ok cr pins) st" and "map_of (map_id_sess st) k = Some s0"
    and "key_of s = key_of s0" and "sess_ok cr pins s"
  shows "pairing_inv (sess_ok cr pins) (fst (serverchallengeresp cr conf now r k s st))"
proof -
  have k: "key_of s0 = k" using table_ok_lookup assms(1,2) by (metis pairing_inv_def)
  show ?thesis
    using assms(2-) k
    by (auto simp: serverchallengeresp_def Let_def sess_ok_def intro!: fail_inv [OF assms(1)] store_inv [OF assms(1)])
qed

lemma clientpairingsecret_inv:
  assumes "pairing_inv (sess_ok cr pins) st" and "map_of (map_id_sess st) k = Some s0"
    and "key_of s = key_of s0"
  shows "pairing_inv (sess_ok cr pins) (fst (clientpairingsecret cr now u sec k s st))"
proof -
  have k: "key_of s0 = k" using table_ok_lookup assms(1,2) by (metis pairing_inv_def)
  show ?thesis
    using assms(2-) k
    by (auto simp: clientpairingsecret_def Let_def
        intro!: fail_inv [OF assms(1)] settle_inv [OF assms(1)])
qed

subsection \<open>Every operation keeps the invariant\<close>

lemma insort_key_emplace:
  shows "set (emplace k v m) = insert (k, v) (set m)"
    and "length (emplace k v m) = Suc (length m)"
    and "distinct (map fst (emplace k v m)) \<longleftrightarrow> k \<notin> fst ` set m \<and> distinct (map fst m)"
    and "length (filter P (emplace k v m)) = length (filter P m) + (if P (k, v) then 1 else 0)"
  unfolding emplace_def by (induction m) (auto simp: set_insort_key)

lemma emplace_inv:
  assumes "pairing_inv Q st" and "map_of (map_id_sess st) (key_of s) = None"
    and "length (map_id_sess st) < kMaxPendingPairings"
    and "peer_pending (client_address s) st < kMaxPendingPairingsPerPeer"
    and "length (pairing_outcomes st) \<le> kMaxPairingOutcomes" and "Q s"
  shows "pairing_inv Q (st\<lparr>map_id_sess := emplace (key_of s) s (map_id_sess st)\<rparr>)"
proof -
  have "peer_pending a (st\<lparr>map_id_sess := emplace (key_of s) s (map_id_sess st)\<rparr>) \<le> kMaxPendingPairingsPerPeer" for a
    using assms(1,4) by (auto simp: peer_pending_def insort_key_emplace pairing_inv_def bounded_def)
  moreover have "key_of s \<notin> fst ` set (map_id_sess st)" using assms(2) by (simp add: map_of_eq_None_iff)
  ultimately show ?thesis
    using assms by (auto simp: pairing_inv_def bounded_def table_ok_def insort_key_emplace)
qed

lemma lookup_store:
  "map_of (map_id_sess st) k = Some s0 \<Longrightarrow> map_of (map_id_sess (store_session k s st)) k = Some s"
  by (auto simp: map_of_assign dest!: map_of_SomeD) (metis fst_conv image_eqI)

lemma await_pin_inv:
  assumes "pairing_inv (sess_ok cr pins) st" and "map_of (map_id_sess st) k = Some s0"
    and "key_of s = k" and "last_phase s = NONE"
    and "\<And>pin. env_stdin_pin env = Some pin \<Longrightarrow> (pairing_id s, pin) \<in> pins"
  shows "pairing_inv (sess_ok cr pins) (fst (await_pin cr conf env cert salt' k s superseded expired st))"
proof -
  let ?s = "s\<lparr>client_cert := cert, salt := salt', phase_one_generation := phase_one_generation s + 1\<rparr>"
  have none: "sess_ok cr pins t" if "last_phase t = NONE" for t using that by (simp add: sess_ok_def)
  have inv: "pairing_inv (sess_ok cr pins) (store_session k ?s st)"
    using assms by (intro store_inv [OF assms(1,2)] none) simp_all
  show ?thesis
  proof (cases "env_stdin_pin env")
    case None
    then show ?thesis
      using assms(2-4) by (auto simp: await_pin_def Let_def intro!: store_inv [OF assms(1)] none)
  next
    case (Some pin)
    then show ?thesis
      using getservercert_inv [OF inv lookup_store [OF assms(2)], of ?s pin] assms(3,5)
      by (simp add: await_pin_def Let_def split_beta)
  qed
qed

text \<open>The exchange a first phase waits for a PIN for: the one of its peer under its name, or the new one.\<close>

definition asked_exchange :: "pair_env \<Rightarrow> string \<Rightarrow> bytes \<Rightarrow> bytes \<Rightarrow> pairing \<Rightarrow> string option" where
  "asked_exchange env uid cert salt' st =
     (case map_of (map_id_sess st) (uid, env_address env) of
        Some s \<Rightarrow>
          if last_phase s = NONE \<and>
             phase_one_retry_matches (client_address s) (client_cert s) (salt s) (env_address env) cert salt' NONE
          then Some (pairing_id s) else None
      | None \<Rightarrow>
          if length (map_id_sess st) < kMaxPendingPairings \<and> peer_pending (env_address env) st < kMaxPendingPairingsPerPeer
          then Some (env_new_id env) else None)"

lemma phase_one_inv:
  assumes inv: "pairing_inv (sess_ok cr pins) st" and out: "length (pairing_outcomes st) \<le> kMaxPairingOutcomes"
    and pin: "\<And>i pin. env_stdin_pin env = Some pin \<Longrightarrow> asked_exchange env uid cert salt' st = Some i \<Longrightarrow> (i, pin) \<in> pins"
  shows "pairing_inv (sess_ok cr pins) (fst (pair_phase_one cr conf env uid cert salt' expired st))"
proof (cases "map_of (map_id_sess st) (uid, env_address env)")
  case None
  let ?s = "new_session uid env"
  have key: "key_of ?s = (uid, env_address env)" and phase: "last_phase ?s = NONE"
    by (simp_all add: new_session_def)
  show ?thesis
  proof (cases "kMaxPendingPairings \<le> length (map_id_sess st) \<or>
      kMaxPendingPairingsPerPeer \<le> peer_pending (env_address env) st")
    case True
    with None inv show ?thesis by (auto simp: pair_phase_one_def Let_def)
  next
    case False
    let ?st = "st\<lparr>map_id_sess := emplace (key_of ?s) ?s (map_id_sess st)\<rparr>"
    have "pairing_inv (sess_ok cr pins) ?st"
      using None False out key phase
      by (intro emplace_inv inv) (simp_all add: sess_ok_def)
    moreover have "map_of (map_id_sess ?st) (key_of ?s) = Some ?s"
      using calculation insort_key_emplace(1) [of "key_of ?s" ?s "map_id_sess st"]
      by (intro map_of_is_SomeI) (simp_all add: pairing_inv_def table_ok_def)
    ultimately have "pairing_inv (sess_ok cr pins)
        (fst (await_pin cr conf env cert salt' (key_of ?s) ?s None expired ?st))"
      using phase pin None False
      by (intro await_pin_inv) (simp_all add: asked_exchange_def not_le, simp_all add: new_session_def)
    with None False key show ?thesis by (simp add: pair_phase_one_def Let_def)
  qed
next
  case (Some s)
  then have s: "key_of s = (uid, env_address env)" "sess_ok cr pins s"
    using table_ok_lookup inv by (metis pairing_inv_def)+
  have retried: "pairing_inv (sess_ok cr pins) (store_session (uid, env_address env)
      (s\<lparr>phase_one_generation := phase_one_generation s + 1, updated_at := env_now env\<rparr>) st)"
    using s by (intro store_inv [OF inv Some]) (auto simp: sess_ok_def)
  have "pairing_inv (sess_ok cr pins) (fst (await_pin cr conf env cert salt' (uid, env_address env)
      (s\<lparr>held_response := None, updated_at := env_now env\<rparr>) (held_response s) expired st))"
    if "last_phase s = NONE"
      "phase_one_retry_matches (client_address s) (client_cert s) (salt s) (env_address env) cert salt' (last_phase s)"
    using that s pin Some by (intro await_pin_inv [OF inv Some]) (simp_all add: asked_exchange_def)
  with retried Some inv show ?thesis by (simp add: pair_phase_one_def Let_def)
qed

lemma later_phase_inv:
  assumes inv: "pairing_inv (sess_ok cr pins) st"
  shows "pairing_inv (sess_ok cr pins) (fst (pair_later_phase cr conf env args uid expired st))"
proof (cases "map_of (map_id_sess st) (uid, env_address env)")
  case None
  with inv show ?thesis by (simp add: pair_later_phase_def)
next
  case (Some s)
  let ?k = "(uid, env_address env)" and ?s = "s\<lparr>held_response := None\<rparr>"
  have s: "key_of s = ?k" "sess_ok cr pins s"
    using Some table_ok_lookup inv by (metis pairing_inv_def)+
  have ok: "sess_ok cr pins ?s" using s(2) by (simp add: sess_ok_def)
  have st: "pairing_inv (sess_ok cr pins) (store_session ?k ?s st)"
    using s(1) ok by (intro store_inv [OF inv Some]) simp_all
  note phases = clientchallenge_inv [OF st lookup_store [OF Some] refl ok]
    serverchallengeresp_inv [OF st lookup_store [OF Some] refl ok]
    clientpairingsecret_inv [OF st lookup_store [OF Some] refl]
  show ?thesis
    using Some inv phases by (simp add: pair_later_phase_def Let_def split_beta split: option.splits)
qed

text \<open>The PINs an operation gives, and to which exchange: the web UI gives its PIN to the exchange it
  selected, the console to the exchange that the first phase of a request waits for.\<close>

definition pin_given :: "crypto_api \<Rightarrow> conf_intern \<Rightarrow> pairing \<Rightarrow> pairing_op \<Rightarrow> (string \<times> bytes) set" where
  "pin_given cr conf st op =
     (case op of
        Pair env args \<Rightarrow>
          {(i, pin). env_stdin_pin env = Some pin \<and> arg_phrase args = Some ''getservercert'' \<and>
             (\<exists>uid cert salt'. arg_uniqueid args = Some uid \<and> arg_clientcert args = Some cert \<and> arg_salt args = Some salt' \<and>
                asked_exchange env uid (from_hex_vec cert True) salt' (fst (prune_expired_pairings_locked (env_now env) st)) = Some i)}
      | SubmitBegin now pin name pid \<Rightarrow>
          {(i, pin') |i pin'. pin' = pin \<and> valid_pin pin \<and>
             (\<exists>sub. fst (snd (submit_pin_begin cr conf now pin name pid st)) = Inr sub \<and> sub_id sub = i)}
      | _ \<Rightarrow> {})"

lemma more_pins_inv:
  "pairing_inv (sess_ok cr pins) st \<Longrightarrow> pairing_inv (sess_ok cr (pins \<union> extra)) st"
  by (erule pairing_inv_mono, erule sess_ok_mono, rule Un_upper1)

lemma pair_inv:
  assumes "pairing_inv (sess_ok cr pins) st"
  shows "pairing_inv (sess_ok cr (pins \<union> pin_given cr conf st (Pair env args))) (fst (pair cr conf env args st))"
    (is "pairing_inv (sess_ok cr ?pins) _")
proof -
  have inv: "pairing_inv (sess_ok cr ?pins) st"
    by (rule more_pins_inv [OF assms])
  obtain st1 expired where prune: "prune_expired_pairings_locked (env_now env) st = (st1, expired)"
    by (meson surj_pair)
  have inv1: "pairing_inv (sess_ok cr ?pins) st1" by (rule prune_inv [OF prune inv])
  have "pairing_inv (sess_ok cr ?pins) (fst (pair_phase_one cr conf env uid (from_hex_vec cert True) salt' expired st1))"
    if "arg_phrase args = Some ''getservercert''" "arg_uniqueid args = Some uid" "arg_clientcert args = Some cert"
      "arg_salt args = Some salt'" for uid cert salt'
    using that by (intro phase_one_inv [OF inv1 prune_frame(4) [OF prune]]) (simp add: pin_given_def prune)
  then show ?thesis
    using inv inv1 later_phase_inv [OF inv1] by (simp add: pair_def prune split: option.splits)
qed

lemma submit_begin_inv:
  assumes "pairing_inv (sess_ok cr pins) st"
  shows "pairing_inv (sess_ok cr (pins \<union> pin_given cr conf st (SubmitBegin now pin name pid)))
    (fst (submit_pin_begin cr conf now pin name pid st))" (is "pairing_inv (sess_ok cr ?pins) _")
proof -
  have inv: "pairing_inv (sess_ok cr ?pins) st"
    by (rule more_pins_inv [OF assms])
  obtain st1 expired where prune: "prune_expired_pairings_locked now st = (st1, expired)"
    by (meson surj_pair)
  have inv1: "pairing_inv (sess_ok cr ?pins) st1" by (rule prune_inv [OF prune inv])
  obtain r i where sel: "select_candidate (candidates_of st1) pid = (r, i)" by (meson surj_pair)
  let ?known = "if r = UNKNOWN_PAIRING_ID \<and> pid \<noteq> None then outcome_result (the pid) st1 else None"
  show ?thesis
  proof (cases "valid_pin pin \<and> ?known = None \<and> r = PIN_DELIVERED \<and>
      find (\<lambda>e. pairing_id (snd e) = i) (map_id_sess st1) \<noteq> None")
    case False
    then show ?thesis
      using inv inv1 by (cases "find (\<lambda>e. pairing_id (snd e) = i) (map_id_sess st1)")
        (auto simp: submit_pin_begin_def prune sel Let_def)
  next
    case True
    then obtain k s where found: "find (\<lambda>e. pairing_id (snd e) = i) (map_id_sess st1) = Some (k, s)" by auto
    let ?s = "s\<lparr>held_response := None, client_name := trim_copy name\<rparr>"
    have "(k, s) \<in> set (map_id_sess st1)" using found by (auto simp: find_Some_iff)
    then have k: "map_of (map_id_sess st1) k = Some s" and key: "key_of s = k" and ok: "sess_ok cr ?pins s"
      using inv1 by (auto simp: pairing_inv_def table_ok_def)
    have st: "pairing_inv (sess_ok cr ?pins) (store_session k ?s st1)"
      using key ok by (intro store_inv [OF inv1 k]) (simp_all add: sess_ok_def)
    have run: "submit_pin_begin cr conf now pin name pid st =
        (fst (getservercert cr conf now pin k ?s (store_session k ?s st1)),
         Inr \<lparr>sub_response = held_response s, sub_tree = snd (getservercert cr conf now pin k ?s (store_session k ?s st1)),
              sub_id = pairing_id s, sub_generation = phase_one_generation s\<rparr>, expired)"
      using True by (auto simp: submit_pin_begin_def prune sel found Let_def split_beta)
    have "(pairing_id s, pin) \<in> ?pins" using True by (simp add: pin_given_def run)
    then show ?thesis
      using getservercert_inv [OF st lookup_store [OF k], of ?s pin] by (simp add: run)
  qed
qed

lemma submit_finish_inv:
  assumes "pairing_inv Q st"
  shows "pairing_inv Q (fst (submit_pin_finish now sub written st))"
proof -
  have "pairing_inv Q ((record_pairing_outcome_locked now s FAILED u st)\<lparr>map_id_sess := erase k (map_id_sess st)\<rparr>)"
    if "find P (map_id_sess st) = Some (k, s)" for P k s u
  proof -
    have "(k, s) \<in> set (map_id_sess st)" using that by (auto simp: find_Some_iff)
    then have "map_of (map_id_sess st) k = Some s" using assms by (simp add: pairing_inv_def table_ok_def)
    then show ?thesis using record_outcome_length by (intro drop_inv [OF assms]) simp_all
  qed
  with assms show ?thesis by (auto simp: submit_pin_finish_def split: option.splits)
qed

lemma step_pairing_inv:
  assumes "pairing_inv (sess_ok cr pins) st"
  shows "pairing_inv (sess_ok cr (pins \<union> pin_given cr conf st op)) (fst (pairing_step cr conf st op))"
proof (cases op)
  case (Pair env args)
  then show ?thesis using pair_inv [OF assms] by (simp add: pairing_step_def)
next
  case (SubmitBegin now pin name pid)
  then show ?thesis using submit_begin_inv [OF assms] by (simp add: pairing_step_def)
next
  case (SubmitFinish now sub written)
  then show ?thesis using submit_finish_inv [OF assms] by (simp add: pairing_step_def pin_given_def)
next
  case (ListRequests now)
  obtain st1 expired where "prune_expired_pairings_locked now st = (st1, expired)" by (meson surj_pair)
  with ListRequests prune_inv [OF this assms] show ?thesis
    by (simp add: pairing_step_def get_pairing_requests_def pin_given_def)
qed

interpretation pairing_run: machine_invariant "pairing_step cr conf" "\<lambda>st. \<exists>pins. pairing_inv (sess_ok cr pins) st" for cr conf
  by unfold_locales (blast intro: step_pairing_inv)

text \<open>Every PIN given along a run, with the exchange it was given to.\<close>

definition pins_given :: "crypto_api \<Rightarrow> conf_intern \<Rightarrow> pairing \<Rightarrow> pairing_op list \<Rightarrow> (string \<times> bytes) set" where
  "pins_given cr conf st ops =
     (\<Union>n < length ops. pin_given cr conf (machine_state (pairing_step cr conf) st (take n ops)) (ops ! n))"

lemma pins_given_snoc:
  "pins_given cr conf st (ops @ [op]) =
     pins_given cr conf st ops \<union> pin_given cr conf (machine_state (pairing_step cr conf) st ops) op"
  by (auto simp: pins_given_def nth_append lessThan_Suc)

lemma init_pairing_inv: "pairing_inv Q pairing_init"
  by (simp add: pairing_inv_def table_ok_def bounded_def peer_pending_def pairing_init_def kMaxPendingPairings_def
      kMaxPairingOutcomes_def)

lemma run_pairing_inv:
  "pairing_inv (sess_ok cr (pins_given cr conf pairing_init ops)) (machine_state (pairing_step cr conf) pairing_init ops)"
proof (induction ops rule: rev_induct)
  case Nil
  show ?case using init_pairing_inv by simp
next
  case (snoc op ops)
  from step_pairing_inv [OF snoc, of conf op] show ?case by (simp add: pins_given_snoc)
qed

subsection \<open>Who is authorized\<close>

lemma getservercert_devices [simp]: "named_devices (fst (getservercert cr conf now pin k s st)) = named_devices st"
  by (simp add: getservercert_def Let_def)

lemma challenge_devices [simp]:
  "named_devices (fst (clientchallenge cr conf now sec out ch k s st)) = named_devices st"
  "named_devices (fst (serverchallengeresp cr conf now r k s st)) = named_devices st"
  by (simp_all add: clientchallenge_def serverchallengeresp_def Let_def split: option.splits)

lemma phase_one_devices [simp]:
  "named_devices (fst (pair_phase_one cr conf env uid cert salt' expired st)) = named_devices st"
  by (simp add: pair_phase_one_def await_pin_def Let_def split_beta split: option.splits)

lemma submit_devices [simp]:
  "named_devices (fst (submit_pin_begin cr conf now pin name pid st)) = named_devices st"
  "named_devices (fst (submit_pin_finish now sub written st)) = named_devices st"
  by (auto simp: submit_pin_begin_def submit_pin_finish_def Let_def split_beta prune_frame(2) [OF surjective_pairing]
      split: option.splits)

text \<open>The final check of the exchange.\<close>

definition proof_accepted :: "crypto_api \<Rightarrow> pair_session \<Rightarrow> bytes \<Rightarrow> bool" where
  "proof_accepted cr s secret \<longleftrightarrow> 16 < length secret \<and> x509_valid cr (client_cert s) \<and>
     sha256 cr (serverchallenge s @ x509_signature cr (client_cert s) @ take 16 secret) = clienthash s \<and>
     verify256 cr (client_cert s) (take 16 secret) (drop 16 secret)"

lemma clientpairingsecret_devices:
  "named_devices (fst (clientpairingsecret cr now u secret k s st)) =
     named_devices st @ (if last_phase s = SERVERCHALLENGERESP \<and> proof_accepted cr s secret
       then [fresh_cert (client_name s) u (client_cert s)] else [])"
  by (auto simp: clientpairingsecret_def proof_accepted_def Let_def)

lemma authorization_step:
  assumes "named_devices (fst (pairing_step cr conf st op)) \<noteq> named_devices st"
  obtains env args uid s secret where "op = Pair env args" and "arg_uniqueid args = Some uid"
    and "map_of (map_id_sess (fst (prune_expired_pairings_locked (env_now env) st))) (uid, env_address env) = Some s"
    and "last_phase s = SERVERCHALLENGERESP" and "arg_clientpairingsecret args = Some secret"
    and "proof_accepted cr s (from_hex_vec secret True)"
    and "named_devices (fst (pairing_step cr conf st op)) = named_devices st @
      [fresh_cert (client_name s) (env_device_uuid env) (client_cert s)]"
proof (cases op)
  case (Pair env args)
  obtain st1 expired where prune: "prune_expired_pairings_locked (env_now env) st = (st1, expired)"
    by (meson surj_pair)
  note dev = prune_frame(2) [OF prune]
  from assms Pair dev obtain uid where uid: "arg_uniqueid args = Some uid"
    and later: "pair cr conf env args st = pair_later_phase cr conf env args uid expired st1"
    by (auto simp: pairing_step_def pair_def prune split: option.splits if_splits)
  from assms Pair later dev obtain s where s: "map_of (map_id_sess st1) (uid, env_address env) = Some s"
    by (cases "map_of (map_id_sess st1) (uid, env_address env)")
      (auto simp: pairing_step_def pair_later_phase_def Let_def)
  have accepted: "proof_accepted cr (s\<lparr>held_response := None\<rparr>) x = proof_accepted cr s x" for x
    by (simp add: proof_accepted_def)
  from assms Pair later dev s obtain secret where secret: "arg_clientpairingsecret args = Some secret"
    "last_phase s = SERVERCHALLENGERESP" "proof_accepted cr s (from_hex_vec secret True)"
    "named_devices (fst (pairing_step cr conf st op)) = named_devices st @
      [fresh_cert (client_name s) (env_device_uuid env) (client_cert s)]"
    by (auto simp: pairing_step_def pair_later_phase_def Let_def split_beta clientpairingsecret_devices accepted
        split: option.splits if_splits)
  show ?thesis by (rule that [OF Pair uid _ secret(2,1,3,4)]) (use prune s in simp)
next
  case (ListRequests now)
  with assms show ?thesis
    by (simp add: pairing_step_def get_pairing_requests_def split_beta prune_frame(2) [OF surjective_pairing])
qed (use assms in \<open>simp_all add: pairing_step_def\<close>)

text \<open>
  C29. No device is authorized without the PIN: over every sequence of requests, PIN submissions and
  listings, in any interleaving, a step that changes the list of authorized devices appends exactly
  the certificate of one live exchange of the requesting peer, in its final phase, for which the user
  had given a PIN earlier in the run: in the web UI to this exchange, or on the console while the first phase
  of this exchange was waiting. And the proof was made with it: the hash of the server's own
  challenge, the certificate's signature and the client secret equals what the client had sent
  encrypted under the key derived from its salt and that PIN, and the secret carries a valid
  signature of the certificate's key.
\<close>

theorem authorized_only_with_pin:
  assumes "named_devices (fst (pairing_step cr conf (machine_state (pairing_step cr conf) pairing_init ops) op))
    \<noteq> named_devices (machine_state (pairing_step cr conf) pairing_init ops)"
  shows "\<exists>env args uid s secret pin resp. op = Pair env args \<and> arg_uniqueid args = Some uid \<and>
    arg_clientpairingsecret args = Some secret \<and>
    map_of (map_id_sess (fst (prune_expired_pairings_locked (env_now env)
      (machine_state (pairing_step cr conf) pairing_init ops)))) (uid, env_address env) = Some s \<and>
    last_phase s = SERVERCHALLENGERESP \<and>
    named_devices (fst (pairing_step cr conf (machine_state (pairing_step cr conf) pairing_init ops) op)) =
      named_devices (machine_state (pairing_step cr conf) pairing_init ops) @
        [fresh_cert (client_name s) (env_device_uuid env) (client_cert s)] \<and>
    (pairing_id s, pin) \<in> pins_given cr conf pairing_init ops \<and>
    sha256 cr (serverchallenge s @ x509_signature cr (client_cert s) @ take 16 (from_hex_vec secret True)) =
      ecb_decrypt cr (gen_aes_key cr (from_hex_array16 (take 32 (salt s)) True) pin) resp \<and>
    verify256 cr (client_cert s) (take 16 (from_hex_vec secret True)) (drop 16 (from_hex_vec secret True))"
proof -
  let ?st = "machine_state (pairing_step cr conf) pairing_init ops"
  let ?pins = "pins_given cr conf pairing_init ops"
  from assms show ?thesis
  proof (rule authorization_step)
    fix env args uid s secret
    assume found: "map_of (map_id_sess (fst (prune_expired_pairings_locked (env_now env) ?st))) (uid, env_address env) = Some s"
      and phase: "last_phase s = SERVERCHALLENGERESP"
      and accepted: "proof_accepted cr s (from_hex_vec secret True)"
      and rest: "op = Pair env args" "arg_uniqueid args = Some uid" "arg_clientpairingsecret args = Some secret"
        "named_devices (fst (pairing_step cr conf ?st op)) = named_devices ?st @
           [fresh_cert (client_name s) (env_device_uuid env) (client_cert s)]"
    have "table_ok (sess_ok cr ?pins) (fst (prune_expired_pairings_locked (env_now env) ?st))"
      using run_pairing_inv prune_table_ok [OF surjective_pairing] by (metis pairing_inv_def)
    then have "sess_ok cr ?pins s" using table_ok_lookup found by blast
    with phase obtain pin resp where "(pairing_id s, pin) \<in> ?pins"
      "clienthash s = ecb_decrypt cr (gen_aes_key cr (from_hex_array16 (take 32 (salt s)) True) pin) resp"
      by (auto simp: sess_ok_def)
    with found phase accepted rest show ?thesis unfolding proof_accepted_def by metis
  qed
qed

lemma pairing_tables_bounded_parts:
  fixes cr conf ops
  defines "st \<equiv> machine_state (pairing_step cr conf) pairing_init ops"
  shows "distinct (map fst (map_id_sess st))"
    and "\<forall>(k, s) \<in> set (map_id_sess st). k = key_of s \<and> last_phase s \<noteq> CLIENTPAIRINGSECRET"
    and "length (map_id_sess st) \<le> 32" and "peer_pending a st \<le> 2"
    and "length (pairing_outcomes st) + length (map_id_sess st) \<le> 96"
  using pairing_run.run_inv [of cr pairing_init conf ops] init_pairing_inv unfolding st_def
  by (auto simp: pairing_inv_def table_ok_def bounded_def sess_ok_def kMaxPendingPairings_def
      kMaxPendingPairingsPerPeer_def kMaxPairingOutcomes_def)

text \<open>
  The pairing tables stay consistent and bounded against any flood of requests: after every
  sequence of operations the pending exchanges have distinct keys, each filed under its own unique id
  and peer address, there are at most 32 of them and at most two per peer, outcomes and exchanges
  together never exceed 96 entries, and no exchange rests in the final phase.
\<close>

theorem pairing_tables_bounded:
  fixes cr conf ops
  defines "st \<equiv> machine_state (pairing_step cr conf) pairing_init ops"
  shows "distinct (map fst (map_id_sess st)) \<and>
    (\<forall>(k, s) \<in> set (map_id_sess st). k = key_of s \<and> last_phase s \<noteq> CLIENTPAIRINGSECRET) \<and>
    length (map_id_sess st) \<le> 32 \<and> (\<forall>a. peer_pending a st \<le> 2) \<and>
    length (pairing_outcomes st) + length (map_id_sess st) \<le> 96"
  unfolding st_def by (intro conjI allI pairing_tables_bounded_parts)

subsection \<open>Where a PIN goes\<close>

lemma scan_candidates_Some:
  "scan_candidates (Some c) cs = (if filter awaiting_pin cs = [] then candidate_result c else (AMBIGUOUS_REQUEST, ''''))"
  by (induction cs) auto

lemma scan_candidates_None:
  "scan_candidates None cs = (case filter awaiting_pin cs of
     [] \<Rightarrow> (NO_PENDING_REQUEST, '''') | [c] \<Rightarrow> candidate_result c | _ \<Rightarrow> (AMBIGUOUS_REQUEST, ''''))"
  by (induction cs) (auto simp: scan_candidates_Some split: list.splits)

lemma scan_candidates_delivered:
  assumes "scan_candidates None cs = (PIN_DELIVERED, i)"
  obtains c where "filter awaiting_pin cs = [c]" and "response_available c" and "cd_pairing_id c = i"
  using assms by (auto simp: scan_candidates_None candidate_result_def split: list.splits if_splits)

lemma select_candidate_delivered:
  assumes "select_candidate cs pid = (PIN_DELIVERED, i)"
  shows "(\<exists>j. pid = Some j \<and> j \<noteq> [] \<and> j = i \<and>
      (\<exists>c. find (\<lambda>c. cd_pairing_id c = i) cs = Some c \<and> awaiting_pin c \<and> response_available c)) \<or>
    (pid = None \<or> pid = Some []) \<and>
      (\<exists>c. filter awaiting_pin cs = [c] \<and> response_available c \<and> cd_pairing_id c = i)"
proof (cases "\<exists>j. pid = Some j \<and> j \<noteq> []")
  case True
  with assms show ?thesis
    by (auto simp: select_candidate_def candidate_result_def find_Some_iff split: option.splits if_splits)
next
  case False
  then have "select_candidate cs pid = scan_candidates None cs"
    by (auto simp: select_candidate_def split: option.splits)
  with assms False show ?thesis by (metis option.exhaust scan_candidates_delivered)
qed

lemma map_of_assign_other: "k' \<noteq> k \<Longrightarrow> map_of (assign k v m) k' = map_of m k'"
  by (induction m) (auto simp: assign_def)

lemma map_of_erase_other: "k' \<noteq> k \<Longrightarrow> map_of (erase k m) k' = map_of m k'"
  by (induction m) (auto simp: erase_def)

lemma getservercert_others:
  "\<lbrakk>k' \<noteq> k; key_of s = k\<rbrakk> \<Longrightarrow>
     map_of (map_id_sess (fst (getservercert cr conf now pin k s st))) k' = map_of (map_id_sess st) k'"
  by (auto simp: getservercert_def Let_def fail_pair_def map_of_assign_other map_of_erase_other)

lemma submit_begin_delivered:
  assumes "submit_pin_begin cr conf now pin name pid st = (st', Inr sub, expired)"
    and "prune_expired_pairings_locked now st = (st1, expired1)"
  obtains i k s where "valid_pin pin" and "select_candidate (candidates_of st1) pid = (PIN_DELIVERED, i)"
    and "find (\<lambda>e. pairing_id (snd e) = i) (map_id_sess st1) = Some (k, s)"
    and "st' = fst (getservercert cr conf now pin k (s\<lparr>held_response := None, client_name := trim_copy name\<rparr>)
      (store_session k (s\<lparr>held_response := None, client_name := trim_copy name\<rparr>) st1))"
    and "sub = \<lparr>sub_response = held_response s,
      sub_tree = snd (getservercert cr conf now pin k (s\<lparr>held_response := None, client_name := trim_copy name\<rparr>)
        (store_session k (s\<lparr>held_response := None, client_name := trim_copy name\<rparr>) st1)),
      sub_id = pairing_id s, sub_generation = phase_one_generation s\<rparr>"
proof -
  obtain r i where sel: "select_candidate (candidates_of st1) pid = (r, i)" by (meson surj_pair)
  have pin: "valid_pin pin" using assms(1) by (auto simp: submit_pin_begin_def split: if_splits)
  have r: "r = PIN_DELIVERED"
    using assms by (auto simp: submit_pin_begin_def sel Let_def split: if_splits)
  obtain k s where found: "find (\<lambda>e. pairing_id (snd e) = i) (map_id_sess st1) = Some (k, s)"
    using assms pin r by (auto simp: submit_pin_begin_def sel Let_def split: option.splits if_splits)
  show ?thesis
    using assms pin r found sel by (intro that [of i k s]) (auto simp: submit_pin_begin_def Let_def split_beta)
qed

lemma find_SomeD: "find P xs = Some x \<Longrightarrow> x \<in> set xs \<and> P x"
  by (auto simp: find_Some_iff)

lemma find_map: "find P (map f xs) = map_option f (find (P \<circ> f) xs)"
  by (induction xs) auto

lemma selected_waits:
  assumes sel: "select_candidate (candidates_of st) pid = (PIN_DELIVERED, i)"
    and found: "find (\<lambda>e. pairing_id (snd e) = i) (map_id_sess st) = Some e0"
    and ids: "distinct (map (\<lambda>e. pairing_id (snd e)) (map_id_sess st))"
  shows "last_phase (snd e0) = NONE \<and> held_response (snd e0) \<noteq> None \<and>
    (\<forall>j. pid = Some j \<and> j \<noteq> [] \<longrightarrow> j = i) \<and>
    (pid = None \<or> pid = Some [] \<longrightarrow> (\<forall>e \<in> set (map_id_sess st). last_phase (snd e) = NONE \<longrightarrow> e = e0))"
  using select_candidate_delivered [OF sel]
proof
  assume "\<exists>j. pid = Some j \<and> j \<noteq> [] \<and> j = i \<and>
      (\<exists>c. find (\<lambda>c. cd_pairing_id c = i) (candidates_of st) = Some c \<and> awaiting_pin c \<and> response_available c)"
  with found show ?thesis by (auto simp: candidates_of_def find_map comp_def)
next
  assume *: "(pid = None \<or> pid = Some []) \<and>
      (\<exists>c. filter awaiting_pin (candidates_of st) = [c] \<and> response_available c \<and> cd_pairing_id c = i)"
  then obtain e where e: "filter (\<lambda>e. last_phase (snd e) = NONE) (map_id_sess st) = [e]"
    and c: "held_response (snd e) \<noteq> None" "pairing_id (snd e) = i"
    by (auto simp: candidates_of_def filter_map comp_def)
  have mem: "e \<in> set (map_id_sess st)" "last_phase (snd e) = NONE"
    using arg_cong [OF e, of set] by auto
  have "e0 \<in> set (map_id_sess st)" "pairing_id (snd e0) = i" using found by (auto simp: find_Some_iff)
  with ids mem(1) c(2) have "e = e0" by (auto simp: distinct_map dest: inj_onD)
  moreover have "e' = e" if "e' \<in> set (map_id_sess st)" "last_phase (snd e') = NONE" for e'
    using arg_cong [OF e, of set] that by auto
  ultimately show ?thesis using * c mem(2) by blast
qed

text \<open>
  A PIN reaches exactly the exchange it is meant for: when a submission is accepted for delivery,
  the PIN has four digits and goes to one unexpired exchange that waits for a PIN and holds a
  response, the one named by the given id; without an id it is the only exchange waiting. Every
  other exchange that is not expired is left as it was.
\<close>

theorem pin_reaches_selected_exchange:
  assumes run: "submit_pin_begin cr conf now pin name pid st = (st', Inr sub, expired)"
    and keys: "table_ok (\<lambda>s. True) st" and ids: "distinct (map (\<lambda>e. pairing_id (snd e)) (map_id_sess st))"
  shows "valid_pin pin \<and> (\<exists>k s. (k, s) \<in> set (map_id_sess st) \<and> \<not> session_expired (updated_at s) now \<and>
    last_phase s = NONE \<and> held_response s = sub_response sub \<and> sub_response sub \<noteq> None \<and> pairing_id s = sub_id sub \<and>
    (\<forall>i. pid = Some i \<and> i \<noteq> [] \<longrightarrow> i = pairing_id s) \<and>
    (pid = None \<or> pid = Some [] \<longrightarrow> (\<forall>(k', s') \<in> set (map_id_sess st).
       \<not> session_expired (updated_at s') now \<and> last_phase s' = NONE \<longrightarrow> k' = k)) \<and>
    (\<forall>k' s'. k' \<noteq> k \<and> (k', s') \<in> set (map_id_sess st) \<and> \<not> session_expired (updated_at s') now
       \<longrightarrow> map_of (map_id_sess st') k' = Some s'))"
proof -
  obtain st1 expired1 where prune: "prune_expired_pairings_locked now st = (st1, expired1)" by (meson surj_pair)
  note live = prune_frame(1) [OF prune]
  have ok1: "table_ok (\<lambda>s. True) st1" by (rule prune_table_ok [OF prune keys])
  have ids1: "distinct (map (\<lambda>e. pairing_id (snd e)) (map_id_sess st1))"
    using ids by (simp add: live distinct_map_filter)
  obtain i k s where d: "valid_pin pin" "select_candidate (candidates_of st1) pid = (PIN_DELIVERED, i)"
      "find (\<lambda>e. pairing_id (snd e) = i) (map_id_sess st1) = Some (k, s)"
    and st': "st' = fst (getservercert cr conf now pin k (s\<lparr>held_response := None, client_name := trim_copy name\<rparr>)
      (store_session k (s\<lparr>held_response := None, client_name := trim_copy name\<rparr>) st1))"
    and sub: "sub_response sub = held_response s" "sub_id sub = pairing_id s"
    by (rule submit_begin_delivered [OF run prune], rule that) simp_all
  have ks: "(k, s) \<in> set (map_id_sess st1)" "pairing_id s = i" using find_SomeD [OF d(3)] by simp_all
  have key: "key_of s = k" using ok1 ks(1) by (auto simp: table_ok_def)
  note waits = selected_waits [OF d(2,3) ids1]
  have others: "map_of (map_id_sess st') k' = Some s'"
    if "k' \<noteq> k" "(k', s') \<in> set (map_id_sess st1)" for k' s'
  proof -
    have "map_of (map_id_sess st1) k' = Some s'" using ok1 that(2) by (simp add: table_ok_def)
    with that(1) key show ?thesis
      by (simp add: st' getservercert_others map_of_assign_other)
  qed
  have alive: "(k', s') \<in> set (map_id_sess st1) \<longleftrightarrow>
      (k', s') \<in> set (map_id_sess st) \<and> \<not> session_expired (updated_at s') now" for k' s'
    by (auto simp: live)
  have "(k, s) \<in> set (map_id_sess st) \<and> \<not> session_expired (updated_at s) now" using ks(1) alive by simp
  moreover have "pid = None \<or> pid = Some [] \<longrightarrow> (\<forall>(k', s') \<in> set (map_id_sess st).
       \<not> session_expired (updated_at s') now \<and> last_phase s' = NONE \<longrightarrow> k' = k)"
  proof (intro impI ballI, clarify)
    fix u a s'
    assume none: "pid = None \<or> pid = Some []" and mem: "((u, a), s') \<in> set (map_id_sess st)"
      "\<not> session_expired (updated_at s') now" "last_phase s' = NONE"
    have "((u, a), s') = (k, s)"
      using waits none mem alive [of "(u, a)" s'] by (metis snd_conv)
    then show "(u, a) = k" by simp
  qed
  moreover have "\<forall>k' s'. k' \<noteq> k \<and> (k', s') \<in> set (map_id_sess st) \<and> \<not> session_expired (updated_at s') now
       \<longrightarrow> map_of (map_id_sess st') k' = Some s'"
    using others alive by blast
  ultimately show ?thesis
    using d(1) waits ks(2) sub by (intro conjI exI [of _ k] exI [of _ s]) simp_all
qed

lemma find_assign_id:
  assumes "map_of m k = Some s" and "distinct (map fst m)" and "distinct (map (\<lambda>e. pairing_id (snd e)) m)"
    and "pairing_id s' = pairing_id s"
  shows "find (\<lambda>e. pairing_id (snd e) = pairing_id s) (assign k s' m) = Some (k, s')"
  using assms
proof (induction m)
  case (Cons e m)
  show ?case
  proof (cases "fst e = k")
    case True
    with Cons.prems show ?thesis by (simp add: assign_def)
  next
    case False
    with Cons.prems have "map_of m k = Some s" by (cases e) auto
    moreover from this have "pairing_id (snd e) \<noteq> pairing_id s"
      using Cons.prems(3) map_of_SomeD by (fastforce simp: image_iff)
    ultimately show ?thesis using Cons False by (simp add: assign_def)
  qed
qed simp

lemma stale_delivery_keeps_exchange_parts:
  shows "fst (submit_pin_finish now sub written st) \<noteq> st \<Longrightarrow>
      \<not> written \<and> (\<exists>k s. (k, s) \<in> set (map_id_sess st) \<and> pairing_id s = sub_id sub \<and>
        last_phase s = GETSERVERCERT \<and> phase_one_generation s = sub_generation sub \<and>
        map_id_sess (fst (submit_pin_finish now sub written st)) = erase k (map_id_sess st))"
    and "\<lbrakk>table_ok (\<lambda>s. True) st; distinct (map (\<lambda>e. pairing_id (snd e)) (map_id_sess st));
        map_of (map_id_sess st) (uid, env_address env) = Some s; last_phase s = GETSERVERCERT;
        pairing_id s = sub_id sub; phase_one_generation s = sub_generation sub;
        pair_phase_one cr conf env uid cert salt' expired st = (st', out);
        po_reply out = Some tree; pt_paired tree = Some 1\<rbrakk> \<Longrightarrow>
      submit_pin_finish now sub False st' = (st', ALREADY_SUBMITTED, sub_id sub) \<and>
      (\<exists>s'. map_of (map_id_sess st') (uid, env_address env) = Some s' \<and> cipher_key s' = cipher_key s)"
proof -
  show "\<not> written \<and> (\<exists>k s. (k, s) \<in> set (map_id_sess st) \<and> pairing_id s = sub_id sub \<and>
        last_phase s = GETSERVERCERT \<and> phase_one_generation s = sub_generation sub \<and>
        map_id_sess (fst (submit_pin_finish now sub written st)) = erase k (map_id_sess st))"
    if changed: "fst (submit_pin_finish now sub written st) \<noteq> st"
  proof -
    obtain k s where found: "find (\<lambda>e. pairing_id (snd e) = sub_id sub) (map_id_sess st) = Some (k, s)"
      and cur: "\<not> written" "phase_one_delivery_is_current (last_phase s) (phase_one_generation s) (sub_generation sub)"
      using changed by (auto simp: submit_pin_finish_def split: if_splits option.splits)
    have "map_id_sess (fst (submit_pin_finish now sub written st)) = erase k (map_id_sess st)"
      using found cur by (simp add: submit_pin_finish_def)
    with cur find_SomeD [OF found] show ?thesis
      by (intro conjI exI [of _ k] exI [of _ s]) (simp_all add: phase_one_delivery_is_current_def)
  qed
  assume tab: "table_ok (\<lambda>s. True) st" and ids: "distinct (map (\<lambda>e. pairing_id (snd e)) (map_id_sess st))"
    and s: "map_of (map_id_sess st) (uid, env_address env) = Some s" "last_phase s = GETSERVERCERT"
      "pairing_id s = sub_id sub" "phase_one_generation s = sub_generation sub"
    and retry: "pair_phase_one cr conf env uid cert salt' expired st = (st', out)"
      "po_reply out = Some tree" "pt_paired tree = Some 1"
  let ?s = "s\<lparr>phase_one_generation := phase_one_generation s + 1, updated_at := env_now env\<rparr>"
  have st': "st' = store_session (uid, env_address env) ?s st"
    using retry s(1,2) by (auto simp: pair_phase_one_def Let_def answer_def error_tree_def split: if_splits)
  have "find (\<lambda>e. pairing_id (snd e) = pairing_id s) (map_id_sess st') = Some ((uid, env_address env), ?s)"
    using tab ids s(1) by (simp add: st' table_ok_def find_assign_id)
  then have "submit_pin_finish now sub False st' = (st', ALREADY_SUBMITTED, sub_id sub)"
    using s(3,4) by (simp add: submit_pin_finish_def phase_one_delivery_is_current_def)
  with lookup_store [OF s(1), of ?s] st'
  show "submit_pin_finish now sub False st' = (st', ALREADY_SUBMITTED, sub_id sub) \<and>
      (\<exists>s'. map_of (map_id_sess st') (uid, env_address env) = Some s' \<and> cipher_key s' = cipher_key s)"
    by simp
qed

text \<open>
  A failed response write never destroys an exchange that moved on. The second half of a PIN
  submission changes nothing except when the write failed and the exchange still is in phase one
  with the generation the submission saw; then exactly that exchange is dropped. In particular,
  when the client's accepted retransmission of phase one overtakes the failing write, the exchange
  survives with its key, and the submission reports that the PIN was already submitted.
\<close>

theorem stale_delivery_keeps_exchange:
  "(fst (submit_pin_finish now sub written st) \<noteq> st \<longrightarrow>
      \<not> written \<and> (\<exists>k s. (k, s) \<in> set (map_id_sess st) \<and> pairing_id s = sub_id sub \<and>
        last_phase s = GETSERVERCERT \<and> phase_one_generation s = sub_generation sub \<and>
        map_id_sess (fst (submit_pin_finish now sub written st)) = erase k (map_id_sess st))) \<and>
    (table_ok (\<lambda>s. True) st \<and> distinct (map (\<lambda>e. pairing_id (snd e)) (map_id_sess st)) \<and>
        map_of (map_id_sess st) (uid, env_address env) = Some s \<and> last_phase s = GETSERVERCERT \<and>
        pairing_id s = sub_id sub \<and> phase_one_generation s = sub_generation sub \<and>
        pair_phase_one cr conf env uid cert salt' expired st = (st', out) \<and>
        po_reply out = Some tree \<and> pt_paired tree = Some 1 \<longrightarrow>
      submit_pin_finish now sub False st' = (st', ALREADY_SUBMITTED, sub_id sub) \<and>
      (\<exists>s'. map_of (map_id_sess st') (uid, env_address env) = Some s' \<and> cipher_key s' = cipher_key s))"
  using stale_delivery_keeps_exchange_parts(1) [of now sub written st]
    stale_delivery_keeps_exchange_parts(2) [of st uid env s sub cr conf cert salt' expired st' out tree now]
  by blast

end
