(* ===== verification/Pairing_Exchange.thy ===== *)
theory Pairing_Exchange
  imports Pairing
begin

text \<open>
  The pairing exchange as a whole: what the operations of other clients leave alone of a pending exchange
  (\<open>pending\<close>, \<open>foreign\<close>), that an honest client that knows the PIN is paired amid them, and a concrete
  exchange that shows the hypotheses of the pairing theorems can hold.
\<close>

subsection \<open>What an honest client computes\<close>

definition no_args :: "string \<Rightarrow> pair_args" where
  "no_args uid = \<lparr>arg_uniqueid = Some uid, arg_phrase = None, arg_clientcert = None, arg_salt = None,
     arg_clientchallenge = None, arg_serverchallengeresp = None, arg_clientpairingsecret = None\<rparr>"

text \<open>What the client computes: the answer to the server's challenge, read from the reply to its own.\<close>

definition client_response :: "crypto_api \<Rightarrow> bytes \<Rightarrow> bytes \<Rightarrow> bytes \<Rightarrow> ptree \<Rightarrow> bytes" where
  "client_response cr key cert secret tree =
     (let challenge = drop 32 (ecb_decrypt cr key (from_hex_vec (the (pt_challengeresponse tree)) True))
      in hex_vec (ecb_encrypt cr key (sha256 cr (challenge @ x509_signature cr cert @ secret))) True)"

text \<open>The laws of the cryptographic library the exchange relies on, for a client that signs with \<open>sign\<close>.\<close>

definition crypto_laws :: "crypto_api \<Rightarrow> bytes \<Rightarrow> (bytes \<Rightarrow> bytes) \<Rightarrow> bool" where
  "crypto_laws cr cert sign \<longleftrightarrow> (\<forall>x. length (sha256 cr x) = 32) \<and>
     (\<forall>k x. length x mod 16 = 0 \<longrightarrow> ecb_decrypt cr k (ecb_encrypt cr k x) = x) \<and>
     x509_valid cr cert \<and> (\<forall>x. verify256 cr cert x (sign x) \<and> sign x \<noteq> [])"

definition live :: "time_point \<Rightarrow> pair_session \<Rightarrow> bool" where
  "live now s \<longleftrightarrow> \<not> session_expired (updated_at s) now"

subsection \<open>What other requests leave alone\<close>

text \<open>The exchange \<open>s\<close> is pending under \<open>k\<close>, in a table the operations keep, and its id is its own.\<close>

definition pending :: "crypto_api \<Rightarrow> pairing_key \<Rightarrow> pair_session \<Rightarrow> pairing \<Rightarrow> bool" where
  "pending cr k s st \<longleftrightarrow> (\<exists>pins. pairing_inv (sess_ok cr pins) st) \<and> map_of (map_id_sess st) k = Some s \<and>
     (\<forall>k' s'. map_of (map_id_sess st) k' = Some s' \<and> pairing_id s' = pairing_id s \<longrightarrow> k' = k)"

text \<open>Only the entry at \<open>k\<close> differs, and its id is the old one or \<open>i\<close>.\<close>

definition only_at :: "pairing_key \<Rightarrow> string \<Rightarrow> pairing \<Rightarrow> pairing \<Rightarrow> bool" where
  "only_at k i st st' \<longleftrightarrow> (\<forall>k'. k' \<noteq> k \<longrightarrow> map_of (map_id_sess st') k' = map_of (map_id_sess st) k') \<and>
     (\<forall>s'. map_of (map_id_sess st') k = Some s' \<longrightarrow> pairing_id s' = i \<or>
        (\<exists>s. map_of (map_id_sess st) k = Some s \<and> pairing_id s = pairing_id s'))"

lemma pending_key: "pending cr k s st \<Longrightarrow> key_of s = k"
  unfolding pending_def pairing_inv_def using table_ok_lookup by blast

lemma pending_distinct: "pending cr k s st \<Longrightarrow> distinct (map fst (map_id_sess st))"
  by (auto simp: pending_def pairing_inv_def table_ok_def)

lemma pending_mem: "pending cr k s st \<Longrightarrow> (k', s') \<in> set (map_id_sess st) \<longleftrightarrow> map_of (map_id_sess st) k' = Some s'"
  using pending_distinct by simp

lemma pending_other:
  assumes "pending cr k s st" and "only_at k' i st st'" and "k' \<noteq> k" and "i \<noteq> pairing_id s"
    and "\<exists>pins. pairing_inv (sess_ok cr pins) st'"
  shows "pending cr k s st'"
  using assms unfolding pending_def only_at_def by metis

lemma pending_same_table:
  "\<lbrakk>pending cr k s st; map_id_sess st' = map_id_sess st; \<exists>pins. pairing_inv (sess_ok cr pins) st'\<rbrakk> \<Longrightarrow> pending cr k s st'"
  by (simp add: pending_def)

lemma only_at_refl [simp]: "only_at k i st st"
  by (simp add: only_at_def)

lemma only_at_trans: "\<lbrakk>only_at k i st st'; only_at k i st' st''\<rbrakk> \<Longrightarrow> only_at k i st st''"
  unfolding only_at_def by metis

lemma only_at_erase: "map_id_sess st' = erase k (map_id_sess st) \<Longrightarrow> only_at k i st st'"
  by (auto simp: only_at_def map_of_erase_other) (auto simp: erase_def dest!: map_of_SomeD)

lemma only_at_remove:
  "\<lbrakk>key_of s = k; erase k (map_id_sess st') = erase k (map_id_sess st)\<rbrakk> \<Longrightarrow> only_at k i st (remove_session s st')"
  by (rule only_at_erase) simp

lemma only_at_store:
  "\<lbrakk>map_of (map_id_sess st) k = Some s; pairing_id s' = pairing_id s\<rbrakk> \<Longrightarrow> only_at k i st (store_session k s' st)"
  by (auto simp: only_at_def map_of_assign_other map_of_assign split: if_splits)

lemma phases_only_at:
  assumes "map_of (map_id_sess st) k = Some s0" and "key_of s = k" and "pairing_id s = pairing_id s0"
  shows "only_at k i st (fst (getservercert cr conf now pin k s st))"
    and "only_at k i st (fst (clientchallenge cr conf now sec out ch k s st))"
    and "only_at k i st (fst (serverchallengeresp cr conf now r k s st))"
    and "only_at k i st (fst (clientpairingsecret cr now u x k s st))"
  using assms
  by (auto simp: getservercert_def clientchallenge_def serverchallengeresp_def clientpairingsecret_def Let_def
      fail_pair_def split: option.splits intro!: only_at_remove intro: only_at_store)

lemma later_phase_only_at:
  assumes "table_ok Q st"
  shows "only_at (uid, env_address env) i st (fst (pair_later_phase cr conf env args uid expired st))"
proof (cases "map_of (map_id_sess st) (uid, env_address env)")
  case None
  then show ?thesis by (simp add: pair_later_phase_def)
next
  case (Some s)
  let ?k = "(uid, env_address env)" and ?s = "s\<lparr>held_response := None\<rparr>"
  have key: "key_of s = ?k" using table_ok_lookup [OF assms Some] by simp
  have st: "only_at ?k i st (store_session ?k ?s st)" by (rule only_at_store [OF Some]) simp
  note phases = phases_only_at(2-4) [OF lookup_store [OF Some, of ?s], of ?s i]
  show ?thesis
    using Some key phases [THEN only_at_trans [OF st]]
    by (simp add: pair_later_phase_def Let_def split_beta split: option.splits)
qed

lemma await_pin_only_at:
  assumes "map_of (map_id_sess st) k = Some s0" and "key_of s = k" and "pairing_id s = pairing_id s0"
  shows "only_at k i st (fst (await_pin cr conf env cert salt' k s superseded expired st))"
proof -
  let ?s = "s\<lparr>client_cert := cert, salt := salt', phase_one_generation := phase_one_generation s + 1\<rparr>"
  have st: "only_at k i st (store_session k ?s st)" by (rule only_at_store [OF assms(1)]) (simp add: assms(3))
  have "only_at k i (store_session k ?s st) (fst (getservercert cr conf (env_now env) pin k ?s (store_session k ?s st)))" for pin
    by (rule phases_only_at(1) [OF lookup_store [OF assms(1)]]) (simp_all add: assms(2))
  with only_at_trans [OF st] assms show ?thesis
    by (auto simp: await_pin_def Let_def split_beta split: option.splits intro: only_at_store)
qed

lemma lookup_emplace: "k \<notin> fst ` set m \<Longrightarrow> map_of (emplace k v m) = (map_of m)(k \<mapsto> v)"
  unfolding emplace_def by (induction m) auto

lemma emplace_only_at:
  assumes "map_of (map_id_sess st) k = None" and "pairing_id s = i"
  shows "only_at k i st (st\<lparr>map_id_sess := emplace k s (map_id_sess st)\<rparr>)"
  using assms by (simp add: only_at_def lookup_emplace map_of_eq_None_iff)

lemma phase_one_only_at:
  assumes "table_ok Q st"
  shows "only_at (uid, env_address env) (env_new_id env) st (fst (pair_phase_one cr conf env uid cert salt' expired st))"
proof (cases "map_of (map_id_sess st) (uid, env_address env)")
  case None
  let ?k = "(uid, env_address env)" and ?s = "new_session uid env"
  let ?st = "st\<lparr>map_id_sess := emplace ?k ?s (map_id_sess st)\<rparr>"
  have "only_at ?k (env_new_id env) st ?st" by (rule emplace_only_at [OF None]) (simp add: new_session_def)
  moreover have "map_of (map_id_sess ?st) ?k = Some ?s" using None by (simp add: lookup_emplace map_of_eq_None_iff)
  then have "only_at ?k (env_new_id env) ?st (fst (await_pin cr conf env cert salt' ?k ?s None expired ?st))"
    by (rule await_pin_only_at) (simp_all add: new_session_def)
  ultimately have "only_at ?k (env_new_id env) st (fst (await_pin cr conf env cert salt' ?k ?s None expired ?st))"
    by (rule only_at_trans)
  with None show ?thesis by (simp add: pair_phase_one_def Let_def)
next
  case (Some s)
  have "key_of s = (uid, env_address env)" using table_ok_lookup [OF assms Some] by simp
  then have "only_at (uid, env_address env) (env_new_id env) st (fst (await_pin cr conf env cert salt' (uid, env_address env)
      (s\<lparr>held_response := None, updated_at := env_now env\<rparr>) (held_response s) expired st))"
    by (intro await_pin_only_at [OF Some]) simp_all
  moreover have "only_at (uid, env_address env) (env_new_id env) st (store_session (uid, env_address env)
      (s\<lparr>phase_one_generation := phase_one_generation s + 1, updated_at := env_now env\<rparr>) st)"
    by (rule only_at_store [OF Some]) simp
  ultimately show ?thesis using Some by (simp add: pair_phase_one_def Let_def)
qed

text \<open>What other clients and the user may do while the exchange \<open>i\<close> of the peer \<open>k\<close>, last heard of at \<open>t\<close>, is
  pending: any request under another name or from another address, any listing, any PIN for another exchange
  (once this one has its PIN, any PIN at all), any end of a submission but a failed delivery of this one. Fresh
  ids differ from \<open>i\<close>, and nothing happens five minutes after \<open>t\<close> or later.\<close>

fun foreign :: "pairing_key \<Rightarrow> string \<Rightarrow> bool \<Rightarrow> time_point \<Rightarrow> pairing_op \<Rightarrow> bool" where
  "foreign k i waiting t (Pair env args) \<longleftrightarrow> env_now env - t < kPairingSessionTtl \<and> env_new_id env \<noteq> i \<and>
     (arg_uniqueid args \<noteq> Some (fst k) \<or> env_address env \<noteq> snd k)"
| "foreign k i waiting t (SubmitBegin now pin name pid) \<longleftrightarrow> now - t < kPairingSessionTtl \<and>
     (waiting \<longrightarrow> pid \<noteq> None \<and> pid \<noteq> Some [] \<and> pid \<noteq> Some i)"
| "foreign k i waiting t (SubmitFinish now sub written) \<longleftrightarrow> written \<or> sub_id sub \<noteq> i"
| "foreign k i waiting t (ListRequests now) \<longleftrightarrow> now - t < kPairingSessionTtl"

lemma map_of_filter_live:
  "distinct (map fst m) \<Longrightarrow> map_of (filter (\<lambda>e. P (snd e)) m) k =
     (case map_of m k of Some s \<Rightarrow> if P s then Some s else None | None \<Rightarrow> None)"
  by (induction m) (auto simp: map_of_eq_None_iff split: option.splits)

lemma pending_prune:
  assumes "pending cr k s st" and "live now s" and "prune_expired_pairings_locked now st = (st1, expired)"
  shows "pending cr k s st1"
proof -
  have "map_of (map_id_sess st1) k' = (case map_of (map_id_sess st) k' of Some s' \<Rightarrow> if live now s' then Some s' else None | None \<Rightarrow> None)" for k'
    unfolding prune_frame(1) [OF assms(3)] live_def
    by (rule map_of_filter_live [OF pending_distinct [OF assms(1)]])
  then show ?thesis
    using assms prune_inv [OF assms(3)] unfolding pending_def by (auto split: option.splits if_splits)
qed

lemma pending_pair_other:
  assumes "pending cr k s st" and "live (env_now env) s" and "env_new_id env \<noteq> pairing_id s"
    and "arg_uniqueid args \<noteq> Some (fst k) \<or> env_address env \<noteq> snd k"
  shows "pending cr k s (fst (pair cr conf env args st))"
proof (cases "arg_uniqueid args")
  case None
  then show ?thesis using assms(1) by (simp add: pair_def)
next
  case (Some uid)
  obtain st1 expired where prune: "prune_expired_pairings_locked (env_now env) st = (st1, expired)" by (meson surj_pair)
  have st1: "pending cr k s st1" by (rule pending_prune [OF assms(1,2) prune])
  then obtain Q where ok: "table_ok Q st1" by (auto simp: pending_def pairing_inv_def)
  have inv: "\<exists>pins. pairing_inv (sess_ok cr pins) (fst (pair cr conf env args st))"
    using assms(1) pair_inv unfolding pending_def by blast
  have "only_at (uid, env_address env) (env_new_id env) st1 (fst (pair cr conf env args st))"
    using later_phase_only_at [OF ok] phase_one_only_at [OF ok] Some
    by (simp add: pair_def prune split: option.splits)
  from pending_other [OF st1 this _ assms(3) inv] show ?thesis using assms(4) Some by (cases k) auto
qed

text \<open>A PIN is delivered to this exchange only while it waits for one and the submission does not name another.\<close>

lemma filter_single: "filter P xs = [x] \<Longrightarrow> x \<in> set xs \<and> P x"
  by (induction xs) (auto split: if_splits)

lemma delivered_waits:
  assumes "pending cr k s st" and "select_candidate (candidates_of st) pid = (PIN_DELIVERED, pairing_id s)"
  shows "last_phase s = NONE \<and> (pid = None \<or> pid = Some [] \<or> pid = Some (pairing_id s))"
proof -
  have own: "last_phase (snd e) = NONE \<Longrightarrow> last_phase s = NONE"
    if "e \<in> set (map_id_sess st)" "pairing_id (snd e) = pairing_id s" for e
    using assms(1) that pending_mem [OF assms(1), of "fst e" "snd e"] unfolding pending_def
    by (metis option.inject prod.collapse)
  from select_candidate_delivered [OF assms(2)] obtain c where c: "c \<in> set (candidates_of st)" "awaiting_pin c"
      "cd_pairing_id c = pairing_id s" and pid: "pid = None \<or> pid = Some [] \<or> pid = Some (pairing_id s)"
    by (auto dest!: find_SomeD filter_single)
  from c own pid show ?thesis by (auto simp: candidates_of_def)
qed

lemma pending_submit_other:
  assumes "pending cr k s st" and "live now s"
    and "last_phase s = NONE \<longrightarrow> pid \<noteq> None \<and> pid \<noteq> Some [] \<and> pid \<noteq> Some (pairing_id s)"
  shows "pending cr k s (fst (submit_pin_begin cr conf now pin name pid st))"
proof -
  obtain st1 expired where prune: "prune_expired_pairings_locked now st = (st1, expired)" by (meson surj_pair)
  have st1: "pending cr k s st1" by (rule pending_prune [OF assms(1,2) prune])
  obtain st' r ex where run: "submit_pin_begin cr conf now pin name pid st = (st', r, ex)" by (metis surj_pair)
  have inv: "\<exists>pins. pairing_inv (sess_ok cr pins) st'"
    using assms(1) submit_begin_inv [of cr _ st conf now pin name pid] unfolding pending_def run by auto
  show ?thesis
  proof (cases r)
    case (Inl x)
    have "st' = st \<or> st' = st1"
      using run Inl by (auto simp: submit_pin_begin_def prune Let_def split: if_splits prod.splits option.splits)
    then show ?thesis using st1 assms(1) run by auto
  next
    case (Inr sub)
    obtain i k' s' where d: "select_candidate (candidates_of st1) pid = (PIN_DELIVERED, i)"
        "find (\<lambda>e. pairing_id (snd e) = i) (map_id_sess st1) = Some (k', s')"
      and st': "st' = fst (getservercert cr conf now pin k' (s'\<lparr>held_response := None, client_name := trim_copy name\<rparr>)
        (store_session k' (s'\<lparr>held_response := None, client_name := trim_copy name\<rparr>) st1))"
      by (rule submit_begin_delivered [OF run [unfolded Inr] prune], rule that) simp_all
    have found: "map_of (map_id_sess st1) k' = Some s'" "pairing_id s' = i"
      using find_SomeD [OF d(2)] pending_mem [OF st1, of k' s'] by simp_all
    have ki: "k' \<noteq> k \<and> i \<noteq> pairing_id s"
      using delivered_waits [OF st1, of pid] d(1) found st1 assms(3) unfolding pending_def by (metis option.inject)
    have key: "key_of s' = k'" using st1 found(1) table_ok_lookup unfolding pending_def pairing_inv_def by blast
    let ?s = "s'\<lparr>held_response := None, client_name := trim_copy name\<rparr>"
    have "only_at k' i st1 (store_session k' ?s st1)" by (rule only_at_store [OF found(1)]) simp
    moreover have "only_at k' i (store_session k' ?s st1) st'"
      unfolding st' by (rule phases_only_at(1) [OF lookup_store [OF found(1)]]) (simp_all add: key)
    ultimately have "only_at k' i st1 st'" by (rule only_at_trans)
    from pending_other [OF st1 this _ _ inv] ki show ?thesis by (simp add: run)
  qed
qed

lemma pending_finish_other:
  assumes "pending cr k s st" and "written \<or> sub_id sub \<noteq> pairing_id s"
  shows "pending cr k s (fst (submit_pin_finish now sub written st))"
proof -
  have inv: "\<exists>pins. pairing_inv (sess_ok cr pins) (fst (submit_pin_finish now sub written st))"
    using assms(1) submit_finish_inv unfolding pending_def by blast
  show ?thesis
  proof (cases "\<not> written \<and> find (\<lambda>e. pairing_id (snd e) = sub_id sub) (map_id_sess st) \<noteq> None")
    case False
    then show ?thesis using assms(1) by (auto simp: submit_pin_finish_def split: option.splits)
  next
    case True
    then obtain k' s' where found: "find (\<lambda>e. pairing_id (snd e) = sub_id sub) (map_id_sess st) = Some (k', s')" by auto
    then have other: "k' \<noteq> k" using find_SomeD [OF found] pending_mem [OF assms(1), of k' s'] assms True
      unfolding pending_def by auto
    have "only_at k' (sub_id sub) st (fst (submit_pin_finish now sub written st))"
      using True found by (auto simp: submit_pin_finish_def intro: only_at_erase)
    from pending_other [OF assms(1) this other _ inv] show ?thesis using assms(2) True by simp
  qed
qed

lemma pending_foreign:
  assumes "pending cr k s st" and "foreign k (pairing_id s) (last_phase s = NONE) (updated_at s) op"
  shows "pending cr k s (fst (pairing_step cr conf st op))"
proof (cases op)
  case (ListRequests now)
  obtain st1 expired where prune: "prune_expired_pairings_locked now st = (st1, expired)" by (meson surj_pair)
  show ?thesis
    using pending_prune [OF assms(1) _ prune] assms(2) ListRequests
    by (simp add: pairing_step_def get_pairing_requests_def prune live_def session_expired_def)
qed (use assms pending_pair_other [OF assms(1)] pending_submit_other [OF assms(1)] pending_finish_other [OF assms(1)] in
    \<open>simp_all add: pairing_step_def live_def session_expired_def not_le\<close>)

lemma pending_foreign_run:
  "\<lbrakk>pending cr k s st; list_all (foreign k (pairing_id s) (last_phase s = NONE) (updated_at s)) ops\<rbrakk>
    \<Longrightarrow> pending cr k s (machine_state (pairing_step cr conf) st ops)"
  by (induction ops arbitrary: st) (simp_all add: pending_foreign)

subsection \<open>The steps of an honest client\<close>

lemma pending_store:
  assumes "pending cr k s st" and "map_id_sess st' = assign k s' (map_id_sess st)" and "pairing_id s' = pairing_id s"
    and "\<exists>pins. pairing_inv (sess_ok cr pins) st'"
  shows "pending cr k s' st'"
proof -
  have "k \<in> fst ` set (map_id_sess st)" using assms(1) by (force simp: pending_def dest: map_of_SomeD)
  then have "map_of (map_id_sess st') k' = (if k' = k then Some s' else map_of (map_id_sess st) k')" for k'
    by (simp add: assms(2) map_of_assign map_of_assign_other)
  with assms show ?thesis unfolding pending_def by (auto split: if_splits)
qed

definition phase_one_args :: "string \<Rightarrow> bytes \<Rightarrow> bytes \<Rightarrow> pair_args" where
  "phase_one_args uid cert salt' = (no_args uid)\<lparr>arg_phrase := Some ''getservercert'',
     arg_clientcert := Some (hex_vec cert True), arg_salt := Some salt'\<rparr>"

text \<open>There is room for a new exchange: what has not expired leaves a place in the table and among those of the
  peer, the peer has none under this name, and the fresh id is fresh.\<close>

definition room_for :: "string \<Rightarrow> pair_env \<Rightarrow> pairing \<Rightarrow> bool" where
  "room_for uid env st \<longleftrightarrow>
     (let st1 = fst (prune_expired_pairings_locked (env_now env) st) in
        map_of (map_id_sess st1) (uid, env_address env) = None \<and> length (map_id_sess st1) < kMaxPendingPairings \<and>
        peer_pending (env_address env) st1 < kMaxPendingPairingsPerPeer \<and>
        env_new_id env \<noteq> [] \<and> list_all (\<lambda>e. pairing_id (snd e) \<noteq> env_new_id env) (map_id_sess st1))"

lemma honest_phase_one:
  assumes inv: "\<exists>pins. pairing_inv (sess_ok cr pins) st" and room: "room_for uid env st" and stdin: "env_stdin_pin env = None"
  obtains s st' where "fst (pair cr conf env (phase_one_args uid cert salt') st) = st'"
    and "pending cr (uid, env_address env) s st'"
    and "last_phase s = NONE" and "client_cert s = cert" and "salt s = salt'" and "updated_at s = env_now env"
    and "pairing_id s = env_new_id env" and "held_response s = Some (env_connection env)"
proof -
  obtain st1 ex where prune: "prune_expired_pairings_locked (env_now env) st = (st1, ex)" by (meson surj_pair)
  let ?k = "(uid, env_address env)" and ?st' = "fst (pair cr conf env (phase_one_args uid cert salt') st)"
  let ?s = "(new_session uid env)\<lparr>client_cert := cert, salt := salt', phase_one_generation := 1,
    held_response := Some (env_connection env)\<rparr>"
  have fresh: "?k \<notin> fst ` set (map_id_sess st1)" "\<forall>e \<in> set (map_id_sess st1). pairing_id (snd e) \<noteq> env_new_id env"
    and free: "map_of (map_id_sess st1) ?k = None" "\<not> kMaxPendingPairings \<le> length (map_id_sess st1)"
      "\<not> kMaxPendingPairingsPerPeer \<le> peer_pending (env_address env) st1"
    using room by (auto simp: room_for_def prune Let_def list_all_iff map_of_eq_None_iff)
  have table: "map_id_sess ?st' = assign ?k ?s (emplace ?k (new_session uid env) (map_id_sess st1))"
    using free stdin
    by (simp add: pair_def phase_one_args_def no_args_def prune pair_phase_one_def await_pin_def
        from_hex_of_hex_vec Let_def) (simp add: new_session_def)
  have look: "map_of (map_id_sess ?st') k' = (if k' = ?k then Some ?s else map_of (map_id_sess st1) k')" for k'
    by (simp add: table map_of_assign map_of_assign_other lookup_emplace fresh(1) insort_key_emplace(1))
  have "\<exists>pins. pairing_inv (sess_ok cr pins) ?st'" using inv pair_inv by blast
  moreover have "k' = ?k" if "map_of (map_id_sess ?st') k' = Some s'" "pairing_id s' = pairing_id ?s" for k' s'
  proof (rule ccontr)
    assume "k' \<noteq> ?k"
    with that(1) have "(k', s') \<in> set (map_id_sess st1)" by (simp add: look map_of_SomeD)
    with fresh(2) that(2) show False by (force simp: new_session_def)
  qed
  moreover have "map_of (map_id_sess ?st') ?k = Some ?s" by (simp add: look)
  ultimately have "pending cr ?k ?s ?st'" unfolding pending_def by blast
  then show ?thesis by (rule that [OF refl]) (simp_all add: new_session_def)
qed

text \<open>The submission selects this exchange: by its id, or because no other live exchange waits for a PIN.\<close>

definition selects :: "time_point \<Rightarrow> pairing_key \<Rightarrow> string \<Rightarrow> string option \<Rightarrow> pairing \<Rightarrow> bool" where
  "selects now k i pid st \<longleftrightarrow> pid = Some i \<or> pid = None \<and>
     list_all (\<lambda>e. fst e = k \<or> last_phase (snd e) \<noteq> NONE) (map_id_sess (fst (prune_expired_pairings_locked now st)))"

lemma find_pending:
  assumes "pending cr k s st"
  shows "find (\<lambda>e. pairing_id (snd e) = pairing_id s) (map_id_sess st) = Some (k, s)"
proof -
  have "(k, s) \<in> set (map_id_sess st)" using assms pending_mem by (auto simp: pending_def)
  then obtain e where e: "find (\<lambda>e. pairing_id (snd e) = pairing_id s) (map_id_sess st) = Some e"
    using find_None_iff [of "\<lambda>e. pairing_id (snd e) = pairing_id s" "map_id_sess st"] by fastforce
  with find_SomeD [OF e] assms pending_mem [OF assms, of "fst e" "snd e"] show ?thesis
    unfolding pending_def by (metis option.inject prod.collapse)
qed

lemma filter_only:
  "\<lbrakk>distinct (map fst m); (k, s) \<in> set m; P (k, s); \<forall>e \<in> set m. fst e = k \<or> \<not> P e\<rbrakk> \<Longrightarrow> filter P m = [(k, s)]"
proof (induction m)
  case (Cons e m)
  show ?case
  proof (cases "e = (k, s)")
    case True
    with Cons.prems have "filter P m = []" by (force simp: filter_empty_conv)
    with True Cons.prems show ?thesis by simp
  next
    case False
    with Cons.prems have mem: "(k, s) \<in> set m" by auto
    then have "fst e \<noteq> k" using Cons.prems(1) by (metis distinct.simps(2) fst_conv image_eqI list.set_map list.simps(9))
    with mem Cons show ?thesis by simp
  qed
qed simp

lemma select_pending:
  assumes "pending cr k s st" and "last_phase s = NONE" and "held_response s \<noteq> None" and "pairing_id s \<noteq> []"
    and "pid = Some (pairing_id s) \<or> pid = None \<and> list_all (\<lambda>e. fst e = k \<or> last_phase (snd e) \<noteq> NONE) (map_id_sess st)"
  shows "select_candidate (candidates_of st) pid = (PIN_DELIVERED, pairing_id s)"
  using assms(5)
proof
  assume "pid = Some (pairing_id s)"
  with find_pending [OF assms(1)] assms(2-4) show ?thesis
    by (simp add: select_candidate_def candidates_of_def find_map comp_def candidate_result_def)
next
  assume *: "pid = None \<and> list_all (\<lambda>e. fst e = k \<or> last_phase (snd e) \<noteq> NONE) (map_id_sess st)"
  have "(k, s) \<in> set (map_id_sess st)" using assms(1) pending_mem by (auto simp: pending_def)
  with * have "filter (\<lambda>e. last_phase (snd e) = NONE) (map_id_sess st) = [(k, s)]"
    by (intro filter_only pending_distinct [OF assms(1)]) (auto simp: assms(2) list_all_iff)
  with * assms(3) show ?thesis
    by (simp add: select_candidate_def scan_candidates_None candidates_of_def filter_map comp_def candidate_result_def)
qed

lemma honest_pin:
  assumes p: "pending cr k s st" and "live now s" and "last_phase s = NONE"
    and "held_response s \<noteq> None" and "pairing_id s \<noteq> []" and "valid_pin pin" and "32 \<le> length (salt s)"
    and sel: "selects now k (pairing_id s) pid st"
  shows "pending cr k (s\<lparr>held_response := None, client_name := trim_copy name, last_phase := GETSERVERCERT,
      updated_at := now, cipher_key := Some (gen_aes_key cr (from_hex_array16 (take 32 (salt s)) True) pin)\<rparr>)
    (fst (submit_pin_begin cr conf now pin name pid st))"
proof -
  obtain st1 ex where prune: "prune_expired_pairings_locked now st = (st1, ex)" by (meson surj_pair)
  have st1: "pending cr k s st1" by (rule pending_prune [OF p assms(2) prune])
  have "select_candidate (candidates_of st1) pid = (PIN_DELIVERED, pairing_id s)"
    using sel by (intro select_pending [OF st1 assms(3-5)]) (simp add: selects_def prune)
  then have "map_id_sess (fst (submit_pin_begin cr conf now pin name pid st)) =
      assign k (s\<lparr>held_response := None, client_name := trim_copy name, last_phase := GETSERVERCERT,
        updated_at := now, cipher_key := Some (gen_aes_key cr (from_hex_array16 (take 32 (salt s)) True) pin)\<rparr>) (map_id_sess st1)"
    using assms(3,6,7) find_pending [OF st1]
    by (simp add: submit_pin_begin_def prune getservercert_def Let_def split_beta)
  moreover have "\<exists>pins. pairing_inv (sess_ok cr pins) (fst (submit_pin_begin cr conf now pin name pid st))"
    using p submit_begin_inv unfolding pending_def by blast
  ultimately show ?thesis by (intro pending_store [OF st1]) simp_all
qed

lemma later_phase_pending:
  assumes p: "pending cr (uid, env_address env) s st" and "live (env_now env) s"
    and "arg_uniqueid args = Some uid" and "arg_phrase args = None"
  obtains st1 out where "pending cr (uid, env_address env) (s\<lparr>held_response := None\<rparr>) st1"
    and "named_devices st1 = named_devices st"
    and "\<And>c. arg_clientchallenge args = Some c \<Longrightarrow> pair cr conf env args st = (case clientchallenge cr conf
        (env_now env) (env_secret env) (env_challenge env) (from_hex_vec c True) (uid, env_address env)
        (s\<lparr>held_response := None\<rparr>) st1 of (st', tree) \<Rightarrow> (st', out tree))"
    and "\<And>r. \<lbrakk>arg_clientchallenge args = None; arg_serverchallengeresp args = Some r\<rbrakk> \<Longrightarrow> pair cr conf env args st =
        (case serverchallengeresp cr conf (env_now env) (from_hex_vec r True) (uid, env_address env)
        (s\<lparr>held_response := None\<rparr>) st1 of (st', tree) \<Rightarrow> (st', out tree))"
    and "\<And>x. \<lbrakk>arg_clientchallenge args = None; arg_serverchallengeresp args = None; arg_clientpairingsecret args = Some x\<rbrakk>
        \<Longrightarrow> pair cr conf env args st = (case clientpairingsecret cr (env_now env) (env_device_uuid env)
        (from_hex_vec x True) (uid, env_address env) (s\<lparr>held_response := None\<rparr>) st1 of (st', tree) \<Rightarrow> (st', out tree))"
    and "\<And>tree. po_reply (out tree) = Some tree"
proof -
  obtain st0 ex where prune: "prune_expired_pairings_locked (env_now env) st = (st0, ex)" by (meson surj_pair)
  let ?k = "(uid, env_address env)" and ?s = "s\<lparr>held_response := None\<rparr>"
  have st0: "pending cr ?k s st0" by (rule pending_prune [OF p assms(2) prune])
  then obtain pins where inv: "pairing_inv (sess_ok cr pins) st0" and look: "map_of (map_id_sess st0) ?k = Some s"
    by (auto simp: pending_def)
  have "table_ok (sess_ok cr pins) st0" using inv by (simp add: pairing_inv_def)
  from table_ok_lookup [OF this look] have "sess_ok cr pins s" "key_of s = ?k" by simp_all
  then have "pairing_inv (sess_ok cr pins) (store_session ?k ?s st0)"
    by (intro store_inv [OF inv look]) (simp_all add: sess_ok_def)
  then have "pending cr ?k ?s (store_session ?k ?s st0)" by (intro pending_store [OF st0]) auto
  then show ?thesis
    by (rule that [of _ "\<lambda>tree. (answer tree ex)\<lparr>po_invalidated := held_response s\<rparr>"])
      (simp_all add: pair_def prune assms(3,4) pair_later_phase_def look Let_def prune_frame(2) [OF prune] answer_def)
qed

lemma honest_challenge:
  assumes p: "pending cr (uid, env_address env) s st" and "live (env_now env) s"
    and "last_phase s = GETSERVERCERT" and "cipher_key s = Some key"
  obtains st' out tree where
    "pair cr conf env ((no_args uid)\<lparr>arg_clientchallenge := Some c\<rparr>) st = (st', out)"
    and "pending cr (uid, env_address env) (s\<lparr>held_response := None, last_phase := CLIENTCHALLENGE,
      updated_at := env_now env, serversecret := env_secret env, serverchallenge := env_challenge env\<rparr>) st'"
    and "po_reply out = Some tree"
    and "\<exists>h. pt_challengeresponse tree = Some (hex_vec (ecb_encrypt cr key (sha256 cr h @ env_challenge env)) True)"
proof -
  let ?k = "(uid, env_address env)" and ?args = "(no_args uid)\<lparr>arg_clientchallenge := Some c\<rparr>"
  let ?s = "s\<lparr>held_response := None, last_phase := CLIENTCHALLENGE, updated_at := env_now env,
    serversecret := env_secret env, serverchallenge := env_challenge env\<rparr>"
  obtain st1 out where st1: "pending cr ?k (s\<lparr>held_response := None\<rparr>) st1"
    and run: "pair cr conf env ?args st = (case clientchallenge cr conf
        (env_now env) (env_secret env) (env_challenge env) (from_hex_vec c True) ?k
        (s\<lparr>held_response := None\<rparr>) st1 of (st', tree) \<Rightarrow> (st', out tree))"
    and reply: "\<And>tree. po_reply (out tree) = Some tree"
    by (rule later_phase_pending [OF p assms(2), of ?args conf]) (simp_all add: no_args_def)
  have table: "map_id_sess (fst (pair cr conf env ?args st)) = assign ?k ?s (map_id_sess st1)"
    by (simp add: run clientchallenge_def assms(3,4) Let_def split_beta)
  have "\<exists>pins. pairing_inv (sess_ok cr pins) (fst (pair cr conf env ?args st))"
    using p pair_inv unfolding pending_def by blast
  then have "pending cr ?k ?s (fst (pair cr conf env ?args st))" by (intro pending_store [OF st1 table]) simp_all
  then show ?thesis
    by (rule that [OF surjective_pairing])
      (auto simp: run reply clientchallenge_def assms(3,4) Let_def split_beta)
qed

lemma honest_response:
  assumes p: "pending cr (uid, env_address env) s st" and "live (env_now env) s"
    and "last_phase s = CLIENTCHALLENGE" and "cipher_key s = Some key" and "serversecret s \<noteq> []"
  shows "pending cr (uid, env_address env) (s\<lparr>held_response := None, last_phase := SERVERCHALLENGERESP,
      updated_at := env_now env, clienthash := ecb_decrypt cr key (from_hex_vec r True)\<rparr>)
    (fst (pair cr conf env ((no_args uid)\<lparr>arg_serverchallengeresp := Some r\<rparr>) st))"
proof -
  let ?k = "(uid, env_address env)" and ?args = "(no_args uid)\<lparr>arg_serverchallengeresp := Some r\<rparr>"
  obtain st1 out where st1: "pending cr ?k (s\<lparr>held_response := None\<rparr>) st1"
    and run: "pair cr conf env ?args st = (case serverchallengeresp cr conf (env_now env) (from_hex_vec r True) ?k
        (s\<lparr>held_response := None\<rparr>) st1 of (st', tree) \<Rightarrow> (st', out tree))"
    by (rule later_phase_pending [OF p assms(2), of ?args conf]) (simp_all add: no_args_def)
  have "\<exists>pins. pairing_inv (sess_ok cr pins) (fst (pair cr conf env ?args st))"
    using p pair_inv unfolding pending_def by blast
  then show ?thesis
    by (intro pending_store [OF st1])
      (simp_all add: run serverchallengeresp_def assms(3-5) Let_def split_beta)
qed

lemma honest_secret:
  assumes "pending cr (uid, env_address env) s st" and "live (env_now env) s"
    and "last_phase s = SERVERCHALLENGERESP" and "proof_accepted cr s x"
  obtains st' out tree where
    "pair cr conf env ((no_args uid)\<lparr>arg_clientpairingsecret := Some (hex_vec x True)\<rparr>) st = (st', out)"
    and "named_devices st' = named_devices st @
      [fresh_cert (client_name s) (env_device_uuid env) (client_cert s)]"
    and "po_reply out = Some tree" and "pt_paired tree = Some 1"
proof -
  let ?k = "(uid, env_address env)" and ?args = "(no_args uid)\<lparr>arg_clientpairingsecret := Some (hex_vec x True)\<rparr>"
  obtain st1 out where dev: "named_devices st1 = named_devices st"
    and run: "pair cr conf env ?args st = (case clientpairingsecret cr (env_now env) (env_device_uuid env)
        (from_hex_vec (hex_vec x True) True) ?k (s\<lparr>held_response := None\<rparr>) st1 of (st', tree) \<Rightarrow> (st', out tree))"
    and reply: "\<And>tree. po_reply (out tree) = Some tree"
    by (rule later_phase_pending [OF assms(1,2), of ?args conf]) (simp_all add: no_args_def)
  from assms(4) have acc: "proof_accepted cr (s\<lparr>held_response := None\<rparr>) x" by (simp add: proof_accepted_def)
  show ?thesis
    by (rule that [OF surjective_pairing])
      (use assms(3,4) acc in \<open>auto simp: run reply dev from_hex_of_hex_vec split_beta clientpairingsecret_devices\<close>,
       use assms(3,4) in \<open>auto simp: clientpairingsecret_def proof_accepted_def Let_def\<close>)
qed

subsection \<open>An honest client is paired\<close>

text \<open>The whole exchange of a client with certificate \<open>cert\<close> and signing function \<open>sign\<close>, with the PIN
  entered at \<open>t2\<close>. Between its steps other threads run the operations \<open>w1\<close> to \<open>w4\<close>. The result is the state
  before the last request, and what that request does.\<close>

definition honest_exchange where
  "honest_exchange cr conf env t1 t2 t3 t4 t5 w1 w2 w3 w4 pin name pid uid cert salt' secret sign challenge st =
     (let others = machine_state (pairing_step cr conf);
          st1 = others (fst (pair cr conf (env\<lparr>env_now := t1\<rparr>) (phase_one_args uid cert salt') st)) w1;
          st2 = others (fst (submit_pin_begin cr conf t2 pin name pid st1)) w2;
          r3 = pair cr conf (env\<lparr>env_now := t3\<rparr>) ((no_args uid)\<lparr>arg_clientchallenge := Some challenge\<rparr>) st2;
          key = gen_aes_key cr (from_hex_array16 (take 32 salt') True) pin;
          response = client_response cr key cert secret (the (po_reply (snd r3)));
          st3 = others (fst r3) w3;
          st4 = others (fst (pair cr conf (env\<lparr>env_now := t4\<rparr>) ((no_args uid)\<lparr>arg_serverchallengeresp := Some response\<rparr>) st3)) w4
      in (st4, pair cr conf (env\<lparr>env_now := t5\<rparr>)
           ((no_args uid)\<lparr>arg_clientpairingsecret := Some (hex_vec (secret @ sign secret) True)\<rparr>) st4))"

lemma client_response_hash:
  assumes "crypto_laws cr cert sign" and "length challenge = 16"
    and "pt_challengeresponse tree = Some (hex_vec (ecb_encrypt cr key (sha256 cr h @ challenge)) True)"
  shows "ecb_decrypt cr key (from_hex_vec (client_response cr key cert secret tree) True) =
    sha256 cr (challenge @ x509_signature cr cert @ secret)"
proof -
  have len: "length (sha256 cr x) = 32" for x using assms(1) by (simp add: crypto_laws_def)
  have dec: "length x mod 16 = 0 \<Longrightarrow> ecb_decrypt cr key (ecb_encrypt cr key x) = x" for x
    using assms(1) by (simp add: crypto_laws_def)
  show ?thesis
    using assms(2,3) by (simp add: client_response_def Let_def from_hex_of_hex_vec dec len)
qed

text \<open>The table when the PIN is entered: phase one has been served and the others have gone on.\<close>

definition asked_state where
  "asked_state cr conf env t1 w1 uid cert salt' st =
     machine_state (pairing_step cr conf) (fst (pair cr conf (env\<lparr>env_now := t1\<rparr>) (phase_one_args uid cert salt') st)) w1"

lemma live_within: "now - updated_at s < kPairingSessionTtl \<Longrightarrow> live now s"
  by (simp add: live_def session_expired_def)

lemma honest_start:
  fixes env :: pair_env and uid :: string
  defines "k \<equiv> (uid, env_address env)" and "i \<equiv> env_new_id env"
  assumes inv: "\<exists>pins. pairing_inv (sess_ok cr pins) st" and room: "room_for uid (env\<lparr>env_now := t1\<rparr>) st"
    and stdin: "env_stdin_pin env = None" and salt: "32 \<le> length salt'"
    and pin: "valid_pin pin" "selects t2 k i pid (asked_state cr conf env t1 w1 uid cert salt' st)"
    and others: "list_all (foreign k i True t1) w1" "list_all (foreign k i False t2) w2"
    and times: "t2 - t1 < kPairingSessionTtl"
  obtains s where "pending cr k s (machine_state (pairing_step cr conf) (fst (submit_pin_begin cr conf t2 pin name pid
      (asked_state cr conf env t1 w1 uid cert salt' st))) w2)"
    and "last_phase s = GETSERVERCERT" and "updated_at s = t2" and "pairing_id s = i" and "client_cert s = cert"
    and "cipher_key s = Some (gen_aes_key cr (from_hex_array16 (take 32 salt') True) pin)" and "client_name s = trim_copy name"
proof -
  obtain s st1 where 1: "fst (pair cr conf (env\<lparr>env_now := t1\<rparr>) (phase_one_args uid cert salt') st) = st1"
      "pending cr k s st1" "last_phase s = NONE" "client_cert s = cert" "salt s = salt'" "updated_at s = t1"
      "pairing_id s = i" "held_response s \<noteq> None"
    by (rule honest_phase_one [OF inv room, of conf cert salt']) (simp_all add: stdin k_def i_def)
  let ?st1 = "asked_state cr conf env t1 w1 uid cert salt' st"
  let ?s = "s\<lparr>held_response := None, client_name := trim_copy name, last_phase := GETSERVERCERT,
    updated_at := t2, cipher_key := Some (gen_aes_key cr (from_hex_array16 (take 32 (salt s)) True) pin)\<rparr>"
  have w1: "pending cr k s ?st1"
    unfolding asked_state_def 1(1) using others(1) 1 by (intro pending_foreign_run) simp_all
  have "i \<noteq> []" using room by (simp add: room_for_def i_def Let_def)
  then have "pending cr k ?s (fst (submit_pin_begin cr conf t2 pin name pid ?st1))"
    by (intro honest_pin [OF w1 live_within]) (use 1 salt pin times in auto)
  then have "pending cr k ?s (machine_state (pairing_step cr conf) (fst (submit_pin_begin cr conf t2 pin name pid ?st1)) w2)"
    using others(2) 1(7) by (intro pending_foreign_run) simp_all
  then show ?thesis by (rule that) (simp_all add: 1)
qed

lemma honest_finish:
  fixes env :: pair_env and uid :: string and conf :: conf_intern
  defines "k \<equiv> (uid, env_address env)"
  assumes p: "pending cr k s st3" and s: "last_phase s = CLIENTCHALLENGE" "updated_at s = t3" "cipher_key s = Some key"
      "serversecret s \<noteq> []" "clienthash (s\<lparr>clienthash := ecb_decrypt cr key (from_hex_vec resp True)\<rparr>) =
        sha256 cr (serverchallenge s @ x509_signature cr (client_cert s) @ secret)"
    and laws: "crypto_laws cr (client_cert s) sign" and secret: "length secret = 16"
    and others: "list_all (foreign k (pairing_id s) False t3) w3" "list_all (foreign k (pairing_id s) False t4) w4"
    and times: "t4 - t3 < kPairingSessionTtl" "t5 - t4 < kPairingSessionTtl"
  defines "st4 \<equiv> machine_state (pairing_step cr conf) (fst (pair cr conf (env\<lparr>env_now := t4\<rparr>)
    ((no_args uid)\<lparr>arg_serverchallengeresp := Some resp\<rparr>) (machine_state (pairing_step cr conf) st3 w3))) w4"
  obtains st' out tree where "pair cr conf (env\<lparr>env_now := t5\<rparr>)
      ((no_args uid)\<lparr>arg_clientpairingsecret := Some (hex_vec (secret @ sign secret) True)\<rparr>) st4 = (st', out)"
    and "po_reply out = Some tree" and "pt_paired tree = Some 1"
    and "named_devices st' = named_devices st4 @ [fresh_cert (client_name s) (env_device_uuid env) (client_cert s)]"
proof -
  define s4 where "s4 = s\<lparr>held_response := None, last_phase := SERVERCHALLENGERESP, updated_at := t4,
    clienthash := ecb_decrypt cr key (from_hex_vec resp True)\<rparr>"
  have "pending cr k s (machine_state (pairing_step cr conf) st3 w3)"
    using p others(1) s by (intro pending_foreign_run) simp_all
  then have "pending cr k s4 (fst (pair cr conf (env\<lparr>env_now := t4\<rparr>)
      ((no_args uid)\<lparr>arg_serverchallengeresp := Some resp\<rparr>) (machine_state (pairing_step cr conf) st3 w3)))"
    using honest_response [of cr uid "env\<lparr>env_now := t4\<rparr>" s _ key resp conf] times(1) live_within [of t4 s] s
    by (simp add: s4_def k_def)
  then have w4: "pending cr k s4 st4"
    unfolding st4_def using others(2) by (intro pending_foreign_run) (simp_all add: s4_def)
  have "proof_accepted cr s4 (secret @ sign secret)"
    using laws secret s(5) by (simp add: proof_accepted_def s4_def crypto_laws_def)
  then show ?thesis
    by (rule honest_secret [of cr uid "env\<lparr>env_now := t5\<rparr>" s4 st4 _ conf, rotated 3])
      (use w4 times(2) live_within [of t5 s4] that in \<open>auto simp: s4_def k_def\<close>)
qed

lemma honest_exchange_pairs:
  fixes env :: pair_env and uid :: string
  defines "k \<equiv> (uid, env_address env)" and "i \<equiv> env_new_id env"
  assumes laws: "crypto_laws cr cert sign" and inv: "\<exists>pins. pairing_inv (sess_ok cr pins) st"
    and room: "room_for uid (env\<lparr>env_now := t1\<rparr>) st" and stdin: "env_stdin_pin env = None"
    and pin: "valid_pin pin" "selects t2 k i pid (asked_state cr conf env t1 w1 uid cert salt' st)"
    and sizes: "32 \<le> length salt'" "length secret = 16" "length (env_challenge env) = 16" "env_secret env \<noteq> []"
    and others: "list_all (foreign k i True t1) w1" "list_all (foreign k i False t2) w2"
      "list_all (foreign k i False t3) w3" "list_all (foreign k i False t4) w4"
    and times: "t2 - t1 < kPairingSessionTtl" "t3 - t2 < kPairingSessionTtl" "t4 - t3 < kPairingSessionTtl"
      "t5 - t4 < kPairingSessionTtl"
  shows "\<exists>st4 st' out tree.
    honest_exchange cr conf env t1 t2 t3 t4 t5 w1 w2 w3 w4 pin name pid uid cert salt' secret sign challenge st = (st4, st', out) \<and>
    po_reply out = Some tree \<and> pt_paired tree = Some 1 \<and>
    named_devices st' = named_devices st4 @ [fresh_cert (trim_copy name) (env_device_uuid env) cert]"
proof -
  let ?key = "gen_aes_key cr (from_hex_array16 (take 32 salt') True) pin"
  define st2 where "st2 = machine_state (pairing_step cr conf) (fst (submit_pin_begin cr conf t2 pin name pid
    (asked_state cr conf env t1 w1 uid cert salt' st))) w2"
  obtain s where s: "pending cr k s st2" "last_phase s = GETSERVERCERT" "updated_at s = t2" "pairing_id s = i"
      "client_cert s = cert" "cipher_key s = Some ?key" "client_name s = trim_copy name"
    unfolding st2_def k_def i_def
    by (rule honest_start [OF inv room stdin sizes(1) pin(1) pin(2) [unfolded k_def i_def]
        others(1,2) [unfolded k_def i_def] times(1)])
  obtain st3 out3 tree3 h where 3: "pair cr conf (env\<lparr>env_now := t3\<rparr>)
        ((no_args uid)\<lparr>arg_clientchallenge := Some challenge\<rparr>) st2 = (st3, out3)"
      "pending cr k (s\<lparr>held_response := None, last_phase := CLIENTCHALLENGE, updated_at := t3,
         serversecret := env_secret env, serverchallenge := env_challenge env\<rparr>) st3" "po_reply out3 = Some tree3"
      "pt_challengeresponse tree3 = Some (hex_vec (ecb_encrypt cr ?key (sha256 cr h @ env_challenge env)) True)"
    by (rule honest_challenge [of cr uid "env\<lparr>env_now := t3\<rparr>" s st2 ?key conf challenge])
      (use s times(2) live_within [of t3 s] in \<open>auto simp: k_def\<close>)
  note hash = client_response_hash [OF laws sizes(3) 3(4), of secret]
  show ?thesis
    by (rule honest_finish [OF 3(2) [unfolded k_def], of t3 ?key "client_response cr ?key cert secret tree3" secret sign w3 t4 w4 t5 conf])
      (use s laws hash sizes others times 3(1,3) in \<open>auto simp: k_def honest_exchange_def Let_def st2_def asked_state_def\<close>)
qed

text \<open>
  C30. An honest client that knows the PIN is paired, whatever others do meanwhile. Start from any state the
  pairing service can reach that has room: fewer than 32 unexpired exchanges, fewer than two of this peer, none
  under this name, and a fresh id. A client sends its certificate and a salt of at least 32 digits while no PIN is
  read from the console; the user enters a four-digit PIN in the web UI, naming this exchange or naming none when
  no other live exchange waits; the client answers the challenges from the key it derives, with secrets of 16
  bytes, each step within five minutes of the one before. Between the steps run any requests of other peers or
  under other names, any listings, any PINs for other exchanges (any at all once this one has its PIN) and any
  ends of submissions but a failed delivery of this one's reply, with fresh ids that differ. If the
  cryptographic library keeps its laws (hashes of 32 bytes, decryption undoing encryption of whole blocks, a valid
  client certificate whose signatures verify), the last request answers that the client is paired, and exactly its
  certificate is added to the authorized devices, under the name the user gave.
\<close>

theorem honest_client_pairs:
  fixes env :: pair_env and uid :: string and cr :: crypto_api and conf :: conf_intern and ops :: "pairing_op list"
  defines "k \<equiv> (uid, env_address env)" and "i \<equiv> env_new_id env"
  defines "st \<equiv> machine_state (pairing_step cr conf) pairing_init ops"
  assumes "crypto_laws cr cert sign" and "room_for uid (env\<lparr>env_now := t1\<rparr>) st" and "env_stdin_pin env = None"
    and "valid_pin pin" and "selects t2 k i pid (asked_state cr conf env t1 w1 uid cert salt' st)"
    and "32 \<le> length salt'" and "length secret = 16" and "length (env_challenge env) = 16" and "env_secret env \<noteq> []"
    and "list_all (foreign k i True t1) w1" and "list_all (foreign k i False t2) w2"
    and "list_all (foreign k i False t3) w3" and "list_all (foreign k i False t4) w4"
    and "t2 - t1 < kPairingSessionTtl" and "t3 - t2 < kPairingSessionTtl" and "t4 - t3 < kPairingSessionTtl"
    and "t5 - t4 < kPairingSessionTtl"
  shows "\<exists>st4 st' out tree.
    honest_exchange cr conf env t1 t2 t3 t4 t5 w1 w2 w3 w4 pin name pid uid cert salt' secret sign challenge st = (st4, st', out) \<and>
    po_reply out = Some tree \<and> pt_paired tree = Some 1 \<and>
    named_devices st' = named_devices st4 @ [fresh_cert (trim_copy name) (env_device_uuid env) cert]"
proof -
  have "\<exists>pins. pairing_inv (sess_ok cr pins) st" unfolding st_def using run_pairing_inv by blast
  from honest_exchange_pairs [OF assms(4) this assms(5-8) [unfolded k_def i_def] assms(9-12)
      assms(13-16) [unfolded k_def i_def] assms(17-20)]
  show ?thesis .
qed

subsection \<open>A concrete exchange\<close>

definition toy_sign :: "bytes \<Rightarrow> bytes" where "toy_sign x = x @ [9]"

definition toy_api :: crypto_api where
  "toy_api = \<lparr>sha256 = \<lambda>x. take 32 (x @ replicate 32 0), ecb_encrypt = \<lambda>k x. x, ecb_decrypt = \<lambda>k x. x,
     x509_valid = \<lambda>c. True, x509_signature = \<lambda>c. [7], sign256 = \<lambda>k x. x, verify256 = \<lambda>c x s. s = toy_sign x\<rparr>"

definition toy_conf :: conf_intern where "toy_conf = \<lparr>servercert = [1, 2], pkey = [3]\<rparr>"

definition toy_env :: pair_env where
  "toy_env = \<lparr>env_now = 0, env_address = ''10.0.0.7'', env_connection = 1, env_stdin_pin = None,
     env_new_id = ''id'', env_device_uuid = ''dev'', env_secret = replicate 16 5, env_challenge = replicate 16 6\<rparr>"

definition toy_pin :: bytes where "toy_pin = [0x31, 0x32, 0x33, 0x34]"

lemma toy_api_laws: "crypto_laws toy_api [4] toy_sign"
  by (auto simp: crypto_laws_def toy_api_def toy_sign_def min_def)

lemma toy_pin_valid: "valid_pin toy_pin"
  by (simp add: valid_pin_def toy_pin_def)

text \<open>Another client asks first and again in between; the PIN names the exchange it is for.\<close>

abbreviation rival :: "time_point \<Rightarrow> pairing_op" where
  "rival t \<equiv> Pair (toy_env\<lparr>env_now := t, env_address := ''10.0.0.8'', env_new_id := ''rival''\<rparr>) (phase_one_args ''u'' [5] (replicate 32 0x42))"

abbreviation toy_start :: pairing where
  "toy_start \<equiv> machine_state (pairing_step toy_api toy_conf) pairing_init [rival 0]"

abbreviation toy_exchange :: "pairing \<times> pairing \<times> pair_output" where
  "toy_exchange \<equiv> honest_exchange toy_api toy_conf toy_env 1 2 3 4 5 [rival 2] [] [ListRequests 3] [] toy_pin '' tv ''
     (Some ''id'') ''u'' [4] (replicate 32 0x41) (replicate 16 8) toy_sign [0x30, 0x31] toy_start"

lemma toy_start_has_room: "room_for ''u'' (toy_env\<lparr>env_now := 1\<rparr>) toy_start"
  by code_simp

lemma toy_others:
  "list_all (foreign (''u'', env_address toy_env) (env_new_id toy_env) True 1) [rival 2]"
  "list_all (foreign (''u'', env_address toy_env) (env_new_id toy_env) False 3) [ListRequests 3]"
  by code_simp+

theorem honest_client_pairs_witness:
  "named_devices (fst (snd toy_exchange)) = named_devices (fst toy_exchange) @ [fresh_cert ''tv'' ''dev'' [4]] \<and>
   room_for ''u'' (toy_env\<lparr>env_now := 1\<rparr>) toy_start"
proof -
  have "\<exists>st4 st' out tree. toy_exchange = (st4, st', out) \<and> po_reply out = Some tree \<and> pt_paired tree = Some 1 \<and>
      named_devices st' = named_devices st4 @ [fresh_cert (trim_copy '' tv '') (env_device_uuid toy_env) [4]]"
    by (rule honest_client_pairs [OF toy_api_laws toy_start_has_room _ toy_pin_valid _ _ _ _ _ toy_others(1) _ toy_others(2)])
      (simp_all add: toy_env_def kPairingSessionTtl_def selects_def)
  then have "named_devices (fst (snd toy_exchange)) =
      named_devices (fst toy_exchange) @ [fresh_cert (trim_copy '' tv '') (env_device_uuid toy_env) [4]]"
    by (elim exE conjE) (simp only: fst_conv snd_conv)
  moreover have "trim_copy '' tv '' = ''tv''" "env_device_uuid toy_env = ''dev''" by code_simp+
  ultimately show ?thesis using toy_start_has_room by (simp only: simp_thms)
qed

abbreviation toy_asked :: pairing where
  "toy_asked \<equiv> asked_state toy_api toy_conf toy_env 1 [rival 2] ''u'' [4] (replicate 32 0x41) toy_start"

abbreviation toy_challenge :: pairing_op where
  "toy_challenge \<equiv> Pair (toy_env\<lparr>env_now := 3\<rparr>) ((no_args ''u'')\<lparr>arg_clientchallenge := Some [0x30, 0x31]\<rparr>)"

abbreviation toy_response :: bytes where
  "toy_response \<equiv> client_response toy_api (gen_aes_key toy_api (from_hex_array16 (take 32 (replicate 32 0x41)) True) toy_pin)
     [4] (replicate 16 8) (the (po_reply (snd (pair toy_api toy_conf (toy_env\<lparr>env_now := 3\<rparr>)
       ((no_args ''u'')\<lparr>arg_clientchallenge := Some [0x30, 0x31]\<rparr>)
       (fst (submit_pin_begin toy_api toy_conf 2 toy_pin '' tv '' (Some ''id'') toy_asked))))))"

abbreviation toy_ops :: "pairing_op list" where
  "toy_ops \<equiv> [rival 0, Pair (toy_env\<lparr>env_now := 1\<rparr>) (phase_one_args ''u'' [4] (replicate 32 0x41)), rival 2,
     SubmitBegin 2 toy_pin '' tv '' (Some ''id''), toy_challenge, ListRequests 3,
     Pair (toy_env\<lparr>env_now := 4\<rparr>) ((no_args ''u'')\<lparr>arg_serverchallengeresp := Some toy_response\<rparr>)]"

abbreviation toy_last :: pairing_op where
  "toy_last \<equiv> Pair (toy_env\<lparr>env_now := 5\<rparr>)
     ((no_args ''u'')\<lparr>arg_clientpairingsecret := Some (hex_vec (replicate 16 8 @ toy_sign (replicate 16 8)) True)\<rparr>)"

lemma toy_run:
  "machine_state (pairing_step toy_api toy_conf) pairing_init toy_ops = fst toy_exchange"
  "fst (pairing_step toy_api toy_conf (fst toy_exchange) toy_last) = fst (snd toy_exchange)"
  by (simp_all add: pairing_step_def honest_exchange_def asked_state_def Let_def)

lemma toy_run_pairs:
  "named_devices (fst (snd toy_exchange)) = named_devices (fst toy_exchange) @ [fresh_cert (trim_copy '' tv '') ''dev'' [4]]"
proof -
  have inv: "\<exists>pins. pairing_inv (sess_ok toy_api pins) toy_start" using run_pairing_inv by blast
  have "\<exists>st4 st' out tree. toy_exchange = (st4, st', out) \<and> po_reply out = Some tree \<and> pt_paired tree = Some 1 \<and>
      named_devices st' = named_devices st4 @ [fresh_cert (trim_copy '' tv '') (env_device_uuid toy_env) [4]]"
    by (rule honest_exchange_pairs [OF toy_api_laws inv toy_start_has_room _ toy_pin_valid _ _ _ _ _ toy_others(1) _
          toy_others(2)])
      (simp_all add: toy_env_def kPairingSessionTtl_def selects_def)
  moreover have "env_device_uuid toy_env = ''dev''" by (simp add: toy_env_def)
  ultimately show ?thesis by (elim exE conjE) (simp only: fst_conv snd_conv)
qed

theorem authorized_only_with_pin_witness:
  "\<exists>i pin. (i, pin) \<in> pins_given toy_api toy_conf pairing_init toy_ops"
proof -
  have "named_devices (fst (pairing_step toy_api toy_conf
      (machine_state (pairing_step toy_api toy_conf) pairing_init toy_ops) toy_last))
    \<noteq> named_devices (machine_state (pairing_step toy_api toy_conf) pairing_init toy_ops)"
    unfolding toy_run toy_run_pairs by simp
  from authorized_only_with_pin [OF this] show ?thesis by blast
qed

definition toy_session :: pair_session where
  "toy_session = (new_session ''u'' toy_env)\<lparr>client_cert := [4], salt := replicate 32 0x41,
     phase_one_generation := 1, held_response := Some 1\<rparr>"

definition toy_waiting :: pairing where
  "toy_waiting = pairing_init\<lparr>map_id_sess := [((''u'', ''10.0.0.7''), toy_session)]\<rparr>"

theorem pin_reaches_selected_exchange_witness:
  "\<exists>k s. (k, s) \<in> set (map_id_sess toy_waiting) \<and> pairing_id s = ''id'' \<and> valid_pin toy_pin"
proof -
  obtain st' sub where run: "submit_pin_begin toy_api toy_conf 2 toy_pin [] None toy_waiting = (st', Inr sub, [])"
    and "sub_id sub = ''id''"
    using toy_pin_valid
    by (simp add: submit_pin_begin_def toy_waiting_def toy_session_def new_session_def toy_env_def pairing_init_def
        prune_expired_pairings_locked_def session_expired_def kPairingSessionTtl_def prune_pairing_outcomes_locked_def
        drop_oldest.simps candidates_of_def select_candidate_def candidate_result_def map_filter_def Let_def split_beta)
  moreover have "table_ok (\<lambda>s. True) toy_waiting" "distinct (map (\<lambda>e. pairing_id (snd e)) (map_id_sess toy_waiting))"
    by (simp_all add: table_ok_def toy_waiting_def toy_session_def new_session_def toy_env_def)
  ultimately show ?thesis using pin_reaches_selected_exchange [OF run] by metis
qed

definition toy_submitted :: pairing where
  "toy_submitted = toy_waiting\<lparr>map_id_sess := [((''u'', ''10.0.0.7''), toy_session\<lparr>last_phase := GETSERVERCERT\<rparr>)]\<rparr>"

definition toy_submission :: submission where
  "toy_submission = \<lparr>sub_response = Some 1, sub_tree = empty_tree, sub_id = ''id'', sub_generation = 1\<rparr>"

theorem stale_delivery_keeps_exchange_witness:
  "snd (submit_pin_finish 9 toy_submission False
     (fst (pair_phase_one toy_api toy_conf toy_env ''u'' [4] (replicate 32 0x41) [] toy_submitted)))
   = (ALREADY_SUBMITTED, ''id'')"
proof -
  let ?r = "pair_phase_one toy_api toy_conf toy_env ''u'' [4] (replicate 32 0x41) [] toy_submitted"
  let ?tree = "paired_tree\<lparr>pt_plaincert := Some (hex_vec (servercert toy_conf) True)\<rparr>"
  let ?s = "toy_session\<lparr>last_phase := GETSERVERCERT\<rparr>"
  have "table_ok (\<lambda>s. True) toy_submitted \<and> distinct (map (\<lambda>e. pairing_id (snd e)) (map_id_sess toy_submitted)) \<and>
      map_of (map_id_sess toy_submitted) (''u'', env_address toy_env) = Some ?s \<and> last_phase ?s = GETSERVERCERT \<and>
      pairing_id ?s = sub_id toy_submission \<and> phase_one_generation ?s = sub_generation toy_submission \<and>
      ?r = (fst ?r, snd ?r) \<and> po_reply (snd ?r) = Some ?tree \<and> pt_paired ?tree = Some 1"
    by (simp add: table_ok_def toy_submitted_def toy_session_def new_session_def toy_env_def toy_submission_def
        pair_phase_one_def phase_one_retry_matches_def answer_def paired_tree_def Let_def)
  with stale_delivery_keeps_exchange [of 9 toy_submission False toy_submitted "''u''" toy_env ?s toy_api toy_conf
      "[4]" "replicate 32 0x41" "[]" "fst ?r" "snd ?r" ?tree]
  have "submit_pin_finish 9 toy_submission False (fst ?r) = (fst ?r, ALREADY_SUBMITTED, sub_id toy_submission)"
    by blast
  then show ?thesis by (simp add: toy_submission_def)
qed

theorem pairing_tables_bounded_witness:
  "length (map_id_sess (machine_state (pairing_step toy_api toy_conf) pairing_init toy_ops)) \<le> 32"
  using pairing_tables_bounded [of toy_api toy_conf toy_ops] by blast

end
