(* ===== verification/Control_Stream.thy ===== *)
theory Control_Stream
  imports Pyrowave_Contract
begin

unbundle bit_operations_syntax

text \<open>
  The control stream (\<^verbatim>\<open>src/stream.cpp\<close>): the table of sessions and peers, the dispatch of control messages
  with every handler, encryption in both directions (\<^verbatim>\<open>src/crypto.cpp\<close>), and the loop that retires
  sessions. Payloads are lists of bytes; a read past the end of one, and an exception nobody catches, are
  values of their own. OpenSSL and ENet are parameters and inputs.
\<close>

type_synonym octets = "u8 list"

subsection \<open>Message types\<close>

definition packetTypes :: "u16 list" where
  "packetTypes = [0x0305, 0x0307, 0x0301, 0x0201, 0x0204, 0x0206, 0x010b, 0x0109, 0x0200, 0x0302, 0x0001, 0x010e,
     0x5500, 0x5501, 0x5502, 0x5503]"

definition IDX_START_A :: nat where "IDX_START_A = 0"
definition IDX_START_B :: nat where "IDX_START_B = 1"
definition IDX_INVALIDATE_REF_FRAMES :: nat where "IDX_INVALIDATE_REF_FRAMES = 2"
definition IDX_LOSS_STATS :: nat where "IDX_LOSS_STATS = 3"
definition IDX_INPUT_DATA :: nat where "IDX_INPUT_DATA = 5"
definition IDX_RUMBLE_DATA :: nat where "IDX_RUMBLE_DATA = 6"
definition IDX_TERMINATION :: nat where "IDX_TERMINATION = 7"
definition IDX_PERIODIC_PING :: nat where "IDX_PERIODIC_PING = 8"
definition IDX_REQUEST_IDR_FRAME :: nat where "IDX_REQUEST_IDR_FRAME = 9"
definition IDX_ENCRYPTED :: nat where "IDX_ENCRYPTED = 10"
definition IDX_HDR_MODE :: nat where "IDX_HDR_MODE = 11"
definition IDX_RUMBLE_TRIGGER_DATA :: nat where "IDX_RUMBLE_TRIGGER_DATA = 12"
definition IDX_SET_MOTION_EVENT :: nat where "IDX_SET_MOTION_EVENT = 13"
definition IDX_SET_RGB_LED :: nat where "IDX_SET_RGB_LED = 14"
definition IDX_SET_ADAPTIVE_TRIGGERS :: nat where "IDX_SET_ADAPTIVE_TRIGGERS = 15"

definition LEGACY_TERMINATION_PACKET_TYPE :: u16 where "LEGACY_TERMINATION_PACKET_TYPE = 0x0100"
definition kPyrowaveFrameFecStatusPtype :: u16 where "kPyrowaveFrameFecStatusPtype = 0x5502"

lemmas packet_type_defs = packetTypes_def IDX_START_A_def IDX_START_B_def IDX_INVALIDATE_REF_FRAMES_def
  IDX_LOSS_STATS_def IDX_INPUT_DATA_def IDX_RUMBLE_DATA_def IDX_TERMINATION_def IDX_PERIODIC_PING_def IDX_REQUEST_IDR_FRAME_def
  IDX_ENCRYPTED_def IDX_HDR_MODE_def IDX_RUMBLE_TRIGGER_DATA_def IDX_SET_MOTION_EVENT_def IDX_SET_RGB_LED_def
  IDX_SET_ADAPTIVE_TRIGGERS_def LEGACY_TERMINATION_PACKET_TYPE_def kPyrowaveFrameFecStatusPtype_def

text \<open>Little- and big-endian fields; \<open>None\<close> is a read past the end.\<close>

definition value_le :: "octets \<Rightarrow> nat" where "value_le bs = foldr (\<lambda>b n. unat b + 256 * n) bs 0"

definition field_le :: "nat \<Rightarrow> nat \<Rightarrow> octets \<Rightarrow> nat" where
  "field_le off width payload = value_le (take width (drop off payload))"

definition field_be :: "nat \<Rightarrow> nat \<Rightarrow> octets \<Rightarrow> nat" where
  "field_be off width payload = value_le (rev (take width (drop off payload)))"

definition signed :: "nat \<Rightarrow> nat \<Rightarrow> int" where
  "signed bits n = (if n < 2 ^ (bits - 1) then int n else int n - 2 ^ bits)"

subsection \<open>Decryption\<close>

datatype fault = OutOfBounds | Exception

text \<open>OpenSSL: setting up the context with an initialization vector, and opening a tagged ciphertext.\<close>

datatype evp_setup = SetupFailed | IvRejected | SetupDone

record evp_api =
  evp_setup :: "octets \<Rightarrow> octets \<Rightarrow> evp_setup"
  evp_open :: "octets \<Rightarrow> octets \<Rightarrow> octets \<Rightarrow> octets \<Rightarrow> octets option"
  evp_seal :: "octets \<Rightarrow> octets \<Rightarrow> octets \<Rightarrow> (octets \<times> octets) option"

definition tag_size :: nat where "tag_size = 16"

text \<open>\<open>gcm_t::decrypt\<close>: a fault, a failure, or the plaintext. A vector that OpenSSL rejects is reported as
  success with an empty plaintext.\<close>

definition gcm_decrypt :: "evp_api \<Rightarrow> octets \<Rightarrow> octets \<Rightarrow> octets \<Rightarrow> fault + octets option" where
  "gcm_decrypt evp key iv tagged_cipher =
     (case evp_setup evp key iv of
        SetupFailed \<Rightarrow> Inr None
      | IvRejected \<Rightarrow> Inr (Some [])
      | SetupDone \<Rightarrow>
          if length tagged_cipher < tag_size then Inl Exception
          else Inr (evp_open evp key iv (take tag_size tagged_cipher) (drop tag_size tagged_cipher)))"

subsection \<open>Sessions\<close>

datatype session_state = STOPPED | STOPPING | STARTING | RUNNING

text \<open>How far \<open>session::start\<close> has come for a session: listed, its ping deadline set, counted as active, done.\<close>

datatype start_phase = Listed | Armed | Counted | Started

datatype feedback_msg = Rumble u16 u16 u16 | RumbleTriggers u16 u16 u16 | MotionEventState u16 u8 u16
  | RgbLed u16 u8 u8 u8 | AdaptiveTriggers u16 u8 u8 u8 octets octets

record csession =
  cs_id :: nat
  cs_state :: session_state
  cs_start :: start_phase
  cs_launch_session_id :: u32
  cs_strict_client :: bool
  cs_pingTimeout :: time_point
  cs_controlProtocolType :: int
  cs_mlFeatureFlags :: u32
  cs_encryptionFlagsEnabled :: u32
  cs_key :: octets
  cs_legacy_input_enc_iv :: octets
  cs_incoming_iv :: octets
  cs_outgoing_iv :: octets
  cs_connect_data :: u32
  cs_expected_peer_address :: string
  cs_localAddress :: string
  cs_peer :: "nat option"
  cs_seq :: u32
  cs_feedback_queue :: "feedback_msg list"
  cs_hdr_queue :: "(bool \<times> octets) option"
  cs_chroma_downgrade :: bool
  cs_client_losses :: u32
  cs_idr_requests :: u32
  cs_ref_invalidations :: u32
  cs_feedback_config :: feedback_config
  cs_feedback :: feedback_state

text \<open>The flags of the client library's header, the host's telemetry setting, the clock.\<close>

record control_env =
  ce_evp :: evp_api
  ce_SS_ENC_CONTROL_V2 :: u32
  ce_ML_FF_SESSION_ID_V1 :: u32
  ce_session_monitor :: bool
  ce_ping_timeout :: duration
  ce_now_ms :: int
  ce_make_address :: "string \<Rightarrow> string option"

datatype control_effect = StopSession | PassInput octets | RaiseIdr | RaiseInvalidate int int
  | PyrowaveEvent feedback_event | LaunchSessionClear u32 | SendControl nat octets | DisconnectNow nat
  | MetadataNoYuv444 | ControlEnd | Shutdown

text \<open>\<open>session::stop\<close>. The wait for a starting session in front of it returns at once: no code ever stores
  that state (the invariant below).\<close>

definition stop_session :: "csession \<Rightarrow> csession \<times> control_effect list" where
  "stop_session s =
     (if cs_state s = RUNNING then (s\<lparr>cs_state := STOPPING\<rparr>, [StopSession]) else (s, []))"

subsection \<open>Handlers\<close>

type_synonym handled = "fault + csession \<times> control_effect list"

definition on_loss_stats :: "control_env \<Rightarrow> octets \<Rightarrow> csession \<Rightarrow> handled" where
  "on_loss_stats env payload s =
     (if length payload < 16 then Inl OutOfBounds
      else let count = signed 32 (field_le 0 4 payload)
           in Inr (if ce_session_monitor env \<and> count > 0
                   then s\<lparr>cs_client_losses := cs_client_losses s + of_int count\<rparr> else s, []))"

definition on_request_idr :: "control_env \<Rightarrow> csession \<Rightarrow> handled" where
  "on_request_idr env s =
     Inr (if ce_session_monitor env then s\<lparr>cs_idr_requests := cs_idr_requests s + 1\<rparr> else s, [RaiseIdr])"

definition on_invalidate_ref_frames :: "control_env \<Rightarrow> octets \<Rightarrow> csession \<Rightarrow> handled" where
  "on_invalidate_ref_frames env payload s =
     (if length payload < 16 then Inr (s, [])
      else Inr (if ce_session_monitor env then s\<lparr>cs_ref_invalidations := cs_ref_invalidations s + 1\<rparr> else s,
                [RaiseInvalidate (signed 64 (field_le 0 8 payload)) (signed 64 (field_le 8 8 payload))]))"

definition on_fec_status :: "control_env \<Rightarrow> octets \<Rightarrow> csession \<Rightarrow> handled" where
  "on_fec_status env payload s =
     (case on_frame_fec_status (cs_feedback_config s) (ce_now_ms env) payload (cs_feedback s) of (fb, events) \<Rightarrow>
        Inr (s\<lparr>cs_feedback := fb\<rparr>, map PyrowaveEvent events))"

definition on_input_data :: "control_env \<Rightarrow> octets \<Rightarrow> csession \<Rightarrow> handled" where
  "on_input_data env payload s =
     (if length payload < 4 then Inr (s, [])
      else let n = signed 32 (field_be 0 4 payload)
           in if n < 0 \<or> nat n > length payload - 4 then Inr (s, [])
              else (case gcm_decrypt (ce_evp env) (cs_key s) (cs_legacy_input_enc_iv s) (take (nat n) (drop 4 payload)) of
                      Inl f \<Rightarrow> Inl f
                    | Inr None \<Rightarrow> Inr (stop_session s)
                    | Inr (Some plaintext) \<Rightarrow>
                        let iv = cs_legacy_input_enc_iv s;
                            iv' = (if nat n \<ge> 16 + length iv then drop (length payload - 16) payload @ drop 16 iv else iv)
                        in Inr (s\<lparr>cs_legacy_input_enc_iv := iv'\<rparr>, [PassInput plaintext])))"

text \<open>The registered callbacks except the one for encrypted messages, in the order of registration.\<close>

definition call_plain :: "control_env \<Rightarrow> u16 \<Rightarrow> octets \<Rightarrow> csession \<Rightarrow> handled" where
  "call_plain env type payload s =
     (if type = packetTypes ! IDX_PERIODIC_PING \<or> type = packetTypes ! IDX_START_A \<or> type = packetTypes ! IDX_START_B
      then Inr (s, [])
      else if type = packetTypes ! IDX_TERMINATION \<or> type = LEGACY_TERMINATION_PACKET_TYPE then Inr (stop_session s)
      else if type = packetTypes ! IDX_LOSS_STATS then on_loss_stats env payload s
      else if type = packetTypes ! IDX_REQUEST_IDR_FRAME then on_request_idr env s
      else if type = kPyrowaveFrameFecStatusPtype then on_fec_status env payload s
      else if type = packetTypes ! IDX_INVALIDATE_REF_FRAMES then on_invalidate_ref_frames env payload s
      else if type = packetTypes ! IDX_INPUT_DATA then on_input_data env payload s
      else Inr (s, []))"

definition resize :: "nat \<Rightarrow> octets \<Rightarrow> octets" where
  "resize n xs = take n xs @ replicate (n - length xs) 0"

definition bytes_le32 :: "u32 \<Rightarrow> octets" where
  "bytes_le32 w = [ucast w, ucast (drop_bit 8 w), ucast (drop_bit 16 w), ucast (drop_bit 24 w)]"

definition bytes_le16 :: "u16 \<Rightarrow> octets" where
  "bytes_le16 w = [ucast w, ucast (drop_bit 8 w)]"

text \<open>The initialization vector of one message, written over the previous one: the sequence number and the
  originator's tag, or its low byte alone in the old style.\<close>

definition control_iv :: "bool \<Rightarrow> u8 \<Rightarrow> u32 \<Rightarrow> octets \<Rightarrow> octets" where
  "control_iv v2 originator seq iv =
     (if v2 then (bytes_le32 seq @ drop 4 (resize 12 iv))[10 := originator, 11 := 67]
      else (resize 16 iv)[0 := ucast seq])"

definition control_v2 :: "control_env \<Rightarrow> csession \<Rightarrow> bool" where
  "control_v2 env s \<longleftrightarrow> cs_encryptionFlagsEnabled s AND ce_SS_ENC_CONTROL_V2 env \<noteq> 0"

definition on_encrypted :: "control_env \<Rightarrow> octets \<Rightarrow> csession \<Rightarrow> handled" where
  "on_encrypted env payload s0 =
     (if length payload < 6 then Inl OutOfBounds
      else
        let n = field_le 0 2 payload; seq = word_of_nat (field_le 2 4 payload)
        in if n < 16 + 4 + 4 then Inr (s0, [])
           else
             let iv = control_iv (control_v2 env s0) 67 seq (cs_incoming_iv s0); s = s0\<lparr>cs_incoming_iv := iv\<rparr>
             in if length payload < 6 + (n - 4) then Inl OutOfBounds
                else (case gcm_decrypt (ce_evp env) (cs_key s) iv (take (n - 4) (drop 6 payload)) of
                        Inl f \<Rightarrow> Inl f
                      | Inr None \<Rightarrow> Inr (stop_session s)
                      | Inr (Some plaintext) \<Rightarrow>
                          if length plaintext < 4 then Inl OutOfBounds
                          else let type = word_of_nat (field_le 0 2 plaintext)
                               in if type = packetTypes ! IDX_ENCRYPTED then Inr (stop_session s)
                                  else if type = packetTypes ! IDX_INPUT_DATA then Inr (s, [PassInput (drop 4 plaintext)])
                                  else call_plain env type (drop 4 plaintext) s))"

text \<open>\<open>control_server_t::call\<close> for a message off the wire.\<close>

definition call :: "control_env \<Rightarrow> u16 \<Rightarrow> octets \<Rightarrow> csession \<Rightarrow> handled" where
  "call env type payload s =
     (if cs_controlProtocolType s = 13 \<and> type \<noteq> packetTypes ! IDX_ENCRYPTED then Inr (s, [])
      else if type = packetTypes ! IDX_ENCRYPTED then on_encrypted env payload s
      else call_plain env type payload s)"

subsection \<open>Sending\<close>

text \<open>\<open>encode_control\<close>: the session afterwards, and the bytes to send with the vector used; no bytes when
  the encryption fails.\<close>

definition encode_control :: "control_env \<Rightarrow> octets \<Rightarrow> csession \<Rightarrow> csession \<times> octets \<times> octets option" where
  "encode_control env plaintext s =
     (if cs_controlProtocolType s \<noteq> 13 then (s, plaintext, None)
      else let seq = cs_seq s; iv = control_iv (control_v2 env s) 72 seq (cs_outgoing_iv s);
               s' = s\<lparr>cs_seq := seq + 1, cs_outgoing_iv := iv\<rparr>
           in case evp_seal (ce_evp env) (cs_key s) iv plaintext of
                None \<Rightarrow> (s', [], Some iv)
              | Some (tag, cipher) \<Rightarrow>
                  if cipher = [] then (s', [], Some iv)
                  else let packet_length = (word_of_nat (length cipher + tag_size + 4) :: u16)
                       in (s', take (unat packet_length + 4)
                                 ([1, 0] @ bytes_le16 packet_length @ bytes_le32 seq @ tag @ cipher), Some iv))"

text \<open>A control message: type, payload length, payload.\<close>

definition control_message :: "nat \<Rightarrow> octets \<Rightarrow> octets" where
  "control_message idx payload = bytes_le16 (packetTypes ! idx) @ bytes_le16 (word_of_nat (length payload)) @ payload"

text \<open>The plaintext that \<open>send_feedback_msg\<close> builds.\<close>

fun feedback_plaintext :: "feedback_msg \<Rightarrow> octets" where
  "feedback_plaintext (Rumble mid low high) =
     control_message IDX_RUMBLE_DATA (bytes_le32 0xC0FFEE @ bytes_le16 mid @ bytes_le16 low @ bytes_le16 high)"
| "feedback_plaintext (RumbleTriggers mid left right) =
     control_message IDX_RUMBLE_TRIGGER_DATA (bytes_le16 mid @ bytes_le16 left @ bytes_le16 right)"
| "feedback_plaintext (MotionEventState mid motion_type report_rate) =
     control_message IDX_SET_MOTION_EVENT (bytes_le16 mid @ bytes_le16 report_rate @ [motion_type])"
| "feedback_plaintext (RgbLed mid r g b) = control_message IDX_SET_RGB_LED (bytes_le16 mid @ [r, g, b])"
| "feedback_plaintext (AdaptiveTriggers mid event_flags type_left type_right left right) =
     control_message IDX_SET_ADAPTIVE_TRIGGERS (bytes_le16 mid @ [event_flags, type_left, type_right] @ left @ right)"

text \<open>Encode and send one plaintext to the session's peer; nothing happens without one.\<close>

definition send_plaintext :: "control_env \<Rightarrow> octets \<Rightarrow> csession \<Rightarrow> csession \<times> control_effect list" where
  "send_plaintext env plaintext s =
     (case cs_peer s of
        None \<Rightarrow> (s, [])
      | Some peer \<Rightarrow> (case encode_control env plaintext s of (s', payload, _) \<Rightarrow> (s', [SendControl peer payload])))"

definition send_feedback_msg :: "control_env \<Rightarrow> feedback_msg \<Rightarrow> csession \<Rightarrow> csession \<times> control_effect list" where
  "send_feedback_msg env msg = send_plaintext env (feedback_plaintext msg)"

definition send_hdr_mode :: "control_env \<Rightarrow> bool \<times> octets \<Rightarrow> csession \<Rightarrow> csession \<times> control_effect list" where
  "send_hdr_mode env info =
     send_plaintext env (control_message IDX_HDR_MODE ((if fst info then 1 else 0) # snd info))"

subsection \<open>Properties\<close>

text \<open>The laws of OpenSSL the stream rests on: a vector that passed the first setup is accepted again, and
  opening keeps the length.\<close>

definition evp_accepts :: "evp_api \<Rightarrow> bool" where
  "evp_accepts evp \<longleftrightarrow> (\<forall>key iv. evp_setup evp key iv \<noteq> IvRejected)"

definition evp_length :: "evp_api \<Rightarrow> bool" where
  "evp_length evp \<longleftrightarrow> (\<forall>key iv tag cipher plain. evp_open evp key iv tag cipher = Some plain \<longrightarrow> length plain = length cipher)"

text \<open>The session once the vector of an encrypted message is written, and what the message opens to when its tag
  verifies under the session's key and that vector.\<close>

definition with_vector :: "control_env \<Rightarrow> octets \<Rightarrow> csession \<Rightarrow> csession" where
  "with_vector env payload s =
     s\<lparr>cs_incoming_iv := control_iv (control_v2 env s) 67 (word_of_nat (field_le 2 4 payload)) (cs_incoming_iv s)\<rparr>"

definition opened :: "control_env \<Rightarrow> octets \<Rightarrow> csession \<Rightarrow> octets option" where
  "opened env payload s =
     (let tagged_cipher = take (field_le 0 2 payload - 4) (drop 6 payload)
      in evp_open (ce_evp env) (cs_key s) (cs_incoming_iv (with_vector env payload s))
           (take tag_size tagged_cipher) (drop tag_size tagged_cipher))"

definition plain_type :: "octets \<Rightarrow> u16" where "plain_type plain = word_of_nat (field_le 0 2 plain)"

text \<open>The encrypted handler once the wire format is checked: what the message opens to decides.\<close>

lemma on_encrypted_opened:
  assumes "evp_accepts (ce_evp env)" "evp_length (ce_evp env)" "6 \<le> length payload" "24 \<le> field_le 0 2 payload"
    "field_le 0 2 payload + 2 \<le> length payload"
  shows "on_encrypted env payload s =
     (if evp_setup (ce_evp env) (cs_key s) (cs_incoming_iv (with_vector env payload s)) = SetupFailed
      then Inr (stop_session (with_vector env payload s))
      else case opened env payload s of
        None \<Rightarrow> Inr (stop_session (with_vector env payload s))
      | Some plain \<Rightarrow>
          if plain_type plain = packetTypes ! IDX_ENCRYPTED then Inr (stop_session (with_vector env payload s))
          else if plain_type plain = packetTypes ! IDX_INPUT_DATA
          then Inr (with_vector env payload s, [PassInput (drop 4 plain)])
          else call_plain env (plain_type plain) (drop 4 plain) (with_vector env payload s))"
proof -
  have "4 \<le> length plain" if "opened env payload s = Some plain" for plain
    using that assms(2-5) by (auto simp: opened_def evp_length_def tag_size_def Let_def)
  moreover have "evp_setup (ce_evp env) key iv \<noteq> IvRejected" for key iv
    using assms(1) by (simp add: evp_accepts_def)
  ultimately show ?thesis using assms(3-5)
    by (auto simp: on_encrypted_def gcm_decrypt_def Let_def opened_def with_vector_def plain_type_def tag_size_def
        split: evp_setup.splits option.splits)
qed

lemma on_encrypted_malformed:
  "length payload < 6 \<Longrightarrow> on_encrypted env payload s = Inl OutOfBounds"
  "\<lbrakk>6 \<le> length payload; field_le 0 2 payload < 24\<rbrakk> \<Longrightarrow> on_encrypted env payload s = Inr (s, [])"
  "\<lbrakk>6 \<le> length payload; 24 \<le> field_le 0 2 payload; length payload < field_le 0 2 payload + 2\<rbrakk>
    \<Longrightarrow> on_encrypted env payload s = Inl OutOfBounds"
  by (auto simp: on_encrypted_def Let_def)

lemma on_encrypted_cases:
  obtains (Short) "length payload < 6" | (Runt) "6 \<le> length payload" "field_le 0 2 payload < 24"
  | (Long) "6 \<le> length payload" "24 \<le> field_le 0 2 payload" "length payload < field_le 0 2 payload + 2"
  | (Well) "6 \<le> length payload" "24 \<le> field_le 0 2 payload" "field_le 0 2 payload + 2 \<le> length payload"
  by linarith

lemma with_vector_quiet:
  "stop_session (with_vector env payload s) = (s', effs)
    \<Longrightarrow> set effs \<subseteq> {StopSession} \<and> s' = s\<lparr>cs_state := cs_state s', cs_incoming_iv := cs_incoming_iv s'\<rparr>"
  by (auto simp: stop_session_def with_vector_def split: if_splits)

text \<open>
  C18. On a session with the encrypted control protocol an unencrypted message does nothing at all, and an
  encrypted one either does nothing except, at most, stopping the session, with all but the state and the receive
  vector as before, or its tag was verified by OpenSSL under the session's key and the client vector of the
  message's sequence number, and the host does what the opened text asks for.\<close>

theorem encrypted_stream_authentic:
  assumes "cs_controlProtocolType s = 13" "evp_accepts (ce_evp env)" "evp_length (ce_evp env)"
    "call env type payload s = Inr (s', effs)"
  shows "if type \<noteq> packetTypes ! IDX_ENCRYPTED then s' = s \<and> effs = []
    else (set effs \<subseteq> {StopSession} \<and> s' = s\<lparr>cs_state := cs_state s', cs_incoming_iv := cs_incoming_iv s'\<rparr>)
      \<or> (\<exists>plain. opened env payload s = Some plain
           \<and> (if plain_type plain = packetTypes ! IDX_INPUT_DATA
              then s' = with_vector env payload s \<and> effs = [PassInput (drop 4 plain)]
              else call_plain env (plain_type plain) (drop 4 plain) (with_vector env payload s) = Inr (s', effs)))"
proof (cases "type = packetTypes ! IDX_ENCRYPTED")
  case True
  then have run: "on_encrypted env payload s = Inr (s', effs)" using assms by (simp add: call_def)
  show ?thesis
  proof (cases rule: on_encrypted_cases [of payload])
    case Well
    from run on_encrypted_opened [OF assms(2,3) Well, of s] True show ?thesis
      by (auto split: if_splits option.splits dest: with_vector_quiet)
  qed (use run on_encrypted_malformed in auto)
qed (use assms in \<open>auto simp: call_def\<close>)

lemma call_plain_fault:
  "call_plain env type payload s = Inl f \<longleftrightarrow>
     (type = packetTypes ! IDX_LOSS_STATS \<and> f = OutOfBounds \<and> length payload < 16)
     \<or> (type = packetTypes ! IDX_INPUT_DATA \<and> on_input_data env payload s = Inl f)"
  by (auto simp: call_plain_def on_loss_stats_def on_request_idr_def on_fec_status_def on_invalidate_ref_frames_def
      packet_type_defs Let_def split: prod.splits)

lemma on_input_data_fault:
  assumes "evp_accepts (ce_evp env)"
  shows "on_input_data env payload s = Inl f \<longleftrightarrow>
     f = Exception \<and> 4 \<le> length payload \<and> 0 \<le> signed 32 (field_be 0 4 payload)
     \<and> signed 32 (field_be 0 4 payload) < 16 \<and> nat (signed 32 (field_be 0 4 payload)) \<le> length payload - 4
     \<and> evp_setup (ce_evp env) (cs_key s) (cs_legacy_input_enc_iv s) = SetupDone"
proof -
  have "evp_setup (ce_evp env) key iv \<noteq> IvRejected" for key iv using assms by (simp add: evp_accepts_def)
  then show ?thesis
    by (auto simp: on_input_data_def gcm_decrypt_def tag_size_def Let_def split: evp_setup.splits option.splits if_splits)
qed

text \<open>
  C19. Exactly which messages make the control thread read outside the packet or throw. Off the wire: an
  encrypted message shorter than its header, or whose declared length runs past its end (before any tag is
  checked), or one that verifies and carries loss statistics of fewer than sixteen bytes; without encryption, short
  loss statistics, and legacy input whose declared length is smaller than a tag. Nothing else does.\<close>

theorem control_faults_exact:
  assumes "evp_accepts (ce_evp env)" "evp_length (ce_evp env)"
  shows "call env type payload s = Inl f \<longleftrightarrow>
    (if type = packetTypes ! IDX_ENCRYPTED
     then f = OutOfBounds \<and>
       (length payload < 6
        \<or> 24 \<le> field_le 0 2 payload \<and> length payload < field_le 0 2 payload + 2
        \<or> 24 \<le> field_le 0 2 payload
          \<and> evp_setup (ce_evp env) (cs_key s) (cs_incoming_iv (with_vector env payload s)) = SetupDone
          \<and> (case opened env payload s of None \<Rightarrow> False
             | Some plain \<Rightarrow> plain_type plain = packetTypes ! IDX_LOSS_STATS \<and> length plain < 20))
     else cs_controlProtocolType s \<noteq> 13 \<and>
       (type = packetTypes ! IDX_LOSS_STATS \<and> f = OutOfBounds \<and> length payload < 16
        \<or> type = packetTypes ! IDX_INPUT_DATA \<and> f = Exception \<and> 4 \<le> length payload
          \<and> 0 \<le> signed 32 (field_be 0 4 payload) \<and> signed 32 (field_be 0 4 payload) < 16
          \<and> nat (signed 32 (field_be 0 4 payload)) \<le> length payload - 4
          \<and> evp_setup (ce_evp env) (cs_key s) (cs_legacy_input_enc_iv s) = SetupDone))"
proof (cases "type = packetTypes ! IDX_ENCRYPTED")
  case True
  then have c: "call env type payload s = on_encrypted env payload s" by (simp add: call_def)
  show ?thesis
  proof (cases rule: on_encrypted_cases [of payload])
    case Well
    have "evp_setup (ce_evp env) key iv \<noteq> IvRejected" for key iv using assms(1) by (simp add: evp_accepts_def)
    then have "evp_setup (ce_evp env) key iv = SetupDone \<longleftrightarrow> evp_setup (ce_evp env) key iv \<noteq> SetupFailed" for key iv
      by (cases "evp_setup (ce_evp env) key iv") auto
    then show ?thesis unfolding c on_encrypted_opened [OF assms Well] using True Well
      by (auto simp: call_plain_fault packet_type_defs split: option.splits)
  qed (use True on_encrypted_malformed in \<open>auto simp: call_def\<close>)
next
  case False
  then show ?thesis by (auto simp: call_def call_plain_fault on_input_data_fault [OF assms(1)])
qed

text \<open>A cipher that adds a fixed tag, a session and the encrypted request for an IDR frame.\<close>

definition demo_evp :: evp_api where
  "demo_evp = \<lparr>evp_setup = (\<lambda>_ _. SetupDone),
     evp_open = (\<lambda>_ _ tag cipher. if tag = replicate 16 7 then Some cipher else None),
     evp_seal = (\<lambda>_ _ plain. Some (replicate 16 7, plain))\<rparr>"

definition demo_env :: control_env where
  "demo_env = \<lparr>ce_evp = demo_evp, ce_SS_ENC_CONTROL_V2 = 1, ce_ML_FF_SESSION_ID_V1 = 2, ce_session_monitor = True,
     ce_ping_timeout = 10000, ce_now_ms = 0, ce_make_address = Some\<rparr>"

definition demo_session :: csession where
  "demo_session = \<lparr>cs_id = 7, cs_state = RUNNING, cs_start = Started, cs_launch_session_id = 1, cs_strict_client = False,
     cs_pingTimeout = 0, cs_controlProtocolType = 13, cs_mlFeatureFlags = 2, cs_encryptionFlagsEnabled = 1, cs_key = [1],
     cs_legacy_input_enc_iv = replicate 16 0, cs_incoming_iv = [], cs_outgoing_iv = [], cs_connect_data = 99,
     cs_expected_peer_address = ''10.0.0.2'', cs_localAddress = [], cs_peer = None, cs_seq = 0, cs_feedback_queue = [],
     cs_hdr_queue = None, cs_chroma_downgrade = False, cs_client_losses = 0, cs_idr_requests = 0,
     cs_ref_invalidations = 0,
     cs_feedback_config = \<lparr>fb_is_pyrowave = False, fb_adaptive_fec = 0, fb_adaptive_bitrate = 0, fb_refresh_interval = 0\<rparr>,
     cs_feedback = \<lparr>fb_frame_transmitted = False, fb_last_loss_frame = 0, fb_last_unrecoverable_frame = 0,
       fb_fec = fec_controller_init\<rparr>\<rparr>"

definition demo_idr :: octets where "demo_idr = [24, 0, 5, 0, 0, 0] @ replicate 16 7 @ [2, 3, 0, 0]"

lemma demo_evp_laws: "evp_accepts (ce_evp demo_env)" "evp_length (ce_evp demo_env)"
  by (simp_all add: demo_env_def demo_evp_def evp_accepts_def evp_length_def)

lemma demo_idr_call: "\<exists>s'. call demo_env 1 demo_idr demo_session = Inr (s', [RaiseIdr])"
  by (simp add: call_def on_encrypted_def gcm_decrypt_def demo_idr_def demo_env_def demo_evp_def demo_session_def field_le_def
      value_le_def packet_type_defs call_plain_def on_request_idr_def Let_def tag_size_def)

lemma demo_idr_opened: "opened demo_env demo_idr demo_session = Some [2, 3, 0, 0]"
  by (simp add: opened_def demo_idr_def demo_env_def demo_evp_def demo_session_def field_le_def value_le_def tag_size_def Let_def)

theorem encrypted_stream_authentic_witness:
  "\<exists>s'. call demo_env 1 demo_idr demo_session = Inr (s', [RaiseIdr]) \<and> opened demo_env demo_idr demo_session = Some [2, 3, 0, 0]"
proof -
  obtain s' where s': "call demo_env 1 demo_idr demo_session = Inr (s', [RaiseIdr])" using demo_idr_call by blast
  have "cs_controlProtocolType demo_session = 13" "(1 :: u16) = packetTypes ! IDX_ENCRYPTED"
    by (simp_all add: demo_session_def packet_type_defs)
  with encrypted_stream_authentic [OF _ demo_evp_laws s'] obtain plain where "opened demo_env demo_idr demo_session = Some plain"
    by auto
  then show ?thesis using s' demo_idr_opened by auto
qed

text \<open>A five-byte encrypted message, and one that declares more than it carries.\<close>

theorem control_faults_exact_witness:
  "call demo_env 1 [24, 0, 5, 0, 0] demo_session = Inl OutOfBounds
   \<and> call demo_env 1 ([200, 0, 5, 0, 0, 0] @ replicate 20 7) demo_session = Inl OutOfBounds
   \<and> call demo_env 0x0206 [0, 0, 0, 3, 1, 2, 3] (demo_session\<lparr>cs_controlProtocolType := 0\<rparr>) = Inl Exception
   \<and> (\<forall>f. call demo_env 1 demo_idr demo_session \<noteq> Inl f)"
proof (intro conjI allI notI)
  show "call demo_env 1 [24, 0, 5, 0, 0] demo_session = Inl OutOfBounds"
    unfolding control_faults_exact [OF demo_evp_laws] by code_simp
  show "call demo_env 1 ([200, 0, 5, 0, 0, 0] @ replicate 20 7) demo_session = Inl OutOfBounds"
    unfolding control_faults_exact [OF demo_evp_laws] by code_simp
  show "call demo_env 0x0206 [0, 0, 0, 3, 1, 2, 3] (demo_session\<lparr>cs_controlProtocolType := 0\<rparr>) = Inl Exception"
    unfolding control_faults_exact [OF demo_evp_laws]
    by (simp add: signed_def field_be_def value_le_def packet_type_defs demo_env_def demo_evp_def demo_session_def)
  fix f assume "call demo_env 1 demo_idr demo_session = Inl f"
  then show False using demo_idr_call by simp
qed

subsection \<open>The vectors of one key\<close>

text \<open>Sending a sequence of messages: the vectors used.\<close>

fun vectors_sent :: "control_env \<Rightarrow> csession \<Rightarrow> octets list \<Rightarrow> octets list" where
  "vectors_sent env s [] = []"
| "vectors_sent env s (plaintext # rest) =
     (case encode_control env plaintext s of (s', _, iv) \<Rightarrow>
        (case iv of None \<Rightarrow> [] | Some v \<Rightarrow> [v]) @ vectors_sent env s' rest)"

definition v2_iv :: "u8 \<Rightarrow> u32 \<Rightarrow> octets" where
  "v2_iv originator seq = bytes_le32 seq @ replicate 6 0 @ [originator, 67]"

lemma control_iv_v2: "iv = [] \<or> (\<exists>o' q. iv = v2_iv o' q) \<Longrightarrow> control_iv True originator seq iv = v2_iv originator seq"
  by (auto simp: control_iv_def v2_iv_def resize_def bytes_le32_def numeral_eq_Suc)

lemma v2_iv_inject: "v2_iv o1 q1 = v2_iv o2 q2 \<longleftrightarrow> o1 = o2 \<and> q1 = q2"
proof
  assume "v2_iv o1 q1 = v2_iv o2 q2"
  then have o: "o1 = o2" and b: "bytes_le32 q1 = bytes_le32 q2" by (auto simp: v2_iv_def bytes_le32_def)
  have byte: "(ucast (drop_bit (8 * k) q1) :: u8) = ucast (drop_bit (8 * k) q2)" if "k < 4" for k
    using b that by (auto simp: bytes_le32_def less_Suc_eq numeral_eq_Suc)
  have "q1 = q2"
  proof (rule bit_word_eqI)
    fix n assume "n < LENGTH(32)"
    then have "n div 8 < 4" by simp
    have "bit q n = bit (ucast (drop_bit (8 * (n div 8)) q) :: u8) (n mod 8)" for q :: u32
      by (simp add: bit_simps)
    with byte [OF \<open>n div 8 < 4\<close>] show "bit q1 n = bit q2 n" by simp
  qed
  with o show "o1 = o2 \<and> q1 = q2" by simp
qed simp

lemma vectors_sent_v2:
  assumes "cs_controlProtocolType s = 13" "control_v2 env s" "cs_outgoing_iv s = [] \<or> (\<exists>o' q. cs_outgoing_iv s = v2_iv o' q)"
  shows "vectors_sent env s ps = map (\<lambda>j. v2_iv 72 (cs_seq s + word_of_nat j)) [0..<length ps]"
  using assms
proof (induction ps arbitrary: s)
  case (Cons p ps)
  obtain s' b iv where e: "encode_control env p s = (s', b, iv)" by (metis prod_cases3)
  have "control_iv (control_v2 env s) 72 (cs_seq s) (cs_outgoing_iv s) = v2_iv 72 (cs_seq s)"
    using Cons.prems control_iv_v2 by simp
  with e have s': "iv = Some (v2_iv 72 (cs_seq s))" "cs_seq s' = cs_seq s + 1" "cs_outgoing_iv s' = v2_iv 72 (cs_seq s)"
    "cs_controlProtocolType s' = 13" "control_v2 env s'"
    using Cons.prems by (auto simp: encode_control_def Let_def control_v2_def split: option.splits if_splits)
  have "map (\<lambda>j. v2_iv 72 (cs_seq s + word_of_nat j)) [0..<length (p # ps)]
    = v2_iv 72 (cs_seq s) # map (\<lambda>j. v2_iv 72 (cs_seq s + 1 + word_of_nat j)) [0..<length ps]"
    by (simp add: upt_conv_Cons map_Suc_upt [symmetric] add.assoc del: upt_Suc)
  with Cons.IH [of s'] s' show ?case by (auto simp: e)
qed simp

lemma vectors_sent_distinct:
  assumes "cs_controlProtocolType s = 13" "control_v2 env s" "cs_outgoing_iv s = []" "length ps \<le> 2 ^ 32"
  shows "distinct (vectors_sent env s ps)"
proof -
  have "inj_on (\<lambda>j. v2_iv 72 (cs_seq s + word_of_nat j)) {0..<length ps}"
  proof (rule inj_onI)
    fix i j assume ij: "i \<in> {0..<length ps}" "j \<in> {0..<length ps}"
      and "v2_iv 72 (cs_seq s + word_of_nat i) = v2_iv 72 (cs_seq s + word_of_nat j)"
    then have "word_of_nat i = (word_of_nat j :: u32)" by (simp add: v2_iv_inject)
    then have "unat (word_of_nat i :: u32) = unat (word_of_nat j :: u32)" by (rule arg_cong)
    with ij assms(4) show "i = j" by (simp add: unat_of_nat)
  qed
  then show ?thesis using vectors_sent_v2 [of s env ps] assms by (simp add: distinct_map)
qed

text \<open>In the old style a vector carries the low byte of the sequence number alone.\<close>

definition legacy_iv :: "u32 \<Rightarrow> octets" where
  "legacy_iv seq = ucast seq # replicate 15 0"

lemma control_iv_legacy: "iv = [] \<or> (\<exists>q. iv = legacy_iv q) \<Longrightarrow> control_iv False originator seq iv = legacy_iv seq"
  by (auto simp: control_iv_def legacy_iv_def resize_def numeral_eq_Suc)

lemma legacy_iv_period: "legacy_iv (seq + 256) = legacy_iv seq"
proof -
  have "(ucast (seq + 256) :: u8) = ucast seq"
  proof -
    have "unat (seq + 256) mod 256 = (unat seq + 256) mod 2 ^ 32 mod 256" by (simp add: unat_word_ariths)
    also have "\<dots> = (unat seq + 256) mod 256" by (rule mod_mod_cancel) simp
    finally have "unat (seq + 256) mod 256 = unat seq mod 256" by simp
    then show ?thesis by (simp add: word_unat_eq_iff unsigned_ucast_eq take_bit_eq_mod)
  qed
  then show ?thesis by (simp add: legacy_iv_def)
qed

lemma vectors_sent_legacy:
  assumes "cs_controlProtocolType s = 13" "\<not> control_v2 env s" "cs_outgoing_iv s = [] \<or> (\<exists>q. cs_outgoing_iv s = legacy_iv q)"
  shows "vectors_sent env s ps = map (\<lambda>j. legacy_iv (cs_seq s + word_of_nat j)) [0..<length ps]"
  using assms
proof (induction ps arbitrary: s)
  case (Cons p ps)
  obtain s' b iv where e: "encode_control env p s = (s', b, iv)" by (metis prod_cases3)
  have "control_iv (control_v2 env s) 72 (cs_seq s) (cs_outgoing_iv s) = legacy_iv (cs_seq s)"
    using Cons.prems control_iv_legacy by simp
  with e have s': "iv = Some (legacy_iv (cs_seq s))" "cs_seq s' = cs_seq s + 1" "cs_outgoing_iv s' = legacy_iv (cs_seq s)"
    "cs_controlProtocolType s' = 13" "\<not> control_v2 env s'"
    using Cons.prems by (auto simp: encode_control_def Let_def control_v2_def split: option.splits if_splits)
  have "map (\<lambda>j. legacy_iv (cs_seq s + word_of_nat j)) [0..<length (p # ps)]
    = legacy_iv (cs_seq s) # map (\<lambda>j. legacy_iv (cs_seq s + 1 + word_of_nat j)) [0..<length ps]"
    by (simp add: upt_conv_Cons map_Suc_upt [symmetric] add.assoc del: upt_Suc)
  with Cons.IH [of s'] s' show ?case by (auto simp: e)
qed simp

lemma vectors_sent_legacy_repeat:
  assumes "cs_controlProtocolType s = 13" "\<not> control_v2 env s" "cs_outgoing_iv s = []" "j + 256 < length ps"
  shows "vectors_sent env s ps ! (j + 256) = vectors_sent env s ps ! j"
  using assms vectors_sent_legacy [of s env ps] legacy_iv_period [of "cs_seq s + word_of_nat j"]
  by (simp add: add.assoc)

end
