(* ===== verification/Control_Server.thy ===== *)
theory Control_Server
  imports Control_Stream
begin

unbundle bit_operations_syntax

text \<open>
  The server side of the control stream (\<^verbatim>\<open>src/stream.cpp\<close>): \<open>control_server_t\<close> with its list of sessions and its
  map from peers, the receive step, one pass of the thread's loop over the sessions, the farewell when the
  loop ends, and the steps of \<open>session::start\<close> and \<open>session::stop\<close> that other threads take in between. Times are
  milliseconds.
\<close>

subsection \<open>State\<close>

text \<open>\<open>sv_ended\<close> records the sessions whose \<open>controlEnd\<close> was raised, which their teardown waits for;
  \<open>sv_active\<close> is the process-wide counter \<open>active_sessions\<close>.\<close>

record server =
  sv_sessions :: "csession list"
  sv_peer_to_session :: "nat \<rightharpoonup> nat"
  sv_active :: u32
  sv_ended :: "nat list"
  sv_terminated_since :: "time_point option"
  sv_exited :: bool

definition server_init :: server where
  "server_init = \<lparr>sv_sessions = [], sv_peer_to_session = (\<lambda>_. None), sv_active = 0, sv_ended = [],
     sv_terminated_since = None, sv_exited = False\<rparr>"

text \<open>What ENet reports; a packet without data is the empty packet.\<close>

datatype event_kind = RECEIVE octets | CONNECT | DISCONNECT | NONE

record net_event =
  ne_peer :: nat
  ne_address :: string
  ne_local_address :: string
  ne_data :: u32
  ne_kind :: event_kind

type_synonym server_effect = "nat option \<times> control_effect"

definition update_session :: "nat \<Rightarrow> (csession \<Rightarrow> csession) \<Rightarrow> csession list \<Rightarrow> csession list" where
  "update_session i f ss = map (\<lambda>s. if cs_id s = i then f s else s) ss"

definition stops :: "control_effect list \<Rightarrow> u32" where
  "stops effs = word_of_nat (length (filter (\<lambda>e. e = StopSession) effs))"

text \<open>Run a handler on one session; every stop it performs is taken off the active counter.\<close>

definition on_session :: "nat \<Rightarrow> (csession \<Rightarrow> handled) \<Rightarrow> server \<Rightarrow> fault + server \<times> server_effect list" where
  "on_session i h sv =
     (case find (\<lambda>s. cs_id s = i) (sv_sessions sv) of
        None \<Rightarrow> Inr (sv, [])
      | Some s \<Rightarrow> (case h s of
          Inl f \<Rightarrow> Inl f
        | Inr (s', effs) \<Rightarrow>
            Inr (sv\<lparr>sv_sessions := update_session i (\<lambda>_. s') (sv_sessions sv), sv_active := sv_active sv - stops effs\<rparr>,
                 map (Pair (Some i)) effs)))"

subsection \<open>Receiving\<close>

text \<open>A session no peer has claimed yet is claimed by connect data, or by address when the client has none.\<close>

definition claimable :: "control_env \<Rightarrow> net_event \<Rightarrow> csession \<Rightarrow> bool" where
  "claimable env ev s \<longleftrightarrow> cs_peer s = None \<and>
     (if cs_mlFeatureFlags s AND ce_ML_FF_SESSION_ID_V1 env \<noteq> 0 then cs_connect_data s = ne_data ev
      else cs_expected_peer_address s = ne_address ev)"

definition get_session ::
    "control_env \<Rightarrow> net_event \<Rightarrow> server \<Rightarrow> fault + server \<times> nat option \<times> server_effect list" where
  "get_session env ev sv =
     (case sv_peer_to_session sv (ne_peer ev) of
        Some i \<Rightarrow> Inr (sv, Some i, [])
      | None \<Rightarrow> (case find (claimable env ev) (sv_sessions sv) of
          None \<Rightarrow> Inr (sv, None, [])
        | Some s \<Rightarrow> (case ce_make_address env (ne_local_address ev) of
            None \<Rightarrow> Inl Exception
          | Some a \<Rightarrow>
              Inr (sv\<lparr>sv_sessions := update_session (cs_id s)
                          (\<lambda>s. s\<lparr>cs_peer := Some (ne_peer ev), cs_localAddress := a\<rparr>) (sv_sessions sv),
                      sv_peer_to_session := (sv_peer_to_session sv)(ne_peer ev \<mapsto> cs_id s)\<rparr>,
                   Some (cs_id s), [(Some (cs_id s), LaunchSessionClear (cs_launch_session_id s))]))))"

definition handle_event :: "control_env \<Rightarrow> time_point \<Rightarrow> event_kind \<Rightarrow> csession \<Rightarrow> handled" where
  "handle_event env now kind s0 =
     (let s = s0\<lparr>cs_pingTimeout := now + ce_ping_timeout env\<rparr>
      in case kind of
           RECEIVE packet \<Rightarrow>
             if length packet < 2 then Inr (s, [])
             else call env (word_of_nat (field_le 0 2 packet)) (drop 2 packet) s
         | CONNECT \<Rightarrow> Inr (s, [])
         | DISCONNECT \<Rightarrow> Inr (if cs_state s = RUNNING then stop_session s else (s, []))
         | NONE \<Rightarrow> Inr (s, []))"

definition iterate :: "control_env \<Rightarrow> time_point \<Rightarrow> net_event \<Rightarrow> server \<Rightarrow> fault + server \<times> server_effect list" where
  "iterate env now ev sv =
     (case get_session env ev sv of
        Inl f \<Rightarrow> Inl f
      | Inr (sv', None, effs) \<Rightarrow> Inr (sv', effs @ [(None, DisconnectNow (ne_peer ev))])
      | Inr (sv', Some i, effs) \<Rightarrow> (case on_session i (handle_event env now (ne_kind ev)) sv' of
          Inl f \<Rightarrow> Inl f
        | Inr (sv'', effs') \<Rightarrow> Inr (sv'', effs @ effs')))"

subsection \<open>One pass over the sessions\<close>

definition pending_peer_termination_grace :: duration where "pending_peer_termination_grace = 1000"

text \<open>The queues of a connected session: gamepad feedback in order, the latest HDR mode, the chroma downgrade.\<close>

fun drain_feedback :: "control_env \<Rightarrow> feedback_msg list \<Rightarrow> csession \<Rightarrow> csession \<times> control_effect list" where
  "drain_feedback env [] s = (s, [])"
| "drain_feedback env (msg # msgs) s =
     (case send_feedback_msg env msg s of (s1, effs1) \<Rightarrow>
      case drain_feedback env msgs s1 of (s2, effs2) \<Rightarrow> (s2, effs1 @ effs2))"

definition drain_queues :: "control_env \<Rightarrow> csession \<Rightarrow> csession \<times> control_effect list" where
  "drain_queues env s0 =
     (case drain_feedback env (cs_feedback_queue s0) (s0\<lparr>cs_feedback_queue := []\<rparr>) of (s1, effs1) \<Rightarrow>
      case (case cs_hdr_queue s1 of None \<Rightarrow> (s1, []) | Some info \<Rightarrow> send_hdr_mode env info (s1\<lparr>cs_hdr_queue := None\<rparr>))
      of (s2, effs2) \<Rightarrow>
        (s2\<lparr>cs_chroma_downgrade := False\<rparr>,
         effs1 @ effs2 @ (if cs_chroma_downgrade s2 \<and> ce_session_monitor env then [MetadataNoYuv444] else [])))"

text \<open>One session: what it becomes, what happens, whether it still waits for its peer. It is erased exactly
  when \<open>controlEnd\<close> is raised.\<close>

definition visit_session ::
    "control_env \<Rightarrow> bool \<Rightarrow> time_point \<Rightarrow> time_point option \<Rightarrow> csession \<Rightarrow> csession \<times> control_effect list \<times> bool" where
  "visit_session env process_running now since s0 =
     (case (if now > cs_pingTimeout s0 then stop_session s0 else (s0, [])) of (s, effs) \<Rightarrow>
        if cs_state s = STOPPING
        then (s, effs @ (case cs_peer s of None \<Rightarrow> [] | Some p \<Rightarrow> [DisconnectNow p]) @ [ControlEnd], False)
        else if cs_peer s = None
        then (if \<not> process_running \<and> (case since of None \<Rightarrow> False | Some t \<Rightarrow> now - t \<ge> pending_peer_termination_grace)
              then (case stop_session s of (s', effs') \<Rightarrow> (s', effs @ effs', False))
              else (s, effs, True))
        else (case drain_queues env s of (s', effs') \<Rightarrow> (s', effs @ effs', False)))"

text \<open>The loop; \<open>peek k\<close> says whether a shutdown event is seen before the k-th session, which ends it.\<close>

fun visit_sessions ::
    "control_env \<Rightarrow> bool \<Rightarrow> time_point \<Rightarrow> time_point option \<Rightarrow> (nat \<Rightarrow> bool) \<Rightarrow> nat \<Rightarrow> csession list
       \<Rightarrow> csession list \<times> (nat \<times> control_effect) list \<times> bool" where
  "visit_sessions env process_running now since peek k [] = ([], [], False)"
| "visit_sessions env process_running now since peek k (s # ss) =
     (if peek k then (s # ss, [], False)
      else case visit_session env process_running now since s of (s', effs, awaiting) \<Rightarrow>
           case visit_sessions env process_running now since peek (Suc k) ss of (ss', effs', awaiting') \<Rightarrow>
             (if ControlEnd \<in> set effs then ss' else s' # ss', map (Pair (cs_id s)) effs @ effs',
              awaiting \<or> awaiting'))"

definition disconnected :: "(nat \<times> control_effect) list \<Rightarrow> nat set" where
  "disconnected effs = {p. DisconnectNow p \<in> snd ` set effs}"

definition ended_in :: "(nat \<times> control_effect) list \<Rightarrow> nat list" where
  "ended_in effs = map fst (filter (\<lambda>(i, e). e = ControlEnd) effs)"

text \<open>The body of the loop up to \<open>iterate\<close>: the state, the effects, and whether the loop breaks.\<close>

definition control_pass ::
    "control_env \<Rightarrow> bool \<Rightarrow> time_point \<Rightarrow> (nat \<Rightarrow> bool) \<Rightarrow> server \<Rightarrow> server \<times> server_effect list \<times> bool" where
  "control_pass env process_running now peek sv =
     (let since = (if process_running then None
                   else case sv_terminated_since sv of None \<Rightarrow> Some now | Some t \<Rightarrow> Some t)
      in case visit_sessions env process_running now since peek 0 (sv_sessions sv) of (ss, effs, awaiting) \<Rightarrow>
           (sv\<lparr>sv_sessions := ss,
               sv_peer_to_session := (\<lambda>p. if p \<in> disconnected effs then None else sv_peer_to_session sv p),
               sv_active := sv_active sv - stops (map snd effs),
               sv_ended := sv_ended sv @ ended_in effs,
               sv_terminated_since := since\<rparr>,
            map (\<lambda>(i, e). (Some i, e)) effs, \<not> process_running \<and> \<not> awaiting))"

text \<open>After the loop: every remaining session is told, shut down, and its \<open>controlEnd\<close> raised.\<close>

definition farewell :: "control_env \<Rightarrow> csession \<Rightarrow> csession \<times> control_effect list" where
  "farewell env s =
     (case send_plaintext env (control_message IDX_TERMINATION (rev (bytes_le32 0x80030023))) s of (s', effs) \<Rightarrow>
        (s', effs @ [Shutdown, ControlEnd]))"

definition control_exit :: "control_env \<Rightarrow> server \<Rightarrow> server \<times> server_effect list" where
  "control_exit env sv =
     (sv\<lparr>sv_sessions := map (fst \<circ> farewell env) (sv_sessions sv),
         sv_ended := sv_ended sv @ map cs_id (sv_sessions sv), sv_exited := True\<rparr>,
      concat (map (\<lambda>s. map (Pair (Some (cs_id s))) (snd (farewell env s))) (sv_sessions sv)))"

subsection \<open>Steps of other threads\<close>

text \<open>\<open>session::alloc\<close>: what the control stream sees of a new session.\<close>

definition alloc_session :: "csession \<Rightarrow> csession" where
  "alloc_session s = s\<lparr>cs_state := STOPPED, cs_start := Listed, cs_peer := None, cs_seq := 0, cs_pingTimeout := 0,
     cs_incoming_iv := [], cs_outgoing_iv := [], cs_client_losses := 0, cs_idr_requests := 0, cs_ref_invalidations := 0,
     cs_feedback_queue := [], cs_hdr_queue := None, cs_chroma_downgrade := False\<rparr>"

datatype server_event = StartInsert csession string | StartArm nat time_point | StartCount nat | StartRun nat
  | StopRequest nat | QueueFeedback nat feedback_msg | QueueHdr nat "bool \<times> octets" | QueueChroma nat
  | Iterate time_point net_event | Pass bool time_point "nat \<Rightarrow> bool" | Exit

definition start_arm :: "control_env \<Rightarrow> time_point \<Rightarrow> csession \<Rightarrow> csession" where
  "start_arm env now s =
     s\<lparr>cs_pingTimeout := now + ce_ping_timeout env + (if cs_strict_client s then 18000 else 0), cs_start := Armed\<rparr>"

fun server_step :: "control_env \<Rightarrow> server \<Rightarrow> server_event \<Rightarrow> fault + server \<times> server_effect list" where
  "server_step env sv (StartInsert s addr_string) =
     Inr (sv\<lparr>sv_sessions := sv_sessions sv @ [(alloc_session s)\<lparr>cs_expected_peer_address := addr_string\<rparr>]\<rparr>, [])"
| "server_step env sv (StartArm i now) =
     Inr (sv\<lparr>sv_sessions := update_session i (start_arm env now) (sv_sessions sv)\<rparr>, [])"
| "server_step env sv (StartCount i) =
     Inr (sv\<lparr>sv_sessions := update_session i (\<lambda>s. s\<lparr>cs_start := Counted\<rparr>) (sv_sessions sv),
             sv_active := sv_active sv + 1\<rparr>, [])"
| "server_step env sv (StartRun i) =
     Inr (sv\<lparr>sv_sessions := update_session i (\<lambda>s. s\<lparr>cs_start := Started, cs_state := RUNNING\<rparr>) (sv_sessions sv)\<rparr>, [])"
| "server_step env sv (StopRequest i) = on_session i (Inr \<circ> stop_session) sv"
| "server_step env sv (QueueFeedback i msg) =
     Inr (sv\<lparr>sv_sessions := update_session i (\<lambda>s. s\<lparr>cs_feedback_queue := cs_feedback_queue s @ [msg]\<rparr>)
               (sv_sessions sv)\<rparr>, [])"
| "server_step env sv (QueueHdr i info) =
     Inr (sv\<lparr>sv_sessions := update_session i (\<lambda>s. s\<lparr>cs_hdr_queue := Some info\<rparr>) (sv_sessions sv)\<rparr>, [])"
| "server_step env sv (QueueChroma i) =
     Inr (sv\<lparr>sv_sessions := update_session i (\<lambda>s. s\<lparr>cs_chroma_downgrade := True\<rparr>) (sv_sessions sv)\<rparr>, [])"
| "server_step env sv (Iterate now ev) = iterate env now ev sv"
| "server_step env sv (Pass process_running now peek) =
     (case control_pass env process_running now peek sv of (sv', effs, _) \<Rightarrow> Inr (sv', effs))"
| "server_step env sv Exit = Inr (control_exit env sv)"

text \<open>When a step can come: \<open>session::start\<close> in its order and on a new session, the control thread until it
  exits.\<close>

definition in_phase :: "start_phase \<Rightarrow> nat \<Rightarrow> server \<Rightarrow> bool" where
  "in_phase ph i sv \<longleftrightarrow> list_ex (\<lambda>s. cs_id s = i \<and> cs_start s = ph) (sv_sessions sv)"

fun server_enabled :: "server \<Rightarrow> server_event \<Rightarrow> bool" where
  "server_enabled sv (StartInsert s _) \<longleftrightarrow> cs_id s \<notin> set (map cs_id (sv_sessions sv)) \<and> cs_id s \<notin> set (sv_ended sv)"
| "server_enabled sv (StartArm i _) \<longleftrightarrow> in_phase Listed i sv"
| "server_enabled sv (StartCount i) \<longleftrightarrow> in_phase Armed i sv"
| "server_enabled sv (StartRun i) \<longleftrightarrow> in_phase Counted i sv"
| "server_enabled sv (Iterate _ _) \<longleftrightarrow> \<not> sv_exited sv"
| "server_enabled sv (Pass _ _ _) \<longleftrightarrow> \<not> sv_exited sv"
| "server_enabled sv Exit \<longleftrightarrow> \<not> sv_exited sv"
| "server_enabled sv _ \<longleftrightarrow> True"

inductive server_next :: "control_env \<Rightarrow> server \<Rightarrow> server \<Rightarrow> bool" for env where
  stepped: "\<lbrakk>server_enabled sv ev; server_step env sv ev = Inr (sv', effs)\<rbrakk> \<Longrightarrow> server_next env sv sv'"
subsection \<open>What a handler may change\<close>

text \<open>A handler keeps a session's identity, peer and start phase; if it changes the state it stops a running
  session, once, and says so.\<close>

definition frame :: "csession \<Rightarrow> csession \<Rightarrow> control_effect list \<Rightarrow> bool" where
  "frame s s' effs \<longleftrightarrow> cs_id s' = cs_id s \<and> cs_peer s' = cs_peer s \<and> cs_start s' = cs_start s
     \<and> (if cs_state s' = cs_state s then StopSession \<notin> set effs
        else cs_state s = RUNNING \<and> cs_state s' = STOPPING \<and> filter (\<lambda>e. e = StopSession) effs = [StopSession])"

lemma stop_session_frame: "frame s (fst (stop_session s)) (snd (stop_session s))"
  by (simp add: frame_def stop_session_def)

lemma frame_quiet:
  "\<lbrakk>cs_id s' = cs_id s; cs_peer s' = cs_peer s; cs_start s' = cs_start s; cs_state s' = cs_state s; StopSession \<notin> set effs\<rbrakk>
    \<Longrightarrow> frame s s' effs"
  by (simp add: frame_def)

lemma frame_trans: "\<lbrakk>frame s s' effs; frame s' s'' effs'\<rbrakk> \<Longrightarrow> frame s s'' (effs @ effs')"
  by (auto simp: frame_def split: if_splits)
    (auto simp: filter_empty_conv)

lemma frame_input: "frame (s\<lparr>cs_pingTimeout := t\<rparr>) s' effs \<Longrightarrow> frame s s' effs" 
  "frame (s\<lparr>cs_incoming_iv := iv\<rparr>) s' effs \<Longrightarrow> frame s s' effs"
  by (auto simp: frame_def split: if_splits)

lemma frame_stop: "stop_session s = (s', effs) \<Longrightarrow> frame s s' effs"
  using stop_session_frame [of s] by simp

lemma call_plain_frame: "call_plain env type payload s = Inr (s', effs) \<Longrightarrow> frame s s' effs"
  by (auto simp: call_plain_def on_loss_stats_def on_request_idr_def on_fec_status_def on_invalidate_ref_frames_def
      on_input_data_def Let_def frame_quiet image_iff split: if_splits sum.splits option.splits prod.splits
      dest!: frame_stop)

lemma on_encrypted_frame: "on_encrypted env payload s = Inr (s', effs) \<Longrightarrow> frame s s' effs"
  by (auto simp: on_encrypted_def Let_def frame_quiet split: if_splits sum.splits option.splits
      dest!: frame_stop call_plain_frame dest: frame_input)

lemma call_frame: "call env type payload s = Inr (s', effs) \<Longrightarrow> frame s s' effs"
  by (auto simp: call_def frame_quiet split: if_splits dest: call_plain_frame on_encrypted_frame)

lemma handle_event_frame: "handle_event env now kind s = Inr (s', effs) \<Longrightarrow> frame s s' effs"
  by (auto simp: handle_event_def Let_def frame_quiet split: event_kind.splits if_splits
      dest!: frame_stop call_frame dest: frame_input)

subsection \<open>The table\<close>

definition weight :: "csession \<Rightarrow> u32" where
  "weight s = (if cs_start s = Counted \<or> cs_state s = RUNNING then 1 else 0)"

definition session_ok :: "csession \<Rightarrow> bool" where
  "session_ok s \<longleftrightarrow> cs_state s \<noteq> STARTING \<and> (cs_start s = Started \<longleftrightarrow> cs_state s \<noteq> STOPPED)"

definition peers_ok :: "csession list \<Rightarrow> (nat \<rightharpoonup> nat) \<Rightarrow> bool" where
  "peers_ok ss pts \<longleftrightarrow> (\<forall>p i. pts p = Some i \<longleftrightarrow> (\<exists>s\<in>set ss. cs_id s = i \<and> cs_peer s = Some p))"

definition server_ok :: "server \<Rightarrow> bool" where
  "server_ok sv \<longleftrightarrow> distinct (map cs_id (sv_sessions sv)) \<and> peers_ok (sv_sessions sv) (sv_peer_to_session sv)
     \<and> (\<forall>s\<in>set (sv_sessions sv). session_ok s) \<and> sv_active sv = sum_list (map weight (sv_sessions sv))
     \<and> distinct (sv_ended sv) \<and> (\<not> sv_exited sv \<longrightarrow> set (sv_ended sv) \<inter> set (map cs_id (sv_sessions sv)) = {})"

lemma frame_ok: "\<lbrakk>frame s s' effs; session_ok s\<rbrakk> \<Longrightarrow> session_ok s' \<and> weight s' = weight s - stops effs"
proof -
  assume *: "frame s s' effs" "session_ok s"
  have "filter (\<lambda>e. e = StopSession) effs = []" if "StopSession \<notin> set effs"
    using that by (auto simp: filter_empty_conv)
  with * show ?thesis by (auto simp: frame_def session_ok_def weight_def stops_def split: if_splits)
qed

lemma map_id_update [simp]: "(\<And>s. cs_id (f s) = cs_id s) \<Longrightarrow> map cs_id (update_session i f ss) = map cs_id ss"
  by (simp add: update_session_def)

lemma map_id_replace [simp]: "cs_id s' = i \<Longrightarrow> map cs_id (update_session i (\<lambda>_. s') ss) = map cs_id ss"
  by (simp add: update_session_def)

lemma update_absent: "i \<notin> cs_id ` set ss \<Longrightarrow> update_session i f ss = ss"
  by (auto simp: update_session_def intro!: map_idI)

lemma update_split:
  assumes "distinct (map cs_id ss)" "s \<in> set ss"
  obtains xs ys where "ss = xs @ s # ys" "\<And>f. update_session (cs_id s) f ss = xs @ f s # ys"
proof -
  from split_list [OF assms(2)] obtain xs ys where ss: "ss = xs @ s # ys" by blast
  have "cs_id s \<notin> cs_id ` set xs" "cs_id s \<notin> cs_id ` set ys" using assms(1) by (auto simp: ss)
  then have "update_session (cs_id s) f ss = xs @ f s # ys" for f
    using update_absent [of "cs_id s" xs f] update_absent [of "cs_id s" ys f] by (simp add: ss update_session_def)
  with ss that show ?thesis by blast
qed

lemma update_const:
  assumes "distinct (map cs_id ss)" "s \<in> set ss"
  shows "update_session (cs_id s) f ss = update_session (cs_id s) (\<lambda>_. f s) ss"
proof -
  from assms have "t = s" if "t \<in> set ss" "cs_id t = cs_id s" for t
    using that by (auto simp: distinct_map dest: inj_onD)
  then show ?thesis by (auto simp: update_session_def)
qed

lemma server_ok_replace:
  assumes ok: "server_ok sv" and s: "s \<in> set (sv_sessions sv)"
    and s': "cs_id s' = cs_id s" "cs_peer s' = cs_peer s" "session_ok s'"
    and a: "a = sv_active sv - weight s + weight s'"
  shows "server_ok (sv\<lparr>sv_sessions := update_session (cs_id s) (\<lambda>_. s') (sv_sessions sv), sv_active := a\<rparr>)"
proof -
  from ok have "distinct (map cs_id (sv_sessions sv))" by (simp add: server_ok_def)
  from update_split [OF this s] obtain xs ys
    where ss: "sv_sessions sv = xs @ s # ys"
      and up: "\<And>f. update_session (cs_id s) f (sv_sessions sv) = xs @ f s # ys" by metis
  show ?thesis using ok s' a unfolding server_ok_def up by (auto simp: ss peers_ok_def)
qed

lemma server_ok_update:
  assumes ok: "server_ok sv" and s: "s \<in> set (sv_sessions sv)" "cs_id s = i"
    and f: "cs_id (f s) = cs_id s" "cs_peer (f s) = cs_peer s" "session_ok (f s)"
    and a: "a = sv_active sv - weight s + weight (f s)"
  shows "server_ok (sv\<lparr>sv_sessions := update_session i f (sv_sessions sv), sv_active := a\<rparr>)"
proof -
  have "update_session i f (sv_sessions sv) = update_session (cs_id s) (\<lambda>_. f s) (sv_sessions sv)"
    using ok s by (auto simp: server_ok_def intro: update_const)
  with server_ok_replace [OF ok s(1) f a] show ?thesis by simp
qed

lemma find_session: "find (\<lambda>s. cs_id s = i) ss = Some s \<Longrightarrow> s \<in> set ss \<and> cs_id s = i"
  by (auto simp: find_Some_iff)

subsection \<open>The interface of a handler\<close>

locale session_handler =
  fixes h :: "csession \<Rightarrow> handled"
  assumes framed: "h s = Inr (s', effs) \<Longrightarrow> frame s s' effs"
begin

lemma on_session_ok: "\<lbrakk>server_ok sv; on_session i h sv = Inr (sv', effs)\<rbrakk> \<Longrightarrow> server_ok sv'"
proof -
  assume ok: "server_ok sv" and run: "on_session i h sv = Inr (sv', effs)"
  show ?thesis
  proof (cases "find (\<lambda>s. cs_id s = i) (sv_sessions sv)")
    case None
    with ok run show ?thesis by (simp add: on_session_def)
  next
    case (Some s)
    with run obtain s' es where h: "h s = Inr (s', es)"
      and sv': "sv' = sv\<lparr>sv_sessions := update_session i (\<lambda>_. s') (sv_sessions sv), sv_active := sv_active sv - stops es\<rparr>"
      by (auto simp: on_session_def split: sum.splits)
    from find_session [OF Some] have s: "s \<in> set (sv_sessions sv)" "cs_id s = i" by auto
    then have "session_ok s" using ok by (simp add: server_ok_def)
    with framed [OF h] frame_ok [OF framed [OF h]] show ?thesis
      unfolding sv' by (intro server_ok_update [OF ok s]) (auto simp: frame_def)
  qed
qed

text \<open>Every session but the one addressed stays as it is, and every effect is that session's.\<close>

lemma on_session_local:
  assumes "on_session i h sv = Inr (sv', effs)"
  shows "\<forall>s\<in>set (sv_sessions sv). cs_id s \<noteq> i \<longrightarrow> s \<in> set (sv_sessions sv')"
    and "sv_peer_to_session sv' = sv_peer_to_session sv" and "fst ` set effs \<subseteq> {Some i}"
  using assms by (auto simp: on_session_def update_session_def split: option.splits sum.splits)

end

interpretation on_event: session_handler "handle_event env now kind" for env now kind
  by unfold_locales (rule handle_event_frame)

interpretation on_stop: session_handler "Inr \<circ> stop_session"
  by unfold_locales (simp add: frame_stop)

subsection \<open>Claiming a session\<close>

lemma get_session_ok:
  assumes ok: "server_ok sv" and run: "get_session env ev sv = Inr (sv', who, effs)"
  shows "server_ok sv'"
proof (cases "sv_peer_to_session sv (ne_peer ev)")
  case (Some i)
  with ok run show ?thesis by (simp add: get_session_def)
next
  case free: None
  show ?thesis
  proof (cases "find (claimable env ev) (sv_sessions sv)")
    case None
    with free ok run show ?thesis by (simp add: get_session_def)
  next
    case (Some s)
    then have s: "s \<in> set (sv_sessions sv)" "cs_peer s = None" by (auto simp: find_Some_iff claimable_def)
    from ok have "distinct (map cs_id (sv_sessions sv))" by (simp add: server_ok_def)
    from update_split [OF this s(1)] obtain xs ys
      where ss: "sv_sessions sv = xs @ s # ys"
        and up: "\<And>f. update_session (cs_id s) f (sv_sessions sv) = xs @ f s # ys" by metis
    from run free Some obtain a where sv': "sv' = sv\<lparr>sv_sessions := xs @ s\<lparr>cs_peer := Some (ne_peer ev), cs_localAddress := a\<rparr> # ys,
        sv_peer_to_session := (sv_peer_to_session sv)(ne_peer ev \<mapsto> cs_id s)\<rparr>"
      by (auto simp: get_session_def up split: option.splits)
    have peers: "peers_ok (xs @ s # ys) (sv_peer_to_session sv)" using ok by (simp add: server_ok_def ss)
    have "cs_peer t \<noteq> Some (ne_peer ev)" if "t \<in> set (xs @ s # ys)" for t
      using peers that free unfolding peers_ok_def by (metis option.distinct(1))
    with peers have "peers_ok (sv_sessions sv') (sv_peer_to_session sv')"
      using s(2) unfolding sv' by (auto simp: peers_ok_def)
    then show ?thesis using ok unfolding sv' by (auto simp: server_ok_def ss session_ok_def weight_def)
  qed
qed

lemma iterate_ok: "\<lbrakk>server_ok sv; iterate env now ev sv = Inr (sv', effs)\<rbrakk> \<Longrightarrow> server_ok sv'"
  by (auto simp: iterate_def split: sum.splits option.splits dest!: get_session_ok [rotated] on_event.on_session_ok [rotated])

subsection \<open>The pass over the sessions\<close>

text \<open>Sending changes nothing of the frame and only sends.\<close>

definition outgoing :: "control_effect \<Rightarrow> bool" where
  "outgoing e \<longleftrightarrow> (case e of SendControl _ _ \<Rightarrow> True | MetadataNoYuv444 \<Rightarrow> True | _ \<Rightarrow> False)"

lemma outgoing_simps [simp]:
  "outgoing (SendControl p b)" "outgoing MetadataNoYuv444" "\<not> outgoing StopSession" "\<not> outgoing ControlEnd"
  "\<not> outgoing (DisconnectNow p)"
  by (simp_all add: outgoing_def)

definition sends :: "csession \<Rightarrow> csession \<times> control_effect list \<Rightarrow> bool" where
  "sends s r \<longleftrightarrow> cs_id (fst r) = cs_id s \<and> cs_peer (fst r) = cs_peer s \<and> cs_start (fst r) = cs_start s
     \<and> cs_state (fst r) = cs_state s \<and> list_all outgoing (snd r)"

lemma send_plaintext_sends: "sends s (send_plaintext env plaintext s)"
  by (auto simp: sends_def send_plaintext_def encode_control_def Let_def split: option.splits prod.splits)

lemma drain_feedback_sends: "sends s (drain_feedback env msgs s)"
proof (induction msgs arbitrary: s)
  case (Cons msg msgs)
  obtain s1 e1 where 1: "send_feedback_msg env msg s = (s1, e1)" by force
  obtain s2 e2 where 2: "drain_feedback env msgs s1 = (s2, e2)" by force
  from Cons [of s1] send_plaintext_sends [of s env "feedback_plaintext msg"] show ?case
    using 1 by (simp add: 2 sends_def send_feedback_msg_def)
qed (simp add: sends_def)

lemma drain_queues_sends: "sends s (drain_queues env s)"
proof -
  obtain s1 e1 where 1: "drain_feedback env (cs_feedback_queue s) (s\<lparr>cs_feedback_queue := []\<rparr>) = (s1, e1)" by force
  obtain s2 e2 where 2: "(case cs_hdr_queue s1 of None \<Rightarrow> (s1, [])
      | Some info \<Rightarrow> send_hdr_mode env info (s1\<lparr>cs_hdr_queue := None\<rparr>)) = (s2, e2)" by (metis surj_pair)
  have "sends (s\<lparr>cs_feedback_queue := []\<rparr>) (s1, e1)" using drain_feedback_sends 1 by metis
  moreover have "sends s1 (s2, e2)"
  proof (cases "cs_hdr_queue s1")
    case (Some info)
    with 2 have "send_hdr_mode env info (s1\<lparr>cs_hdr_queue := None\<rparr>) = (s2, e2)" by simp
    then have "sends (s1\<lparr>cs_hdr_queue := None\<rparr>) (s2, e2)"
      unfolding send_hdr_mode_def by (metis send_plaintext_sends)
    then show ?thesis by (simp add: sends_def)
  qed (use 2 in \<open>simp add: sends_def\<close>)
  ultimately show ?thesis unfolding drain_queues_def 1 prod.case 2 by (simp add: sends_def)
qed

lemma sends_frame: "sends s (s', effs) \<Longrightarrow> frame s s' effs"
  by (auto simp: sends_def list_all_iff intro!: frame_quiet)

text \<open>A visit keeps the frame; \<open>controlEnd\<close> is raised once, for a stopping session, with its peer cut off.\<close>

definition cut_peers :: "control_effect list \<Rightarrow> nat set" where "cut_peers effs = {p. DisconnectNow p \<in> set effs}"

definition control_ends :: "control_effect list \<Rightarrow> nat" where
  "control_ends effs = length (filter (\<lambda>e. e = ControlEnd) effs)"

lemma visit_session_frame:
  assumes "visit_session env process_running now since s = (s', effs, awaiting)"
  shows "frame s s' effs
    \<and> (if ControlEnd \<in> set effs then cs_state s' = STOPPING \<and> control_ends effs = 1 \<and> cut_peers effs = set_option (cs_peer s)
       else cut_peers effs = {})"
proof -
  obtain t e where t: "(if now > cs_pingTimeout s then stop_session s else (s, [])) = (t, e)" by force
  then have fr: "frame s t e" by (auto split: if_splits intro: frame_stop frame_quiet)
  from t have e: "e = [] \<or> e = [StopSession]" by (auto simp: stop_session_def split: if_splits)
  obtain u d where d: "drain_queues env t = (u, d)" by force
  then have "sends t (u, d)" using drain_queues_sends [of t env] by simp
  then have drained: "frame t u d" "ControlEnd \<notin> set d" "cut_peers d = {}"
    by (auto simp: sends_frame sends_def list_all_iff cut_peers_def)
  have quiet: "frame t t [x, ControlEnd]" "frame t t [ControlEnd]" if "x \<noteq> StopSession" for x
    using that by (simp_all add: frame_def)
  have stopped: "frame t (fst (stop_session t)) (snd (stop_session t))" by (rule stop_session_frame)
  have snd_stop: "snd (stop_session t) = [] \<or> snd (stop_session t) = [StopSession]" by (simp add: stop_session_def)
  show ?thesis
    using assms e drained frame_trans [OF fr drained(1)] frame_trans [OF fr stopped] snd_stop fr
      frame_trans [OF fr quiet(1) [of "DisconnectNow (the (cs_peer t))"]] frame_trans [OF fr quiet(2) [of RaiseIdr]]
    unfolding visit_session_def t
    by (auto simp: d cut_peers_def control_ends_def frame_def [of s t e] frame_quiet split: if_splits option.splits prod.splits)
qed

lemma stops_append [simp]: "stops (xs @ ys) = stops xs + stops ys"
  by (simp add: stops_def)

lemma stops_Nil [simp]: "stops [] = 0"
  by (simp add: stops_def)

lemma ended_in_Cons: "ended_in (map (Pair i) effs @ rest) = replicate (control_ends effs) i @ ended_in rest"
  by (induction effs) (auto simp: ended_in_def control_ends_def)

lemma disconnected_Cons: "disconnected (map (Pair i) effs @ rest) = cut_peers effs \<union> disconnected rest"
  by (auto simp: disconnected_def cut_peers_def image_Un image_image)

lemma control_ends_none: "ControlEnd \<notin> set effs \<Longrightarrow> control_ends effs = 0"
  by (auto simp: control_ends_def filter_empty_conv)

text \<open>What one pass leaves: the surviving and the ended sessions are disjoint parts of the old list, and the
  peers of the ended ones, no others, are cut off.\<close>

lemma visit_sessions_ids:
  assumes "visit_sessions env process_running now since peek k ss = (ss', effs, awaiting)" "distinct (map cs_id ss)"
  shows "distinct (map cs_id ss' @ ended_in effs) \<and> set (map cs_id ss' @ ended_in effs) \<subseteq> cs_id ` set ss"
  using assms
proof (induction ss arbitrary: k ss' effs awaiting)
  case (Cons s ss)
  obtain s' e a where v: "visit_session env process_running now since s = (s', e, a)" by (metis surj_pair)
  obtain rs es b where r: "visit_sessions env process_running now since peek (Suc k) ss = (rs, es, b)" by (metis surj_pair)
  have fr: "cs_id s' = cs_id s" using visit_session_frame [OF v] by (simp add: frame_def)
  have ends: "control_ends e = (if ControlEnd \<in> set e then 1 else 0)"
    using visit_session_frame [OF v] control_ends_none by auto
  show ?case
  proof (cases "peek k")
    case False
    with Cons.prems have res: "ss' = (if ControlEnd \<in> set e then rs else s' # rs)" "effs = map (Pair (cs_id s)) e @ es"
      by (simp_all add: v r)
    from Cons.IH [OF r] Cons.prems fr ends show ?thesis unfolding res by (auto simp: ended_in_Cons)
  qed (use Cons.prems in \<open>auto simp: ended_in_def\<close>)
qed (simp add: ended_in_def)

lemma visit_sessions_ok:
  assumes "visit_sessions env process_running now since peek k ss = (ss', effs, awaiting)" "\<forall>s\<in>set ss. session_ok s"
  shows "(\<forall>s\<in>set ss'. session_ok s) \<and> sum_list (map weight ss') = sum_list (map weight ss) - stops (map snd effs)"
  using assms
proof (induction ss arbitrary: k ss' effs awaiting)
  case (Cons s ss)
  obtain s' e a where v: "visit_session env process_running now since s = (s', e, a)" by (metis surj_pair)
  obtain rs es b where r: "visit_sessions env process_running now since peek (Suc k) ss = (rs, es, b)" by (metis surj_pair)
  from visit_session_frame [OF v] have fr: "frame s s' e" by simp
  have s': "session_ok s'" "weight s' = weight s - stops e" using frame_ok [OF fr] Cons.prems(2) by auto
  have gone: "weight s' = 0" if "ControlEnd \<in> set e"
    using visit_session_frame [OF v] that s'(1) by (auto simp: weight_def session_ok_def)
  show ?case
  proof (cases "peek k")
    case False
    with Cons.prems have res: "ss' = (if ControlEnd \<in> set e then rs else s' # rs)" "effs = map (Pair (cs_id s)) e @ es"
      by (simp_all add: v r)
    from Cons.IH [OF r] Cons.prems s' gone show ?thesis unfolding res by (auto simp: comp_def algebra_simps)
  qed (use Cons.prems in auto)
qed simp

lemma visit_sessions_peers:
  assumes "visit_sessions env process_running now since peek k ss = (ss', effs, awaiting)" "distinct (map cs_id ss)"
    and "\<forall>s\<in>set ss. \<forall>t\<in>set ss. \<forall>p. cs_peer s = Some p \<longrightarrow> cs_peer t = Some p \<longrightarrow> s = t"
  shows "(\<forall>i p. (\<exists>s\<in>set ss'. cs_id s = i \<and> cs_peer s = Some p)
      \<longleftrightarrow> (\<exists>s\<in>set ss. cs_id s = i \<and> cs_peer s = Some p) \<and> p \<notin> disconnected effs)
    \<and> disconnected effs \<subseteq> {p. \<exists>s\<in>set ss. cs_peer s = Some p}"
  using assms
proof (induction ss arbitrary: k ss' effs awaiting)
  case (Cons s ss)
  obtain s' e a where v: "visit_session env process_running now since s = (s', e, a)" by (metis surj_pair)
  obtain rs es b where r: "visit_sessions env process_running now since peek (Suc k) ss = (rs, es, b)" by (metis surj_pair)
  have fr: "cs_id s' = cs_id s" "cs_peer s' = cs_peer s" using visit_session_frame [OF v] by (simp_all add: frame_def)
  have cut: "cut_peers e = (if ControlEnd \<in> set e then set_option (cs_peer s) else {})"
    using visit_session_frame [OF v] by simp
  have dist: "distinct (map cs_id ss)" "s \<notin> set ss" using Cons.prems by auto
  have IH: "(\<exists>s\<in>set rs. cs_id s = i \<and> cs_peer s = Some p)
      \<longleftrightarrow> (\<exists>s\<in>set ss. cs_id s = i \<and> cs_peer s = Some p) \<and> p \<notin> disconnected es"
    "disconnected es \<subseteq> {p. \<exists>s\<in>set ss. cs_peer s = Some p}" for i p
    using Cons.IH [OF r dist(1)] Cons.prems(3) by simp_all
  have other: "cs_peer t \<noteq> Some p" if "cs_peer s = Some p" "t \<in> set ss" for t p
    using Cons.prems(3) dist(2) that by fastforce
  then have kept: "p \<notin> disconnected es" if "cs_peer s = Some p" for p using IH(2) that by blast
  show ?case
  proof (cases "peek k")
    case False
    with Cons.prems have res: "ss' = (if ControlEnd \<in> set e then rs else s' # rs)" "effs = map (Pair (cs_id s)) e @ es"
      by (simp_all add: v r)
    have "(\<exists>s\<in>set ss'. cs_id s = i \<and> cs_peer s = Some p)
      \<longleftrightarrow> (\<exists>s\<in>set (s # ss). cs_id s = i \<and> cs_peer s = Some p) \<and> p \<notin> disconnected effs" for i p
      using IH(1) [of i p] kept [of p] other [of p] fr
      unfolding res disconnected_Cons cut by (cases "ControlEnd \<in> set e") auto
    moreover have "disconnected effs \<subseteq> {p. \<exists>s\<in>set (s # ss). cs_peer s = Some p}"
      unfolding res disconnected_Cons cut using IH(2) by auto
    ultimately show ?thesis by blast
  qed (use Cons.prems in \<open>auto simp: disconnected_def\<close>)
qed (simp add: disconnected_def)

lemma peers_inj:
  assumes "peers_ok ss pts" "distinct (map cs_id ss)"
  shows "\<forall>s\<in>set ss. \<forall>t\<in>set ss. \<forall>p. cs_peer s = Some p \<longrightarrow> cs_peer t = Some p \<longrightarrow> s = t"
proof (intro ballI allI impI)
  fix s t p assume st: "s \<in> set ss" "t \<in> set ss" "cs_peer s = Some p" "cs_peer t = Some p"
  then have "pts p = Some (cs_id s)" "pts p = Some (cs_id t)" using assms(1) unfolding peers_ok_def by blast+
  then have "cs_id s = cs_id t" by simp
  with assms(2) st show "s = t" by (auto simp: distinct_map dest: inj_onD)
qed

lemma control_pass_ok:
  assumes ok: "server_ok sv" and live: "\<not> sv_exited sv"
    and run: "control_pass env process_running now peek sv = (sv', effs, brk)"
  shows "server_ok sv'"
proof -
  define since where "since = (if process_running then None
      else case sv_terminated_since sv of None \<Rightarrow> Some now | Some t \<Rightarrow> Some t)"
  obtain ss es aw where v: "visit_sessions env process_running now since peek 0 (sv_sessions sv) = (ss, es, aw)"
    by (metis surj_pair)
  from run have sv': "sv' = sv\<lparr>sv_sessions := ss,
      sv_peer_to_session := (\<lambda>p. if p \<in> disconnected es then None else sv_peer_to_session sv p),
      sv_active := sv_active sv - stops (map snd es), sv_ended := sv_ended sv @ ended_in es, sv_terminated_since := since\<rparr>"
    by (simp add: control_pass_def since_def [symmetric] v)
  from ok have d: "distinct (map cs_id (sv_sessions sv))" and p: "peers_ok (sv_sessions sv) (sv_peer_to_session sv)"
    and s: "\<forall>s\<in>set (sv_sessions sv). session_ok s" by (auto simp: server_ok_def)
  have "peers_ok ss (sv_peer_to_session sv')"
    using visit_sessions_peers [OF v d peers_inj [OF p d]] p unfolding peers_ok_def sv' by auto
  moreover have "set (sv_ended sv) \<inter> cs_id ` set (sv_sessions sv) = {}" using ok live by (simp add: server_ok_def)
  moreover from this have "set (sv_ended sv) \<inter> cs_id ` set ss = {}" using visit_sessions_ids [OF v d] by (simp add: disjoint_iff) blast
  ultimately show ?thesis
    using visit_sessions_ids [OF v d] visit_sessions_ok [OF v s] ok unfolding sv' by (auto simp: server_ok_def)
qed

lemma farewell_sends: "cs_id (fst (farewell env s)) = cs_id s \<and> cs_peer (fst (farewell env s)) = cs_peer s
    \<and> weight (fst (farewell env s)) = weight s \<and> session_ok (fst (farewell env s)) = session_ok s"
  using send_plaintext_sends [of s env "control_message IDX_TERMINATION (rev (bytes_le32 0x80030023))"]
  by (auto simp: farewell_def sends_def weight_def session_ok_def split: prod.splits)

lemma control_exit_ok: "\<lbrakk>server_ok sv; \<not> sv_exited sv\<rbrakk> \<Longrightarrow> server_ok (fst (control_exit env sv))"
  by (auto simp: server_ok_def control_exit_def peers_ok_def farewell_sends comp_def cong: map_cong)

lemma in_phase_session:
  assumes "in_phase ph i sv" obtains s where "s \<in> set (sv_sessions sv)" "cs_id s = i" "cs_start s = ph"
  using assms by (auto simp: in_phase_def list_ex_iff)

lemma session_ok_phase: "\<lbrakk>server_ok sv; s \<in> set (sv_sessions sv)\<rbrakk> \<Longrightarrow> session_ok s"
  by (simp add: server_ok_def)

lemma server_ok_quiet:
  assumes ok: "server_ok sv" and f: "\<And>s. cs_id (f s) = cs_id s" "\<And>s. cs_peer (f s) = cs_peer s"
      "\<And>s. cs_state (f s) = cs_state s" "\<And>s. cs_start (f s) = cs_start s"
  shows "server_ok (sv\<lparr>sv_sessions := update_session i f (sv_sessions sv)\<rparr>)"
proof (cases "i \<in> cs_id ` set (sv_sessions sv)")
  case True
  then obtain s where s: "s \<in> set (sv_sessions sv)" "cs_id s = i" by auto
  have "server_ok (sv\<lparr>sv_sessions := update_session i f (sv_sessions sv), sv_active := sv_active sv\<rparr>)"
    using session_ok_phase [OF ok s(1)]
    by (intro server_ok_update [OF ok s]) (simp_all add: f session_ok_def weight_def)
  then show ?thesis by simp
next
  case False
  with ok show ?thesis by (simp add: update_absent)
qed

lemma start_steps_ok:
  assumes ok: "server_ok sv"
  shows "in_phase Listed i sv \<Longrightarrow>
      server_ok (sv\<lparr>sv_sessions := update_session i (start_arm env now) (sv_sessions sv)\<rparr>)"
    and "in_phase Armed i sv \<Longrightarrow>
      server_ok (sv\<lparr>sv_sessions := update_session i (\<lambda>s. s\<lparr>cs_start := Counted\<rparr>) (sv_sessions sv), sv_active := sv_active sv + 1\<rparr>)"
    and "in_phase Counted i sv \<Longrightarrow>
      server_ok (sv\<lparr>sv_sessions := update_session i (\<lambda>s. s\<lparr>cs_start := Started, cs_state := RUNNING\<rparr>) (sv_sessions sv)\<rparr>)"
proof -
  assume "in_phase Listed i sv"
  then obtain s where s: "s \<in> set (sv_sessions sv)" "cs_id s = i" "cs_start s = Listed" by (rule in_phase_session)
  from server_ok_update [OF ok s(1,2), of "start_arm env now" "sv_active sv"] session_ok_phase [OF ok s(1)] s(3)
  show "server_ok (sv\<lparr>sv_sessions := update_session i (start_arm env now) (sv_sessions sv)\<rparr>)"
    by (simp add: start_arm_def session_ok_def weight_def)
next
  assume "in_phase Armed i sv"
  then obtain s where s: "s \<in> set (sv_sessions sv)" "cs_id s = i" "cs_start s = Armed" by (rule in_phase_session)
  from session_ok_phase [OF ok s(1)] s(3)
  show "server_ok (sv\<lparr>sv_sessions := update_session i (\<lambda>s. s\<lparr>cs_start := Counted\<rparr>) (sv_sessions sv), sv_active := sv_active sv + 1\<rparr>)"
    by (intro server_ok_update [OF ok s(1,2)]) (auto simp: session_ok_def weight_def)
next
  assume "in_phase Counted i sv"
  then obtain s where s: "s \<in> set (sv_sessions sv)" "cs_id s = i" "cs_start s = Counted" by (rule in_phase_session)
  from server_ok_update [OF ok s(1,2), of "\<lambda>s. s\<lparr>cs_start := Started, cs_state := RUNNING\<rparr>" "sv_active sv"]
    session_ok_phase [OF ok s(1)] s(3)
  show "server_ok (sv\<lparr>sv_sessions := update_session i (\<lambda>s. s\<lparr>cs_start := Started, cs_state := RUNNING\<rparr>) (sv_sessions sv)\<rparr>)"
    by (simp add: session_ok_def weight_def)
qed

lemma server_step_ok:
  assumes ok: "server_ok sv" and en: "server_enabled sv ev" and run: "server_step env sv ev = Inr (sv', effs)"
  shows "server_ok sv'"
proof (cases ev)
  case (StartInsert s a)
  with run en ok show ?thesis
    by (auto simp: server_ok_def peers_ok_def alloc_session_def session_ok_def weight_def disjoint_iff) blast
next
  case (StopRequest i)
  with run on_stop.on_session_ok [OF ok] show ?thesis by simp
next
  case (Iterate now e)
  with run iterate_ok [OF ok] show ?thesis by simp
next
  case (Pass r now peek)
  with run en control_pass_ok [OF ok] show ?thesis by (auto split: prod.splits)
next
  case Exit
  with run en control_exit_ok [OF ok] show ?thesis by (metis fst_conv server_enabled.simps(7) server_step.simps(11) sum.inject(2))
qed (use run en start_steps_ok [OF ok] server_ok_quiet [OF ok] in auto)

lemma server_init_ok: "server_ok server_init"
  by (simp add: server_init_def server_ok_def peers_ok_def)

interpretation control: step_system "\<lambda>sv. sv = server_init" "server_next env" server_ok for env
proof
  show "sv = server_init \<Longrightarrow> server_ok sv" for sv by (simp add: server_init_ok)
  show "\<lbrakk>server_ok sv; server_next env sv sv'\<rbrakk> \<Longrightarrow> server_ok sv'" for sv sv'
    by (auto elim!: server_next.cases intro: server_step_ok)
qed

lemma weight_count:
  "sum_list (map weight ss) = word_of_nat (length (filter (\<lambda>s. cs_start s = Counted \<or> cs_state s = RUNNING) ss))"
  by (induction ss) (auto simp: weight_def)

subsection \<open>Properties\<close>

text \<open>
  C24. In every reachable state of the control server the map from peers and the list of sessions agree: a
  peer leads to a session exactly when that session is listed and bound to that peer, so no peer drives two
  sessions and no entry outlives its session. No session is listed twice, \<open>controlEnd\<close> is raised at most once
  for each, the active counter is the number of sessions counted or running and so never wraps below zero, and no
  session is ever in the starting state.\<close>

theorem server_table_consistent:
  assumes "(server_next env)\<^sup>*\<^sup>* server_init sv"
  shows "(sv_peer_to_session sv p = Some i \<longleftrightarrow> (\<exists>s\<in>set (sv_sessions sv). cs_id s = i \<and> cs_peer s = Some p))
    \<and> distinct (map cs_id (sv_sessions sv)) \<and> distinct (sv_ended sv)
    \<and> sv_active sv = word_of_nat (length (filter (\<lambda>s. cs_start s = Counted \<or> cs_state s = RUNNING) (sv_sessions sv)))
    \<and> STARTING \<notin> cs_state ` set (sv_sessions sv)"
proof -
  have "server_ok sv" using control.reachable_inv [OF refl assms] .
  then show ?thesis by (auto simp: server_ok_def peers_ok_def weight_count session_ok_def)
qed

text \<open>When a visit ends a session.\<close>

definition expired :: "time_point \<Rightarrow> csession \<Rightarrow> bool" where
  "expired now s \<longleftrightarrow> cs_state s = STOPPING \<or> (cs_state s = RUNNING \<and> now > cs_pingTimeout s)"

lemma visit_session_ends:
  assumes "visit_session env process_running now since s = (s', effs, awaiting)"
  shows "ControlEnd \<in> set effs \<longleftrightarrow> expired now s"
proof -
  have "ControlEnd \<notin> set (snd (drain_queues env t))" for t
    using drain_queues_sends [of t env] by (auto simp: sends_def list_all_iff)
  with assms show ?thesis
    by (auto simp: visit_session_def expired_def stop_session_def split: if_splits prod.splits)
      (metis snd_conv)+
qed

lemma visit_sessions_ends:
  assumes "visit_sessions env process_running now since (\<lambda>_. False) k ss = (ss', effs, awaiting)" "distinct (map cs_id ss)"
  shows "set (ended_in effs) = cs_id ` {s \<in> set ss. expired now s}
    \<and> cs_id ` set ss' = cs_id ` {s \<in> set ss. \<not> expired now s}"
  using assms
proof (induction ss arbitrary: k ss' effs awaiting)
  case (Cons s ss)
  obtain s' e a where v: "visit_session env process_running now since s = (s', e, a)" by (metis surj_pair)
  obtain rs es b where r: "visit_sessions env process_running now since (\<lambda>_. False) (Suc k) ss = (rs, es, b)" by (metis surj_pair)
  have fr: "cs_id s' = cs_id s" using visit_session_frame [OF v] by (simp add: frame_def)
  have ends: "control_ends e = (if expired now s then 1 else 0)"
    using visit_session_frame [OF v] control_ends_none visit_session_ends [OF v] by auto
  from Cons.prems(1) visit_session_ends [OF v]
  have res: "ss' = (if expired now s then rs else s' # rs)" "effs = map (Pair (cs_id s)) e @ es"
    by (simp_all add: v r)
  have split: "{t \<in> set (s # ss). Q t} = (if Q s then {s} else {}) \<union> {t \<in> set ss. Q t}" for Q by auto
  from Cons.IH [OF r] Cons.prems(2) fr ends show ?case
    unfolding res split by (simp add: ended_in_Cons)
qed (simp add: ended_in_def)

text \<open>
  C26. A pass of the control loop that no shutdown interrupts ends exactly the sessions that are stopping or
  whose client has been silent past its deadline while running: each of them is gone from the list, no peer
  leads to it any more, and its \<open>controlEnd\<close> is raised, which its teardown waits for. All others stay listed.\<close>

theorem pass_ends_exactly_expired:
  assumes "(server_next env)\<^sup>*\<^sup>* server_init sv" "\<not> sv_exited sv"
    and "control_pass env process_running now (\<lambda>_. False) sv = (sv', effs, brk)"
  shows "cs_id ` {s \<in> set (sv_sessions sv). expired now s} = set (sv_ended sv') - set (sv_ended sv)
    \<and> cs_id ` {s \<in> set (sv_sessions sv). \<not> expired now s} = cs_id ` set (sv_sessions sv')
    \<and> ran (sv_peer_to_session sv') \<subseteq> cs_id ` {s \<in> set (sv_sessions sv). \<not> expired now s}"
proof -
  have ok: "server_ok sv" using control.reachable_inv [OF refl assms(1)] .
  then have d: "distinct (map cs_id (sv_sessions sv))" by (simp add: server_ok_def)
  have fresh: "set (sv_ended sv) \<inter> cs_id ` set (sv_sessions sv) = {}" using ok assms(2) by (simp add: server_ok_def)
  define since where "since = (if process_running then None
      else case sv_terminated_since sv of None \<Rightarrow> Some now | Some t \<Rightarrow> Some t)"
  obtain ss es aw where v: "visit_sessions env process_running now since (\<lambda>_. False) 0 (sv_sessions sv) = (ss, es, aw)"
    by (metis surj_pair)
  from assms(3) have sv': "sv_sessions sv' = ss" "sv_ended sv' = sv_ended sv @ ended_in es"
    by (auto simp: control_pass_def since_def [symmetric] v)
  have "server_ok sv'" using control_pass_ok [OF ok assms(2,3)] .
  then have "ran (sv_peer_to_session sv') \<subseteq> cs_id ` set ss" by (auto simp: server_ok_def peers_ok_def ran_def sv')
  with visit_sessions_ends [OF v d] fresh show ?thesis by (auto simp: sv')
qed

lemma visit_sessions_cover:
  assumes "visit_sessions env process_running now since peek k ss = (ss', effs, awaiting)"
  shows "cs_id ` set ss \<subseteq> cs_id ` set ss' \<union> set (ended_in effs)"
  using assms
proof (induction ss arbitrary: k ss' effs awaiting)
  case (Cons s ss)
  obtain s' e a where v: "visit_session env process_running now since s = (s', e, a)" by (metis surj_pair)
  obtain rs es b where r: "visit_sessions env process_running now since peek (Suc k) ss = (rs, es, b)" by (metis surj_pair)
  have fr: "cs_id s' = cs_id s" "ControlEnd \<in> set e \<Longrightarrow> control_ends e = 1"
    using visit_session_frame [OF v] by (auto simp: frame_def)
  show ?case
  proof (cases "peek k")
    case False
    with Cons.prems have "ss' = (if ControlEnd \<in> set e then rs else s' # rs)" "effs = map (Pair (cs_id s)) e @ es"
      by (simp_all add: v r)
    with Cons.IH [OF r] fr show ?thesis by (auto simp: ended_in_Cons)
  qed (use Cons.prems in auto)
qed simp

lemma visit_sessions_awaiting:
  assumes "now - t \<ge> pending_peer_termination_grace"
  shows "\<not> snd (snd (visit_sessions env False now (Some t) peek k ss))"
  using assms
proof (induction ss arbitrary: k)
  case (Cons s ss)
  have "\<not> snd (snd (visit_session env False now (Some t) s))"
    using assms by (simp add: visit_session_def split: prod.splits)
  with Cons show ?case by (auto split: prod.splits) (metis snd_conv)+
qed simp

text \<open>
  When the application has been gone for the grace period, the next pass breaks the loop whatever the
  sessions do, and the farewell raises \<open>controlEnd\<close> for every session still listed: nobody waits for the
  control thread after it has gone.\<close>

theorem control_thread_releases_sessions:
  assumes "sv_terminated_since sv = Some t" "now - t \<ge> pending_peer_termination_grace"
    and "control_pass env False now peek sv = (sv', effs, brk)"
  shows "brk \<and> cs_id ` set (sv_sessions sv) \<subseteq> set (sv_ended (fst (control_exit env sv')))"
proof -
  obtain ss es aw where v: "visit_sessions env False now (Some t) peek 0 (sv_sessions sv) = (ss, es, aw)"
    by (metis surj_pair)
  have "\<not> aw" using visit_sessions_awaiting [OF assms(2), of env peek 0 "sv_sessions sv"] by (simp add: v)
  moreover from assms(3) have "sv_sessions sv' = ss" "sv_ended sv' = sv_ended sv @ ended_in es" "brk = (\<not> aw)"
    by (auto simp: control_pass_def assms(1) v)
  moreover have "cs_id ` set (sv_sessions sv) \<subseteq> cs_id ` set ss \<union> set (ended_in es)"
    by (rule visit_sessions_cover [OF v])
  ultimately show ?thesis by (auto simp: control_exit_def)
qed

lemma get_session_routes:
  assumes ok: "server_ok sv" and run: "get_session env ev sv = Inr (sv', Some i, effs)"
  obtains s where "s \<in> set (sv_sessions sv)" "cs_id s = i"
    "sv_peer_to_session sv (ne_peer ev) = Some i \<or> sv_peer_to_session sv (ne_peer ev) = None \<and> claimable env ev s"
    "sv_peer_to_session sv' = (sv_peer_to_session sv)(ne_peer ev \<mapsto> i)"
    "\<forall>t\<in>set (sv_sessions sv). cs_id t \<noteq> i \<longrightarrow> t \<in> set (sv_sessions sv')" "fst ` set effs \<subseteq> {Some i}"
proof (cases "sv_peer_to_session sv (ne_peer ev)")
  case (Some j)
  with run have "sv' = sv" "effs = []" "j = i" by (auto simp: get_session_def)
  moreover obtain s where "s \<in> set (sv_sessions sv)" "cs_id s = j"
    using ok Some by (auto simp: server_ok_def peers_ok_def)
  ultimately show ?thesis using that [of s] Some by (auto simp: fun_upd_idem)
next
  case None
  with run obtain s where s: "find (claimable env ev) (sv_sessions sv) = Some s" "cs_id s = i"
    by (auto simp: get_session_def split: option.splits)
  then have "s \<in> set (sv_sessions sv)" "claimable env ev s" by (auto simp: find_Some_iff)
  with None run s show ?thesis
    by (intro that [of s]) (auto simp: get_session_def update_session_def split: option.splits)
qed

text \<open>
  C25. One ENet event concerns one session at most. A peer nobody expects is disconnected and changes
  nothing. Otherwise the event goes to the session the peer is bound to, or binds the peer to a session that no
  peer had claimed and that this event may claim: by its connect data when the client sends one, by address only
  when it does not. Every other session stays exactly as it was, and every effect belongs to that session.\<close>

theorem event_concerns_one_session:
  assumes "(server_next env)\<^sup>*\<^sup>* server_init sv" "iterate env now ev sv = Inr (sv', effs)"
  shows "(sv' = sv \<and> effs = [(None, DisconnectNow (ne_peer ev))])
    \<or> (\<exists>s. s \<in> set (sv_sessions sv)
        \<and> (sv_peer_to_session sv (ne_peer ev) = Some (cs_id s)
           \<or> sv_peer_to_session sv (ne_peer ev) = None \<and> claimable env ev s)
        \<and> sv_peer_to_session sv' = (sv_peer_to_session sv)(ne_peer ev \<mapsto> cs_id s)
        \<and> {t \<in> set (sv_sessions sv). cs_id t \<noteq> cs_id s} \<subseteq> set (sv_sessions sv')
        \<and> fst ` set effs \<subseteq> {Some (cs_id s)})"
proof -
  have ok: "server_ok sv" using control.reachable_inv [OF refl assms(1)] .
  from assms(2) obtain sv1 who e1 where g: "get_session env ev sv = Inr (sv1, who, e1)"
    by (auto simp: iterate_def split: sum.splits)
  show ?thesis
  proof (cases who)
    case None
    with g have "sv1 = sv" "e1 = []" by (auto simp: get_session_def split: option.splits)
    with None g assms(2) show ?thesis by (simp add: iterate_def)
  next
    case (Some i)
    with g assms(2) obtain e2 where o: "on_session i (handle_event env now (ne_kind ev)) sv1 = Inr (sv', e2)"
      and effs: "effs = e1 @ e2" by (auto simp: iterate_def split: sum.splits)
    from g Some have "get_session env ev sv = Inr (sv1, Some i, e1)" by simp
    from get_session_routes [OF ok this] obtain s where s: "s \<in> set (sv_sessions sv)" "cs_id s = i"
      "sv_peer_to_session sv (ne_peer ev) = Some i \<or> sv_peer_to_session sv (ne_peer ev) = None \<and> claimable env ev s"
      "sv_peer_to_session sv1 = (sv_peer_to_session sv)(ne_peer ev \<mapsto> i)"
      "\<forall>t\<in>set (sv_sessions sv). cs_id t \<noteq> i \<longrightarrow> t \<in> set (sv_sessions sv1)" "fst ` set e1 \<subseteq> {Some i}" .
    note on_event.on_session_local [OF o]
    with s effs show ?thesis by (intro disjI2 exI [of _ s]) (auto simp: image_Un)
  qed
qed

subsection \<open>A session from start to silence\<close>

text \<open>A run of enabled steps; \<open>None\<close> when one is not enabled or faults.\<close>

fun server_run :: "control_env \<Rightarrow> server \<Rightarrow> server_event list \<Rightarrow> server option" where
  "server_run env sv [] = Some sv"
| "server_run env sv (ev # evs) =
     (if server_enabled sv ev then case server_step env sv ev of Inl _ \<Rightarrow> None | Inr (sv', _) \<Rightarrow> server_run env sv' evs
      else None)"

lemma server_run_reachable: "server_run env sv evs = Some sv' \<Longrightarrow> (server_next env)\<^sup>*\<^sup>* sv sv'"
proof (induction evs arbitrary: sv)
  case (Cons ev evs)
  then obtain sv1 effs where "server_enabled sv ev" "server_step env sv ev = Inr (sv1, effs)"
    "server_run env sv1 evs = Some sv'" by (auto split: if_splits sum.splits)
  with Cons.IH show ?case by (meson converse_rtranclp_into_rtranclp stepped)
qed simp

definition demo_connect :: net_event where
  "demo_connect = \<lparr>ne_peer = 3, ne_address = ''10.0.0.9'', ne_local_address = ''10.0.0.1'', ne_data = 99, ne_kind = CONNECT\<rparr>"

definition demo_start :: "server_event list" where
  "demo_start = [StartInsert demo_session ''10.0.0.2'', StartArm 7 0, StartCount 7, StartRun 7]"

definition demo_started :: server where
  "demo_started = server_init\<lparr>sv_sessions := [demo_session\<lparr>cs_pingTimeout := 10000\<rparr>], sv_active := 1\<rparr>"

definition demo_bound :: server where
  "demo_bound = server_init\<lparr>
     sv_sessions := [demo_session\<lparr>cs_pingTimeout := 10100, cs_peer := Some 3, cs_localAddress := ''10.0.0.1''\<rparr>],
     sv_peer_to_session := [3 \<mapsto> 7], sv_active := 1\<rparr>"

lemmas demo_defs = demo_env_def demo_session_def server_init_def update_session_def on_session_def stops_def

lemma demo_started_run: "server_run demo_env server_init demo_start = Some demo_started"
  by (simp add: demo_start_def demo_started_def demo_defs in_phase_def alloc_session_def start_arm_def)

lemma demo_connect_step: "iterate demo_env 100 demo_connect demo_started
    = Inr (demo_bound, [(Some 7, LaunchSessionClear 1)])"
  by (simp add: iterate_def get_session_def claimable_def handle_event_def demo_connect_def demo_started_def demo_bound_def
      demo_defs Let_def)

lemma demo_reachable: "(server_next demo_env)\<^sup>*\<^sup>* server_init demo_started" "(server_next demo_env)\<^sup>*\<^sup>* server_init demo_bound"
proof -
  show 1: "(server_next demo_env)\<^sup>*\<^sup>* server_init demo_started" using server_run_reachable [OF demo_started_run] .
  have "server_next demo_env demo_started demo_bound"
    by (rule stepped [of _ "Iterate 100 demo_connect"])
      (simp_all add: demo_connect_step, simp add: demo_started_def server_init_def)
  with 1 show "(server_next demo_env)\<^sup>*\<^sup>* server_init demo_bound" by simp
qed

theorem server_table_consistent_witness:
  "sv_peer_to_session demo_bound 3 = Some 7 \<and> (\<exists>s\<in>set (sv_sessions demo_bound). cs_id s = 7 \<and> cs_peer s = Some 3)
   \<and> sv_active demo_bound = 1"
  using server_table_consistent [OF demo_reachable(2), of 3 7]
  by (simp add: demo_bound_def server_init_def)

theorem event_concerns_one_session_witness:
  "\<exists>s. s \<in> set (sv_sessions demo_started) \<and> claimable demo_env demo_connect s
     \<and> sv_peer_to_session demo_bound = (sv_peer_to_session demo_started)(3 \<mapsto> cs_id s)"
  using event_concerns_one_session [OF demo_reachable(1) demo_connect_step]
  by (auto simp: demo_started_def server_init_def demo_connect_def)

theorem pass_ends_exactly_expired_witness:
  "let sv' = fst (control_pass demo_env True 20000 (\<lambda>_. False) demo_bound)
   in set (sv_ended sv') = {7} \<and> sv_sessions sv' = [] \<and> sv_peer_to_session sv' 3 = None"
proof -
  obtain sv' effs brk where p: "control_pass demo_env True 20000 (\<lambda>_. False) demo_bound = (sv', effs, brk)" by (metis surj_pair)
  have live: "\<not> sv_exited demo_bound" by (simp add: demo_bound_def server_init_def)
  have sets: "{s \<in> set (sv_sessions demo_bound). expired 20000 s} = set (sv_sessions demo_bound)"
    "{s \<in> set (sv_sessions demo_bound). \<not> expired 20000 s} = {}"
    by (auto simp: demo_bound_def demo_session_def expired_def)
  have "cs_id ` set (sv_sessions demo_bound) = {7}" "sv_ended demo_bound = []"
    by (simp_all add: demo_bound_def demo_session_def server_init_def)
  then have "set (sv_ended sv') = {7} \<and> sv_sessions sv' = [] \<and> ran (sv_peer_to_session sv') = {}"
    using pass_ends_exactly_expired [OF demo_reachable(2) live p] unfolding sets by auto
  moreover from this have "sv_peer_to_session sv' 3 = None" by (simp add: ran_def) (metis option.exhaust)
  ultimately show ?thesis by (simp add: p)
qed

theorem control_thread_releases_sessions_witness:
  "7 \<in> set (sv_ended (fst (control_exit demo_env
     (fst (control_pass demo_env False 1500 (\<lambda>_. False) (demo_started\<lparr>sv_terminated_since := Some 500\<rparr>))))))"
proof -
  let ?sv = "demo_started\<lparr>sv_terminated_since := Some 500\<rparr>"
  obtain sv' effs brk where p: "control_pass demo_env False 1500 (\<lambda>_. False) ?sv = (sv', effs, brk)" by (metis surj_pair)
  have "sv_terminated_since ?sv = Some 500" "1500 - 500 \<ge> pending_peer_termination_grace"
    by (simp_all add: pending_peer_termination_grace_def)
  from control_thread_releases_sessions [OF this p] have "7 \<in> set (sv_ended (fst (control_exit demo_env sv')))"
    by (simp add: demo_started_def server_init_def demo_session_def)
  then show ?thesis by (simp only: p fst_conv)
qed

text \<open>A stop that comes before \<open>session::start\<close> has stored the running state is lost: the wait in front of
  \<open>session::stop\<close> is for a state nobody stores, the exchange fails, and the session runs.\<close>

lemma early_stop_lost:
  assumes "server_ok sv" "in_phase Counted i sv"
  shows "server_step env sv (StopRequest i) = Inr (sv, [])"
proof -
  from assms(2) obtain t where "t \<in> set (sv_sessions sv)" "cs_id t = i" by (auto simp: in_phase_def list_ex_iff)
  then obtain s where f: "find (\<lambda>s. cs_id s = i) (sv_sessions sv) = Some s"
    by (metis (mono_tags, lifting) find_None_iff not_Some_eq)
  then have s: "s \<in> set (sv_sessions sv)" "cs_id s = i" using find_session by auto
  have d: "distinct (map cs_id (sv_sessions sv))" using assms(1) by (simp add: server_ok_def)
  with assms(2) s have "cs_start s = Counted" by (auto simp: in_phase_def list_ex_iff distinct_map dest: inj_onD)
  then have "cs_state s \<noteq> RUNNING" using assms(1) s(1) by (auto simp: server_ok_def session_ok_def)
  moreover have "t = s" if "t \<in> set (sv_sessions sv)" "cs_id t = i" for t
    using d s that by (auto simp: distinct_map dest: inj_onD)
  then have "update_session i (\<lambda>_. s) (sv_sessions sv) = sv_sessions sv"
    by (auto simp: update_session_def intro!: map_idI)
  ultimately show ?thesis using f by (simp add: on_session_def stop_session_def stops_def)
qed

end
