(* ===== verification/Safe_Queue.thy ===== *)
theory Safe_Queue
  imports Prelude "HOL-Library.Sublist"
begin

text \<open>
  The thread-safe queue and event of \<^verbatim>\<open>src/thread_safe.h\<close>, over which every pair of threads of the host exchanges
  frames, packets and signals, and the registry of mailboxes that hands them out.

  An object with one mutex and one condition variable is a monitor: an operation enters, and either returns or
  waits; a waiting thread wakes, looks again, and returns or goes on waiting; whoever changes the state notifies
  all. The interface \<open>monitor\<close> states what that needs so that nobody sleeps while it could go on; queue and event
  both provide it. A wake-up may come at any time (they can be spurious); a notified thread is one whose wake-up
  is due.
\<close>

subsection \<open>Monitors\<close>

datatype ('r, 'w) outcome = Done 'r | Wait 'w

type_synonym ('s, 'r, 'w) critical = "'s \<times> ('r, 'w) outcome \<times> bool"

record ('s, 'w) monitor_state =
  mon_state :: 's
  mon_waits :: "nat \<rightharpoonup> 'w"
  mon_notified :: "nat set"

text \<open>Thread \<open>t\<close> leaves the mutex with an outcome; the flag says whether all waiting threads were notified.\<close>

definition settle :: "nat \<Rightarrow> ('s, 'r, 'w) critical \<Rightarrow> ('s, 'w) monitor_state \<Rightarrow> ('s, 'w) monitor_state \<times> 'r option" where
  "settle t res m =
     (case res of (s', out, notify) \<Rightarrow>
        let waits = (case out of Done _ \<Rightarrow> (mon_waits m)(t := None) | Wait w \<Rightarrow> (mon_waits m)(t \<mapsto> w))
        in (\<lparr>mon_state = s', mon_waits = waits,
             mon_notified = (if notify then dom waits else mon_notified m - {t})\<rparr>,
            case out of Done r \<Rightarrow> Some r | Wait _ \<Rightarrow> None))"

datatype 'op monitor_event = Enter nat 'op | Wake nat | Timeout nat

text \<open>An operation can only be entered by a thread that is not waiting, a wake-up only reaches one that is; a
  timeout ends a timed wait without a look at the state.\<close>

definition monitor_step ::
    "('s \<Rightarrow> 'op \<Rightarrow> ('s, 'r, 'w) critical) \<Rightarrow> ('s \<Rightarrow> 'w \<Rightarrow> ('s, 'r, 'w) critical) \<Rightarrow> ('w \<Rightarrow> 'r option)
      \<Rightarrow> ('s, 'w) monitor_state \<Rightarrow> 'op monitor_event \<Rightarrow> ('s, 'w) monitor_state \<times> 'r option" where
  "monitor_step enter wake timeout m ev =
     (case ev of
        Enter t op \<Rightarrow> (case mon_waits m t of None \<Rightarrow> settle t (enter (mon_state m) op) m | Some _ \<Rightarrow> (m, None))
      | Wake t \<Rightarrow> (case mon_waits m t of None \<Rightarrow> (m, None) | Some w \<Rightarrow> settle t (wake (mon_state m) w) m)
      | Timeout t \<Rightarrow> (case mon_waits m t of
          None \<Rightarrow> (m, None)
        | Some w \<Rightarrow> (case timeout w of
            None \<Rightarrow> (m, None)
          | Some r \<Rightarrow> settle t (mon_state m, Done r, False) m)))"

definition monitor_init :: "'s \<Rightarrow> ('s, 'w) monitor_state" where
  "monitor_init s = \<lparr>mon_state = s, mon_waits = (\<lambda>_. None), mon_notified = {}\<rparr>"

definition blocked :: "('s \<Rightarrow> 'w \<Rightarrow> ('s, 'r, 'w) critical) \<Rightarrow> 's \<Rightarrow> 'w \<Rightarrow> bool" where
  "blocked wake s w \<longleftrightarrow> wake s w = (s, Wait w, False)"

definition all_awake :: "('s \<Rightarrow> 'w \<Rightarrow> ('s, 'r, 'w) critical) \<Rightarrow> ('s, 'w) monitor_state \<Rightarrow> bool" where
  "all_awake wake m \<longleftrightarrow>
     (\<forall>t w. mon_waits m t = Some w \<and> t \<notin> mon_notified m \<longrightarrow> blocked wake (mon_state m) w)"

text \<open>The interface: a thread waits only where a look would send it back to wait, and a section that notifies
  nobody lets every thread that has to wait go on having to.\<close>

locale monitor =
  fixes enter :: "'s \<Rightarrow> 'op \<Rightarrow> ('s, 'r, 'w) critical"
    and wake :: "'s \<Rightarrow> 'w \<Rightarrow> ('s, 'r, 'w) critical"
    and timeout :: "'w \<Rightarrow> 'r option"
  assumes enter_waits: "enter s op = (s', Wait w, n) \<Longrightarrow> blocked wake s' w"
    and wake_waits: "wake s w = (s', Wait w', n) \<Longrightarrow> blocked wake s' w'"
    and enter_silent: "\<lbrakk>enter s op = (s', out, False); blocked wake s w\<rbrakk> \<Longrightarrow> blocked wake s' w"
    and wake_silent: "\<lbrakk>wake s v = (s', out, False); blocked wake s w\<rbrakk> \<Longrightarrow> blocked wake s' w"
begin

lemma settle_awake:
  assumes "all_awake wake m" "settle t (s', out, n) m = (m', r)"
    and "\<And>w. out = Wait w \<Longrightarrow> blocked wake s' w"
    and "\<And>w. \<lbrakk>\<not> n; blocked wake (mon_state m) w\<rbrakk> \<Longrightarrow> blocked wake s' w"
  shows "all_awake wake m'"
  using assms by (auto simp: settle_def all_awake_def Let_def split: if_splits outcome.splits)

lemma step_awake: "all_awake wake m \<Longrightarrow> all_awake wake (fst (monitor_step enter wake timeout m ev))"
proof -
  assume aw: "all_awake wake m"
  have left: "all_awake wake (fst (settle t res m))"
    if "\<And>s' w n. res = (s', Wait w, n) \<Longrightarrow> blocked wake s' w"
      and "\<And>s' out w. \<lbrakk>res = (s', out, False); blocked wake (mon_state m) w\<rbrakk> \<Longrightarrow> blocked wake s' w" for t res
  proof -
    obtain s' out n where res: "res = (s', out, n)" by (metis prod_cases3)
    show ?thesis using that
      by (intro settle_awake [OF aw, of t s' out n _ "snd (settle t res m)"]) (auto simp: res)
  qed
  show ?thesis
    using aw enter_waits enter_silent wake_waits wake_silent
    by (auto simp: monitor_step_def split: monitor_event.splits option.splits intro!: left)
qed

end

sublocale monitor \<subseteq> awake: machine_invariant "monitor_step enter wake timeout" "all_awake wake"
  by unfold_locales (rule step_awake)

context monitor
begin

text \<open>Nobody sleeps while it could go on: after any events, a thread that waits and is not notified would, if it
  looked, go back to wait with nothing changed.\<close>

lemma no_lost_wakeup:
  assumes "m = machine_state (monitor_step enter wake timeout) (monitor_init s) evs"
    and "mon_waits m t = Some w" and "t \<notin> mon_notified m"
  shows "wake (mon_state m) w = (mon_state m, Wait w, False)"
proof -
  have "all_awake wake (monitor_init s)" by (simp add: all_awake_def monitor_init_def)
  from awake.run_inv [OF this] assms show ?thesis by (auto simp: all_awake_def blocked_def)
qed

end

subsection \<open>The queue\<close>

datatype queue_overflow = OverflowClear | OverflowBlock

text \<open>\<open>queue_t\<close>. The generation is a 64-bit counter of stops and resets; it is a number here, since no wait
  spans \<open>2 ^ 64\<close> of them.\<close>

record 'a queue =
  q_continue :: bool
  q_max_elements :: nat
  q_overflow :: queue_overflow
  q_generation :: nat
  q_waiting_producers :: nat
  q_queue :: "'a list"

definition queue_new :: "nat \<Rightarrow> queue_overflow \<Rightarrow> 'a queue" where
  "queue_new max_elements overflow = \<lparr>q_continue = True, q_max_elements = (if max_elements = 0 then 1 else max_elements),
     q_overflow = overflow, q_generation = 0, q_waiting_producers = 0, q_queue = []\<rparr>"

datatype 'a queue_op = QRaise 'a | QPop | QPopFor | QPeek | QAtCapacity | QWaitingProducers | QRunning | QStop | QReset

datatype 'a queue_result = Accepted 'a | Refused | Got 'a | Nothing | Answer bool | Count nat | Unit

text \<open>Where a thread waits, with the generation it came in.\<close>

datatype 'a queue_wait = Producer 'a nat | Consumer nat | TimedConsumer nat

type_synonym 'a queue_section = "('a queue, 'a queue_result, 'a queue_wait) critical"

definition q_push :: "'a \<Rightarrow> 'a queue \<Rightarrow> 'a queue_section" where
  "q_push v q = (q\<lparr>q_queue := q_queue q @ [v]\<rparr>, Done (Accepted v), True)"

definition q_take :: "'a queue \<Rightarrow> 'a queue_section" where
  "q_take q = (q\<lparr>q_queue := tl (q_queue q)\<rparr>, Done (Got (hd (q_queue q))), True)"

definition queue_raise :: "'a \<Rightarrow> 'a queue \<Rightarrow> 'a queue_section" where
  "queue_raise v q =
     (if \<not> q_continue q then (q, Done Refused, False)
      else case q_overflow q of
        OverflowBlock \<Rightarrow>
          if length (q_queue q) < q_max_elements q then q_push v q
          else (q\<lparr>q_waiting_producers := q_waiting_producers q + 1\<rparr>, Wait (Producer v (q_generation q)), False)
      | OverflowClear \<Rightarrow> q_push v (if length (q_queue q) \<ge> q_max_elements q then q\<lparr>q_queue := []\<rparr> else q))"

text \<open>The predicate of the producer's wait, and what follows it.\<close>

definition queue_raise_wake :: "'a \<Rightarrow> nat \<Rightarrow> 'a queue \<Rightarrow> 'a queue_section" where
  "queue_raise_wake v generation q =
     (if \<not> q_continue q \<or> generation \<noteq> q_generation q \<or> length (q_queue q) < q_max_elements q
      then let q' = q\<lparr>q_waiting_producers := q_waiting_producers q - 1\<rparr>
           in if \<not> q_continue q \<or> generation \<noteq> q_generation q then (q', Done Refused, False) else q_push v q'
      else (q, Wait (Producer v generation), False))"

definition queue_pop :: "'a queue \<Rightarrow> 'a queue_section" where
  "queue_pop q =
     (if \<not> q_continue q then (q, Done Nothing, False)
      else if q_queue q = [] then (q, Wait (Consumer (q_generation q)), False) else q_take q)"

definition queue_pop_wake :: "nat \<Rightarrow> 'a queue \<Rightarrow> 'a queue_section" where
  "queue_pop_wake generation q =
     (if \<not> q_continue q \<or> generation \<noteq> q_generation q then (q, Done Nothing, False)
      else if q_queue q = [] then (q, Wait (Consumer generation), False) else q_take q)"

definition queue_pop_for :: "'a queue \<Rightarrow> 'a queue_section" where
  "queue_pop_for q =
     (if \<not> q_continue q then (q, Done Nothing, False)
      else if q_queue q = [] then (q, Wait (TimedConsumer (q_generation q)), False) else q_take q)"

text \<open>The timed wait looks at the queue first.\<close>

definition queue_pop_for_wake :: "nat \<Rightarrow> 'a queue \<Rightarrow> 'a queue_section" where
  "queue_pop_for_wake generation q =
     (if q_queue q = []
      then (if \<not> q_continue q \<or> generation \<noteq> q_generation q then (q, Done Nothing, False)
            else (q, Wait (TimedConsumer generation), False))
      else q_take q)"

definition queue_stop :: "'a queue \<Rightarrow> 'a queue_section" where
  "queue_stop q =
     ((if q_continue q then q\<lparr>q_continue := False, q_generation := q_generation q + 1\<rparr> else q), Done Unit, True)"

definition queue_reset :: "'a queue \<Rightarrow> 'a queue_section" where
  "queue_reset q = (q\<lparr>q_continue := True, q_queue := [], q_generation := q_generation q + 1\<rparr>, Done Unit, True)"

fun queue_enter :: "'a queue \<Rightarrow> 'a queue_op \<Rightarrow> 'a queue_section" where
  "queue_enter q (QRaise v) = queue_raise v q"
| "queue_enter q QPop = queue_pop q"
| "queue_enter q QPopFor = queue_pop_for q"
| "queue_enter q QPeek = (q, Done (Answer (q_continue q \<and> q_queue q \<noteq> [])), False)"
| "queue_enter q QAtCapacity = (q, Done (Answer (q_continue q \<and> length (q_queue q) \<ge> q_max_elements q)), False)"
| "queue_enter q QWaitingProducers = (q, Done (Count (q_waiting_producers q)), False)"
| "queue_enter q QRunning = (q, Done (Answer (q_continue q)), False)"
| "queue_enter q QStop = queue_stop q"
| "queue_enter q QReset = queue_reset q"

fun queue_wake :: "'a queue \<Rightarrow> 'a queue_wait \<Rightarrow> 'a queue_section" where
  "queue_wake q (Producer v g) = queue_raise_wake v g q"
| "queue_wake q (Consumer g) = queue_pop_wake g q"
| "queue_wake q (TimedConsumer g) = queue_pop_for_wake g q"

fun queue_timeout :: "'a queue_wait \<Rightarrow> 'a queue_result option" where
  "queue_timeout (TimedConsumer g) = Some Nothing"
| "queue_timeout _ = None"

abbreviation queue_step ::
    "('a queue, 'a queue_wait) monitor_state \<Rightarrow> 'a queue_op monitor_event
      \<Rightarrow> ('a queue, 'a queue_wait) monitor_state \<times> 'a queue_result option" where
  "queue_step \<equiv> monitor_step queue_enter queue_wake queue_timeout"

lemmas queue_op_defs = queue_raise_def queue_raise_wake_def queue_pop_def queue_pop_wake_def queue_pop_for_def
  queue_pop_for_wake_def queue_stop_def queue_reset_def q_push_def q_take_def Let_def

lemma queue_blocked:
  "blocked queue_wake q w \<longleftrightarrow>
     (case w of
        Producer v g \<Rightarrow> q_continue q \<and> g = q_generation q \<and> length (q_queue q) \<ge> q_max_elements q
      | Consumer g \<Rightarrow> q_continue q \<and> g = q_generation q \<and> q_queue q = []
      | TimedConsumer g \<Rightarrow> q_continue q \<and> g = q_generation q \<and> q_queue q = [])"
  by (auto simp: blocked_def queue_op_defs split: queue_wait.splits)

text \<open>A section that notifies nobody changes at most the count of waiting producers.\<close>

lemma queue_silent:
  "queue_enter q op = (q', out, False) \<Longrightarrow> \<exists>n. q' = q\<lparr>q_waiting_producers := n\<rparr>"
  "queue_wake q w = (q', out, False) \<Longrightarrow> \<exists>n. q' = q\<lparr>q_waiting_producers := n\<rparr>"
proof -
  have keep: "\<exists>n. q = q\<lparr>q_waiting_producers := n\<rparr>" by (rule exI [of _ "q_waiting_producers q"]) simp
  show "queue_enter q op = (q', out, False) \<Longrightarrow> \<exists>n. q' = q\<lparr>q_waiting_producers := n\<rparr>"
    using keep by (cases op) (auto simp: queue_op_defs split: if_splits queue_overflow.splits)
  show "queue_wake q w = (q', out, False) \<Longrightarrow> \<exists>n. q' = q\<lparr>q_waiting_producers := n\<rparr>"
    using keep by (cases w) (auto simp: queue_op_defs split: if_splits)
qed

interpretation queue: monitor queue_enter queue_wake queue_timeout
proof
  show "queue_enter q op = (q', Wait w, n) \<Longrightarrow> blocked queue_wake q' w" for q :: "'a queue" and op q' w n
    by (cases op) (auto simp: queue_blocked queue_op_defs split: if_splits queue_overflow.splits)
  show "queue_wake q w = (q', Wait w', n) \<Longrightarrow> blocked queue_wake q' w'" for q :: "'a queue" and w q' w' n
    by (cases w) (auto simp: queue_blocked queue_op_defs split: if_splits)
  show "\<lbrakk>queue_enter q op = (q', out, False); blocked queue_wake q w\<rbrakk> \<Longrightarrow> blocked queue_wake q' w"
    for q :: "'a queue" and op q' out w
    by (auto dest!: queue_silent(1) simp: queue_blocked split: queue_wait.splits)
  show "\<lbrakk>queue_wake q v = (q', out, False); blocked queue_wake q w\<rbrakk> \<Longrightarrow> blocked queue_wake q' w"
    for q :: "'a queue" and v q' out w
    by (auto dest!: queue_silent(2) simp: queue_blocked split: queue_wait.splits)
qed

text \<open>What all sections of the queue keep: the capacity, the policy, the order of generations.\<close>

definition queue_ok :: "'a queue \<Rightarrow> bool" where
  "queue_ok q \<longleftrightarrow> 0 < q_max_elements q \<and> length (q_queue q) \<le> q_max_elements q"

definition queue_later :: "'a queue \<Rightarrow> 'a queue \<Rightarrow> bool" where
  "queue_later q q' \<longleftrightarrow> q_overflow q' = q_overflow q \<and> q_generation q \<le> q_generation q' \<and> (queue_ok q \<longrightarrow> queue_ok q')"

lemma queue_enter_later: "queue_later q (fst (queue_enter q op))"
  by (cases op) (auto simp: queue_later_def queue_ok_def queue_op_defs split: queue_overflow.splits)

lemma queue_wake_later: "queue_later q (fst (queue_wake q w))"
  by (cases w) (auto simp: queue_later_def queue_ok_def queue_op_defs)

lemma queue_later_refl [simp]: "queue_later q q"
  by (simp add: queue_later_def)

lemma queue_later_trans: "\<lbrakk>queue_later q1 q2; queue_later q2 q3\<rbrakk> \<Longrightarrow> queue_later q1 q3"
  by (auto simp: queue_later_def)

lemma settle_state [simp]: "mon_state (fst (settle t res m)) = fst res"
  by (cases res) (simp add: settle_def Let_def)

lemma queue_step_later: "queue_later (mon_state m) (mon_state (fst (queue_step m ev)))"
  by (auto simp: monitor_step_def queue_enter_later queue_wake_later split: monitor_event.splits option.splits)

lemma queue_run_later: "queue_later (mon_state m) (mon_state (machine_state queue_step m evs))"
proof (induction evs arbitrary: m)
  case (Cons ev evs)
  from queue_later_trans [OF queue_step_later [of m ev] Cons.IH] show ?case by simp
qed simp

lemma queue_run_ok: "queue_ok (mon_state (machine_state queue_step (monitor_init (queue_new n overflow)) evs))"
  using queue_run_later [of "monitor_init (queue_new n overflow)" evs]
  by (simp add: queue_later_def monitor_init_def queue_new_def queue_ok_def)

subsection \<open>Order\<close>

definition accepted_by :: "'a queue_result option \<Rightarrow> 'a list" where
  "accepted_by r = (case r of Some (Accepted v) \<Rightarrow> [v] | _ \<Rightarrow> [])"

definition delivered_by :: "'a queue_result option \<Rightarrow> 'a list" where
  "delivered_by r = (case r of Some (Got v) \<Rightarrow> [v] | _ \<Rightarrow> [])"

text \<open>One section: what is delivered comes off the front, what is accepted goes to the end, and elements are lost
  only by a reset or by the clearing policy.\<close>

definition keeps_order :: "bool \<Rightarrow> 'a queue \<Rightarrow> 'a queue \<Rightarrow> 'a queue_result option \<Rightarrow> bool" where
  "keeps_order lossless q q' r \<longleftrightarrow>
     subseq (delivered_by r @ q_queue q') (q_queue q @ accepted_by r)
     \<and> (lossless \<longrightarrow> delivered_by r @ q_queue q' = q_queue q @ accepted_by r)"

definition result_of :: "('r, 'w) outcome \<Rightarrow> 'r option" where
  "result_of out = (case out of Done r \<Rightarrow> Some r | Wait _ \<Rightarrow> None)"

lemma settle_result [simp]: "snd (settle t res m) = result_of (fst (snd res))"
  by (cases res) (simp add: settle_def Let_def result_of_def)

lemma queue_enter_order:
  "keeps_order (q_overflow q = OverflowBlock \<and> op \<noteq> QReset) q (fst (queue_enter q op))
     (result_of (fst (snd (queue_enter q op))))"
  by (cases op) (auto simp: keeps_order_def accepted_by_def delivered_by_def result_of_def queue_op_defs
      split: queue_overflow.splits)

lemma queue_wake_order:
  "keeps_order True q (fst (queue_wake q w)) (result_of (fst (snd (queue_wake q w))))"
  by (cases w) (auto simp: keeps_order_def accepted_by_def delivered_by_def result_of_def queue_op_defs)

definition is_reset :: "'a queue_op monitor_event \<Rightarrow> bool" where
  "is_reset ev \<longleftrightarrow> (\<exists>t. ev = Enter t QReset)"

lemma queue_step_order:
  "keeps_order (q_overflow (mon_state m) = OverflowBlock \<and> \<not> is_reset ev) (mon_state m) (mon_state (fst (queue_step m ev)))
     (snd (queue_step m ev))"
proof -
  have same: "keeps_order b q q None" "keeps_order b q q (Some Nothing)" for b and q :: "'a queue"
    by (simp_all add: keeps_order_def accepted_by_def delivered_by_def)
  have weaken: "keeps_order b' q q' r" if "keeps_order b q q' r" "b' \<longrightarrow> b" for b b' and q q' :: "'a queue" and r
    using that by (auto simp: keeps_order_def)
  show ?thesis
    by (cases ev) (auto simp: monitor_step_def same result_of_def [of "Done _"] is_reset_def
        split: option.splits queue_wait.splits elim!: queue_timeout.elims
        intro: weaken [OF queue_enter_order] weaken [OF queue_wake_order])
qed

lemma queue_step_capacity: "q_max_elements (mon_state (fst (queue_step m ev))) = q_max_elements (mon_state m)"
proof -
  have "q_max_elements (fst (queue_enter q op)) = q_max_elements q" "q_max_elements (fst (queue_wake q w)) = q_max_elements q"
    for q :: "'a queue" and op w
    by (cases op; auto simp: queue_op_defs split: queue_overflow.splits) (cases w; auto simp: queue_op_defs)
  then show ?thesis by (auto simp: monitor_step_def split: monitor_event.splits option.splits)
qed

lemma queue_run_capacity: "q_max_elements (mon_state (machine_state queue_step m evs)) = q_max_elements (mon_state m)"
  by (induction evs arbitrary: m) (simp_all add: queue_step_capacity)

lemma queue_run_order:
  fixes m :: "('a queue, 'a queue_wait) monitor_state"
  defines "outs evs \<equiv> machine_outputs queue_step m evs"
  shows "subseq (concat (map delivered_by (outs evs)) @ q_queue (mon_state (machine_state queue_step m evs)))
      (q_queue (mon_state m) @ concat (map accepted_by (outs evs)))
    \<and> (q_overflow (mon_state m) = OverflowBlock \<and> \<not> list_ex is_reset evs \<longrightarrow>
        concat (map delivered_by (outs evs)) @ q_queue (mon_state (machine_state queue_step m evs))
          = q_queue (mon_state m) @ concat (map accepted_by (outs evs)))"
  unfolding outs_def
proof (induction evs rule: rev_induct)
  case (snoc ev evs)
  define m' where "m' = machine_state queue_step m evs"
  have pol: "q_overflow (mon_state m') = q_overflow (mon_state m)"
    using queue_run_later [of m evs] by (simp add: queue_later_def m'_def)
  define d a d1 a1 where "d = concat (map delivered_by (machine_outputs queue_step m evs))"
    and "a = concat (map accepted_by (machine_outputs queue_step m evs))"
    and "d1 = delivered_by (snd (queue_step m' ev))" and "a1 = accepted_by (snd (queue_step m' ev))"
  note step = queue_step_order [of m' ev, unfolded keeps_order_def pol, folded d1_def a1_def]
  note IH = snoc.IH [folded m'_def d_def a_def]
  let ?q = "q_queue (mon_state (fst (queue_step m' ev)))"
  have "subseq (d @ d1 @ ?q) (d @ q_queue (mon_state m') @ a1)"
    using step by (simp add: subseq_append')
  moreover have "subseq ((d @ q_queue (mon_state m')) @ a1) ((q_queue (mon_state m) @ a) @ a1)"
    using list_emb_append_mono [OF conjunct1 [OF IH], of a1 a1] by simp
  ultimately have "subseq (d @ d1 @ ?q) (q_queue (mon_state m) @ a @ a1)"
    using subseq_order.order_trans by fastforce
  moreover have "d @ d1 @ ?q = q_queue (mon_state m) @ a @ a1"
    if "q_overflow (mon_state m) = OverflowBlock" "\<not> list_ex is_reset evs" "\<not> is_reset ev"
    using that step IH by (metis append.assoc)
  ultimately show ?case by (simp add: m'_def d_def a_def d1_def a1_def case_prod_beta)
qed simp

subsection \<open>Properties\<close>

text \<open>
  C33. First in, first out: over every interleaving of threads on a queue, what was delivered followed by what is
  still queued is a subsequence of what was accepted, in the order of acceptance; with the blocking policy, and
  as long as nobody resets the queue, it is exactly what was accepted, so no element is lost or overtaken. The
  queue never holds more than its capacity.
\<close>

theorem queue_fifo:
  fixes evs :: "'a queue_op monitor_event list" and n :: nat and overflow :: queue_overflow
  defines "init \<equiv> monitor_init (queue_new n overflow)"
  defines "q \<equiv> mon_state (machine_state queue_step init evs)"
    and "delivered \<equiv> concat (map delivered_by (machine_outputs queue_step init evs))"
    and "accepted \<equiv> concat (map accepted_by (machine_outputs queue_step init evs))"
  shows "subseq (delivered @ q_queue q) accepted \<and> length (q_queue q) \<le> (if n = 0 then 1 else n)
    \<and> (overflow = OverflowBlock \<and> \<not> list_ex is_reset evs \<longrightarrow> delivered @ q_queue q = accepted)"
proof -
  have "q_queue (mon_state init) = []" "q_overflow (mon_state init) = overflow"
    by (simp_all add: init_def monitor_init_def queue_new_def)
  moreover have "length (q_queue q) \<le> q_max_elements q"
    using queue_run_ok [of n overflow evs] by (simp add: queue_ok_def q_def init_def)
  moreover have "q_max_elements q = (if n = 0 then 1 else n)"
    unfolding q_def init_def queue_run_capacity by (simp add: monitor_init_def queue_new_def)
  ultimately show ?thesis using queue_run_order [of init evs] by (simp add: q_def delivered_def accepted_def)
qed

theorem queue_fifo_witness:
  "concat (map delivered_by (machine_outputs queue_step (monitor_init (queue_new 2 OverflowBlock))
     [Enter 1 (QRaise 1), Enter 1 (QRaise 2), Enter 1 (QRaise 3), Enter 2 QPop, Wake 1, Enter 2 QPop, Enter 2 QPop]))
   = [1, 2, 3 :: nat]"
proof -
  let ?evs = "[Enter 1 (QRaise 1), Enter 1 (QRaise 2), Enter 1 (QRaise 3), Enter 2 QPop, Wake 1, Enter 2 QPop, Enter 2 QPop]"
  have "\<not> list_ex is_reset ?evs" by (simp add: is_reset_def)
  moreover have "q_queue (mon_state (machine_state queue_step (monitor_init (queue_new 2 OverflowBlock)) ?evs)) = []"
    "concat (map accepted_by (machine_outputs queue_step (monitor_init (queue_new 2 OverflowBlock)) ?evs)) = [1, 2, 3]"
    by (simp_all add: monitor_step_def monitor_init_def queue_new_def queue_op_defs settle_def accepted_by_def)
  ultimately show ?thesis
    using queue_fifo [where n = 2 and overflow = OverflowBlock and evs = ?evs] by (metis append_Nil2)
qed

text \<open>
  C34. Nobody sleeps while it could go on. After any sequence of operations, wake-ups and timeouts, a thread that
  waits without a notification due is rightly waiting: the queue is running and in the generation the thread came
  in, and it is full for a producer, empty for a consumer.
\<close>

theorem queue_nobody_sleeps:
  fixes evs :: "'a queue_op monitor_event list" and n :: nat and overflow :: queue_overflow
  defines "m \<equiv> machine_state queue_step (monitor_init (queue_new n overflow)) evs"
  assumes "mon_waits m t = Some w" "t \<notin> mon_notified m"
  shows "q_continue (mon_state m) \<and>
    (case w of
       Producer v g \<Rightarrow> g = q_generation (mon_state m) \<and> length (q_queue (mon_state m)) = q_max_elements (mon_state m)
     | Consumer g \<Rightarrow> g = q_generation (mon_state m) \<and> q_queue (mon_state m) = []
     | TimedConsumer g \<Rightarrow> g = q_generation (mon_state m) \<and> q_queue (mon_state m) = [])"
proof -
  have "queue_wake (mon_state m) w = (mon_state m, Wait w, False)"
    using queue.no_lost_wakeup [OF m_def [THEN meta_eq_to_obj_eq] assms(2,3)] .
  then have "blocked queue_wake (mon_state m) w" by (simp add: blocked_def)
  moreover have "queue_ok (mon_state m)" unfolding m_def by (rule queue_run_ok)
  ultimately show ?thesis by (auto simp: queue_blocked queue_ok_def split: queue_wait.splits)
qed

theorem queue_nobody_sleeps_witness:
  "let m = machine_state queue_step (monitor_init (queue_new 1 OverflowBlock)) [Enter 1 (QRaise True), Enter 2 (QRaise False)]
   in mon_waits m 2 = Some (Producer False 0) \<and> length (q_queue (mon_state m)) = q_max_elements (mon_state m)"
proof -
  let ?m = "machine_state queue_step (monitor_init (queue_new 1 OverflowBlock)) [Enter 1 (QRaise True), Enter 2 (QRaise False)]"
  have "mon_waits ?m 2 = Some (Producer False 0)" "2 \<notin> mon_notified ?m"
    by (simp_all add: monitor_step_def monitor_init_def queue_new_def queue_op_defs settle_def)
  from queue_nobody_sleeps [OF this] this show ?thesis by (simp only: Let_def queue_wait.case simp_thms)
qed

text \<open>The generation a waiting thread came in.\<close>

fun wait_generation :: "'a queue_wait \<Rightarrow> nat" where
  "wait_generation (Producer v g) = g"
| "wait_generation (Consumer g) = g"
| "wait_generation (TimedConsumer g) = g"

definition waits_past :: "('a queue, 'a queue_wait) monitor_state \<Rightarrow> bool" where
  "waits_past m \<longleftrightarrow> (\<forall>t w. mon_waits m t = Some w \<longrightarrow> wait_generation w \<le> q_generation (mon_state m))"

lemma settle_waits:
  "mon_waits (fst (settle t res m)) = (case fst (snd res) of Done _ \<Rightarrow> (mon_waits m)(t := None) | Wait w \<Rightarrow> (mon_waits m)(t \<mapsto> w))"
  by (cases res) (simp add: settle_def Let_def)

lemma settle_waits_past:
  assumes "waits_past m" "q_generation (mon_state m) \<le> q_generation (fst res)"
    and "\<And>w. fst (snd res) = Wait w \<Longrightarrow> wait_generation w \<le> q_generation (fst res)"
  shows "waits_past (fst (settle t res m))"
  using assms by (auto simp: waits_past_def settle_waits split: outcome.splits if_splits dest: le_trans)

lemma queue_step_waits_past: "waits_past m \<Longrightarrow> waits_past (fst (queue_step m ev))"
proof -
  assume past: "waits_past m"
  have enter: "wait_generation w \<le> q_generation (fst (queue_enter q op))" if "fst (snd (queue_enter q op)) = Wait w"
    for q :: "'a queue" and op w
    using that by (cases op) (auto simp: queue_op_defs split: if_splits queue_overflow.splits)
  have wake: "w' = w" if "fst (snd (queue_wake q w)) = Wait w'" for q :: "'a queue" and w w'
    using that by (cases w) (auto simp: queue_op_defs split: if_splits)
  have later: "q_generation q \<le> q_generation (fst (queue_enter q op))" "q_generation q \<le> q_generation (fst (queue_wake q w))"
    for q :: "'a queue" and op w
    using queue_enter_later [of q op] queue_wake_later [of q w] by (simp_all add: queue_later_def)
  show ?thesis using past
    by (auto simp: monitor_step_def split: monitor_event.splits option.splits intro!: settle_waits_past enter later)
      (metis later(2) le_trans wake waits_past_def)
qed

interpretation queue_past: machine_invariant "queue_step" waits_past
  by unfold_locales (rule queue_step_waits_past)

text \<open>A thread stays where it waits until it wakes or its time is over.\<close>

lemma queue_still_waits:
  assumes "mon_waits m t = Some w" "queue_timeout w = None" "Wake t \<notin> set evs"
  shows "mon_waits (machine_state queue_step m evs) t = Some w"
  using assms
proof (induction evs arbitrary: m)
  case (Cons ev evs)
  have "mon_waits (fst (queue_step m ev)) t = Some w"
    using Cons.prems
    by (auto simp: monitor_step_def settle_waits split: monitor_event.splits option.splits outcome.splits)
  with Cons show ?case by simp
qed simp

text \<open>
  C35. A stop or a reset sends everybody away. A producer or consumer that waited when the queue was stopped or
  reset has its wake-up due whatever happened since, and when it wakes it leaves without an element accepted or
  taken, even when the queue runs again by then: nothing from before a reset enters the queue after it.
\<close>

theorem stale_waiters_leave:
  fixes before after :: "'a queue_op monitor_event list" and n :: nat and overflow :: queue_overflow
  defines "m \<equiv> machine_state queue_step (monitor_init (queue_new n overflow)) before"
  assumes "mon_waits m t = Some w" "queue_timeout w = None" "mon_waits m u = None"
    and "op = QReset \<or> (op = QStop \<and> q_continue (mon_state m))" "Wake t \<notin> set after"
  defines "m' \<equiv> machine_state queue_step m (Enter u op # after)"
  shows "t \<in> mon_notified m' \<and> snd (queue_step m' (Wake t)) \<in> {Some Refused, Some Nothing}
    \<and> q_queue (mon_state (fst (queue_step m' (Wake t)))) = q_queue (mon_state m')"
proof -
  define m1 where "m1 = fst (queue_step m (Enter u op))"
  have "waits_past (monitor_init (queue_new n overflow))" by (simp add: waits_past_def monitor_init_def)
  then have "waits_past m" unfolding m_def by (rule queue_past.run_inv)
  then have "wait_generation w \<le> q_generation (mon_state m)" using assms(2) by (simp add: waits_past_def)
  moreover have "q_generation (mon_state m1) = q_generation (mon_state m) + 1"
    using assms(4,5) by (auto simp: m1_def monitor_step_def queue_op_defs)
  moreover have m': "m' = machine_state queue_step m1 after" by (simp add: m'_def m1_def)
  moreover have "q_generation (mon_state m1) \<le> q_generation (mon_state m')"
    using queue_run_later [of m1 after] by (simp add: m' queue_later_def)
  ultimately have gen: "wait_generation w < q_generation (mon_state m')" by linarith
  have "mon_waits m1 t = Some w"
    using assms(2,4,5) by (auto simp: m1_def monitor_step_def settle_waits queue_op_defs)
  then have w: "mon_waits m' t = Some w" unfolding m' using queue_still_waits assms(3,6) by blast
  have "m' = machine_state queue_step (monitor_init (queue_new n overflow)) (before @ Enter u op # after)"
    by (simp add: m'_def m_def)
  from queue.no_lost_wakeup [OF this w] gen assms(3) have "t \<in> mon_notified m'"
    by (cases w) (auto simp: queue_op_defs split: if_splits)
  with gen w assms(3) show ?thesis
    by (cases w) (auto simp: monitor_step_def result_of_def queue_op_defs)
qed

theorem stale_waiters_leave_witness:
  "snd (queue_step (machine_state queue_step (monitor_init (queue_new 1 OverflowBlock))
     [Enter 1 (QRaise True), Enter 2 (QRaise False), Enter 3 QStop, Enter 3 QReset]) (Wake 2)) \<in> {Some Refused, Some Nothing}"
proof -
  let ?before = "[Enter 1 (QRaise True), Enter 2 (QRaise False)]"
  let ?m = "machine_state queue_step (monitor_init (queue_new 1 OverflowBlock)) ?before"
  have "mon_waits ?m 2 = Some (Producer False 0)" "mon_waits ?m 3 = None" "q_continue (mon_state ?m)"
    by (simp_all add: monitor_step_def monitor_init_def queue_new_def queue_op_defs settle_def)
  moreover have "queue_timeout (Producer False 0) = None" by simp
  moreover have "Wake 2 \<notin> set [Enter 3 QReset]" by simp
  ultimately show ?thesis
    using stale_waiters_leave [of 1 OverflowBlock ?before 2 "Producer False 0" 3 QStop "[Enter 3 QReset]"]
    by (simp only: simp_thms machine_state_append append_Cons append_Nil) (simp add: machine_state_Cons)
qed

text \<open>The timed pop looks at the elements before the flag: it hands out an element of a queue that was stopped
  while it waited, where the other pop returns nothing.\<close>

lemma timed_pop_differs:
  "snd (queue_step (machine_state queue_step (monitor_init (queue_new 4 OverflowClear))
     [Enter 1 QPopFor, Enter 2 (QRaise True), Enter 2 QStop]) (Wake 1)) = Some (Got True)"
  "snd (queue_step (machine_state queue_step (monitor_init (queue_new 4 OverflowClear))
     [Enter 1 QPop, Enter 2 (QRaise True), Enter 2 QStop]) (Wake 1)) = Some Nothing"
  by (simp_all add: monitor_step_def monitor_init_def queue_new_def queue_op_defs settle_def)

subsection \<open>The event\<close>

record 'a event =
  ev_continue :: bool
  ev_status :: "'a option"

definition event_new :: "'a event" where "event_new = \<lparr>ev_continue = True, ev_status = None\<rparr>"

datatype 'a event_op = ERaise 'a | EPop | EPopFor | EView | EViewFor | EPeek | EStop | EReset | ERunning

datatype 'a event_result = EGot 'a | ENothing | EAnswer bool | EUnit

datatype event_wait = AtPop | AtPopFor | AtView | AtViewFor

type_synonym 'a event_section = "('a event, 'a event_result, event_wait) critical"

text \<open>The end of each wait: a pop takes the value away, a view leaves it.\<close>

definition event_take :: "event_wait \<Rightarrow> 'a \<Rightarrow> 'a event \<Rightarrow> 'a event_section" where
  "event_take w v e =
     (if w = AtPop \<or> w = AtPopFor then (e\<lparr>ev_status := None\<rparr>, Done (EGot v), False) else (e, Done (EGot v), False))"

definition event_await :: "event_wait \<Rightarrow> 'a event \<Rightarrow> 'a event_section" where
  "event_await w e =
     (if \<not> ev_continue e then (e, Done ENothing, False)
      else case ev_status e of None \<Rightarrow> (e, Wait w, False) | Some v \<Rightarrow> event_take w v e)"

text \<open>After a wake-up the plain operations look at the flag first, the timed ones at the value.\<close>

definition event_wake :: "'a event \<Rightarrow> event_wait \<Rightarrow> 'a event_section" where
  "event_wake e w =
     (if w = AtPop \<or> w = AtView then event_await w e
      else case ev_status e of
        Some v \<Rightarrow> event_take w v e
      | None \<Rightarrow> if \<not> ev_continue e then (e, Done ENothing, False) else (e, Wait w, False))"

fun event_enter :: "'a event \<Rightarrow> 'a event_op \<Rightarrow> 'a event_section" where
  "event_enter e (ERaise v) =
     (if \<not> ev_continue e then (e, Done EUnit, False) else (e\<lparr>ev_status := Some v\<rparr>, Done EUnit, True))"
| "event_enter e EPop = event_await AtPop e"
| "event_enter e EPopFor = event_await AtPopFor e"
| "event_enter e EView = event_await AtView e"
| "event_enter e EViewFor = event_await AtViewFor e"
| "event_enter e EPeek = (e, Done (EAnswer (ev_continue e \<and> ev_status e \<noteq> None)), False)"
| "event_enter e EStop = (e\<lparr>ev_continue := False\<rparr>, Done EUnit, True)"
| "event_enter e EReset = (e\<lparr>ev_continue := True, ev_status := None\<rparr>, Done EUnit, False)"
| "event_enter e ERunning = (e, Done (EAnswer (ev_continue e)), False)"

fun event_timeout :: "event_wait \<Rightarrow> 'a event_result option" where
  "event_timeout AtPopFor = Some ENothing"
| "event_timeout AtViewFor = Some ENothing"
| "event_timeout _ = None"

abbreviation event_step ::
    "('a event, event_wait) monitor_state \<Rightarrow> 'a event_op monitor_event
      \<Rightarrow> ('a event, event_wait) monitor_state \<times> 'a event_result option" where
  "event_step \<equiv> monitor_step event_enter event_wake event_timeout"

lemmas event_op_defs = event_await_def event_wake_def event_take_def

lemma event_blocked: "blocked event_wake e w \<longleftrightarrow> ev_continue e \<and> ev_status e = None"
  by (auto simp: blocked_def event_op_defs split: option.splits if_splits)

interpretation event: monitor event_enter event_wake event_timeout
proof
  show "event_enter e op = (e', Wait w, n) \<Longrightarrow> blocked event_wake e' w" for e :: "'a event" and op e' w n
    by (cases op) (auto simp: event_blocked event_op_defs split: if_splits option.splits)
  show "event_wake e w = (e', Wait w', n) \<Longrightarrow> blocked event_wake e' w'" for e :: "'a event" and w e' w' n
    by (auto simp: event_blocked event_op_defs split: if_splits option.splits)
  show "\<lbrakk>event_enter e op = (e', out, False); blocked event_wake e w\<rbrakk> \<Longrightarrow> blocked event_wake e' w"
    for e :: "'a event" and op e' out w
    by (cases op) (auto simp: event_blocked event_op_defs split: if_splits option.splits)
  show "\<lbrakk>event_wake e v = (e', out, False); blocked event_wake e w\<rbrakk> \<Longrightarrow> blocked event_wake e' w"
    for e :: "'a event" and v e' out w
    by (auto simp: event_blocked event_op_defs split: if_splits option.splits)
qed

text \<open>A thread that waits on an event without a notification due has nothing to take.\<close>

lemma event_nobody_sleeps:
  assumes "m = machine_state event_step (monitor_init event_new) evs" "mon_waits m t = Some w" "t \<notin> mon_notified m"
  shows "ev_continue (mon_state m) \<and> ev_status (mon_state m) = None"
  using event.no_lost_wakeup [OF assms] event_blocked [of "mon_state m" w] by (simp add: blocked_def)

text \<open>The event has no generation: a reset right after a stop sends the waiting thread back to wait.\<close>

lemma event_stop_lost:
  "snd (event_step (machine_state event_step (monitor_init (event_new :: bool event)) [Enter 1 EPop, Enter 2 EStop, Enter 2 EReset])
     (Wake 1)) = None"
  by (simp add: monitor_step_def monitor_init_def event_new_def event_op_defs settle_def)

subsection \<open>The registry of mailboxes\<close>

text \<open>\<open>mail_raw_t\<close>: identifiers lead to objects that the registry does not keep alive. An object lives while it has
  holders; when the last one goes its destructor runs, and later cleans up in the registry. \<open>ml_pending\<close> counts the
  destructors that have not cleaned up yet.\<close>

record 'k mail =
  ml_posts :: "('k \<times> nat) list"
  ml_refs :: "nat \<Rightarrow> nat"
  ml_next :: nat
  ml_pending :: nat

definition mail_new :: "'k mail" where
  "mail_new = \<lparr>ml_posts = [], ml_refs = (\<lambda>_. 0), ml_next = 0, ml_pending = 0\<rparr>"

definition mail_create :: "'k::linorder \<Rightarrow> 'k mail \<Rightarrow> 'k mail \<times> nat" where
  "mail_create k m =
     (m\<lparr>ml_posts := insort_key fst (k, ml_next m) (ml_posts m), ml_refs := (ml_refs m)(ml_next m := 1), ml_next := ml_next m + 1\<rparr>,
      ml_next m)"

text \<open>\<open>event\<close> and \<open>queue\<close>: the live object of that identifier, or a new one in the place of a dead one.\<close>

definition mail_post :: "'k::linorder \<Rightarrow> 'k mail \<Rightarrow> 'k mail \<times> nat" where
  "mail_post k m =
     (case map_of (ml_posts m) k of
        None \<Rightarrow> mail_create k m
      | Some obj \<Rightarrow>
          if ml_refs m obj > 0 then (m\<lparr>ml_refs := (ml_refs m)(obj := ml_refs m obj + 1)\<rparr>, obj)
          else mail_create k (m\<lparr>ml_posts := filter (\<lambda>p. fst p \<noteq> k) (ml_posts m)\<rparr>))"

definition mail_release :: "nat \<Rightarrow> 'k mail \<Rightarrow> 'k mail" where
  "mail_release obj m =
     (if ml_refs m obj = 0 then m
      else m\<lparr>ml_refs := (ml_refs m)(obj := ml_refs m obj - 1),
             ml_pending := (if ml_refs m obj = 1 then ml_pending m + 1 else ml_pending m)\<rparr>)"

text \<open>\<open>cleanup\<close> erases the first expired entry and returns.\<close>

fun erase_expired :: "(nat \<Rightarrow> nat) \<Rightarrow> ('k \<times> nat) list \<Rightarrow> ('k \<times> nat) list" where
  "erase_expired refs [] = []"
| "erase_expired refs (p # ps) = (if refs (snd p) = 0 then ps else p # erase_expired refs ps)"

definition mail_cleanup :: "'k mail \<Rightarrow> 'k mail" where
  "mail_cleanup m =
     (if ml_pending m = 0 then m
      else m\<lparr>ml_pending := ml_pending m - 1, ml_posts := erase_expired (ml_refs m) (ml_posts m)\<rparr>)"

datatype 'k mail_op = Post 'k | Release nat | Cleanup

fun mail_step :: "('k::linorder) mail \<Rightarrow> 'k mail_op \<Rightarrow> 'k mail \<times> nat option" where
  "mail_step m (Post k) = (case mail_post k m of (m', obj) \<Rightarrow> (m', Some obj))"
| "mail_step m (Release obj) = (mail_release obj m, None)"
| "mail_step m Cleanup = (mail_cleanup m, None)"

definition expired_posts :: "'k mail \<Rightarrow> nat" where
  "expired_posts m = length (filter (\<lambda>p. ml_refs m (snd p) = 0) (ml_posts m))"

definition mail_ok :: "'k mail \<Rightarrow> bool" where
  "mail_ok m \<longleftrightarrow> distinct (map fst (ml_posts m)) \<and> distinct (map snd (ml_posts m))
     \<and> (\<forall>p\<in>set (ml_posts m). snd p < ml_next m) \<and> (\<forall>obj. ml_refs m obj > 0 \<longrightarrow> obj \<in> snd ` set (ml_posts m))
     \<and> expired_posts m \<le> ml_pending m"

lemma distinct_insort: "distinct (map g (insort_key f x xs)) \<longleftrightarrow> g x \<notin> g ` set xs \<and> distinct (map g xs)"
  by (induction xs) (auto simp: set_insort_key)

lemma length_filter_insort: "length (filter P (insort_key f x xs)) = length (filter P (x # xs))"
  by (induction xs) auto

lemma mail_create_ok:
  assumes "mail_ok m" "k \<notin> fst ` set (ml_posts m)"
  shows "mail_ok (fst (mail_create k m))"
proof -
  have fresh: "ml_next m \<notin> snd ` set (ml_posts m)" using assms(1) by (auto simp: mail_ok_def)
  then have "filter (\<lambda>p. snd p \<noteq> ml_next m \<and> ml_refs m (snd p) = 0) (ml_posts m)
    = filter (\<lambda>p. ml_refs m (snd p) = 0) (ml_posts m)"
    by (intro filter_cong) force+
  with assms fresh show ?thesis
    by (auto simp: mail_ok_def mail_create_def distinct_insort length_filter_insort set_insort_key expired_posts_def
        less_SucI conj_commute cong: conj_cong)
qed

lemma mail_post_ok: "mail_ok m \<Longrightarrow> mail_ok (fst (mail_post k m))"
proof (cases "map_of (ml_posts m) k")
  case None
  moreover from this have "k \<notin> fst ` set (ml_posts m)" by (simp add: map_of_eq_None_iff)
  moreover assume "mail_ok m"
  ultimately show ?thesis by (simp add: mail_post_def mail_create_ok)
next
  case (Some obj)
  moreover assume ok: "mail_ok m"
  ultimately have mem: "(k, obj) \<in> set (ml_posts m)" by (simp add: map_of_SomeD)
  show ?thesis
  proof (cases "ml_refs m obj > 0")
    case True
    with mem have "(\<lambda>p. ((ml_refs m)(obj := Suc (ml_refs m obj))) (snd p) = 0) = (\<lambda>p :: 'a \<times> nat. ml_refs m (snd p) = 0)" by auto
    with ok mem True Some show ?thesis by (auto simp: mail_post_def mail_ok_def expired_posts_def)
  next
    case False
    let ?m = "m\<lparr>ml_posts := filter (\<lambda>p. fst p \<noteq> k) (ml_posts m)\<rparr>"
    have "obj' \<in> snd ` set (ml_posts ?m)" if live: "ml_refs m obj' > 0" for obj'
    proof -
      have "obj' \<in> snd ` set (ml_posts m)" using ok live by (simp add: mail_ok_def)
      then obtain k' where k': "(k', obj') \<in> set (ml_posts m)" by auto
      then have "k' \<noteq> k" using mem False live ok eq_key_imp_eq_value [of "ml_posts m" k obj obj'] by (auto simp: mail_ok_def)
      with k' show ?thesis by force
    qed
    moreover have "expired_posts ?m \<le> expired_posts m"
      by (simp add: expired_posts_def) (metis (no_types, lifting) filter_filter length_filter_le filter_cong)
    ultimately have "mail_ok ?m" using ok by (auto simp: mail_ok_def distinct_map_filter)
    then have "mail_ok (fst (mail_create k ?m))" by (intro mail_create_ok) auto
    with False Some show ?thesis by (simp add: mail_post_def)
  qed
qed

lemma length_erase_expired:
  "length (filter (\<lambda>p. refs (snd p) = 0) (erase_expired refs ps)) = length (filter (\<lambda>p. refs (snd p) = 0) ps) - 1"
  by (induction ps) auto

lemma erase_expired_subset: "set (erase_expired refs ps) \<subseteq> set ps"
  by (induction ps) auto

lemma erase_expired_distinct: "distinct (map g ps) \<Longrightarrow> distinct (map g (erase_expired refs ps))"
proof (induction ps)
  case (Cons p ps)
  then show ?case using erase_expired_subset [of refs ps] by auto
qed simp

lemma erase_expired_alive: "\<lbrakk>p \<in> set ps; refs (snd p) > 0\<rbrakk> \<Longrightarrow> p \<in> set (erase_expired refs ps)"
  by (induction ps) auto

lemma mail_cleanup_ok: "mail_ok m \<Longrightarrow> mail_ok (mail_cleanup m)"
proof -
  assume ok: "mail_ok m"
  have "obj \<in> snd ` set (erase_expired (ml_refs m) (ml_posts m))" if "ml_refs m obj > 0" for obj
  proof -
    have "obj \<in> snd ` set (ml_posts m)" using ok that by (simp add: mail_ok_def)
    then obtain p where "p \<in> set (ml_posts m)" "snd p = obj" by auto
    with that show ?thesis by (auto intro: erase_expired_alive)
  qed
  then show ?thesis using ok erase_expired_subset [of "ml_refs m" "ml_posts m"]
    by (auto simp: mail_ok_def mail_cleanup_def expired_posts_def length_erase_expired erase_expired_distinct)
qed

lemma filter_add_one:
  assumes "distinct (map snd ps)"
  shows "length (filter (\<lambda>p. snd p = obj \<or> P p) ps) \<le> length (filter P ps) + 1"
proof -
  have "length (filter (\<lambda>p. snd p = obj) ps) \<le> 1"
    using assms by (induction ps) (force simp: filter_empty_conv)+
  moreover have "length (filter (\<lambda>p. snd p = obj \<or> P p) ps) \<le> length (filter (\<lambda>p. snd p = obj) ps) + length (filter P ps)"
    by (induction ps) auto
  ultimately show ?thesis by linarith
qed

lemma mail_release_ok: "mail_ok m \<Longrightarrow> mail_ok (mail_release obj m)"
proof -
  assume ok: "mail_ok m"
  consider "ml_refs m obj = 0" | "ml_refs m obj = 1" | "ml_refs m obj > 1" by linarith
  then show ?thesis
  proof cases
    case 2
    have "length (filter (\<lambda>p. snd p = obj \<or> ml_refs m (snd p) = 0) (ml_posts m)) \<le> ml_pending m + 1"
      using filter_add_one [of "ml_posts m" obj "\<lambda>p. ml_refs m (snd p) = 0"] ok by (auto simp: mail_ok_def expired_posts_def)
    moreover have "(\<lambda>p. ((ml_refs m)(obj := 0)) (snd p) = 0) = (\<lambda>p :: 'a \<times> nat. snd p = obj \<or> ml_refs m (snd p) = 0)" by auto
    ultimately show ?thesis using ok 2 by (auto simp: mail_ok_def mail_release_def expired_posts_def)
  next
    case 3
    then have "(\<lambda>p. ((ml_refs m)(obj := ml_refs m obj - 1)) (snd p) = 0) = (\<lambda>p :: 'a \<times> nat. ml_refs m (snd p) = 0)" by auto
    with ok 3 show ?thesis by (auto simp: mail_ok_def mail_release_def expired_posts_def)
  qed (simp add: mail_release_def ok)
qed

interpretation mail: machine_invariant mail_step mail_ok
proof
  show "mail_ok m \<Longrightarrow> mail_ok (fst (mail_step m op))" for m :: "('a::linorder) mail" and op
    using mail_post_ok [of m] by (cases op) (auto simp: mail_release_ok mail_cleanup_ok split: prod.splits, metis fst_conv)
qed

text \<open>
  Mailboxes are shared while anybody holds them and do not pile up. After any sequence of lookups, releases
  and clean-ups: an identifier that leads to a live object leads to it again, so all holders of one identifier
  talk through the same object; a live object is always found; and once every destructor has cleaned up, no
  dead entry is left although each clean-up erases only one.
\<close>

theorem mailbox_shared_and_reclaimed:
  fixes ops :: "('k::linorder) mail_op list"
  defines "m \<equiv> machine_state mail_step mail_new ops"
  shows "(if (k, obj) \<in> set (ml_posts m) \<and> ml_refs m obj > 0 then snd (mail_post k m) = obj
          else obj < ml_next m \<longrightarrow> snd (mail_post k m) \<noteq> obj)
    \<and> (ml_refs m obj > 0 \<longrightarrow> (\<exists>!k. (k, obj) \<in> set (ml_posts m)))
    \<and> (ml_pending m = 0 \<longrightarrow> (\<forall>p\<in>set (ml_posts m). ml_refs m (snd p) > 0))"
proof -
  have "mail_ok (mail_new :: 'k mail)" by (simp add: mail_ok_def mail_new_def expired_posts_def)
  then have ok: "mail_ok m" unfolding m_def by (rule mail.run_inv)
  then have d: "distinct (map fst (ml_posts m))" "distinct (map snd (ml_posts m))"
    and found: "\<And>obj. ml_refs m obj > 0 \<Longrightarrow> obj \<in> snd ` set (ml_posts m)"
    and exp: "expired_posts m \<le> ml_pending m" by (auto simp: mail_ok_def)
  have "snd (mail_post k m) = obj" if "(k, obj) \<in> set (ml_posts m)" "ml_refs m obj > 0"
    using that d(1) by (simp add: mail_post_def)
  moreover have "snd (mail_post k m) \<noteq> obj" if "\<not> ((k, obj) \<in> set (ml_posts m) \<and> ml_refs m obj > 0)" "obj < ml_next m"
    using that by (auto simp: mail_post_def mail_create_def split: option.splits dest: map_of_SomeD)
  moreover have "\<exists>!k. (k, obj) \<in> set (ml_posts m)" if "ml_refs m obj > 0"
    using found [OF that] d(2) by (auto simp: distinct_map dest: inj_onD [of snd _ "(_, obj)" "(_, obj)"])
  moreover have "ml_refs m (snd p) > 0" if "ml_pending m = 0" "p \<in> set (ml_posts m)" for p
    using exp that by (auto simp: expired_posts_def filter_empty_conv)
  ultimately show ?thesis by auto
qed

theorem mailbox_shared_and_reclaimed_witness:
  "let m = machine_state mail_step mail_new [Post (5 :: nat), Post 6, Post 5, Release 1, Cleanup]
   in ml_posts m = [(5, 0)] \<and> snd (mail_post 5 m) = 0"
proof -
  let ?ops = "[Post (5 :: nat), Post 6, Post 5, Release 1, Cleanup]"
  have "ml_posts (machine_state mail_step mail_new ?ops) = [(5, 0)]" "ml_refs (machine_state mail_step mail_new ?ops) 0 > 0"
    by (simp_all add: mail_new_def mail_post_def mail_create_def mail_release_def mail_cleanup_def)
  with mailbox_shared_and_reclaimed [of 5 0 ?ops] show ?thesis
    unfolding Let_def by (simp only: list.set insert_iff simp_thms if_True)
qed

end
