(* ===== verification/Version_Compare.thy ===== *)
theory Version_Compare
  imports Prelude "HOL-Library.Char_ord" "HOL-Library.List_Lexorder" "HOL-Library.Product_Lexorder"
begin

text \<open>
  Versions and updates: the parser and the comparison of \<^verbatim>\<open>src/version_compare.h\<close>, and the choice of a release to
  offer in \<^verbatim>\<open>src/update.cpp\<close>. The comparison is related to a linear order (\<open>rank\<close>) on the tags the project uses, and
  shown not to be transitive beyond them.
\<close>

subsection \<open>Characters and numbers\<close>

definition is_digit :: "char \<Rightarrow> bool" where "is_digit c \<longleftrightarrow> CHR ''0'' \<le> c \<and> c \<le> CHR ''9''"

definition digit_value :: "char \<Rightarrow> int" where "digit_value c = of_char c - 48"

definition is_space :: "char \<Rightarrow> bool" where
  "is_space c \<longleftrightarrow> c = CHR '' '' \<or> (CHR 0x09 \<le> c \<and> c \<le> CHR 0x0D)"

definition to_lower :: "char \<Rightarrow> char" where
  "to_lower c = (if CHR ''A'' \<le> c \<and> c \<le> CHR ''Z'' then char_of (of_char c + 32 :: nat) else c)"

definition ascii_lower :: "string \<Rightarrow> string" where "ascii_lower = map to_lower"

definition decimal :: "string \<Rightarrow> int" where "decimal ds = foldl (\<lambda>n c. 10 * n + digit_value c) 0 ds"

text \<open>\<open>std::stoi\<close>: blanks, a sign, digits, whatever; an exception without digits or outside the range of \<open>int\<close>.\<close>

definition stoi :: "string \<Rightarrow> int option" where
  "stoi text =
     (let s = dropWhile is_space text;
          negative = (s \<noteq> [] \<and> hd s = CHR ''-'');
          body = (if s \<noteq> [] \<and> (hd s = CHR ''-'' \<or> hd s = CHR ''+'') then tl s else s);
          digits = takeWhile is_digit body;
          v = (if negative then - decimal digits else decimal digits)
      in if digits = [] \<or> v < - (2 ^ 31) \<or> v \<ge> 2 ^ 31 then None else Some v)"

text \<open>The pieces that \<open>std::getline\<close> yields; nothing follows a final separator.\<close>

function getline_all :: "char \<Rightarrow> string \<Rightarrow> string list" where
  "getline_all d [] = []"
| "getline_all d (c # cs) = takeWhile (\<lambda>x. x \<noteq> d) (c # cs) # getline_all d (tl (dropWhile (\<lambda>x. x \<noteq> d) (c # cs)))"
  by pat_completeness auto

termination
proof (relation "measure (length \<circ> snd)")
  fix d c :: char and cs
  have "length (dropWhile (\<lambda>x. x \<noteq> d) (c # cs)) \<le> length (c # cs)" by (rule length_dropWhile_le)
  then show "((d, tl (dropWhile (\<lambda>x. x \<noteq> d) (c # cs))), d, c # cs) \<in> measure (length \<circ> snd)"
    by (cases "dropWhile (\<lambda>x. x \<noteq> d) (c # cs)") auto
qed simp

subsection \<open>Parsing\<close>

datatype prerelease_identifier = Number int | Text string

record semver =
  sv_major :: int
  sv_minor :: int
  sv_patch :: int
  sv_prerelease :: "prerelease_identifier list"

definition semver_zero :: semver where
  "semver_zero = \<lparr>sv_major = 0, sv_minor = 0, sv_patch = 0, sv_prerelease = []\<rparr>"

definition is_numeric_identifier :: "string \<Rightarrow> bool" where
  "is_numeric_identifier identifier \<longleftrightarrow> identifier \<noteq> [] \<and> list_all is_digit identifier"

definition parse_identifier :: "string \<Rightarrow> prerelease_identifier" where
  "parse_identifier identifier =
     (if is_numeric_identifier identifier
      then case stoi identifier of Some n \<Rightarrow> Number n | None \<Rightarrow> Text identifier
      else Text identifier)"

text \<open>The text up to a separator, and the rest when there is one (\<open>find\<close> and \<open>substr\<close>).\<close>

definition cut :: "char \<Rightarrow> string \<Rightarrow> string \<times> string option" where
  "cut d s = (takeWhile (\<lambda>x. x \<noteq> d) s, if d \<in> set s then Some (tl (dropWhile (\<lambda>x. x \<noteq> d) s)) else None)"

definition parse_prerelease :: "string \<Rightarrow> prerelease_identifier list" where
  "parse_prerelease s = map parse_identifier (filter (\<lambda>i. i \<noteq> []) (getline_all (CHR ''.'') s))"

text \<open>The numbers of the core; one that is missing stays zero, one that does not parse throws.\<close>

fun parse_core :: "string list \<Rightarrow> (int \<times> int \<times> int) option" where
  "parse_core [] = Some (0, 0, 0)"
| "parse_core [a] = (case stoi a of None \<Rightarrow> None | Some x \<Rightarrow> Some (x, 0, 0))"
| "parse_core [a, b] = (case (stoi a, stoi b) of (Some x, Some y) \<Rightarrow> Some (x, y, 0) | _ \<Rightarrow> None)"
| "parse_core (a # b # c # _) =
     (case (stoi a, stoi b, stoi c) of (Some x, Some y, Some z) \<Rightarrow> Some (x, y, z) | _ \<Rightarrow> None)"

definition parse_semver :: "string \<Rightarrow> semver" where
  "parse_semver version =
     (if version = [] then semver_zero
      else
        let unprefixed = (if hd version = CHR ''v'' \<or> hd version = CHR ''V'' then tl version else version);
            text = fst (cut (CHR ''+'') unprefixed);
            (core, suffix) = cut (CHR ''-'') text;
            prerelease = (case suffix of None \<Rightarrow> [] | Some s \<Rightarrow> parse_prerelease s)
        in case parse_core (getline_all (CHR ''.'') core) of
             None \<Rightarrow> semver_zero
           | Some (x, y, z) \<Rightarrow> \<lparr>sv_major = x, sv_minor = y, sv_patch = z, sv_prerelease = prerelease\<rparr>)"

subsection \<open>Comparing\<close>

definition is_stable_channel :: "semver \<Rightarrow> bool" where
  "is_stable_channel v \<longleftrightarrow>
     (case sv_prerelease v of Text t # _ \<Rightarrow> ascii_lower t = ''stable'' | _ \<Rightarrow> False)"

definition split_numeric_prefix :: "string \<Rightarrow> int \<times> string" where
  "split_numeric_prefix identifier =
     (let digits = takeWhile is_digit identifier
      in if digits = [] \<or> length digits > 18 then (-1, identifier)
         else (decimal digits, drop (length digits) identifier))"

definition three_way :: "'a::linorder \<Rightarrow> 'a \<Rightarrow> int" where
  "three_way x y = (if x < y then -1 else if y < x then 1 else 0)"

text \<open>One position of the loop: the value returned there, or 0 to go on.\<close>

fun compare_identifier :: "prerelease_identifier \<Rightarrow> prerelease_identifier \<Rightarrow> int" where
  "compare_identifier (Number l) (Number r) = (if l \<noteq> r then if l < r then -1 else 1 else 0)"
| "compare_identifier (Number l) (Text r) =
     (case split_numeric_prefix r of (prefix, _) \<Rightarrow>
        if prefix < 0 then -1 else if l \<noteq> prefix then if l < prefix then -1 else 1 else -1)"
| "compare_identifier (Text l) (Number r) =
     (case split_numeric_prefix l of (prefix, _) \<Rightarrow>
        if prefix < 0 then 1 else if r \<noteq> prefix then if prefix < r then -1 else 1 else 1)"
| "compare_identifier (Text l) (Text r) =
     (if l \<noteq> r then
        (case (split_numeric_prefix l, split_numeric_prefix r) of ((lp, ls), (rp, rs)) \<Rightarrow>
           if lp \<ge> 0 \<and> rp \<ge> 0 then
             if lp \<noteq> rp then if lp < rp then -1 else 1
             else if ls \<noteq> rs then if ls < rs then -1 else 1
             else 0
           else if l < r then -1 else 1)
      else 0)"

fun compare_identifier_lists :: "prerelease_identifier list \<Rightarrow> prerelease_identifier list \<Rightarrow> int" where
  "compare_identifier_lists [] [] = 0"
| "compare_identifier_lists [] (_ # _) = -1"
| "compare_identifier_lists (_ # _) [] = 1"
| "compare_identifier_lists (l # ls) (r # rs) =
     (let c = compare_identifier l r in if c \<noteq> 0 then c else compare_identifier_lists ls rs)"

definition compare_parsed :: "semver \<Rightarrow> semver \<Rightarrow> int" where
  "compare_parsed left right =
     (if sv_major left \<noteq> sv_major right then if sv_major left < sv_major right then -1 else 1
      else if sv_minor left \<noteq> sv_minor right then if sv_minor left < sv_minor right then -1 else 1
      else if sv_patch left \<noteq> sv_patch right then if sv_patch left < sv_patch right then -1 else 1
      else
        let left_stable = is_stable_channel left; right_stable = is_stable_channel right
        in if left_stable \<and> right_stable
           then compare_identifier_lists (drop 1 (sv_prerelease left)) (drop 1 (sv_prerelease right))
           else if left_stable \<noteq> right_stable then if left_stable then 1 else -1
           else if sv_prerelease left = [] \<and> sv_prerelease right = [] then 0
           else if sv_prerelease left = [] then 1
           else if sv_prerelease right = [] then -1
           else compare_identifier_lists (sv_prerelease left) (sv_prerelease right))"

definition compare_semver :: "string \<Rightarrow> string \<Rightarrow> int" where
  "compare_semver lhs rhs = compare_parsed (parse_semver lhs) (parse_semver rhs)"

subsection \<open>Choosing a release\<close>

text \<open>An asset as the release list has it, with its digest, and as it is kept, with the hash of a SHA-256 digest.\<close>

record asset_info =
  as_name :: string
  as_download_url :: string
  as_sha256 :: string
  as_size :: int
  as_content_type :: string

record asset_json =
  aj_name :: string
  aj_download_url :: string
  aj_size :: int
  aj_content_type :: string
  aj_digest :: string

record release =
  rel_tag :: string
  rel_prerelease :: bool
  rel_draft :: bool
  rel_url :: string
  rel_name :: string
  rel_body :: string
  rel_published_at :: string
  rel_assets :: "asset_info list"

definition read_asset :: "asset_json \<Rightarrow> asset_info" where
  "read_asset a = \<lparr>as_name = aj_name a, as_download_url = aj_download_url a,
     as_sha256 = (if take 7 (aj_digest a) = ''sha256:'' then drop 7 (aj_digest a) else []), as_size = aj_size a,
     as_content_type = aj_content_type a\<rparr>"

definition read_assets :: "asset_json list \<Rightarrow> asset_info list" where
  "read_assets as = filter (\<lambda>a. as_name a \<noteq> [] \<and> as_download_url a \<noteq> []) (map read_asset as)"

definition no_release :: release where
  "no_release = \<lparr>rel_tag = [], rel_prerelease = False, rel_draft = False, rel_url = [], rel_name = [], rel_body = [],
     rel_published_at = [], rel_assets = []\<rparr>"

definition better :: "release \<Rightarrow> release \<Rightarrow> bool" where
  "better best rel \<longleftrightarrow> rel_tag best = [] \<or> compare_semver (rel_tag best) (rel_tag rel) < 0"

text \<open>One round of the loop over the release list; the state is the best stable and the best prerelease.\<close>

definition consider_release :: "bool \<Rightarrow> release \<times> release \<Rightarrow> release \<Rightarrow> release \<times> release" where
  "consider_release allow_prerelease_updates best rel =
     (case best of (best_stable, best_pre) \<Rightarrow>
        if rel_draft rel then (best_stable, best_pre)
        else if \<not> rel_prerelease rel then (if better best_stable rel then rel else best_stable, best_pre)
        else if allow_prerelease_updates then (best_stable, if better best_pre rel then rel else best_pre)
        else (best_stable, best_pre))"

definition select_releases :: "bool \<Rightarrow> release list \<Rightarrow> release \<times> release" where
  "select_releases allow_prerelease_updates rels = foldl (consider_release allow_prerelease_updates) (no_release, no_release) rels"

datatype offer = UpToDate | OfferStable release | OfferPrerelease release

definition decide_offer :: "bool \<Rightarrow> string \<Rightarrow> release \<times> release \<Rightarrow> offer" where
  "decide_offer allow_prerelease_updates installed best =
     (case best of (best_stable, best_pre) \<Rightarrow>
        let stable_available = (rel_tag best_stable \<noteq> [] \<and> compare_semver installed (rel_tag best_stable) < 0);
            prerelease_available =
              (allow_prerelease_updates \<and> rel_tag best_pre \<noteq> [] \<and> compare_semver installed (rel_tag best_pre) < 0
               \<and> (if rel_tag best_stable \<noteq> [] then compare_semver (rel_tag best_stable) (rel_tag best_pre) < 0 else True))
        in if prerelease_available then OfferPrerelease best_pre else if stable_available then OfferStable best_stable else UpToDate)"

text \<open>A whole check. The release list may be missing, or not parse, which ends the check by an exception; a
  missing list leaves the releases known before. The releases come with their assets read.\<close>

record update_state =
  us_last_notified_version :: string
  us_last_notified_url :: string
  us_last_notified_is_prerelease :: bool
  us_latest_release :: release
  us_latest_prerelease :: release
  us_last_check_time :: time_point
  us_check_in_progress :: bool

datatype download = NoList | Malformed | ReleaseList "release list"

definition notify_new_version :: "string \<Rightarrow> bool \<Rightarrow> update_state \<Rightarrow> update_state" where
  "notify_new_version version prerelease u =
     (if version = [] then u
      else u\<lparr>us_last_notified_version := version, us_last_notified_is_prerelease := prerelease,
             us_last_notified_url := rel_url (if prerelease then us_latest_prerelease u else us_latest_release u)\<rparr>)"

definition perform_check :: "bool \<Rightarrow> string \<Rightarrow> time_point \<Rightarrow> download \<Rightarrow> update_state \<Rightarrow> update_state" where
  "perform_check allow_prerelease_updates installed now d u =
     (if d = Malformed then u\<lparr>us_check_in_progress := False\<rparr>
      else
        let u = (case d of
              ReleaseList rels \<Rightarrow> (case select_releases allow_prerelease_updates rels of
                (best_stable, best_pre) \<Rightarrow> u\<lparr>us_latest_release := best_stable, us_latest_prerelease := best_pre\<rparr>)
            | _ \<Rightarrow> u);
            u = u\<lparr>us_last_check_time := now\<rparr>;
            u = (case decide_offer allow_prerelease_updates installed (us_latest_release u, us_latest_prerelease u) of
              OfferPrerelease r \<Rightarrow> notify_new_version (rel_tag r) True u
            | OfferStable r \<Rightarrow> notify_new_version (rel_tag r) False u
            | UpToDate \<Rightarrow> u)
        in u\<lparr>us_check_in_progress := False\<rparr>)"

text \<open>Whether a trigger starts a check; the interval is in seconds, times are in nanoseconds. The mark that a check
  runs is set by the check itself, once its thread runs.\<close>

definition trigger_check :: "bool \<Rightarrow> nat \<Rightarrow> time_point \<Rightarrow> update_state \<Rightarrow> bool" where
  "trigger_check force interval now u \<longleftrightarrow>
     \<not> us_check_in_progress u \<and> (force \<or> interval \<noteq> 0 \<and> (now - us_last_check_time u) div 1000000000 \<ge> int interval)"

definition begin_check :: "update_state \<Rightarrow> update_state" where "begin_check u = u\<lparr>us_check_in_progress := True\<rparr>"

definition periodic :: "nat \<Rightarrow> nat \<Rightarrow> time_point \<Rightarrow> update_state \<Rightarrow> bool" where
  "periodic session_count interval now u \<longleftrightarrow> session_count = 0 \<and> trigger_check False interval now u"

subsection \<open>The order behind the comparison\<close>

text \<open>Identifiers the comparison ranks consistently: a number, a text with up to eighteen leading digits, or one
  that starts with a character above the digits.\<close>

definition identifier_ok :: "prerelease_identifier \<Rightarrow> bool" where
  "identifier_ok i \<longleftrightarrow>
     (case i of Number _ \<Rightarrow> True
      | Text t \<Rightarrow> t \<noteq> [] \<and> (if is_digit (hd t) then fst (split_numeric_prefix t) \<ge> 0 else hd t > CHR ''9''))"

definition version_ok :: "string \<Rightarrow> bool" where
  "version_ok v \<longleftrightarrow> list_all identifier_ok (sv_prerelease (parse_semver v))"

definition identifier_rank :: "prerelease_identifier \<Rightarrow> bool \<times> int \<times> bool \<times> string" where
  "identifier_rank i =
     (case i of
        Number n \<Rightarrow> (False, n, False, [])
      | Text t \<Rightarrow> (case split_numeric_prefix t of (prefix, suffix) \<Rightarrow>
          if prefix \<ge> 0 then (False, prefix, True, suffix) else (True, 0, False, t)))"

definition parsed_rank :: "semver \<Rightarrow> int \<times> int \<times> int \<times> nat \<times> (bool \<times> int \<times> bool \<times> string) list" where
  "parsed_rank v = (sv_major v, sv_minor v, sv_patch v,
     if is_stable_channel v then (2, map identifier_rank (drop 1 (sv_prerelease v)))
     else if sv_prerelease v = [] then (1, [])
     else (0, map identifier_rank (sv_prerelease v)))"

definition rank :: "string \<Rightarrow> int \<times> int \<times> int \<times> nat \<times> (bool \<times> int \<times> bool \<times> string) list" where
  "rank v = parsed_rank (parse_semver v)"

lemma three_way_simps [simp]:
  "three_way x y < 0 \<longleftrightarrow> x < y" "three_way x x = 0" "three_way x y = 0 \<longleftrightarrow> x = y"
  by (auto simp: three_way_def)

lemma text_prefix:
  assumes "identifier_ok (Text t)"
  shows "fst (split_numeric_prefix t) \<ge> 0 \<longleftrightarrow> is_digit (hd t)"
  using assms by (cases t) (auto simp: identifier_ok_def split_numeric_prefix_def Let_def)

lemma digits_before_letters:
  assumes "identifier_ok (Text l)" "identifier_ok (Text r)" "is_digit (hd l)" "\<not> is_digit (hd r)"
  shows "l < r"
proof -
  from assms obtain a as b bs where "l = a # as" "r = b # bs" "a \<le> CHR ''9''" "b > CHR ''9''"
    by (cases l; cases r) (auto simp: identifier_ok_def is_digit_def)
  then show ?thesis by auto
qed

lemma compare_identifier_rank:
  assumes "identifier_ok l" "identifier_ok r"
  shows "compare_identifier l r = three_way (identifier_rank l) (identifier_rank r)"
proof (cases l)
  case (Number n)
  then show ?thesis by (cases r) (auto simp: identifier_rank_def three_way_def split: prod.splits)
next
  case l: (Text s)
  show ?thesis
  proof (cases r)
    case (Number n)
    with l show ?thesis by (auto simp: identifier_rank_def three_way_def split: prod.splits)
  next
    case r: (Text t)
    obtain lp ls rp rs where s: "split_numeric_prefix s = (lp, ls)" "split_numeric_prefix t = (rp, rs)"
      by (metis surj_pair)
    have "lp \<ge> 0 \<longleftrightarrow> is_digit (hd s)" "rp \<ge> 0 \<longleftrightarrow> is_digit (hd t)"
      using text_prefix assms s by (metis fst_conv l r)+
    moreover have "s = t \<Longrightarrow> lp = rp \<and> ls = rs" using s by simp
    ultimately show ?thesis using digits_before_letters [of s t] digits_before_letters [of t s] assms
      by (cases "lp \<ge> 0"; cases "rp \<ge> 0") (auto simp: l r s identifier_rank_def three_way_def)
  qed
qed

lemma compare_lists_rank:
  assumes "list_all identifier_ok ls" "list_all identifier_ok rs"
  shows "compare_identifier_lists ls rs = three_way (map identifier_rank ls) (map identifier_rank rs)"
  using assms
  by (induction ls rs rule: compare_identifier_lists.induct)
    (auto simp: compare_identifier_rank three_way_def Let_def)

lemma compare_parsed_rank:
  assumes "list_all identifier_ok (sv_prerelease l)" "list_all identifier_ok (sv_prerelease r)"
  shows "compare_parsed l r = three_way (parsed_rank l) (parsed_rank r)"
proof -
  have "list_all identifier_ok (drop 1 (sv_prerelease l))" "list_all identifier_ok (drop 1 (sv_prerelease r))"
    using assms by (auto simp: list_all_iff dest: in_set_dropD)
  then show ?thesis using assms
    by (auto simp: compare_parsed_def parsed_rank_def compare_lists_rank three_way_def Let_def)
qed

text \<open>
  C36. On versions whose prerelease identifiers are numbers, texts with up to eighteen leading digits, or texts that
  start above the digits, the comparison of two versions is the comparison of their ranks in a linear order: by
  major, minor and patch; then prereleases below the release below its stable respins; then identifier by
  identifier, a number below its own hotfixes and these below the next number. In particular it is total,
  antisymmetric and transitive there.
\<close>

theorem compare_semver_is_ranking:
  assumes "version_ok a" "version_ok b"
  shows "compare_semver a b = (if rank a < rank b then -1 else if rank a = rank b then 0 else 1)"
  using assms compare_parsed_rank [of "parse_semver a" "parse_semver b"]
  by (auto simp: compare_semver_def version_ok_def rank_def three_way_def)

theorem compare_semver_is_ranking_witness:
  "compare_semver ''v1.2.0-beta.1shfx01'' ''v1.2.0-beta.2'' = -1"
proof -
  have ok: "version_ok ''v1.2.0-beta.1shfx01''" "version_ok ''v1.2.0-beta.2''" by code_simp+
  have "rank ''v1.2.0-beta.1shfx01'' < rank ''v1.2.0-beta.2''" by code_simp
  then show ?thesis using compare_semver_is_ranking [OF ok] by simp
qed

text \<open>Beyond those identifiers the comparison goes round in a circle.\<close>

lemma compare_semver_not_transitive:
  "compare_semver ''1.0.0--a'' ''1.0.0-3x'' < 0" "compare_semver ''1.0.0-3x'' ''1.0.0-5'' < 0"
  "compare_semver ''1.0.0-5'' ''1.0.0--a'' < 0"
  by code_simp+

subsection \<open>What is offered\<close>

definition considered :: "bool \<Rightarrow> release \<Rightarrow> bool" where
  "considered allow rel \<longleftrightarrow> \<not> rel_draft rel \<and> (rel_prerelease rel \<longrightarrow> allow)"

text \<open>The best of a kind so far: none while there was none, otherwise one of them and above all others.\<close>

definition best_of :: "release list \<Rightarrow> release \<Rightarrow> bool" where
  "best_of rels best \<longleftrightarrow>
     (if rels = [] then rel_tag best = []
      else rel_tag best \<noteq> [] \<and> best \<in> set rels \<and> (\<forall>r\<in>set rels. rank (rel_tag r) \<le> rank (rel_tag best)))"

definition tag_ok :: "release \<Rightarrow> bool" where "tag_ok r \<longleftrightarrow> rel_tag r \<noteq> [] \<and> version_ok (rel_tag r)"

lemma compare_less: "\<lbrakk>version_ok a; version_ok b\<rbrakk> \<Longrightarrow> compare_semver a b < 0 \<longleftrightarrow> rank a < rank b"
  using compare_parsed_rank [of "parse_semver a" "parse_semver b"]
  by (simp add: compare_semver_def version_ok_def rank_def)

lemma best_of_step:
  assumes "best_of rels best" "list_all tag_ok (rels @ [r])"
  shows "best_of (rels @ [r]) (if better best r then r else best)"
proof (cases "rels = []")
  case True
  with assms show ?thesis by (auto simp: best_of_def better_def tag_ok_def)
next
  case False
  then have "version_ok (rel_tag best)" using assms by (auto simp: best_of_def list_all_iff tag_ok_def)
  with False assms show ?thesis
    by (auto simp: best_of_def better_def tag_ok_def list_all_iff compare_less not_less split: if_splits)
qed

lemma select_releases_best:
  assumes "list_all tag_ok rels"
  shows "best_of (filter (\<lambda>r. \<not> rel_draft r \<and> \<not> rel_prerelease r) rels) (fst (select_releases allow rels))
    \<and> best_of (filter (\<lambda>r. \<not> rel_draft r \<and> rel_prerelease r \<and> allow) rels) (snd (select_releases allow rels))"
  using assms
proof (induction rels rule: rev_induct)
  case (snoc r rels)
  obtain s p where sp: "select_releases allow rels = (s, p)" by (metis surj_pair)
  have IH: "best_of (filter (\<lambda>r. \<not> rel_draft r \<and> \<not> rel_prerelease r) rels) s"
    "best_of (filter (\<lambda>r. \<not> rel_draft r \<and> rel_prerelease r \<and> allow) rels) p"
    using snoc by (simp_all add: sp)
  have ok: "list_all tag_ok (filter P rels @ [r])" for P using snoc.prems by (auto simp: list_all_iff)
  have step: "select_releases allow (rels @ [r]) = consider_release allow (s, p) r"
    using sp by (simp add: select_releases_def)
  show ?case using IH best_of_step [OF IH(1) ok] best_of_step [OF IH(2) ok]
    unfolding step by (auto simp: consider_release_def)
qed (simp add: select_releases_def best_of_def no_release_def)

text \<open>
  C37. The update check offers the newest release, where versions have a rank. Let every tag of the list be nonempty
  and, like the installed version, have ordinary prerelease identifiers. Whatever order the releases come in, if
  something is offered it is one of the releases considered (no drafts, prereleases only when allowed), ranks above
  the installed version, and no considered release ranks above it; if nothing is offered, none ranks above the
  installed version. Without the assumption the comparison has a cycle, and the offer depends on the order.
\<close>

theorem update_offers_newest:
  assumes "list_all tag_ok rels" "version_ok installed"
  shows "case decide_offer allow installed (select_releases allow rels) of
      UpToDate \<Rightarrow> list_all (\<lambda>r. considered allow r \<longrightarrow> rank (rel_tag r) \<le> rank installed) rels
    | OfferStable best \<Rightarrow> best \<in> set rels \<and> considered allow best \<and> \<not> rel_prerelease best \<and> rank installed < rank (rel_tag best)
        \<and> list_all (\<lambda>r. considered allow r \<longrightarrow> rank (rel_tag r) \<le> rank (rel_tag best)) rels
    | OfferPrerelease best \<Rightarrow> best \<in> set rels \<and> considered allow best \<and> rel_prerelease best \<and> rank installed < rank (rel_tag best)
        \<and> list_all (\<lambda>r. considered allow r \<longrightarrow> rank (rel_tag r) \<le> rank (rel_tag best)) rels"
proof -
  obtain s p where sp: "select_releases allow rels = (s, p)" by (metis surj_pair)
  let ?S = "filter (\<lambda>r. \<not> rel_draft r \<and> \<not> rel_prerelease r) rels"
  let ?P = "filter (\<lambda>r. \<not> rel_draft r \<and> rel_prerelease r \<and> allow) rels"
  have best: "best_of ?S s" "best_of ?P p" using select_releases_best [OF assms(1), of allow] by (simp_all add: sp)
  have s: "rel_tag s \<noteq> [] \<longleftrightarrow> ?S \<noteq> []" "?S \<noteq> [] \<Longrightarrow> s \<in> set ?S \<and> version_ok (rel_tag s)"
    using best(1) assms(1) by (auto simp: best_of_def list_all_iff tag_ok_def split: if_splits)
  have p: "rel_tag p \<noteq> [] \<longleftrightarrow> ?P \<noteq> []" "?P \<noteq> [] \<Longrightarrow> p \<in> set ?P \<and> version_ok (rel_tag p)"
    using best(2) assms(1) by (auto simp: best_of_def list_all_iff tag_ok_def split: if_splits)
  have cover: "(?S \<noteq> [] \<and> rank (rel_tag r) \<le> rank (rel_tag s)) \<or> (?P \<noteq> [] \<and> rank (rel_tag r) \<le> rank (rel_tag p))"
    if "r \<in> set rels" "considered allow r" for r
  proof -
    have "r \<in> set ?S \<or> r \<in> set ?P" using that by (auto simp: considered_def)
    then show ?thesis using best unfolding best_of_def by (metis (no_types, lifting) empty_iff list.set(1))
  qed
  have less: "compare_semver installed (rel_tag s) < 0 \<longleftrightarrow> rank installed < rank (rel_tag s)" if "?S \<noteq> []"
    using s(2) [OF that] compare_less assms(2) by blast
  have less': "compare_semver installed (rel_tag p) < 0 \<longleftrightarrow> rank installed < rank (rel_tag p)" if "?P \<noteq> []"
    using p(2) [OF that] compare_less assms(2) by blast
  have less'': "compare_semver (rel_tag s) (rel_tag p) < 0 \<longleftrightarrow> rank (rel_tag s) < rank (rel_tag p)" if "?S \<noteq> []" "?P \<noteq> []"
    using s(2) [OF that(1)] p(2) [OF that(2)] compare_less by blast
  have allow: "allow" if "?P \<noteq> []" using p(2) [OF that] by simp
  define pa where "pa \<longleftrightarrow> ?P \<noteq> [] \<and> rank installed < rank (rel_tag p) \<and> (?S \<noteq> [] \<longrightarrow> rank (rel_tag s) < rank (rel_tag p))"
  define sa where "sa \<longleftrightarrow> ?S \<noteq> [] \<and> rank installed < rank (rel_tag s)"
  have decide: "decide_offer allow installed (s, p) = (if pa then OfferPrerelease p else if sa then OfferStable s else UpToDate)"
    unfolding decide_offer_def Let_def prod.case s(1) p(1) pa_def sa_def using less less' less'' allow by auto
  consider "pa" | "\<not> pa" "sa" | "\<not> pa" "\<not> sa" by blast
  then show ?thesis
  proof cases
    case 1
    then have "p \<in> set ?P" using p(2) by (auto simp: pa_def)
    moreover have "rank (rel_tag r) \<le> rank (rel_tag p)" if "r \<in> set rels" "considered allow r" for r
      using cover [OF that] 1 unfolding pa_def by auto
    ultimately show ?thesis unfolding sp decide using 1 by (auto simp: list_all_iff considered_def pa_def)
  next
    case 2
    then have "s \<in> set ?S" using s(2) by (auto simp: sa_def)
    moreover have "rank (rel_tag r) \<le> rank (rel_tag s)" if "r \<in> set rels" "considered allow r" for r
      using cover [OF that] 2 unfolding pa_def sa_def by force
    ultimately show ?thesis unfolding sp decide using 2 by (auto simp: list_all_iff considered_def sa_def)
  next
    case 3
    have "rank (rel_tag r) \<le> rank installed" if "r \<in> set rels" "considered allow r" for r
      using cover [OF that] 3 unfolding pa_def sa_def by force
    then show ?thesis unfolding sp decide using 3 by (auto simp: list_all_iff)
  qed
qed

definition demo_release :: "string \<Rightarrow> bool \<Rightarrow> release" where
  "demo_release tag pre = \<lparr>rel_tag = tag, rel_prerelease = pre, rel_draft = False, rel_url = tag, rel_name = tag, rel_body = [],
     rel_published_at = [], rel_assets = []\<rparr>"

theorem update_offers_newest_witness:
  "let rels = [demo_release ''v1.3.0-beta.1'' True, demo_release ''v1.2.0'' False, demo_release ''v1.2.0-stable.1'' False]
   in decide_offer False ''1.2.0'' (select_releases False rels) = OfferStable (demo_release ''v1.2.0-stable.1'' False)
      \<and> rank ''1.2.0'' < rank ''v1.2.0-stable.1''"
proof -
  let ?rels = "[demo_release ''v1.3.0-beta.1'' True, demo_release ''v1.2.0'' False, demo_release ''v1.2.0-stable.1'' False]"
  have ok: "list_all tag_ok ?rels" "version_ok ''1.2.0''" by code_simp+
  have "decide_offer False ''1.2.0'' (select_releases False ?rels) = OfferStable (demo_release ''v1.2.0-stable.1'' False)" by code_simp
  with update_offers_newest [OF ok, of False] show ?thesis by (simp add: demo_release_def)
qed

text \<open>What the user is told after a check is what was decided, with the page of that very release; a check with
  nothing to offer, or without a readable list, leaves the last notification.\<close>

lemma notification_matches_offer:
  assumes "select_releases allow rels = best"
  shows "case decide_offer allow installed best of
      UpToDate \<Rightarrow> us_last_notified_url (perform_check allow installed now (ReleaseList rels) u) = us_last_notified_url u
    | OfferStable r \<Rightarrow> us_last_notified_url (perform_check allow installed now (ReleaseList rels) u) = rel_url r
        \<and> us_last_notified_version (perform_check allow installed now (ReleaseList rels) u) = rel_tag r
    | OfferPrerelease r \<Rightarrow> us_last_notified_url (perform_check allow installed now (ReleaseList rels) u) = rel_url r
        \<and> us_last_notified_version (perform_check allow installed now (ReleaseList rels) u) = rel_tag r"
proof (cases best)
  case (Pair s p)
  with assms show ?thesis
    by (auto simp: perform_check_def decide_offer_def notify_new_version_def Let_def)
qed

text \<open>Between two checks that a timer starts lies at least the interval, measured from the end of the first.\<close>

lemma periodic_spaced:
  assumes "periodic n interval later u'" "us_last_check_time u' = now"
  shows "int interval * 1000000000 \<le> later - now"
proof -
  have "int interval \<le> (later - now) div 1000000000" using assms by (simp add: periodic_def trigger_check_def)
  then have "int interval * 1000000000 \<le> (later - now) div 1000000000 * 1000000000" by simp
  also have "\<dots> \<le> later - now" using pos_mod_sign [of 1000000000 "later - now"] by (simp add: minus_mod_eq_div_mult [symmetric])
  finally show ?thesis .
qed

end
