(* ===== verification/Http_Auth.thy ===== *)
theory Http_Auth
  imports Prelude "HOL-Library.Sublist"
begin

text \<open>
  Access to the web interface (\<^verbatim>\<open>src/http_auth.cpp\<close>, \<^verbatim>\<open>src/confighttp.cpp\<close>): session and refresh tokens with their
  lifetimes, roles, rotation, revocation and persistence; API tokens with their scopes; and the decision which
  request may pass. The hash, the random tokens, regular expressions, Base64 and the password check are
  parameters or inputs; a scope's pattern is taken to compile. Times are in nanoseconds of the system clock, lifetimes in seconds. A hash table is the
  list of its entries, in any order.
\<close>

subsection \<open>Tables\<close>

definition al_erase :: "string \<Rightarrow> (string \<times> 'v) list \<Rightarrow> (string \<times> 'v) list" where
  "al_erase k xs = filter (\<lambda>p. fst p \<noteq> k) xs"

definition al_emplace :: "string \<Rightarrow> 'v \<Rightarrow> (string \<times> 'v) list \<Rightarrow> (string \<times> 'v) list" where
  "al_emplace k v xs = (if k \<in> fst ` set xs then xs else xs @ [(k, v)])"

definition al_put :: "string \<Rightarrow> 'v \<Rightarrow> (string \<times> 'v) list \<Rightarrow> (string \<times> 'v) list" where
  "al_put k v xs = al_erase k xs @ [(k, v)]"

lemma map_of_al_erase [simp]: "map_of (al_erase k xs) = (map_of xs)(k := None)"
  by (induction xs) (auto simp: al_erase_def fun_eq_iff)

lemma map_of_al_put [simp]: "map_of (al_put k v xs) = (map_of xs)(k \<mapsto> v)"
  by (rule ext) (simp add: al_put_def map_add_def split: option.splits)

lemma map_of_emplace [simp]:
  "map_of (al_emplace k v xs) = (if k \<in> fst ` set xs then map_of xs else (map_of xs)(k \<mapsto> v))"
  by (induction xs) (auto simp: al_emplace_def fun_eq_iff split: if_splits)

lemma distinct_erase [simp]: "distinct (map fst xs) \<Longrightarrow> distinct (map fst (al_erase k xs))"
  by (simp add: al_erase_def distinct_map_filter)

lemma distinct_put [simp]: "distinct (map fst xs) \<Longrightarrow> distinct (map fst (al_put k v xs))"
  by (auto simp: al_put_def distinct_map_filter al_erase_def)

lemma distinct_emplace [simp]: "distinct (map fst xs) \<Longrightarrow> distinct (map fst (al_emplace k v xs))"
  by (simp add: al_emplace_def)

subsection \<open>Device labels\<close>

definition lower_char :: "char \<Rightarrow> char" where
  "lower_char c = (if 65 \<le> (of_char c :: nat) \<and> (of_char c :: nat) \<le> 90 then char_of (of_char c + 32 :: nat) else c)"

definition to_lower :: "string \<Rightarrow> string" where "to_lower = map lower_char"

definition icontains :: "string \<Rightarrow> string \<Rightarrow> bool" where
  "icontains text needle \<longleftrightarrow> sublist (to_lower needle) (to_lower text)"

definition iequals :: "string \<Rightarrow> string \<Rightarrow> bool" where "iequals a b \<longleftrightarrow> to_lower a = to_lower b"

definition detect_os :: "string \<Rightarrow> string" where
  "detect_os ua =
     (if icontains ua ''windows nt 10'' then ''Windows 10/11''
      else if icontains ua ''windows nt 6.3'' then ''Windows 8.1''
      else if icontains ua ''windows nt 6.2'' then ''Windows 8''
      else if icontains ua ''windows nt 6.1'' then ''Windows 7''
      else if icontains ua ''mac os x'' then ''macOS''
      else if icontains ua ''iphone'' \<or> icontains ua ''ipad'' then ''iOS''
      else if icontains ua ''android'' then ''Android''
      else if icontains ua ''linux'' then ''Linux''
      else [])"

definition detect_browser :: "string \<Rightarrow> string" where
  "detect_browser ua =
     (if icontains ua ''edg/'' then ''Microsoft Edge''
      else if icontains ua ''opr/'' then ''Opera''
      else if icontains ua ''chrome/'' \<and> \<not> icontains ua ''edg/'' \<and> \<not> icontains ua ''opr/'' then ''Google Chrome''
      else if icontains ua ''firefox'' then ''Mozilla Firefox''
      else if icontains ua ''safari'' \<and> \<not> icontains ua ''chrome'' then ''Safari''
      else if icontains ua ''brave'' then ''Brave''
      else [])"

definition truncate_label :: "string \<Rightarrow> string" where
  "truncate_label value = (if length value \<le> 80 then value else take 79 value @ [CHR 0xE2, CHR 0x80, CHR 0xA6])"

definition derive_device_label :: "string \<Rightarrow> string \<Rightarrow> string" where
  "derive_device_label user_agent remote_address =
     (if user_agent = [] then if remote_address \<noteq> [] then remote_address else ''Unknown device''
      else
        let ua_lower = to_lower user_agent; os = detect_os ua_lower; browser = detect_browser ua_lower;
            label = (if browser \<noteq> [] \<and> os \<noteq> [] then browser @ '' on '' @ os
                     else if browser \<noteq> [] then browser else if os \<noteq> [] then os else [])
        in if label = [] then truncate_label user_agent else label)"

subsection \<open>Session tokens\<close>

datatype session_role = RoleStats | RoleAdmin

definition session_role_to_string :: "session_role \<Rightarrow> string" where
  "session_role_to_string role = (if role = RoleAdmin then ''admin'' else ''stats'')"

definition session_role_from_string :: "string \<Rightarrow> session_role" where
  "session_role_from_string value = (if value = ''stats'' then RoleStats else RoleAdmin)"

record session_token =
  st_username :: string
  st_created_at :: time_point
  st_expires_at :: time_point
  st_refresh_expires_at :: time_point
  st_user_agent :: string
  st_remote_address :: string
  st_last_seen :: time_point
  st_remember_me :: bool
  st_device_label :: string
  st_refresh_token_hash :: string
  st_rotation_id :: string
  st_role :: session_role

record token_manager =
  tm_sessions :: "(string \<times> session_token) list"
  tm_refresh_index :: "(string \<times> string) list"
  tm_dirty :: bool

record auth_config =
  ac_session_token_ttl :: duration
  ac_remember_me_refresh_token_ttl :: duration

definition second :: duration where "second = 1000000000"

definition remember_me_token_ttl :: "auth_config \<Rightarrow> duration" where
  "remember_me_token_ttl cfg =
     (if ac_remember_me_refresh_token_ttl cfg \<le> 0 then 24 * 7 * 3600 else ac_remember_me_refresh_token_ttl cfg)"

definition default_refresh_token_ttl :: duration where "default_refresh_token_ttl = 24 * 3600"

text \<open>The lifetimes a login gets, in seconds: of the session token and of the refresh token.\<close>

definition session_lifetimes :: "auth_config \<Rightarrow> duration \<Rightarrow> duration \<Rightarrow> bool \<Rightarrow> duration \<times> duration" where
  "session_lifetimes cfg session_ttl0 refresh_ttl0 remember_me =
     (let session_ttl = (if session_ttl0 \<le> 0 then ac_session_token_ttl cfg else session_ttl0);
          refresh_ttl = (if refresh_ttl0 \<le> 0 then if remember_me then remember_me_token_ttl cfg else default_refresh_token_ttl
                         else refresh_ttl0)
      in (session_ttl, if refresh_ttl < session_ttl then session_ttl else refresh_ttl))"

text \<open>\<open>cleanup_expired_session_tokens\<close>: the index loses the refresh tokens of the sessions that go.\<close>

definition cleanup_expired_session_tokens :: "time_point \<Rightarrow> token_manager \<Rightarrow> token_manager" where
  "cleanup_expired_session_tokens now m =
     (let gone = filter (\<lambda>p. now > st_refresh_expires_at (snd p)) (tm_sessions m)
      in if gone = [] then m
         else m\<lparr>tm_sessions := filter (\<lambda>p. \<not> now > st_refresh_expires_at (snd p)) (tm_sessions m),
                tm_refresh_index := filter (\<lambda>q. fst q = [] \<or> fst q \<notin> (st_refresh_token_hash \<circ> snd) ` set gone) (tm_refresh_index m),
                tm_dirty := True\<rparr>)"

text \<open>The random strings of one issue: session token, refresh token, rotation id.\<close>

record token_draw =
  td_session :: string
  td_refresh :: string
  td_rotation :: string

record login_request =
  lr_username :: string
  lr_session_ttl :: duration
  lr_refresh_ttl :: duration
  lr_user_agent :: string
  lr_remote_address :: string
  lr_remember_me :: bool
  lr_role :: session_role

record token_bundle =
  tb_session_token :: string
  tb_refresh_token :: string
  tb_session_ttl :: duration
  tb_refresh_ttl :: duration
  tb_remember_me :: bool

definition issue_session_tokens ::
    "(string \<Rightarrow> string) \<Rightarrow> auth_config \<Rightarrow> time_point \<Rightarrow> token_draw \<Rightarrow> login_request \<Rightarrow> token_manager \<Rightarrow> token_manager \<times> token_bundle" where
  "issue_session_tokens hash cfg now draw req m =
     (case session_lifetimes cfg (lr_session_ttl req) (lr_refresh_ttl req) (lr_remember_me req) of (session_ttl, refresh_ttl) \<Rightarrow>
        let refresh_expires_at = now + refresh_ttl * second;
            session_expires_at = min (now + session_ttl * second) refresh_expires_at;
            session_hash = hash (td_session draw); refresh_hash = hash (td_refresh draw);
            token = \<lparr>st_username = lr_username req, st_created_at = now, st_expires_at = session_expires_at,
              st_refresh_expires_at = refresh_expires_at, st_user_agent = lr_user_agent req,
              st_remote_address = lr_remote_address req, st_last_seen = now, st_remember_me = lr_remember_me req,
              st_device_label = derive_device_label (lr_user_agent req) (lr_remote_address req),
              st_refresh_token_hash = refresh_hash, st_rotation_id = td_rotation draw, st_role = lr_role req\<rparr>
        in (cleanup_expired_session_tokens now
              (m\<lparr>tm_sessions := al_emplace session_hash token (al_erase session_hash (tm_sessions m)),
                 tm_refresh_index := al_put refresh_hash session_hash (tm_refresh_index m), tm_dirty := True\<rparr>),
            \<lparr>tb_session_token = td_session draw, tb_refresh_token = td_refresh draw,
             tb_session_ttl = (session_expires_at - now) div second, tb_refresh_ttl = (refresh_expires_at - now) div second,
             tb_remember_me = lr_remember_me req\<rparr>))"

definition refresh_session_tokens ::
    "(string \<Rightarrow> string) \<Rightarrow> auth_config \<Rightarrow> time_point \<Rightarrow> token_draw \<Rightarrow> string \<Rightarrow> string \<Rightarrow> string \<Rightarrow> token_manager
      \<Rightarrow> token_manager \<times> token_bundle option" where
  "refresh_session_tokens hash cfg now draw refresh_token user_agent remote_address m =
     (if refresh_token = [] then (m, None)
      else
        let refresh_hash = hash refresh_token
        in case map_of (tm_refresh_index m) refresh_hash of
             None \<Rightarrow> (m, None)
           | Some session_hash \<Rightarrow> (case map_of (tm_sessions m) session_hash of
               None \<Rightarrow> (m\<lparr>tm_refresh_index := al_erase refresh_hash (tm_refresh_index m), tm_dirty := True\<rparr>, None)
             | Some entry \<Rightarrow>
                 if now > st_refresh_expires_at entry
                 then (m\<lparr>tm_refresh_index := al_erase refresh_hash (tm_refresh_index m),
                         tm_sessions := al_erase session_hash (tm_sessions m), tm_dirty := True\<rparr>, None)
                 else
                   let refresh_expires_at = st_refresh_expires_at entry;
                       session_expires_at = min (now + ac_session_token_ttl cfg * second) refresh_expires_at;
                       new_session_hash = hash (td_session draw); new_refresh_hash = hash (td_refresh draw);
                       updated = \<lparr>st_username = st_username entry, st_created_at = now, st_expires_at = session_expires_at,
                         st_refresh_expires_at = refresh_expires_at, st_user_agent = user_agent,
                         st_remote_address = remote_address, st_last_seen = now, st_remember_me = st_remember_me entry,
                         st_device_label = derive_device_label user_agent remote_address,
                         st_refresh_token_hash = new_refresh_hash, st_rotation_id = td_rotation draw, st_role = st_role entry\<rparr>
                   in (m\<lparr>tm_sessions := al_emplace new_session_hash updated (al_erase session_hash (tm_sessions m)),
                         tm_refresh_index := al_put new_refresh_hash new_session_hash (al_erase refresh_hash (tm_refresh_index m)),
                         tm_dirty := True\<rparr>,
                       Some \<lparr>tb_session_token = td_session draw, tb_refresh_token = td_refresh draw,
                         tb_session_ttl = (session_expires_at - now) div second,
                         tb_refresh_ttl = (refresh_expires_at - now) div second, tb_remember_me = st_remember_me entry\<rparr>)))"

text \<open>Dropping a session and its refresh token.\<close>

definition drop_session :: "string \<Rightarrow> session_token \<Rightarrow> token_manager \<Rightarrow> token_manager" where
  "drop_session session_hash entry m =
     m\<lparr>tm_refresh_index := (if st_refresh_token_hash entry \<noteq> [] then al_erase (st_refresh_token_hash entry) (tm_refresh_index m)
                            else tm_refresh_index m),
       tm_sessions := al_erase session_hash (tm_sessions m), tm_dirty := True\<rparr>"

text \<open>The look-up that validation and the user name share; a session is marked as seen every five minutes.\<close>

definition look_up_session :: "(string \<Rightarrow> string) \<Rightarrow> time_point \<Rightarrow> string \<Rightarrow> token_manager \<Rightarrow> token_manager \<times> session_token option" where
  "look_up_session hash now token m =
     (let token_hash = hash token
      in case map_of (tm_sessions m) token_hash of
           None \<Rightarrow> (m, None)
         | Some entry \<Rightarrow>
             if now > st_refresh_expires_at entry then (drop_session token_hash entry m, None)
             else if now > st_expires_at entry then (m, None)
             else if now - st_last_seen entry \<ge> 5 * 60 * second
             then (m\<lparr>tm_sessions := al_put token_hash (entry\<lparr>st_last_seen := now\<rparr>) (tm_sessions m), tm_dirty := True\<rparr>, Some entry)
             else (m, Some entry))"

definition validate_session_token_role ::
    "(string \<Rightarrow> string) \<Rightarrow> time_point \<Rightarrow> string \<Rightarrow> token_manager \<Rightarrow> token_manager \<times> session_role option" where
  "validate_session_token_role hash now token m = map_prod id (map_option st_role) (look_up_session hash now token m)"

definition get_username_for_token ::
    "(string \<Rightarrow> string) \<Rightarrow> time_point \<Rightarrow> string \<Rightarrow> token_manager \<Rightarrow> token_manager \<times> string option" where
  "get_username_for_token hash now token m = map_prod id (map_option st_username) (look_up_session hash now token m)"

definition get_hash_for_token :: "(string \<Rightarrow> string) \<Rightarrow> time_point \<Rightarrow> string \<Rightarrow> token_manager \<Rightarrow> string option" where
  "get_hash_for_token hash now token m =
     (case map_of (tm_sessions m) (hash token) of
        None \<Rightarrow> None
      | Some entry \<Rightarrow> if now > st_refresh_expires_at entry \<or> now > st_expires_at entry then None else Some (hash token))"

definition revoke_session_by_hash :: "string \<Rightarrow> token_manager \<Rightarrow> token_manager \<times> bool" where
  "revoke_session_by_hash token_hash m =
     (case map_of (tm_sessions m) token_hash of
        None \<Rightarrow> (m, False)
      | Some entry \<Rightarrow> (drop_session token_hash entry m, True))"

definition revoke_session_token :: "(string \<Rightarrow> string) \<Rightarrow> string \<Rightarrow> token_manager \<Rightarrow> token_manager" where
  "revoke_session_token hash token m = fst (revoke_session_by_hash (hash token) m)"

definition revoke_refresh_token :: "(string \<Rightarrow> string) \<Rightarrow> string \<Rightarrow> token_manager \<Rightarrow> token_manager \<times> bool" where
  "revoke_refresh_token hash refresh_token m =
     (if refresh_token = [] then (m, False)
      else case map_of (tm_refresh_index m) (hash refresh_token) of
        None \<Rightarrow> (m, False)
      | Some session_hash \<Rightarrow> revoke_session_by_hash session_hash m)"

definition logout :: "(string \<Rightarrow> string) \<Rightarrow> string \<Rightarrow> string \<Rightarrow> token_manager \<Rightarrow> token_manager" where
  "logout hash session_token refresh_token m =
     (if session_token \<noteq> [] then revoke_session_token hash session_token m
      else if refresh_token \<noteq> [] then fst (revoke_refresh_token hash refresh_token m) else m)"

text \<open>The sessions shown to the user.\<close>

definition list_sessions :: "time_point \<Rightarrow> string \<Rightarrow> token_manager \<Rightarrow> (string \<times> session_token) list" where
  "list_sessions now username_filter m =
     filter (\<lambda>p. \<not> now > st_refresh_expires_at (snd p)
        \<and> (username_filter = [] \<or> iequals (st_username (snd p)) username_filter)) (tm_sessions m)"

subsection \<open>Persistence\<close>

text \<open>A session in the state file; a missing field is \<open>None\<close>, a missing text is empty.\<close>

record session_node =
  sn_hash :: string
  sn_username :: string
  sn_created_at :: "int option"
  sn_expires_at :: "int option"
  sn_refresh_expires_at :: "int option"
  sn_last_seen :: "int option"
  sn_remember_me :: "bool option"
  sn_role :: "string option"
  sn_refresh_token_hash :: string
  sn_rotation_id :: string
  sn_user_agent :: string
  sn_remote_address :: string
  sn_device_label :: string

definition to_seconds :: "time_point \<Rightarrow> int" where "to_seconds t = t div second"

definition save_session :: "string \<times> session_token \<Rightarrow> session_node" where
  "save_session p =
     (case p of (hash, token) \<Rightarrow>
        \<lparr>sn_hash = hash, sn_username = st_username token, sn_created_at = Some (to_seconds (st_created_at token)),
         sn_expires_at = Some (to_seconds (st_expires_at token)),
         sn_refresh_expires_at = Some (to_seconds (st_refresh_expires_at token)),
         sn_last_seen = Some (to_seconds (st_last_seen token)), sn_remember_me = Some (st_remember_me token),
         sn_role = Some (session_role_to_string (st_role token)), sn_refresh_token_hash = st_refresh_token_hash token,
         sn_rotation_id = st_rotation_id token, sn_user_agent = st_user_agent token,
         sn_remote_address = st_remote_address token, sn_device_label = st_device_label token\<rparr>)"

text \<open>\<open>save_session_tokens\<close>: the new state file when there is something to write and writing works.\<close>

definition save_session_tokens :: "bool \<Rightarrow> token_manager \<Rightarrow> session_node list option \<Rightarrow> token_manager \<times> session_node list option" where
  "save_session_tokens write_ok m file =
     (if \<not> tm_dirty m then (m, file)
      else if write_ok then (m\<lparr>tm_dirty := False\<rparr>, Some (map save_session (tm_sessions m))) else (m, file))"

text \<open>One node: the session it stands for, and whether loading had to repair it.\<close>

definition load_session :: "session_node \<Rightarrow> session_token \<times> bool" where
  "load_session node =
     (let created_secs = (case sn_created_at node of None \<Rightarrow> 0 | Some s \<Rightarrow> s);
          expires_secs = (case sn_expires_at node of None \<Rightarrow> 0 | Some s \<Rightarrow> s);
          refresh_expires_secs = (case sn_refresh_expires_at node of None \<Rightarrow> expires_secs | Some s \<Rightarrow> s);
          last_seen_secs = (case sn_last_seen node of None \<Rightarrow> created_secs | Some s \<Rightarrow> s);
          relabel = (sn_device_label node = []);
          label = (if relabel then derive_device_label (sn_user_agent node) (sn_remote_address node) else sn_device_label node);
          expires_at = expires_secs * second;
          refresh_expires_at = (if sn_refresh_token_hash node = [] then expires_at else refresh_expires_secs * second);
          shorten = (expires_at > refresh_expires_at)
      in (\<lparr>st_username = sn_username node, st_created_at = created_secs * second,
           st_expires_at = (if shorten then refresh_expires_at else expires_at), st_refresh_expires_at = refresh_expires_at,
           st_user_agent = sn_user_agent node, st_remote_address = sn_remote_address node,
           st_last_seen = last_seen_secs * second,
           st_remember_me = (case sn_remember_me node of None \<Rightarrow> False | Some b \<Rightarrow> b), st_device_label = label,
           st_refresh_token_hash = sn_refresh_token_hash node, st_rotation_id = sn_rotation_id node,
           st_role = session_role_from_string (case sn_role node of None \<Rightarrow> ''admin'' | Some r \<Rightarrow> r)\<rparr>,
          relabel \<or> shorten))"

definition load_node :: "time_point \<Rightarrow> token_manager \<Rightarrow> session_node \<Rightarrow> token_manager" where
  "load_node now m node =
     (if sn_hash node = [] then m
      else case load_session node of (token, repaired) \<Rightarrow>
        let m' = m\<lparr>tm_dirty := tm_dirty m \<or> repaired\<rparr>
        in if now > st_refresh_expires_at token then m'
           else if sn_hash node \<in> fst ` set (tm_sessions m) then m'
           else m'\<lparr>tm_sessions := al_emplace (sn_hash node) token (tm_sessions m),
                   tm_refresh_index := (if st_refresh_token_hash token \<noteq> []
                     then al_put (st_refresh_token_hash token) (sn_hash node) (tm_refresh_index m) else tm_refresh_index m)\<rparr>)"

definition empty_manager :: token_manager where
  "empty_manager = \<lparr>tm_sessions = [], tm_refresh_index = [], tm_dirty = False\<rparr>"

text \<open>\<open>load_session_tokens\<close>, from no file or an unreadable one, or from its nodes.\<close>

definition load_session_tokens :: "time_point \<Rightarrow> session_node list option \<Rightarrow> token_manager" where
  "load_session_tokens now file =
     (case file of None \<Rightarrow> empty_manager | Some nodes \<Rightarrow> foldl (load_node now) empty_manager nodes)"

subsection \<open>API tokens\<close>

type_synonym scopes = "(string \<times> string list) list"

text \<open>The pattern of a scope is anchored before it is matched against the whole path.\<close>

definition anchored :: "string \<Rightarrow> string" where
  "anchored scope_path =
     (let p = (if scope_path = [] \<or> hd scope_path \<noteq> CHR ''^'' then CHR ''^'' # scope_path else scope_path)
      in if last p \<noteq> CHR ''$'' then p @ ''$'' else p)"

definition authenticate_token ::
    "(string \<Rightarrow> string) \<Rightarrow> (string \<Rightarrow> string \<Rightarrow> bool) \<Rightarrow> (string \<times> scopes) list \<Rightarrow> string \<Rightarrow> string \<Rightarrow> string \<Rightarrow> bool" where
  "authenticate_token hash regex_match api_tokens token path method =
     (case map_of api_tokens (hash token) of
        None \<Rightarrow> False
      | Some path_methods \<Rightarrow>
          list_ex (\<lambda>(scope_path, methods). regex_match (anchored scope_path) path \<and> list_ex (\<lambda>m. iequals m method) methods)
            path_methods)"

definition starts_with :: "string \<Rightarrow> string \<Rightarrow> bool" where "starts_with p s \<longleftrightarrow> prefix p s"

definition authenticate_bearer ::
    "(string \<Rightarrow> string) \<Rightarrow> (string \<Rightarrow> string \<Rightarrow> bool) \<Rightarrow> (string \<times> scopes) list \<Rightarrow> string \<Rightarrow> string \<Rightarrow> string \<Rightarrow> bool" where
  "authenticate_bearer hash regex_match api_tokens raw_auth path method =
     (if length raw_auth \<le> 7 \<or> \<not> starts_with ''Bearer '' raw_auth then False
      else authenticate_token hash regex_match api_tokens (drop 7 raw_auth) path method)"

subsection \<open>The decision\<close>

text \<open>What the decision looks at besides the tokens: the class of the remote address, the credentials, the
  password check, the Base64 decoder (\<open>None\<close> when it throws).\<close>

record auth_env =
  ae_hash :: "string \<Rightarrow> string"
  ae_regex_match :: "string \<Rightarrow> string \<Rightarrow> bool"
  ae_api_tokens :: "(string \<times> scopes) list"
  ae_origin_allowed :: "string \<Rightarrow> bool"
  ae_username :: string
  ae_creds_locked :: bool
  ae_verify_password :: "string \<Rightarrow> string \<Rightarrow> bool"
  ae_base64_decode :: "string \<Rightarrow> string option"

datatype auth_result = Allowed | Unauthorized | Forbidden | Unavailable

definition session_name_char :: "char \<Rightarrow> bool" where
  "session_name_char c \<longleftrightarrow> c \<in> set (''ABCDEFGHIJKLMNOPQRSTUVWXYZ'' @ ''abcdefghijklmnopqrstuvwxyz'' @ ''0123456789_-'')"

text \<open>The two regular expressions for the details and the export of one session.\<close>

definition session_detail :: "string \<Rightarrow> bool" where
  "session_detail path \<longleftrightarrow> starts_with ''/api/sessions/'' path \<and> drop 14 path \<noteq> [] \<and> list_all session_name_char (drop 14 path)"

definition session_export :: "string \<Rightarrow> bool" where
  "session_export path \<longleftrightarrow> suffix ''/export.json'' path \<and> session_detail (take (length path - 12) path)"

definition stats_role_allows :: "string \<Rightarrow> string \<Rightarrow> bool" where
  "stats_role_allows method base_path \<longleftrightarrow>
     (if starts_with ''/api/auth/'' base_path then True
      else if method = ''GET'' \<and> base_path = ''/api/changelog/state'' \<or> method = ''POST'' \<and> base_path = ''/api/changelog/ack'' then True
      else if method \<noteq> ''GET'' then False
      else if base_path = ''/api/sessions'' \<or> base_path = ''/api/metadata'' \<or> base_path = ''/api/configLocale'' then True
      else session_detail base_path \<or> session_export base_path)"

definition check_session_auth ::
    "auth_env \<Rightarrow> time_point \<Rightarrow> string \<Rightarrow> string \<Rightarrow> string \<Rightarrow> token_manager \<Rightarrow> token_manager \<times> auth_result" where
  "check_session_auth env now raw_auth base_path method m =
     (if \<not> starts_with ''Session '' raw_auth then (m, Unauthorized)
      else if drop 8 raw_auth = [] then (m, Unauthorized)
      else case validate_session_token_role (ae_hash env) now (drop 8 raw_auth) m of
        (m', None) \<Rightarrow> (m', Unauthorized)
      | (m', Some role) \<Rightarrow>
          (m', if role = RoleAdmin then Allowed else if stats_role_allows method base_path then Allowed else Forbidden))"

definition parse_basic_credentials :: "auth_env \<Rightarrow> string \<Rightarrow> (string \<times> string) option" where
  "parse_basic_credentials env raw_auth =
     (if CHR '' '' \<notin> set raw_auth then None
      else
        let scheme = takeWhile (\<lambda>c. c \<noteq> CHR '' '') raw_auth; encoded = drop (length scheme + 1) raw_auth
        in if \<not> iequals scheme ''Basic'' \<or> encoded = [] then None
           else case ae_base64_decode env encoded of
             None \<Rightarrow> None
           | Some decoded \<Rightarrow>
               if CHR '':'' \<notin> set decoded then None
               else let user = takeWhile (\<lambda>c. c \<noteq> CHR '':'') decoded in Some (user, drop (length user + 1) decoded))"

definition check_basic_auth :: "auth_env \<Rightarrow> string \<Rightarrow> auth_result" where
  "check_basic_auth env raw_auth =
     (case parse_basic_credentials env raw_auth of
        None \<Rightarrow> Unauthorized
      | Some (user, password) \<Rightarrow>
          if ae_username env \<noteq> [] \<and> ae_verify_password env user password then Allowed else Unauthorized)"

definition base_path_of :: "string \<Rightarrow> string" where "base_path_of path = takeWhile (\<lambda>c. c \<noteq> CHR ''?'') path"

definition check_auth ::
    "auth_env \<Rightarrow> time_point \<Rightarrow> string \<Rightarrow> string \<Rightarrow> string \<Rightarrow> string \<Rightarrow> token_manager \<Rightarrow> token_manager \<times> auth_result" where
  "check_auth env now remote_address auth_header path method m =
     (let base_path = base_path_of path
      in if base_path = ''/welcome'' \<or> base_path = ''/welcome/'' then (m, Allowed)
         else if \<not> ae_origin_allowed env remote_address then (m, Forbidden)
         else if \<not> starts_with ''/api/'' base_path then (m, Allowed)
         else if base_path = ''/api/auth/login'' \<or> base_path = ''/api/auth/logout'' then (m, Allowed)
         else if ae_username env = [] then (m, if ae_creds_locked env then Unavailable else Unauthorized)
         else if auth_header = [] then (m, Unauthorized)
         else if starts_with ''Bearer '' auth_header
         then (m, if authenticate_bearer (ae_hash env) (ae_regex_match env) (ae_api_tokens env) auth_header path method
                  then Allowed else Forbidden)
         else if starts_with ''Session '' auth_header then check_session_auth env now auth_header base_path method m
         else if CHR '' '' \<in> set auth_header \<and> iequals (takeWhile (\<lambda>c. c \<noteq> CHR '' '') auth_header) ''Basic''
         then (m, check_basic_auth env auth_header)
         else (m, Unauthorized))"

text \<open>The handler that revokes a session by its hash, behind the decision.\<close>

definition revokeSession ::
    "auth_env \<Rightarrow> time_point \<Rightarrow> string \<Rightarrow> string \<Rightarrow> string \<Rightarrow> token_manager \<Rightarrow> token_manager \<times> auth_result \<times> bool" where
  "revokeSession env now remote_address auth_header session_hash m =
     (case check_auth env now remote_address auth_header (''/api/auth/sessions/'' @ session_hash) ''DELETE'' m of
        (m', Allowed) \<Rightarrow> (case revoke_session_by_hash session_hash m' of (m'', removed) \<Rightarrow> (m'', Allowed, removed))
      | (m', denied) \<Rightarrow> (m', denied, False))"

subsection \<open>The two tables agree\<close>

text \<open>
  The index of refresh tokens points to exactly the sessions that hold them. The four lemmas are the ways in
  which the operations change the two tables together.
\<close>

definition linked :: "(string \<Rightarrow> session_token option) \<Rightarrow> (string \<Rightarrow> string option) \<Rightarrow> bool" where
  "linked S I \<longleftrightarrow> (\<forall>r s. I r = Some s \<longleftrightarrow> (\<exists>t. S s = Some t \<and> st_refresh_token_hash t = r))"

lemma linked_iff: "linked S I \<Longrightarrow> I r = Some s \<longleftrightarrow> (\<exists>t. S s = Some t \<and> st_refresh_token_hash t = r)"
  by (simp add: linked_def)

lemma linked_pointer: "linked S I \<Longrightarrow> S s = Some t \<Longrightarrow> I (st_refresh_token_hash t) = Some s"
  by (simp add: linked_def)

lemma linked_one:
  "linked S I \<Longrightarrow> S a = Some t \<Longrightarrow> S b = Some u \<Longrightarrow> st_refresh_token_hash t = st_refresh_token_hash u \<Longrightarrow> a = b"
  by (metis linked_pointer option.inject)

lemma linked_add:
  assumes "linked S I" "S h = None" "I (st_refresh_token_hash t) = None"
  shows "linked (S(h \<mapsto> t)) (I(st_refresh_token_hash t \<mapsto> h))"
  unfolding linked_def
proof (intro allI)
  fix r s
  have "S s = Some t' \<Longrightarrow> st_refresh_token_hash t' \<noteq> st_refresh_token_hash t" for t'
    using assms(3) linked_pointer [OF assms(1)] by fastforce
  then show "(I(st_refresh_token_hash t \<mapsto> h)) r = Some s \<longleftrightarrow> (\<exists>t'. (S(h \<mapsto> t)) s = Some t' \<and> st_refresh_token_hash t' = r)"
    using assms(2) by (cases "s = h") (auto simp: linked_iff [OF assms(1)])
qed

lemma linked_remove:
  assumes "linked S I" "S h = Some t"
  shows "linked (S(h := None)) (I(st_refresh_token_hash t := None))"
  unfolding linked_def
proof (intro allI)
  fix r s
  have "(I(st_refresh_token_hash t := None)) r = Some s \<longleftrightarrow> s \<noteq> h \<and> I r = Some s"
    using linked_pointer [OF assms] linked_iff [OF assms(1), of r h] assms(2) by auto
  then show "(I(st_refresh_token_hash t := None)) r = Some s \<longleftrightarrow> (\<exists>u. (S(h := None)) s = Some u \<and> st_refresh_token_hash u = r)"
    by (simp only: linked_iff [OF assms(1)]) auto
qed

lemma linked_update:
  assumes "linked S I" "S h = Some t" "st_refresh_token_hash t' = st_refresh_token_hash t"
  shows "linked (S(h \<mapsto> t')) I"
  using assms(2,3) by (auto simp: linked_def linked_iff [OF assms(1)])

lemma linked_restrict:
  assumes "linked S I"
  shows "linked (\<lambda>s. case S s of None \<Rightarrow> None | Some t \<Rightarrow> if P t then Some t else None)
    (\<lambda>r. if \<exists>s t. S s = Some t \<and> \<not> P t \<and> st_refresh_token_hash t = r then None else I r)"
  unfolding linked_def
proof (intro allI)
  fix r s
  show "(if \<exists>s t. S s = Some t \<and> \<not> P t \<and> st_refresh_token_hash t = r then None else I r) = Some s \<longleftrightarrow>
      (\<exists>t. (case S s of None \<Rightarrow> None | Some t \<Rightarrow> if P t then Some t else None) = Some t \<and> st_refresh_token_hash t = r)"
  proof (cases "\<exists>t. S s = Some t \<and> st_refresh_token_hash t = r")
    case True
    then obtain t where t: "S s = Some t" "st_refresh_token_hash t = r" by blast
    then have "a = s" if "S a = Some u" "st_refresh_token_hash u = r" for a u
      using linked_one [OF assms that(1) t(1)] that(2) by simp
    then have "(\<exists>s t. S s = Some t \<and> \<not> P t \<and> st_refresh_token_hash t = r) \<longleftrightarrow> \<not> P t"
      using t by fastforce
    with t linked_pointer [OF assms t(1)] show ?thesis by simp
  next
    case False
    then have "I r \<noteq> Some s" by (simp add: linked_iff [OF assms])
    with False show ?thesis by (auto split: option.splits if_splits)
  qed
qed

lemma map_of_filter_fst: "map_of (filter (\<lambda>q. P (fst q)) xs) k = (if P k then map_of xs k else None)"
  by (induction xs) auto

lemma map_of_filter_snd:
  "distinct (map fst xs) \<Longrightarrow>
    map_of (filter (\<lambda>p. P (snd p)) xs) k = (case map_of xs k of None \<Rightarrow> None | Some v \<Rightarrow> if P v then Some v else None)"
proof (induction xs)
  case (Cons p xs)
  then have "map_of xs (fst p) = None" by (simp add: map_of_eq_None_iff)
  with Cons show ?case by (auto split: option.splits)
qed simp

text \<open>Sound tables: also no session outlives its refresh token, and no hash is empty.\<close>

definition sound_session :: "string \<times> session_token \<Rightarrow> bool" where
  "sound_session p \<longleftrightarrow> fst p \<noteq> [] \<and> st_refresh_token_hash (snd p) \<noteq> [] \<and> st_device_label (snd p) \<noteq> []
     \<and> st_expires_at (snd p) \<le> st_refresh_expires_at (snd p)"

definition tables_sound :: "token_manager \<Rightarrow> bool" where
  "tables_sound m \<longleftrightarrow> distinct (map fst (tm_sessions m)) \<and> distinct (map fst (tm_refresh_index m))
     \<and> linked (map_of (tm_sessions m)) (map_of (tm_refresh_index m)) \<and> list_all sound_session (tm_sessions m)"

definition fresh_draw :: "(string \<Rightarrow> string) \<Rightarrow> token_draw \<Rightarrow> token_manager \<Rightarrow> bool" where
  "fresh_draw hash draw m \<longleftrightarrow> hash (td_session draw) \<noteq> [] \<and> hash (td_refresh draw) \<noteq> []
     \<and> hash (td_session draw) \<notin> fst ` set (tm_sessions m) \<and> hash (td_refresh draw) \<notin> fst ` set (tm_refresh_index m)"

lemma truncate_label_nonempty: "s \<noteq> [] \<Longrightarrow> truncate_label s \<noteq> []"
  by (simp add: truncate_label_def)

lemma device_label_nonempty: "derive_device_label ua addr \<noteq> []"
  by (simp add: derive_device_label_def Let_def truncate_label_nonempty)

lemma set_erase: "set (al_erase k xs) = {p \<in> set xs. fst p \<noteq> k}"
  by (simp add: al_erase_def)

lemma list_all_erase [simp]: "list_all P xs \<Longrightarrow> list_all P (al_erase k xs)"
  by (auto simp: list_all_iff set_erase)

lemma list_all_emplace [simp]: "list_all P xs \<Longrightarrow> P (k, v) \<Longrightarrow> list_all P (al_emplace k v xs)"
  by (simp add: al_emplace_def)

lemma list_all_put [simp]: "list_all P xs \<Longrightarrow> P (k, v) \<Longrightarrow> list_all P (al_put k v xs)"
  by (simp add: al_put_def)

lemma erase_absent: "k \<notin> fst ` set xs \<Longrightarrow> al_erase k xs = xs"
  by (auto simp: al_erase_def filter_id_conv)

lemma key_erased [simp]: "k \<in> fst ` set (al_erase j xs) \<longleftrightarrow> k \<noteq> j \<and> k \<in> fst ` set xs"
  by (auto simp: set_erase)

lemma absent_map_of: "k \<notin> fst ` set xs \<Longrightarrow> map_of xs k = None"
  by (simp add: map_of_eq_None_iff)

lemma sound_empty: "tables_sound (empty_manager)"
  by (simp add: tables_sound_def empty_manager_def linked_def)

lemma sound_cleanup:
  assumes "tables_sound m"
  shows "tables_sound (cleanup_expired_session_tokens now m)"
proof -
  let ?P = "\<lambda>t. \<not> now > st_refresh_expires_at t"
  let ?gone = "filter (\<lambda>p. now > st_refresh_expires_at (snd p)) (tm_sessions m)"
  have gone: "r \<in> (st_refresh_token_hash \<circ> snd) ` set ?gone \<longleftrightarrow>
      (\<exists>s t. map_of (tm_sessions m) s = Some t \<and> \<not> ?P t \<and> st_refresh_token_hash t = r)" for r
    using assms by (fastforce simp: tables_sound_def map_of_eq_Some_iff image_iff)
  have ne: "map_of (tm_refresh_index m) [] = None"
  proof (rule ccontr)
    assume "map_of (tm_refresh_index m) [] \<noteq> None"
    then obtain s t where "map_of (tm_sessions m) s = Some t" "st_refresh_token_hash t = []"
      using assms linked_iff [of "map_of (tm_sessions m)" "map_of (tm_refresh_index m)"]
      by (auto simp: tables_sound_def)
    with assms show False by (auto simp: tables_sound_def list_all_iff sound_session_def dest!: map_of_SomeD)
  qed
  have idx: "map_of (filter (\<lambda>q. fst q = [] \<or> fst q \<notin> (st_refresh_token_hash \<circ> snd) ` set ?gone) (tm_refresh_index m)) =
      (\<lambda>r. if \<exists>s t. map_of (tm_sessions m) s = Some t \<and> \<not> ?P t \<and> st_refresh_token_hash t = r then None
           else map_of (tm_refresh_index m) r)"
    by (rule ext, subst map_of_filter_fst, subst gone) (auto simp: ne)
  have ses: "map_of (filter (\<lambda>p. ?P (snd p)) (tm_sessions m)) =
      (\<lambda>s. case map_of (tm_sessions m) s of None \<Rightarrow> None | Some t \<Rightarrow> if ?P t then Some t else None)"
    by (rule ext, rule map_of_filter_snd) (use assms in \<open>simp add: tables_sound_def\<close>)
  have "linked (map_of (filter (\<lambda>p. ?P (snd p)) (tm_sessions m)))
     (map_of (filter (\<lambda>q. fst q = [] \<or> fst q \<notin> (st_refresh_token_hash \<circ> snd) ` set ?gone) (tm_refresh_index m)))"
    using linked_restrict [of "map_of (tm_sessions m)" "map_of (tm_refresh_index m)" ?P] assms
    by (simp only: idx ses tables_sound_def simp_thms)
  then show ?thesis
    using assms by (auto simp: cleanup_expired_session_tokens_def tables_sound_def Let_def distinct_map_filter list_all_iff)
qed

text \<open>A login the log knows explains the session: its user, its role, and an end no later than it granted.\<close>

definition granted :: "auth_config \<Rightarrow> (time_point \<times> login_request) list \<Rightarrow> session_token \<Rightarrow> bool" where
  "granted cfg logins t \<longleftrightarrow>
     list_ex (\<lambda>(at, req). st_username t = lr_username req \<and> st_role t = lr_role req
       \<and> st_refresh_expires_at t \<le> at + snd (session_lifetimes cfg (lr_session_ttl req) (lr_refresh_ttl req) (lr_remember_me req)) * second)
       logins"

definition manager_ok :: "auth_config \<Rightarrow> (time_point \<times> login_request) list \<Rightarrow> token_manager \<Rightarrow> bool" where
  "manager_ok cfg logins m \<longleftrightarrow> tables_sound m \<and> list_all (granted cfg logins \<circ> snd) (tm_sessions m)"

lemma granted_less:
  "granted cfg logins t \<Longrightarrow> st_username t' = st_username t \<Longrightarrow> st_role t' = st_role t \<Longrightarrow>
    st_refresh_expires_at t' \<le> st_refresh_expires_at t \<Longrightarrow> granted cfg logins t'"
  unfolding granted_def list_ex_iff by (erule bexE) (auto intro!: bexI)

lemma granted_more: "granted cfg logins t \<Longrightarrow> granted cfg (l # logins) t"
  by (simp add: granted_def)

lemma manager_ok_more: "manager_ok cfg logins m \<Longrightarrow> manager_ok cfg (l # logins) m"
  by (auto simp: manager_ok_def list_all_iff granted_more)

lemma manager_ok_dirty [simp]: "manager_ok cfg logins (m\<lparr>tm_dirty := b\<rparr>) \<longleftrightarrow> manager_ok cfg logins m"
  by (simp add: manager_ok_def tables_sound_def)

lemma manager_ok_at:
  "manager_ok cfg logins m \<Longrightarrow> map_of (tm_sessions m) h = Some t \<Longrightarrow> sound_session (h, t) \<and> granted cfg logins t"
  by (auto simp: manager_ok_def tables_sound_def list_all_iff dest!: map_of_SomeD)

lemma ok_cleanup: "manager_ok cfg logins m \<Longrightarrow> manager_ok cfg logins (cleanup_expired_session_tokens now m)"
  using sound_cleanup [of m now]
  by (auto simp: manager_ok_def cleanup_expired_session_tokens_def list_all_iff Let_def)

lemma ok_add:
  assumes "manager_ok cfg logins m" "h \<notin> fst ` set (tm_sessions m)"
    "st_refresh_token_hash t \<notin> fst ` set (tm_refresh_index m)" "sound_session (h, t)" "granted cfg logins t"
  shows "manager_ok cfg logins (m\<lparr>tm_sessions := al_emplace h t (tm_sessions m),
    tm_refresh_index := al_put (st_refresh_token_hash t) h (tm_refresh_index m), tm_dirty := b\<rparr>)"
  using assms linked_add [of "map_of (tm_sessions m)" "map_of (tm_refresh_index m)" h t]
  by (simp add: manager_ok_def tables_sound_def absent_map_of)

lemma ok_remove:
  assumes "manager_ok cfg logins m" "map_of (tm_sessions m) h = Some t"
  shows "manager_ok cfg logins (m\<lparr>tm_sessions := al_erase h (tm_sessions m),
    tm_refresh_index := al_erase (st_refresh_token_hash t) (tm_refresh_index m), tm_dirty := b\<rparr>)"
  using assms linked_remove [of "map_of (tm_sessions m)" "map_of (tm_refresh_index m)" h t]
  by (simp add: manager_ok_def tables_sound_def)

lemma drop_session_ok:
  assumes "manager_ok cfg logins m" "map_of (tm_sessions m) h = Some t"
  shows "manager_ok cfg logins (drop_session h t m)"
proof -
  have "drop_session h t m = m\<lparr>tm_sessions := al_erase h (tm_sessions m),
    tm_refresh_index := al_erase (st_refresh_token_hash t) (tm_refresh_index m), tm_dirty := True\<rparr>"
    using manager_ok_at [OF assms] by (simp add: drop_session_def sound_session_def)
  with ok_remove [OF assms] show ?thesis by simp
qed

lemma ok_revoke: "manager_ok cfg logins m \<Longrightarrow> manager_ok cfg logins (fst (revoke_session_by_hash h m))"
  by (auto simp: revoke_session_by_hash_def drop_session_ok split: option.splits)

lemma ok_logout: "manager_ok cfg logins m \<Longrightarrow> manager_ok cfg logins (logout hash st rt m)"
  by (auto simp: logout_def revoke_session_token_def revoke_refresh_token_def ok_revoke split: option.splits)

lemma ok_look_up:
  assumes "manager_ok cfg logins m"
  shows "manager_ok cfg logins (fst (look_up_session hash now token m))"
proof (cases "map_of (tm_sessions m) (hash token)")
  case (Some t)
  let ?t = "t\<lparr>st_last_seen := now\<rparr>"
  have at: "sound_session (hash token, t)" "granted cfg logins t" using manager_ok_at [OF assms Some] by simp_all
  have "linked (map_of (tm_sessions m)) (map_of (tm_refresh_index m))"
    using assms by (simp add: manager_ok_def tables_sound_def)
  then have "linked ((map_of (tm_sessions m))(hash token \<mapsto> ?t)) (map_of (tm_refresh_index m))"
    by (rule linked_update [where t = t]) (simp_all add: Some)
  moreover have "sound_session (hash token, ?t)" using at(1) by (simp add: sound_session_def)
  moreover have "granted cfg logins ?t" by (rule granted_less [OF at(2)]) simp_all
  ultimately have "manager_ok cfg logins (m\<lparr>tm_sessions := al_put (hash token) ?t (tm_sessions m), tm_dirty := True\<rparr>)"
    using assms by (simp add: manager_ok_def tables_sound_def)
  with assms drop_session_ok [OF assms Some] Some show ?thesis by (simp add: look_up_session_def Let_def)
qed (simp add: look_up_session_def assms)

lemma ok_login:
  assumes "manager_ok cfg logins m" "fresh_draw hash draw m"
  shows "manager_ok cfg ((now, req) # logins) (fst (issue_session_tokens hash cfg now draw req m))"
proof -
  have "manager_ok cfg ((now, req) # logins) m" by (rule manager_ok_more [OF assms(1)])
  then show ?thesis
    using assms(2)
    by (auto simp: issue_session_tokens_def Let_def fresh_draw_def erase_absent sound_session_def device_label_nonempty
        granted_def intro!: ok_cleanup ok_add [where t = "session_token.make _ _ _ _ _ _ _ _ _ _ _ _", unfolded session_token.defs, simplified] split: prod.splits)
qed

text \<open>Rotation: the old entry of both tables goes, one with the same user, role and end comes.\<close>

definition rotated :: "(string \<Rightarrow> string) \<Rightarrow> auth_config \<Rightarrow> time_point \<Rightarrow> token_draw \<Rightarrow> string \<Rightarrow> string \<Rightarrow> session_token \<Rightarrow> session_token" where
  "rotated hash cfg now draw ua addr entry =
     \<lparr>st_username = st_username entry, st_created_at = now,
      st_expires_at = min (now + ac_session_token_ttl cfg * second) (st_refresh_expires_at entry),
      st_refresh_expires_at = st_refresh_expires_at entry, st_user_agent = ua, st_remote_address = addr, st_last_seen = now,
      st_remember_me = st_remember_me entry, st_device_label = derive_device_label ua addr,
      st_refresh_token_hash = hash (td_refresh draw), st_rotation_id = td_rotation draw, st_role = st_role entry\<rparr>"

lemma refresh_cases:
  assumes "manager_ok cfg logins m"
  obtains (refused) "fst (refresh_session_tokens hash cfg now draw rt ua addr m) = m"
      "snd (refresh_session_tokens hash cfg now draw rt ua addr m) = None"
  | (expired) sh entry where "map_of (tm_refresh_index m) (hash rt) = Some sh" "map_of (tm_sessions m) sh = Some entry"
      "st_refresh_token_hash entry = hash rt"
      "refresh_session_tokens hash cfg now draw rt ua addr m =
        (m\<lparr>tm_sessions := al_erase sh (tm_sessions m),
           tm_refresh_index := al_erase (st_refresh_token_hash entry) (tm_refresh_index m), tm_dirty := True\<rparr>, None)"
  | (rotation) sh entry b where "map_of (tm_refresh_index m) (hash rt) = Some sh" "map_of (tm_sessions m) sh = Some entry"
      "st_refresh_token_hash entry = hash rt" "now \<le> st_refresh_expires_at entry"
      "refresh_session_tokens hash cfg now draw rt ua addr m =
        (m\<lparr>tm_sessions := al_emplace (hash (td_session draw)) (rotated hash cfg now draw ua addr entry) (al_erase sh (tm_sessions m)),
           tm_refresh_index := al_put (hash (td_refresh draw)) (hash (td_session draw))
             (al_erase (st_refresh_token_hash entry) (tm_refresh_index m)), tm_dirty := True\<rparr>, Some b)"
      "tb_session_token b = td_session draw" "tb_refresh_token b = td_refresh draw"
proof (cases "rt = [] \<or> map_of (tm_refresh_index m) (hash rt) = None")
  case True
  then show ?thesis by (intro refused) (auto simp: refresh_session_tokens_def)
next
  case False
  have l: "linked (map_of (tm_sessions m)) (map_of (tm_refresh_index m))" using assms by (simp add: manager_ok_def tables_sound_def)
  from False obtain sh where sh: "map_of (tm_refresh_index m) (hash rt) = Some sh" by auto
  then obtain entry where entry: "map_of (tm_sessions m) sh = Some entry" "st_refresh_token_hash entry = hash rt"
    using linked_iff [OF l] by blast
  show ?thesis
  proof (cases "now > st_refresh_expires_at entry")
    case True
    then show ?thesis using False sh entry by (intro expired [OF sh entry]) (simp add: refresh_session_tokens_def)
  next
    case live: False
    then show ?thesis
      using False sh entry by (intro rotation [OF sh entry]) (simp add: refresh_session_tokens_def rotated_def Let_def)+
  qed
qed

lemma ok_refresh:
  assumes "manager_ok cfg logins m" "fresh_draw hash draw m"
  shows "manager_ok cfg logins (fst (refresh_session_tokens hash cfg now draw rt ua addr m))"
  using assms(1)
proof (cases rule: refresh_cases [where hash = hash and now = now and draw = draw and rt = rt and ua = ua and addr = addr])
  case (expired sh entry)
  then show ?thesis using ok_remove [OF assms(1) expired(2), of True] by simp
next
  case (rotation sh entry b)
  have "granted cfg logins (rotated hash cfg now draw ua addr entry)"
    using manager_ok_at [OF assms(1) rotation(2)] by (auto simp: rotated_def intro: granted_less)
  moreover have "sound_session (hash (td_session draw), rotated hash cfg now draw ua addr entry)"
    using assms(2) by (simp add: sound_session_def fresh_draw_def rotated_def device_label_nonempty)
  ultimately show ?thesis
    using assms(2) ok_add [OF ok_remove [OF assms(1) rotation(2), of True],
      of "hash (td_session draw)" "rotated hash cfg now draw ua addr entry" True]
    by (simp add: rotation(5) fresh_draw_def rotated_def)
qed (use assms in simp)

subsection \<open>Reloading the state file\<close>

definition whole_seconds :: "time_point \<Rightarrow> time_point" where "whole_seconds t = to_seconds t * second"

definition reloaded :: "session_token \<Rightarrow> session_token" where
  "reloaded t = t\<lparr>st_created_at := whole_seconds (st_created_at t), st_expires_at := whole_seconds (st_expires_at t),
     st_refresh_expires_at := whole_seconds (st_refresh_expires_at t), st_last_seen := whole_seconds (st_last_seen t)\<rparr>"

definition survives :: "time_point \<Rightarrow> session_token \<Rightarrow> bool" where
  "survives now t \<longleftrightarrow> \<not> now > whole_seconds (st_refresh_expires_at t)"

definition pointer :: "string \<times> session_token \<Rightarrow> string \<times> string" where
  "pointer p = (st_refresh_token_hash (snd p), fst p)"

lemma whole_seconds_le: "whole_seconds t \<le> t"
  using minus_mod_eq_div_mult [of t second] pos_mod_sign [of second t]
  by (simp add: whole_seconds_def to_seconds_def second_def)

lemma whole_seconds_mono: "a \<le> b \<Longrightarrow> whole_seconds a \<le> whole_seconds b"
  by (simp add: whole_seconds_def to_seconds_def second_def zdiv_mono1)

lemma role_roundtrip: "session_role_from_string (session_role_to_string r) = r"
  by (cases r) (simp_all add: session_role_from_string_def session_role_to_string_def)

lemma load_saved: "sound_session (h, t) \<Longrightarrow> load_session (save_session (h, t)) = (reloaded t, False)"
  using whole_seconds_mono [of "st_expires_at t" "st_refresh_expires_at t"]
  by (simp add: load_session_def save_session_def sound_session_def reloaded_def role_roundtrip Let_def
      flip: whole_seconds_def)

lemma granted_reloaded: "granted cfg logins t \<Longrightarrow> granted cfg logins (reloaded t)"
  by (erule granted_less) (simp_all add: reloaded_def whole_seconds_le)

lemma put_absent: "k \<notin> fst ` set xs \<Longrightarrow> al_put k v xs = xs @ [(k, v)]"
  by (simp add: al_put_def erase_absent)

lemma load_saved_node:
  assumes "sound_session p" "fst p \<notin> fst ` set (tm_sessions m)" "st_refresh_token_hash (snd p) \<notin> fst ` set (tm_refresh_index m)"
  shows "load_node now m (save_session p) =
    (if survives now (snd p) then m\<lparr>tm_sessions := tm_sessions m @ [apsnd reloaded p],
       tm_refresh_index := tm_refresh_index m @ [pointer (apsnd reloaded p)]\<rparr> else m)"
proof (cases p)
  case (Pair h t)
  with assms show ?thesis
    by (simp add: load_node_def load_saved save_session_def survives_def reloaded_def al_emplace_def put_absent pointer_def
        sound_session_def load_saved [unfolded save_session_def, simplified])
qed

lemma reload_run:
  assumes "list_all sound_session xs" "distinct (map fst xs)" "distinct (map (st_refresh_token_hash \<circ> snd) xs)"
    "fst ` set (tm_sessions m) \<inter> fst ` set xs = {}"
    "fst ` set (tm_refresh_index m) \<inter> (st_refresh_token_hash \<circ> snd) ` set xs = {}"
  shows "foldl (load_node now) m (map save_session xs) =
    (let ys = map (apsnd reloaded) (filter (\<lambda>p. survives now (snd p)) xs)
     in m\<lparr>tm_sessions := tm_sessions m @ ys, tm_refresh_index := tm_refresh_index m @ map pointer ys\<rparr>)"
  using assms
proof (induction xs arbitrary: m)
  case (Cons p xs)
  then have "load_node now m (save_session p) =
    (if survives now (snd p) then m\<lparr>tm_sessions := tm_sessions m @ [apsnd reloaded p],
       tm_refresh_index := tm_refresh_index m @ [pointer (apsnd reloaded p)]\<rparr> else m)"
    by (intro load_saved_node) auto
  with Cons.prems show ?case
    by (auto simp: Cons.IH pointer_def reloaded_def apsnd_def map_prod_def split_beta)
qed (simp add: Let_def)

lemma one_refresh_each:
  assumes "tables_sound m"
  shows "distinct (map (st_refresh_token_hash \<circ> snd) (tm_sessions m))"
proof -
  have l: "linked (map_of (tm_sessions m)) (map_of (tm_refresh_index m))" and d: "distinct (map fst (tm_sessions m))"
    using assms by (simp_all add: tables_sound_def)
  have "p = q" if "p \<in> set (tm_sessions m)" "q \<in> set (tm_sessions m)"
    "st_refresh_token_hash (snd p) = st_refresh_token_hash (snd q)" for p q
  proof -
    have "map_of (tm_sessions m) (fst p) = Some (snd p)" "map_of (tm_sessions m) (fst q) = Some (snd q)"
      using that d by simp_all
    with linked_one [OF l this that(3)] show ?thesis by (simp add: prod_eq_iff)
  qed
  then have "inj_on (st_refresh_token_hash \<circ> snd) (set (tm_sessions m))" by (auto intro: inj_onI)
  with d show ?thesis by (simp add: distinct_map)
qed

lemma linked_pointers:
  assumes "distinct (map fst ys)" "distinct (map (st_refresh_token_hash \<circ> snd) ys)"
  shows "linked (map_of ys) (map_of (map pointer ys))"
proof -
  have "distinct (map fst (map pointer ys))" using assms(2) by (simp add: pointer_def comp_def)
  with assms(1) show ?thesis by (force simp: linked_def pointer_def)
qed

lemma reload_sessions:
  assumes "tables_sound m"
  shows "load_session_tokens now (Some (map save_session (tm_sessions m))) =
    (let ys = map (apsnd reloaded) (filter (\<lambda>p. survives now (snd p)) (tm_sessions m))
     in \<lparr>tm_sessions = ys, tm_refresh_index = map pointer ys, tm_dirty = False\<rparr>)"
  using assms one_refresh_each [OF assms]
  by (simp add: load_session_tokens_def reload_run tables_sound_def empty_manager_def Let_def)

lemma ok_reload:
  assumes "manager_ok cfg logins m"
  shows "manager_ok cfg logins (load_session_tokens now (Some (map save_session (tm_sessions m))))"
proof -
  let ?ys = "map (apsnd reloaded) (filter (\<lambda>p. survives now (snd p)) (tm_sessions m))"
  have sound: "tables_sound m" and each: "list_all sound_session (tm_sessions m)"
      "list_all (granted cfg logins \<circ> snd) (tm_sessions m)" and d: "distinct (map fst (tm_sessions m))"
    using assms by (simp_all add: manager_ok_def tables_sound_def)
  have fst: "map fst ?ys = map fst (filter (\<lambda>p. survives now (snd p)) (tm_sessions m))"
    and rh: "map (st_refresh_token_hash \<circ> snd) ?ys =
      map (st_refresh_token_hash \<circ> snd) (filter (\<lambda>p. survives now (snd p)) (tm_sessions m))"
    by (simp_all add: reloaded_def)
  have "distinct (map fst ?ys)" "distinct (map (st_refresh_token_hash \<circ> snd) ?ys)"
    unfolding fst rh using d one_refresh_each [OF sound] by (simp_all add: distinct_map_filter)
  moreover from this have "distinct (map fst (map pointer ?ys))" by (simp add: pointer_def comp_def)
  moreover have "list_all sound_session ?ys"
    using each(1) whole_seconds_mono by (auto simp: list_all_iff sound_session_def reloaded_def)
  moreover have "list_all (granted cfg logins \<circ> snd) ?ys"
    using each(2) by (force simp: list_all_iff intro: granted_reloaded)
  ultimately show ?thesis
    using linked_pointers [of ?ys] by (simp add: reload_sessions [OF sound] manager_ok_def tables_sound_def Let_def)
qed

subsection \<open>The service over time\<close>

text \<open>
  The manager, the state file and, as history, what happened so far, the newest event first. Every operation may be
  followed by a write of the state file that succeeds, or by none: a failed write, and an operation that does not
  try, change nothing. A restart keeps only the state file, if it can be read.
\<close>

datatype auth_event =
    LoggedIn time_point token_draw login_request
  | Rotated string token_draw
  | Revoked string
  | LoggedOut string string
  | Restarted

fun logins_of :: "auth_event list \<Rightarrow> (time_point \<times> login_request) list" where
  "logins_of [] = []"
| "logins_of (LoggedIn at draw req # log) = (at, req) # logins_of log"
| "logins_of (_ # log) = logins_of log"

record auth_service =
  sv_manager :: token_manager
  sv_file :: "session_node list option"
  sv_log :: "auth_event list"

abbreviation sv_logins :: "auth_service \<Rightarrow> (time_point \<times> login_request) list" where
  "sv_logins s \<equiv> logins_of (sv_log s)"

definition log_rotation :: "string \<Rightarrow> token_draw \<Rightarrow> token_bundle option \<Rightarrow> auth_event list \<Rightarrow> auth_event list" where
  "log_rotation rt draw result log = (case result of None \<Rightarrow> log | Some _ \<Rightarrow> Rotated rt draw # log)"

lemma logins_of_rotation [simp]: "logins_of (log_rotation rt draw result log) = logins_of log"
  by (simp add: log_rotation_def split: option.splits)

definition persist :: "bool \<Rightarrow> auth_service \<Rightarrow> auth_service" where
  "persist written s =
     (case save_session_tokens written (sv_manager s) (sv_file s) of (m, f) \<Rightarrow> s\<lparr>sv_manager := m, sv_file := f\<rparr>)"

inductive auth_step :: "(string \<Rightarrow> string) \<Rightarrow> auth_config \<Rightarrow> auth_service \<Rightarrow> auth_service \<Rightarrow> bool" for hash cfg where
  login: "fresh_draw hash draw (sv_manager s) \<Longrightarrow>
    auth_step hash cfg s (persist w (s\<lparr>sv_manager := fst (issue_session_tokens hash cfg now draw req (sv_manager s)),
      sv_log := LoggedIn now draw req # sv_log s\<rparr>))"
| refresh: "fresh_draw hash draw (sv_manager s) \<Longrightarrow>
    auth_step hash cfg s (persist w (s\<lparr>sv_manager := fst (refresh_session_tokens hash cfg now draw rt ua addr (sv_manager s)),
      sv_log := log_rotation rt draw (snd (refresh_session_tokens hash cfg now draw rt ua addr (sv_manager s))) (sv_log s)\<rparr>))"
| validate: "auth_step hash cfg s (persist w (s\<lparr>sv_manager := fst (validate_session_token_role hash now token (sv_manager s))\<rparr>))"
| username: "auth_step hash cfg s (persist w (s\<lparr>sv_manager := fst (get_username_for_token hash now token (sv_manager s))\<rparr>))"
| revoke: "auth_step hash cfg s (persist w (s\<lparr>sv_manager := fst (revoke_session_by_hash h (sv_manager s)), sv_log := Revoked h # sv_log s\<rparr>))"
| logout: "auth_step hash cfg s (persist w (s\<lparr>sv_manager := logout hash st rt (sv_manager s), sv_log := LoggedOut st rt # sv_log s\<rparr>))"
| restart: "auth_step hash cfg s (persist w (s\<lparr>sv_manager := load_session_tokens now (if readable then sv_file s else None),
    sv_log := Restarted # sv_log s\<rparr>))"

inductive_cases auth_stepE: "auth_step hash cfg s t"

definition auth_init :: "auth_service \<Rightarrow> bool" where
  "auth_init s \<longleftrightarrow> sv_manager s = empty_manager \<and> sv_file s = None \<and> sv_log s = []"

definition file_ok :: "auth_config \<Rightarrow> (time_point \<times> login_request) list \<Rightarrow> session_node list option \<Rightarrow> bool" where
  "file_ok cfg logins f \<longleftrightarrow> (\<forall>nodes. f = Some nodes \<longrightarrow> (\<exists>m. manager_ok cfg logins m \<and> nodes = map save_session (tm_sessions m)))"

definition service_ok :: "auth_config \<Rightarrow> auth_service \<Rightarrow> bool" where
  "service_ok cfg s \<longleftrightarrow> manager_ok cfg (sv_logins s) (sv_manager s) \<and> file_ok cfg (sv_logins s) (sv_file s)"

lemma ok_persist:
  "manager_ok cfg (sv_logins s) (sv_manager s) \<Longrightarrow> file_ok cfg (sv_logins s) (sv_file s) \<Longrightarrow> service_ok cfg (persist w s)"
  by (auto simp: service_ok_def persist_def save_session_tokens_def file_ok_def)

lemma file_ok_more: "file_ok cfg logins f \<Longrightarrow> file_ok cfg (l # logins) f"
  by (auto simp: file_ok_def intro: manager_ok_more)

lemma ok_empty: "manager_ok cfg logins empty_manager"
  by (simp add: manager_ok_def sound_empty) (simp add: empty_manager_def)

lemma ok_load: "file_ok cfg logins f \<Longrightarrow> manager_ok cfg logins (load_session_tokens now f)"
proof (cases f)
  case None
  then show ?thesis by (simp add: load_session_tokens_def ok_empty)
next
  case (Some nodes)
  moreover assume "file_ok cfg logins f"
  ultimately show ?thesis by (auto simp: file_ok_def intro: ok_reload)
qed

lemma service_step: "service_ok cfg s \<Longrightarrow> auth_step hash cfg s t \<Longrightarrow> service_ok cfg t"
  by (erule auth_stepE)
    (auto simp: service_ok_def validate_session_token_role_def get_username_for_token_def
      intro!: ok_persist [unfolded service_ok_def] ok_login ok_refresh ok_look_up ok_revoke ok_logout ok_load file_ok_more
      simp: file_ok_def [of _ _ None])

interpretation auth_system: step_system auth_init "auth_step hash cfg" "service_ok cfg" for hash cfg
proof unfold_locales
  show "auth_init s \<Longrightarrow> service_ok cfg s" for s by (simp add: auth_init_def service_ok_def ok_empty file_ok_def)
qed (rule service_step)

definition auth_reachable :: "(string \<Rightarrow> string) \<Rightarrow> auth_config \<Rightarrow> auth_service \<Rightarrow> bool" where
  "auth_reachable hash cfg s \<longleftrightarrow> (\<exists>s0. auth_init s0 \<and> (auth_step hash cfg)\<^sup>*\<^sup>* s0 s)"

lemma auth_reachable_ok: "auth_reachable hash cfg s \<Longrightarrow> service_ok cfg s"
  by (auto simp: auth_reachable_def intro: auth_system.reachable_inv)

lemma auth_reachable_step: "auth_reachable hash cfg s \<Longrightarrow> auth_step hash cfg s t \<Longrightarrow> auth_reachable hash cfg t"
  by (auto simp: auth_reachable_def intro: rtranclp.rtrancl_into_rtrancl)

subsection \<open>Properties\<close>

lemma reachable_manager: "auth_reachable hash cfg s \<Longrightarrow> manager_ok cfg (sv_logins s) (sv_manager s)"
  by (drule auth_reachable_ok) (simp add: service_ok_def)

text \<open>
  C16. Through any sequence of logins, rotations, validations, revocations, logouts and restarts, with writes of the
  state file failing at will, the index of refresh tokens names exactly the sessions that hold them, no session
  hash occurs twice and no session token outlives its refresh token, as long as the random tokens are new.
\<close>

theorem refresh_index_exact:
  assumes "auth_reachable hash cfg s"
  shows "distinct (map fst (tm_sessions (sv_manager s)))
    \<and> (\<forall>r h. map_of (tm_refresh_index (sv_manager s)) r = Some h \<longleftrightarrow>
        (\<exists>t. map_of (tm_sessions (sv_manager s)) h = Some t \<and> st_refresh_token_hash t = r))
    \<and> (\<forall>(h, t) \<in> set (tm_sessions (sv_manager s)). st_expires_at t \<le> st_refresh_expires_at t)"
  using reachable_manager [OF assms]
  by (auto simp: manager_ok_def tables_sound_def linked_def list_all_iff sound_session_def)

lemma validated_session:
  "validate_session_token_role hash now token m = (m', Some role) \<Longrightarrow>
    \<exists>t. map_of (tm_sessions m) (hash token) = Some t \<and> st_role t = role \<and> now \<le> st_expires_at t \<and> now \<le> st_refresh_expires_at t"
  by (auto simp: validate_session_token_role_def look_up_session_def Let_def map_prod_def split: option.splits if_splits prod.splits)

lemma no_refresh: "map_of (tm_refresh_index m) (hash rt) = None \<Longrightarrow> snd (refresh_session_tokens hash cfg now draw rt ua addr m) = None"
  by (simp add: refresh_session_tokens_def)

lemma no_session: "map_of (tm_sessions m) (hash token) = None \<Longrightarrow> snd (validate_session_token_role hash now token m) = None"
  by (simp add: validate_session_token_role_def look_up_session_def)

lemma map_of_reloaded: "map_of (map (apsnd reloaded) xs) k = map_option reloaded (map_of xs k)"
  by (induction xs) auto

text \<open>
  A refresh token works once. Afterwards it is refused for good, so is the session token it belonged to, and
  the new session token is valid at once, for the same user in the same role, with the end of the session where
  the login put it.
\<close>

theorem rotation_single_use:
  assumes reach: "auth_reachable hash cfg s" and fresh: "fresh_draw hash draw (sv_manager s)" and ttl: "0 \<le> ac_session_token_ttl cfg"
    and refresh: "refresh_session_tokens hash cfg now draw rt ua addr (sv_manager s) = (m', Some b)"
  shows "snd (refresh_session_tokens hash cfg now2 draw2 rt ua2 addr2 m') = None
    \<and> (\<exists>h t t'. map_of (tm_sessions (sv_manager s)) h = Some t \<and> st_refresh_token_hash t = hash rt
        \<and> (hash token = h \<longrightarrow> snd (validate_session_token_role hash now2 token m') = None)
        \<and> snd (validate_session_token_role hash now (tb_session_token b) m') = Some (st_role t)
        \<and> map_of (tm_sessions m') (hash (tb_session_token b)) = Some t'
        \<and> map_of (tm_refresh_index m') (hash (tb_refresh_token b)) = Some (hash (tb_session_token b))
        \<and> st_username t' = st_username t \<and> st_role t' = st_role t \<and> st_refresh_expires_at t' = st_refresh_expires_at t)"
  using reachable_manager [OF reach]
proof (cases rule: refresh_cases [where hash = hash and now = now and draw = draw and rt = rt and ua = ua and addr = addr])
  case (rotation h t b')
  let ?t' = "rotated hash cfg now draw ua addr t"
  have keys: "hash (td_session draw) \<noteq> h" "hash (td_refresh draw) \<noteq> hash rt"
    "hash (td_session draw) \<notin> fst ` set (tm_sessions (sv_manager s))"
    using fresh rotation(1,2) by (auto simp: fresh_draw_def rev_image_eqI dest!: map_of_SomeD)
  have b: "tb_session_token b = td_session draw" "tb_refresh_token b = td_refresh draw" and m':
      "map_of (tm_sessions m') = (map_of (tm_sessions (sv_manager s)))(h := None, hash (td_session draw) \<mapsto> ?t')"
      "map_of (tm_refresh_index m') = (map_of (tm_refresh_index (sv_manager s)))(hash rt := None, hash (td_refresh draw) \<mapsto> hash (td_session draw))"
    using rotation(3,5,6,7) refresh keys by auto
  have live: "now \<le> st_expires_at ?t'" "now \<le> st_refresh_expires_at ?t'"
    using rotation(4) ttl by (simp_all add: rotated_def second_def)
  then have "snd (validate_session_token_role hash now (tb_session_token b) m') = Some (st_role t)"
    using m'(1) b(1) by (simp add: validate_session_token_role_def look_up_session_def Let_def not_less [symmetric])
      (simp add: rotated_def second_def)
  moreover have "snd (refresh_session_tokens hash cfg now2 draw2 rt ua2 addr2 m') = None"
    using m'(2) keys by (intro no_refresh) simp
  moreover have "hash token = h \<longrightarrow> snd (validate_session_token_role hash now2 token m') = None"
    using m'(1) keys by (auto intro!: no_session)
  ultimately show ?thesis
    using rotation(2,3) m' b keys by (auto simp: rotated_def)
qed (use refresh in simp_all)

text \<open>
  C15. A revoked session is gone: its session token and its refresh token are refused, all other sessions stay as
  they were, and once the state file is written it does not come back with a restart.
\<close>

theorem revoked_session_refused:
  assumes reach: "auth_reachable hash cfg s" and held: "map_of (tm_sessions (sv_manager s)) h = Some t"
    and revoked: "revoke_session_by_hash h (sv_manager s) = (m', removed)"
  shows "removed \<and> (hash token = h \<longrightarrow> snd (validate_session_token_role hash now token m') = None)
    \<and> (hash rt = st_refresh_token_hash t \<longrightarrow> snd (refresh_session_tokens hash cfg now draw rt ua addr m') = None)
    \<and> (k \<noteq> h \<longrightarrow> map_of (tm_sessions m') k = map_of (tm_sessions (sv_manager s)) k)
    \<and> map_of (tm_sessions (load_session_tokens now (snd (save_session_tokens True m' f)))) h = None"
proof -
  note ok = reachable_manager [OF reach]
  have m': "m' = drop_session h t (sv_manager s)" "removed" using revoked held by (simp_all add: revoke_session_by_hash_def)
  have tables: "map_of (tm_sessions m') = (map_of (tm_sessions (sv_manager s)))(h := None)"
    "map_of (tm_refresh_index m') (st_refresh_token_hash t) = None" "tm_dirty m'"
    using manager_ok_at [OF ok held] by (simp_all add: m' drop_session_def sound_session_def)
  have "tables_sound m'" using drop_session_ok [OF ok held] by (simp add: m' manager_ok_def)
  moreover have "h \<notin> fst ` set (tm_sessions m')"
    using tables(1) by (metis fun_upd_same map_of_eq_None_iff)
  ultimately have "map_of (tm_sessions (load_session_tokens now (snd (save_session_tokens True m' f)))) h = None"
    using tables(3) by (simp add: save_session_tokens_def reload_sessions map_of_eq_None_iff Let_def image_image) (auto simp: rev_image_eqI)
  then show ?thesis using tables m'(2) by (simp add: no_session no_refresh)
qed

text \<open>
  A restart after a successful write keeps exactly the sessions whose refresh token has not expired, with the
  same user, role and tokens, and the times cut to whole seconds: a restart never lengthens a session.
\<close>

theorem restart_keeps_live_sessions:
  assumes reach: "auth_reachable hash cfg s" and dirty: "tm_dirty (sv_manager s)"
  shows "map_of (tm_sessions (load_session_tokens now (snd (save_session_tokens True (sv_manager s) f)))) h =
    (case map_of (tm_sessions (sv_manager s)) h of
       None \<Rightarrow> None
     | Some t \<Rightarrow> if now \<le> whole_seconds (st_refresh_expires_at t)
         then Some (t\<lparr>st_created_at := whole_seconds (st_created_at t), st_expires_at := whole_seconds (st_expires_at t),
           st_refresh_expires_at := whole_seconds (st_refresh_expires_at t), st_last_seen := whole_seconds (st_last_seen t)\<rparr>)
         else None)"
proof -
  have sound: "tables_sound (sv_manager s)" using reachable_manager [OF reach] by (simp add: manager_ok_def)
  have "map_of (tm_sessions (load_session_tokens now (snd (save_session_tokens True (sv_manager s) f)))) h =
      map_option reloaded (map_of (filter (\<lambda>p. survives now (snd p)) (tm_sessions (sv_manager s))) h)"
    by (simp add: save_session_tokens_def dirty reload_sessions [OF sound] Let_def map_of_reloaded)
  also have "map_of (filter (\<lambda>p. survives now (snd p)) (tm_sessions (sv_manager s))) h =
      (case map_of (tm_sessions (sv_manager s)) h of None \<Rightarrow> None | Some t \<Rightarrow> if survives now t then Some t else None)"
    by (rule map_of_filter_snd) (use sound in \<open>simp add: tables_sound_def\<close>)
  finally show ?thesis
    by (cases "map_of (tm_sessions (sv_manager s)) h") (simp_all add: survives_def reloaded_def not_less)
qed

subsection \<open>An example\<close>

text \<open>One login of a stats user, and the state it leaves.\<close>

definition example_hash :: "string \<Rightarrow> string" where "example_hash token = CHR ''h'' # token"

definition example_config :: auth_config where
  "example_config = \<lparr>ac_session_token_ttl = 3600, ac_remember_me_refresh_token_ttl = 0\<rparr>"

definition example_login :: login_request where
  "example_login = \<lparr>lr_username = ''ann'', lr_session_ttl = 0, lr_refresh_ttl = 0, lr_user_agent = [], lr_remote_address = ''::1'',
     lr_remember_me = False, lr_role = RoleStats\<rparr>"

definition example_draw :: "char \<Rightarrow> token_draw" where
  "example_draw c = \<lparr>td_session = [CHR ''s'', c], td_refresh = [CHR ''r'', c], td_rotation = [c]\<rparr>"

definition example_token :: session_token where
  "example_token = \<lparr>st_username = ''ann'', st_created_at = 0, st_expires_at = 3600000000000, st_refresh_expires_at = 86400000000000,
     st_user_agent = [], st_remote_address = ''::1'', st_last_seen = 0, st_remember_me = False, st_device_label = ''::1'',
     st_refresh_token_hash = ''hra'', st_rotation_id = ''a'', st_role = RoleStats\<rparr>"

definition example_service :: auth_service where
  "example_service = \<lparr>sv_manager = \<lparr>tm_sessions = [(''hsa'', example_token)], tm_refresh_index = [(''hra'', ''hsa'')], tm_dirty = True\<rparr>,
     sv_file = None, sv_log = [LoggedIn 0 (example_draw CHR ''a'') example_login]\<rparr>"

lemmas example_simps = example_hash_def example_config_def example_login_def example_draw_def example_token_def example_service_def

lemma example_issue:
  "fst (issue_session_tokens example_hash example_config 0 (example_draw CHR ''a'') example_login empty_manager) = sv_manager example_service"
  by (simp add: issue_session_tokens_def session_lifetimes_def default_refresh_token_ttl_def remember_me_token_ttl_def
      cleanup_expired_session_tokens_def derive_device_label_def al_emplace_def al_erase_def al_put_def empty_manager_def
      second_def Let_def example_simps)

lemma example_reachable: "auth_reachable example_hash example_config example_service"
proof -
  let ?s0 = "\<lparr>sv_manager = empty_manager, sv_file = None, sv_log = []\<rparr>"
  have "auth_step example_hash example_config ?s0 (persist False (?s0\<lparr>sv_manager := fst (issue_session_tokens example_hash example_config 0
      (example_draw CHR ''a'') example_login (sv_manager ?s0)), sv_log := LoggedIn 0 (example_draw CHR ''a'') example_login # sv_log ?s0\<rparr>))"
    by (rule auth_step.login) (simp add: fresh_draw_def empty_manager_def example_simps)
  moreover have "persist False (?s0\<lparr>sv_manager := fst (issue_session_tokens example_hash example_config 0
      (example_draw CHR ''a'') example_login (sv_manager ?s0)), sv_log := LoggedIn 0 (example_draw CHR ''a'') example_login # sv_log ?s0\<rparr>) = example_service"
    by (simp add: example_issue) (simp add: persist_def save_session_tokens_def example_service_def)
  moreover have "auth_init ?s0" by (simp add: auth_init_def)
  ultimately show ?thesis unfolding auth_reachable_def by (metis r_into_rtranclp)
qed

theorem refresh_index_exact_witness:
  "map_of (tm_refresh_index (sv_manager example_service)) ''hra'' = Some ''hsa''
    \<and> st_expires_at example_token \<le> st_refresh_expires_at example_token"
  using refresh_index_exact [OF example_reachable] by (simp add: example_simps)

text \<open>The decision for the stats session of the example; nothing but session tokens is configured.\<close>

definition example_env :: auth_env where
  "example_env = \<lparr>ae_hash = example_hash, ae_regex_match = (\<lambda>p s. p = s), ae_api_tokens = [], ae_origin_allowed = (\<lambda>a. a = ''::1''),
     ae_username = ''admin'', ae_creds_locked = False, ae_verify_password = (\<lambda>u p. False), ae_base64_decode = (\<lambda>s. None)\<rparr>"

lemma example_allowed:
  "check_auth example_env 0 ''::1'' ''Session sa'' ''/api/sessions'' ''GET'' (sv_manager example_service) = (sv_manager example_service, Allowed)"
  by (simp add: check_auth_def base_path_of_def starts_with_def check_session_auth_def validate_session_token_role_def
      look_up_session_def stats_role_allows_def example_env_def second_def Let_def example_simps)

lemma example_refresh:
  "\<exists>m' b. refresh_session_tokens example_hash example_config 7 (example_draw CHR ''b'') ''ra'' [] [] (sv_manager example_service) = (m', Some b)
     \<and> tb_session_token b = ''sb''"
  by (simp add: refresh_session_tokens_def Let_def example_simps)

theorem rotation_single_use_witness:
  "\<exists>m'. snd (refresh_session_tokens example_hash example_config 8 (example_draw CHR ''c'') ''ra'' [] [] m') = None
     \<and> snd (validate_session_token_role example_hash 7 ''sb'' m') = Some RoleStats
     \<and> snd (validate_session_token_role example_hash 8 ''sa'' m') = None"
proof -
  obtain m' b where b: "refresh_session_tokens example_hash example_config 7 (example_draw CHR ''b'') ''ra'' [] [] (sv_manager example_service) = (m', Some b)"
    "tb_session_token b = ''sb''" using example_refresh by blast
  have "fresh_draw example_hash (example_draw CHR ''b'') (sv_manager example_service)" "0 \<le> ac_session_token_ttl example_config"
    by (simp_all add: fresh_draw_def example_simps)
  from rotation_single_use [OF example_reachable this b(1), where ?now2.0 = 8 and ?draw2.0 = "example_draw CHR ''c''" and ?ua2.0 = "[]" and ?addr2.0 = "[]" and token = "''sa''"]
  show ?thesis using b(2) by (auto simp: example_hash_def example_service_def example_token_def split: if_splits)
qed

theorem revoked_session_refused_witness:
  "case revoke_session_by_hash ''hsa'' (sv_manager example_service) of (m', removed) \<Rightarrow>
     removed \<and> snd (validate_session_token_role example_hash 5 ''sa'' m') = None
     \<and> snd (refresh_session_tokens example_hash example_config 5 (example_draw CHR ''b'') ''ra'' [] [] m') = None"
proof -
  obtain m' r where mr: "revoke_session_by_hash ''hsa'' (sv_manager example_service) = (m', r)" by fastforce
  have "map_of (tm_sessions (sv_manager example_service)) ''hsa'' = Some example_token" by (simp add: example_service_def)
  from revoked_session_refused [OF example_reachable this mr, where token = "''sa''" and rt = "''ra''" and now = 5
      and draw = "example_draw CHR ''b''" and ua = "[]" and addr = "[]"]
  show ?thesis by (simp add: mr example_hash_def example_token_def)
qed

theorem restart_keeps_live_sessions_witness:
  "map_of (tm_sessions (load_session_tokens 86400000000000 (snd (save_session_tokens True (sv_manager example_service) None)))) ''hsa'' =
    Some example_token"
proof -
  have "tm_dirty (sv_manager example_service)" by (simp add: example_service_def)
  from restart_keeps_live_sessions [OF example_reachable this, of 86400000000000 None "''hsa''"]
  show ?thesis by (simp add: example_service_def example_token_def whole_seconds_def to_seconds_def second_def)
qed

text \<open>
  The list for stats sessions lets every path under \<^verbatim>\<open>/api/auth/\<close> pass, with every method, where its comment names
  only the status and the refresh: a stats session can revoke any other session, an administrator's too.
\<close>

theorem stats_session_revokes_admin:
  "\<exists>m m'. map_of (tm_sessions m) ''hsz'' = Some (example_token\<lparr>st_role := RoleAdmin, st_refresh_token_hash := ''hrz''\<rparr>)
     \<and> snd (validate_session_token_role example_hash 0 ''sa'' m) = Some RoleStats
     \<and> snd (validate_session_token_role example_hash 0 ''sz'' m) = Some RoleAdmin
     \<and> revokeSession example_env 0 ''::1'' ''Session sa'' ''hsz'' m = (m', Allowed, True)
     \<and> snd (validate_session_token_role example_hash 0 ''sz'' m') = None"
proof -
  let ?m = "\<lparr>tm_sessions = [(''hsa'', example_token), (''hsz'', example_token\<lparr>st_role := RoleAdmin, st_refresh_token_hash := ''hrz''\<rparr>)],
    tm_refresh_index = [(''hra'', ''hsa''), (''hrz'', ''hsz'')], tm_dirty = False\<rparr>"
  have "revokeSession example_env 0 ''::1'' ''Session sa'' ''hsz'' ?m =
     (\<lparr>tm_sessions = [(''hsa'', example_token)], tm_refresh_index = [(''hra'', ''hsa'')], tm_dirty = True\<rparr>, Allowed, True)"
    by (simp add: revokeSession_def check_auth_def base_path_of_def starts_with_def check_session_auth_def
      validate_session_token_role_def look_up_session_def stats_role_allows_def revoke_session_by_hash_def drop_session_def
      al_erase_def example_env_def second_def Let_def example_simps)
  then show ?thesis
    by (intro exI [of _ ?m] exI) (auto simp: validate_session_token_role_def look_up_session_def second_def Let_def example_simps)
qed

end
