(* ===== verification/Api_Tokens.thy ===== *)
theory Api_Tokens
  imports Http_Auth
begin

text \<open>
  The store of API tokens and the login (\<^verbatim>\<open>src/http_auth.cpp\<close>): creating a token from the scopes of a request, revoking it,
  writing the store to the state file and reading it back; the login with its redirect target; the tokens a request
  carries in its cookies. The request body is taken as parsed: a scope with its path and its methods, \<open>None\<close>
  where one is missing or is no array. Cookie escapes are a parameter.
\<close>

subsection \<open>The store\<close>

record api_token =
  at_path_methods :: scopes
  at_username :: string
  at_created_at :: time_point

type_synonym token_store = "(string \<times> api_token) list"

record scope_json =
  sj_path :: "string option"
  sj_methods :: "string list option"

definition upper_char :: "char \<Rightarrow> char" where
  "upper_char c = (if 97 \<le> (of_char c :: nat) \<and> (of_char c :: nat) \<le> 122 then char_of (of_char c - 32 :: nat) else c)"

definition to_upper :: "string \<Rightarrow> string" where "to_upper = map upper_char"

fun parse_json_scopes :: "scope_json list \<Rightarrow> scopes \<Rightarrow> scopes option" where
  "parse_json_scopes [] acc = Some acc"
| "parse_json_scopes (s # rest) acc =
     (case (sj_path s, sj_methods s) of
        (Some path, Some methods) \<Rightarrow> parse_json_scopes rest (al_put path (remdups (map to_upper methods)) acc)
      | _ \<Rightarrow> None)"

text \<open>\<open>generate_api_token\<close> and \<open>create_api_token\<close>; \<open>None\<close> for a body without an array of scopes.\<close>

definition generate_api_token ::
    "(string \<Rightarrow> string) \<Rightarrow> time_point \<Rightarrow> string \<Rightarrow> scope_json list option \<Rightarrow> string \<Rightarrow> token_store \<Rightarrow> token_store \<times> string option" where
  "generate_api_token hash now token body username store =
     (case body of
        None \<Rightarrow> (store, None)
      | Some scopes_json \<Rightarrow> (case parse_json_scopes scopes_json [] of
          None \<Rightarrow> (store, None)
        | Some path_methods \<Rightarrow>
            (al_put (hash token) \<lparr>at_path_methods = path_methods, at_username = username, at_created_at = now\<rparr> store, Some token)))"

definition revoke_api_token_by_hash :: "string \<Rightarrow> token_store \<Rightarrow> token_store \<times> bool" where
  "revoke_api_token_by_hash h store =
     (if h = [] then (store, False) else if h \<in> fst ` set store then (al_erase h store, True) else (store, False))"

record token_node =
  tn_hash :: string
  tn_username :: string
  tn_created_at :: int
  tn_scopes :: scopes

definition save_api_tokens :: "token_store \<Rightarrow> token_node list" where
  "save_api_tokens store = map (\<lambda>(h, info). \<lparr>tn_hash = h, tn_username = at_username info,
     tn_created_at = to_seconds (at_created_at info), tn_scopes = at_path_methods info\<rparr>) store"

definition parse_scope :: "string \<times> string list \<Rightarrow> (string \<times> string list) option" where
  "parse_scope sc = (if fst sc = [] then None else if snd sc = [] then None else Some (fst sc, remdups (snd sc)))"

definition build_scope_map :: "scopes \<Rightarrow> scopes" where
  "build_scope_map nodes = foldl (\<lambda>out sc. case parse_scope sc of None \<Rightarrow> out | Some (path, methods) \<Rightarrow> al_emplace path methods out) [] nodes"

definition load_token_node :: "token_store \<Rightarrow> token_node \<Rightarrow> token_store" where
  "load_token_node store node =
     (if tn_hash node = [] then store
      else al_emplace (tn_hash node) \<lparr>at_path_methods = build_scope_map (tn_scopes node), at_username = tn_username node,
        at_created_at = tn_created_at node * second\<rparr> store)"

definition load_api_tokens :: "token_node list option \<Rightarrow> token_store" where
  "load_api_tokens file = (case file of None \<Rightarrow> [] | Some nodes \<Rightarrow> foldl load_token_node [] nodes)"

text \<open>What \<^verbatim>\<open>authenticate_token\<close> sees of the store.\<close>

definition store_scopes :: "token_store \<Rightarrow> (string \<times> scopes) list" where
  "store_scopes store = map (apsnd at_path_methods) store"

subsection \<open>Login and cookies\<close>

definition safe_redirect :: "string \<Rightarrow> string" where
  "safe_redirect url =
     (if url \<noteq> [] \<and> hd url = CHR ''/'' then
        let lower = to_lower url
        in if \<not> sublist ''://'' lower \<and> \<not> sublist ''%2f'' lower \<and> \<not> sublist [CHR 0x5C] lower \<and> \<not> sublist ''/..'' lower
              \<and> \<not> (length url > 1 \<and> url ! 1 = CHR ''/'')
           then if map (\<lambda>c. if c = CHR 0x5C then CHR ''/'' else c) url = url then url else ''/''
           else ''/''
      else ''/'')"

definition session_login ::
    "auth_env \<Rightarrow> auth_config \<Rightarrow> time_point \<Rightarrow> token_draw \<Rightarrow> string \<Rightarrow> string \<Rightarrow> string \<Rightarrow> bool \<Rightarrow> string \<Rightarrow> string \<Rightarrow> session_role
      \<Rightarrow> token_manager \<Rightarrow> token_manager \<times> auth_result \<times> (token_bundle \<times> string) option" where
  "session_login env cfg now draw username password redirect_url remember_me user_agent remote_address role m =
     (if ae_username env = [] \<and> ae_creds_locked env then (m, Unavailable, None)
      else if \<not> ae_verify_password env username password then (m, Unauthorized, None)
      else case issue_session_tokens (ae_hash env) cfg now draw
             \<lparr>lr_username = username, lr_session_ttl = ac_session_token_ttl cfg, lr_refresh_ttl = 0, lr_user_agent = user_agent,
              lr_remote_address = remote_address, lr_remember_me = remember_me, lr_role = role\<rparr> m of
        (m', bundle) \<Rightarrow> (m', Allowed, Some (bundle, safe_redirect redirect_url)))"

text \<open>The text after the first place where the pattern stands.\<close>

fun after_first :: "string \<Rightarrow> string \<Rightarrow> string option" where
  "after_first pat [] = (if pat = [] then Some [] else None)"
| "after_first pat (c # cs) = (if prefix pat (c # cs) then Some (drop (length pat) (c # cs)) else after_first pat cs)"

definition extract_cookie_value :: "(string \<Rightarrow> string) \<Rightarrow> string option \<Rightarrow> string \<Rightarrow> string" where
  "extract_cookie_value cookie_unescape cookie_header name =
     (case cookie_header of
        None \<Rightarrow> []
      | Some cookies \<Rightarrow> (case after_first (name @ ''='') cookies of
          None \<Rightarrow> []
        | Some rest \<Rightarrow> cookie_unescape (takeWhile (\<lambda>c. c \<noteq> CHR '';'') rest)))"

definition session_cookie_name :: string where "session_cookie_name = ''__Host-sunshine_session''"
definition refresh_cookie_name :: string where "refresh_cookie_name = ''__Host-sunshine_refresh''"

subsection \<open>Properties of the store\<close>

definition may :: "(string \<Rightarrow> string \<Rightarrow> bool) \<Rightarrow> scopes \<Rightarrow> string \<Rightarrow> string \<Rightarrow> bool" where
  "may regex_match scopes path verb \<longleftrightarrow>
     (\<exists>(scope_path, methods) \<in> set scopes. regex_match (anchored scope_path) path \<and> (\<exists>m \<in> set methods. iequals m verb))"

lemma authenticate_store:
  "authenticate_token hash regex_match (store_scopes store) token path verb \<longleftrightarrow>
    (\<exists>info. map_of store (hash token) = Some info \<and> may regex_match (at_path_methods info) path verb)"
proof -
  have "map_of (store_scopes store) k = map_option at_path_methods (map_of store k)" for k
    by (induction store) (auto simp: store_scopes_def)
  then show ?thesis
    by (auto simp: authenticate_token_def may_def list_ex_iff split: option.splits)
qed

lemma scope_map_run:
  assumes "distinct (map fst nodes)" "fst ` set out \<inter> fst ` set nodes = {}"
  shows "foldl (\<lambda>out sc. case parse_scope sc of None \<Rightarrow> out | Some (path, methods) \<Rightarrow> al_emplace path methods out) out nodes =
    out @ map (apsnd remdups) (filter (\<lambda>sc. fst sc \<noteq> [] \<and> snd sc \<noteq> []) nodes)"
  using assms
proof (induction nodes arbitrary: out)
  case (Cons sc nodes)
  then show ?case by (cases sc) (auto simp: parse_scope_def al_emplace_def)
qed simp

lemma scope_map_may:
  assumes "distinct (map fst nodes)"
  shows "may regex_match (build_scope_map nodes) path verb \<longleftrightarrow> may regex_match (filter (\<lambda>sc. fst sc \<noteq> []) nodes) path verb"
proof -
  have "build_scope_map nodes = map (apsnd remdups) (filter (\<lambda>sc. fst sc \<noteq> [] \<and> snd sc \<noteq> []) nodes)"
    using scope_map_run [OF assms, of "[]"] by (simp add: build_scope_map_def)
  then show ?thesis by (force simp: may_def)
qed

definition store_ok :: "token_store \<Rightarrow> bool" where
  "store_ok store \<longleftrightarrow> distinct (map fst store) \<and> [] \<notin> fst ` set store
     \<and> (\<forall>(h, info) \<in> set store. distinct (map fst (at_path_methods info)))"

lemma parse_json_distinct: "distinct (map fst acc) \<Longrightarrow> parse_json_scopes ss acc = Some sc \<Longrightarrow> distinct (map fst sc)"
  by (induction ss acc rule: parse_json_scopes.induct) (auto split: option.splits)

lemma generate_ok:
  assumes "store_ok store" "hash token \<noteq> []"
  shows "store_ok (fst (generate_api_token hash now token body username store))"
  using assms parse_json_distinct [of "[]"]
  by (auto simp: generate_api_token_def store_ok_def al_put_def al_erase_def distinct_map_filter split: option.splits)

lemma revoke_ok: "store_ok store \<Longrightarrow> store_ok (fst (revoke_api_token_by_hash h store))"
  by (auto simp: revoke_api_token_by_hash_def store_ok_def al_erase_def distinct_map_filter)

definition reloaded_info :: "api_token \<Rightarrow> api_token" where
  "reloaded_info info = info\<lparr>at_path_methods := build_scope_map (at_path_methods info), at_created_at := whole_seconds (at_created_at info)\<rparr>"

lemma load_run:
  assumes "distinct (map fst xs)" "[] \<notin> fst ` set xs" "fst ` set store \<inter> fst ` set xs = {}"
  shows "foldl load_token_node store (save_api_tokens xs) = store @ map (apsnd reloaded_info) xs"
  using assms
proof (induction xs arbitrary: store)
  case (Cons p xs)
  then show ?case
    by (cases p) (auto simp: save_api_tokens_def load_token_node_def al_emplace_def reloaded_info_def whole_seconds_def)
qed (simp add: save_api_tokens_def)

lemma reload_store: "store_ok store \<Longrightarrow> load_api_tokens (Some (save_api_tokens store)) = map (apsnd reloaded_info) store"
  by (simp add: load_api_tokens_def load_run store_ok_def)

text \<open>
  What a request asks for, read off its body: an entry opens its methods on the paths that match its pattern, unless a
  later entry has the same pattern, which takes its place.
\<close>

definition scope_opens :: "(string \<Rightarrow> string \<Rightarrow> bool) \<Rightarrow> scope_json list \<Rightarrow> string \<Rightarrow> string \<Rightarrow> string \<Rightarrow> bool" where
  "scope_opens regex_match body scope path verb \<longleftrightarrow>
     (\<exists>before s after methods. body = before @ s # after \<and> sj_path s = Some scope \<and> sj_methods s = Some methods
        \<and> (\<forall>s' \<in> set after. sj_path s' \<noteq> Some scope)
        \<and> regex_match (anchored scope) path \<and> (\<exists>m \<in> set methods. iequals m verb))"

definition complete_scopes :: "scope_json list \<Rightarrow> bool" where
  "complete_scopes body \<longleftrightarrow> list_all (\<lambda>s. sj_path s \<noteq> None \<and> sj_methods s \<noteq> None) body"

lemma lower_upper: "lower_char (upper_char c) = lower_char c"
proof (cases "97 \<le> (of_char c :: nat) \<and> (of_char c :: nat) \<le> 122")
  case True
  define n where "n = (of_char c :: nat)"
  have n: "97 \<le> n" "n \<le> 122" and c: "char_of n = c" using True by (simp_all add: n_def)
  have range: "65 \<le> n - 32" "n - 32 \<le> 90" using n by arith+
  then have "(n - 32) mod 256 = n - 32" "n - 32 + 32 = n" using n by simp_all
  with n c range show ?thesis by (simp add: lower_char_def upper_char_def flip: n_def)
qed (auto simp: upper_char_def)

lemma iequals_upper: "iequals (to_upper m) verb = iequals m verb"
  by (simp add: iequals_def to_upper_def to_lower_def lower_upper comp_def)

lemma upper_methods: "(\<exists>m \<in> set (remdups (map to_upper methods)). iequals m verb) = (\<exists>m \<in> set methods. iequals m verb)"
  by (simp add: iequals_upper)

lemma parse_complete: "complete_scopes body \<longleftrightarrow> (\<exists>scopes. parse_json_scopes body acc = Some scopes)"
  by (induction body acc rule: parse_json_scopes.induct) (auto simp: complete_scopes_def split: option.splits)

lemma parse_last_entry:
  assumes "parse_json_scopes body acc = Some scopes"
  shows "map_of scopes scope = Some q \<longleftrightarrow>
    (\<exists>before s after methods. body = before @ s # after \<and> sj_path s = Some scope \<and> sj_methods s = Some methods
       \<and> (\<forall>s' \<in> set after. sj_path s' \<noteq> Some scope) \<and> q = remdups (map to_upper methods))
    \<or> (\<forall>s \<in> set body. sj_path s \<noteq> Some scope) \<and> map_of acc scope = Some q"
  using assms
proof (induction body acc rule: parse_json_scopes.induct)
  case (2 s rest acc)
  then obtain path methods where s: "sj_path s = Some path" "sj_methods s = Some methods"
    by (auto split: option.splits)
  with 2 have IH: "map_of scopes scope = Some q \<longleftrightarrow>
    (\<exists>before s after methods. rest = before @ s # after \<and> sj_path s = Some scope \<and> sj_methods s = Some methods
       \<and> (\<forall>s' \<in> set after. sj_path s' \<noteq> Some scope) \<and> q = remdups (map to_upper methods))
    \<or> (\<forall>s \<in> set rest. sj_path s \<noteq> Some scope) \<and> (map_of (al_put path (remdups (map to_upper methods)) acc)) scope = Some q"
    by simp
  show ?case unfolding IH using s by (auto simp: Cons_eq_append_conv) blast+
qed simp

lemma parsed_may:
  assumes "parse_json_scopes body [] = Some scopes"
  shows "may regex_match (filter (\<lambda>sc. P (fst sc)) scopes) path verb \<longleftrightarrow> (\<exists>scope. P scope \<and> scope_opens regex_match body scope path verb)"
proof -
  have d: "distinct (map fst scopes)" by (rule parse_json_distinct [OF _ assms]) simp
  have "may regex_match (filter (\<lambda>sc. P (fst sc)) scopes) path verb \<longleftrightarrow>
      (\<exists>scope. P scope \<and> (\<exists>q. map_of scopes scope = Some q \<and> regex_match (anchored scope) path \<and> (\<exists>m \<in> set q. iequals m verb)))"
    using d by (auto simp: may_def)
  also have "\<dots> \<longleftrightarrow> (\<exists>scope. P scope \<and> scope_opens regex_match body scope path verb)"
  proof (intro iff_exI conj_cong refl)
    fix scope
    show "(\<exists>q. map_of scopes scope = Some q \<and> regex_match (anchored scope) path \<and> (\<exists>m \<in> set q. iequals m verb)) =
        scope_opens regex_match body scope path verb" (is "?l = ?r")
    proof
      assume ?l
      then obtain q where q: "map_of scopes scope = Some q" "regex_match (anchored scope) path" "\<exists>m \<in> set q. iequals m verb" by blast
      then obtain before s after methods where "body = before @ s # after" "sj_path s = Some scope" "sj_methods s = Some methods"
          "\<forall>s' \<in> set after. sj_path s' \<noteq> Some scope" "q = remdups (map to_upper methods)"
        using parse_last_entry [OF assms, of scope q] by auto
      then show ?r unfolding scope_opens_def using q(2,3) upper_methods by blast
    next
      assume ?r
      then obtain before s after methods where e: "body = before @ s # after" "sj_path s = Some scope" "sj_methods s = Some methods"
          "\<forall>s' \<in> set after. sj_path s' \<noteq> Some scope" "regex_match (anchored scope) path" "\<exists>m \<in> set methods. iequals m verb"
        unfolding scope_opens_def by blast
      then have "map_of scopes scope = Some (remdups (map to_upper methods))" using parse_last_entry [OF assms] by blast
      then show ?l using e upper_methods by blast
    qed
  qed
  finally show ?thesis .
qed

text \<open>
  C17. A request whose scopes all have a path and an array of methods makes an API token, and the token opens exactly
  what the body of the request asks for, the last of several entries with one pattern counting; after a
  restart it opens the same, but for a scope with an empty pattern, which is not read back. Once revoked it opens
  nothing, and the other tokens open what they did.
\<close>

theorem api_token_opens_its_scopes:
  assumes "store_ok store" "hash token \<noteq> []" "complete_scopes body"
    and "generate_api_token hash now token (Some body) username store = (store1, made)"
    and "revoke_api_token_by_hash (hash token) store1 = (store2, gone)"
  shows "made = Some token \<and> gone
    \<and> authenticate_token hash regex_match (store_scopes store1) token path verb = (\<exists>scope. scope_opens regex_match body scope path verb)
    \<and> authenticate_token hash regex_match (store_scopes (load_api_tokens (Some (save_api_tokens store1)))) token path verb
        = (\<exists>scope. scope \<noteq> [] \<and> scope_opens regex_match body scope path verb)
    \<and> \<not> authenticate_token hash regex_match (store_scopes store2) token path verb
    \<and> (hash other \<noteq> hash token \<longrightarrow>
        authenticate_token hash regex_match (store_scopes store2) other path verb
        = authenticate_token hash regex_match (store_scopes store) other path verb)"
proof -
  obtain scopes where parsed: "parse_json_scopes body [] = Some scopes" using assms(3) parse_complete by blast
  let ?info = "\<lparr>at_path_methods = scopes, at_username = username, at_created_at = now\<rparr>"
  have store1: "store1 = al_put (hash token) ?info store" "made = Some token" using assms(4) parsed by (simp_all add: generate_api_token_def)
  then have "hash token \<in> fst ` set store1" by (simp add: al_put_def)
  with assms(2,5) have store2: "store2 = al_erase (hash token) store1" "gone" by (simp_all add: revoke_api_token_by_hash_def)
  have ok: "store_ok store1" using generate_ok [of store hash token now "Some body" username] assms(1,2,4) by simp
  have sc: "distinct (map fst scopes)" by (rule parse_json_distinct [OF _ parsed]) simp
  have "map_of (map (apsnd reloaded_info) store1) k = map_option reloaded_info (map_of store1 k)" for k
    by (induction store1) auto
  then have "map_of (load_api_tokens (Some (save_api_tokens store1))) (hash token) = Some (reloaded_info ?info)"
    by (simp add: reload_store [OF ok]) (simp add: store1)
  moreover have "may regex_match scopes path verb = (\<exists>scope. scope_opens regex_match body scope path verb)"
    using parsed_may [OF parsed, where P = "\<lambda>_. True"] by simp
  moreover have "may regex_match (build_scope_map scopes) path verb = (\<exists>scope. scope \<noteq> [] \<and> scope_opens regex_match body scope path verb)"
    using scope_map_may [OF sc] parsed_may [OF parsed, where P = "\<lambda>p. p \<noteq> []"] by simp
  ultimately show ?thesis by (auto simp: authenticate_store store1 store2 reloaded_info_def)
qed

theorem api_token_opens_its_scopes_witness:
  "authenticate_token example_hash (\<lambda>p s. p = anchored s) (store_scopes (load_api_tokens (Some (save_api_tokens
     (fst (generate_api_token example_hash 5 ''k'' (Some [\<lparr>sj_path = Some ''/api/apps'', sj_methods = Some [''get'']\<rparr>]) ''ann'' []))))))
     ''k'' ''/api/apps'' ''GET''"
proof -
  let ?body = "[\<lparr>sj_path = Some ''/api/apps'', sj_methods = Some [''get'']\<rparr>]"
  have "complete_scopes ?body" by (simp add: complete_scopes_def)
  moreover have "scope_opens (\<lambda>p s. p = anchored s) ?body ''/api/apps'' ''/api/apps'' ''GET''"
  proof -
    have "iequals ''get'' ''GET''" by code_simp
    then show ?thesis by (auto simp: scope_opens_def Cons_eq_append_conv)
  qed
  ultimately show ?thesis
    using api_token_opens_its_scopes [OF _ _ _ surjective_pairing surjective_pairing, where store = "[]" and hash = example_hash
      and token = "''k''" and body = ?body and regex_match = "\<lambda>p s. p = anchored s" and path = "''/api/apps''" and verb = "''GET''"
      and now = 5 and username = "''ann''"]
    by (auto simp: store_ok_def example_hash_def)
qed

subsection \<open>The login\<close>

text \<open>The redirect target is a path of this host: one slash, then neither a slash nor a backslash.\<close>

lemma redirect_stays_local:
  "\<exists>rest. safe_redirect url = CHR ''/'' # rest \<and> (rest = [] \<or> hd rest \<noteq> CHR ''/'' \<and> CHR 0x5C \<notin> set rest)"
proof (cases url)
  case (Cons c rest)
  have "sublist [CHR 0x5C] (to_lower url)" if "CHR 0x5C \<in> set url"
  proof -
    have "lower_char CHR 0x5C = CHR 0x5C" by (simp add: lower_char_def)
    then have "CHR 0x5C \<in> set (to_lower url)" using that by (force simp: to_lower_def)
    then show ?thesis by (auto simp: sublist_def in_set_conv_decomp)
  qed
  with Cons show ?thesis by (cases rest) (auto simp: safe_redirect_def Let_def)
qed (simp add: safe_redirect_def)

text \<open>A login hands out tokens only for a password that was verified, and never while the credentials are locked.\<close>

lemma login_needs_password:
  "session_login env cfg now draw user password url remember ua addr role m = (m', result, Some b) \<Longrightarrow>
    ae_verify_password env user password \<and> \<not> (ae_username env = [] \<and> ae_creds_locked env) \<and> result = Allowed"
  by (auto simp: session_login_def split: if_splits prod.splits)

end
