(* ===== verification/Auth_History.thy ===== *)
theory Auth_History
  imports Http_Auth
begin

text \<open>
  Where an accepted session token comes from. The history of the authentication service says which tokens were
  handed out, and for which login each of them stands: a login issues a session token and a refresh token, a
  rotation issues new ones for the login behind the refresh token it was given. It also says which session
  tokens were revoked, logged out or rotated away since the last restart. The theorem ties the decision over a
  request (\<open>check_auth\<close>) to this history.
\<close>

subsection \<open>Reading the history\<close>

text \<open>What was issued: hash of the session token, hash of the refresh token, and the login it stands for.\<close>

type_synonym issue = "string \<times> string \<times> time_point \<times> login_request"

definition holding_refresh :: "string \<Rightarrow> issue list \<Rightarrow> issue list" where
  "holding_refresh r issues = filter (\<lambda>i. fst (snd i) = r) issues"

fun issued :: "(string \<Rightarrow> string) \<Rightarrow> auth_event list \<Rightarrow> issue list" where
  "issued hash [] = []"
| "issued hash (LoggedIn at draw req # log) = (hash (td_session draw), hash (td_refresh draw), at, req) # issued hash log"
| "issued hash (Rotated rt draw # log) =
     map (\<lambda>i. (hash (td_session draw), hash (td_refresh draw), snd (snd i))) (holding_refresh (hash rt) (issued hash log))
     @ issued hash log"
| "issued hash (_ # log) = issued hash log"

text \<open>The session tokens that ended since the last restart, other than by time.\<close>

fun retired :: "(string \<Rightarrow> string) \<Rightarrow> auth_event list \<Rightarrow> string set" where
  "retired hash [] = {}"
| "retired hash (LoggedIn at draw req # log) = retired hash log - {hash (td_session draw)}"
| "retired hash (Rotated rt draw # log) =
     retired hash log \<union> set (map fst (holding_refresh (hash rt) (issued hash log))) - {hash (td_session draw)}"
| "retired hash (Revoked h # log) = insert h (retired hash log)"
| "retired hash (LoggedOut st rt # log) =
     (if st \<noteq> [] then insert (hash st) (retired hash log)
      else if rt \<noteq> [] then retired hash log \<union> set (map fst (holding_refresh (hash rt) (issued hash log)))
      else retired hash log)"
| "retired hash (Restarted # log) = {}"

fun draws :: "auth_event list \<Rightarrow> token_draw list" where
  "draws [] = []"
| "draws (LoggedIn at draw req # log) = draw # draws log"
| "draws (Rotated rt draw # log) = draw # draws log"
| "draws (_ # log) = draws log"

text \<open>The random tokens of a history never repeat, nor do their hashes.\<close>

definition tokens_unrepeated :: "(string \<Rightarrow> string) \<Rightarrow> auth_event list \<Rightarrow> bool" where
  "tokens_unrepeated hash log \<longleftrightarrow> distinct (map (hash \<circ> td_session) (draws log)) \<and> distinct (map (hash \<circ> td_refresh) (draws log))"

text \<open>The end of the lifetime that a login asked for.\<close>

definition login_end :: "auth_config \<Rightarrow> time_point \<Rightarrow> login_request \<Rightarrow> time_point" where
  "login_end cfg at req = at + snd (session_lifetimes cfg (lr_session_ttl req) (lr_refresh_ttl req) (lr_remember_me req)) * second"

text \<open>The requests a session with read access is meant for, besides its own authentication.\<close>

definition read_only_request :: "string \<Rightarrow> string \<Rightarrow> bool" where
  "read_only_request method path \<longleftrightarrow>
     (method, path) \<in> {(''GET'', ''/api/sessions''), (''GET'', ''/api/metadata''), (''GET'', ''/api/configLocale''),
       (''GET'', ''/api/changelog/state''), (''POST'', ''/api/changelog/ack'')}
     \<or> method = ''GET'' \<and> (\<exists>name. name \<noteq> [] \<and> list_all session_name_char name
          \<and> path \<in> {''/api/sessions/'' @ name, ''/api/sessions/'' @ name @ ''/export.json''})"

subsection \<open>The service keeps to its history\<close>

definition stands_for :: "auth_config \<Rightarrow> session_token \<Rightarrow> time_point \<Rightarrow> login_request \<Rightarrow> bool" where
  "stands_for cfg t at req \<longleftrightarrow> st_username t = lr_username req \<and> st_role t = lr_role req \<and> st_refresh_expires_at t \<le> login_end cfg at req"

definition traced :: "(string \<Rightarrow> string) \<Rightarrow> auth_config \<Rightarrow> auth_event list \<Rightarrow> token_manager \<Rightarrow> bool" where
  "traced hash cfg log m \<longleftrightarrow> (\<forall>h t. map_of (tm_sessions m) h = Some t \<longrightarrow>
     (\<exists>at req. (h, st_refresh_token_hash t, at, req) \<in> set (issued hash log) \<and> stands_for cfg t at req))"

definition none_retired :: "(string \<Rightarrow> string) \<Rightarrow> auth_event list \<Rightarrow> token_manager \<Rightarrow> bool" where
  "none_retired hash log m \<longleftrightarrow> (\<forall>h t. map_of (tm_sessions m) h = Some t \<longrightarrow> h \<notin> retired hash log)"

text \<open>A table whose entries are entries of another one, perhaps with less time left.\<close>

definition within_table :: "token_manager \<Rightarrow> token_manager \<Rightarrow> bool" where
  "within_table m' m \<longleftrightarrow> (\<forall>h t'. map_of (tm_sessions m') h = Some t' \<longrightarrow>
     (\<exists>t. map_of (tm_sessions m) h = Some t \<and> st_username t' = st_username t \<and> st_role t' = st_role t
        \<and> st_refresh_token_hash t' = st_refresh_token_hash t \<and> st_refresh_expires_at t' \<le> st_refresh_expires_at t))"

lemma within_refl [simp]: "within_table m m"
  by (auto simp: within_table_def)

lemma within_dirty [simp]: "within_table (m'\<lparr>tm_dirty := b\<rparr>) m = within_table m' m"
  by (simp add: within_table_def)

lemma tracedE:
  assumes "traced hash cfg log m" "map_of (tm_sessions m) h = Some t"
  obtains at req where "(h, st_refresh_token_hash t, at, req) \<in> set (issued hash log)" "stands_for cfg t at req"
  using assms unfolding traced_def by blast

lemma traced_add:
  assumes "traced hash cfg log m" "(h, st_refresh_token_hash t, at, req) \<in> set (issued hash log)" "stands_for cfg t at req"
    "\<And>k u. map_of (tm_sessions m') k = Some u \<Longrightarrow> k = h \<and> u = t \<or> map_of (tm_sessions m) k = Some u"
  shows "traced hash cfg log m'"
  unfolding traced_def using assms(2,3,4) tracedE [OF assms(1)] by metis

lemma traced_within: "traced hash cfg log m \<Longrightarrow> within_table m' m \<Longrightarrow> traced hash cfg log m'"
proof -
  assume tr: "traced hash cfg log m" and "within": "within_table m' m"
  show "traced hash cfg log m'"
    unfolding traced_def
  proof (intro allI impI)
    fix h t' assume "map_of (tm_sessions m') h = Some t'"
    then obtain t where t: "map_of (tm_sessions m) h = Some t" "st_username t' = st_username t" "st_role t' = st_role t"
        "st_refresh_token_hash t' = st_refresh_token_hash t" "st_refresh_expires_at t' \<le> st_refresh_expires_at t"
      using "within" by (auto simp: within_table_def)
    with tr obtain at req where "(h, st_refresh_token_hash t, at, req) \<in> set (issued hash log)" "stands_for cfg t at req"
      by (elim tracedE)
    with t show "\<exists>at req. (h, st_refresh_token_hash t', at, req) \<in> set (issued hash log) \<and> stands_for cfg t' at req"
      by (auto simp: stands_for_def intro!: exI [of _ at] exI [of _ req])
  qed
qed

lemma retired_within: "none_retired hash log m \<Longrightarrow> within_table m' m \<Longrightarrow> none_retired hash log m'"
  unfolding none_retired_def within_table_def by metis

lemma issued_more: "set (issued hash log) \<subseteq> set (issued hash (ev # log))"
  by (cases ev) auto

lemma traced_more: "traced hash cfg log m \<Longrightarrow> traced hash cfg (ev # log) m"
  unfolding traced_def using issued_more [of hash log ev] by blast

lemma unrepeated_less: "tokens_unrepeated hash (ev # log) \<Longrightarrow> tokens_unrepeated hash log"
  by (cases ev) (auto simp: tokens_unrepeated_def)

lemma issued_draw:
  "(h, r, at, req) \<in> set (issued hash log) \<Longrightarrow> \<exists>d \<in> set (draws log). h = hash (td_session d) \<and> r = hash (td_refresh d)"
  by (induction hash log arbitrary: at req rule: issued.induct) (auto simp: holding_refresh_def)

lemma issued_one:
  assumes "tokens_unrepeated hash log" "(h, r, i) \<in> set (issued hash log)" "(h', r, j) \<in> set (issued hash log)"
  shows "h = h'"
proof -
  obtain d e where d: "d \<in> set (draws log)" "h = hash (td_session d)" "r = hash (td_refresh d)"
    and e: "e \<in> set (draws log)" "h' = hash (td_session e)" "r = hash (td_refresh e)"
    using issued_draw assms(2,3) by (metis surj_pair)
  have "d = e" using assms(1) d e by (auto simp: tokens_unrepeated_def distinct_map inj_on_def)
  then show ?thesis using d e by simp
qed

lemma issued_pair:
  assumes "tokens_unrepeated hash log" "(h, r, i) \<in> set (issued hash log)" "(h, r', j) \<in> set (issued hash log)"
  shows "r = r'"
proof -
  obtain d e where d: "d \<in> set (draws log)" "h = hash (td_session d)" "r = hash (td_refresh d)"
    and e: "e \<in> set (draws log)" "h = hash (td_session e)" "r' = hash (td_refresh e)"
    using issued_draw assms(2,3) by (metis surj_pair)
  have "d = e" using assms(1) d e by (auto simp: tokens_unrepeated_def distinct_map inj_on_def)
  then show ?thesis using d e by simp
qed

subsection \<open>Each operation\<close>

lemma within_cleanup: "distinct (map fst (tm_sessions m)) \<Longrightarrow> within_table (cleanup_expired_session_tokens now m) m"
  by (auto simp: within_table_def cleanup_expired_session_tokens_def Let_def map_of_filter_snd [where P = "\<lambda>t. \<not> now > st_refresh_expires_at t", simplified]
      split: if_splits option.splits)

lemma within_drop: "within_table (drop_session h t m) m"
  by (simp add: within_table_def drop_session_def)

lemma within_revoke: "within_table (fst (revoke_session_by_hash h m)) m"
  by (simp add: revoke_session_by_hash_def within_drop split: option.splits)

lemma revoke_removes: "map_of (tm_sessions (fst (revoke_session_by_hash h m))) h = None"
  by (simp add: revoke_session_by_hash_def drop_session_def split: option.splits)

lemma within_look_up: "within_table (fst (look_up_session hash now token m)) m"
  by (auto simp: look_up_session_def Let_def within_drop [unfolded within_table_def] within_table_def split: option.splits if_splits)

lemma within_reload:
  assumes "tables_sound m"
  shows "within_table (load_session_tokens now (Some (map save_session (tm_sessions m)))) m"
proof -
  have "map_of (filter (\<lambda>p. survives now (snd p)) (tm_sessions m)) h =
      (case map_of (tm_sessions m) h of None \<Rightarrow> None | Some t \<Rightarrow> if survives now t then Some t else None)" for h
    by (rule map_of_filter_snd) (use assms in \<open>simp add: tables_sound_def\<close>)
  then show ?thesis
    by (auto simp: within_table_def reload_sessions [OF assms] Let_def map_of_reloaded reloaded_def whole_seconds_le
        split: option.splits if_splits)
qed

lemma history_login:
  fixes now :: time_point and req :: login_request
  assumes "traced hash cfg log m" "none_retired hash log m" "manager_ok cfg logins m" "fresh_draw hash draw m"
  defines "log' \<equiv> LoggedIn now draw req # log" and "m' \<equiv> fst (issue_session_tokens hash cfg now draw req m)"
  shows "traced hash cfg log' m' \<and> none_retired hash log' m'"
proof -
  obtain t m1 where m1: "m' = cleanup_expired_session_tokens now m1"
      "map_of (tm_sessions m1) = (map_of (tm_sessions m))(hash (td_session draw) \<mapsto> t)" "distinct (map fst (tm_sessions m1))"
      and t: "st_refresh_token_hash t = hash (td_refresh draw)" "stands_for cfg t now req"
  proof (rule that)
    let ?l = "session_lifetimes cfg (lr_session_ttl req) (lr_refresh_ttl req) (lr_remember_me req)"
    let ?t = "\<lparr>st_username = lr_username req, st_created_at = now,
        st_expires_at = min (now + fst ?l * second) (now + snd ?l * second), st_refresh_expires_at = now + snd ?l * second,
        st_user_agent = lr_user_agent req, st_remote_address = lr_remote_address req, st_last_seen = now,
        st_remember_me = lr_remember_me req, st_device_label = derive_device_label (lr_user_agent req) (lr_remote_address req),
        st_refresh_token_hash = hash (td_refresh draw), st_rotation_id = td_rotation draw, st_role = lr_role req\<rparr>"
    let ?m1 = "m\<lparr>tm_sessions := al_emplace (hash (td_session draw)) ?t (al_erase (hash (td_session draw)) (tm_sessions m)),
        tm_refresh_index := al_put (hash (td_refresh draw)) (hash (td_session draw)) (tm_refresh_index m), tm_dirty := True\<rparr>"
    show "m' = cleanup_expired_session_tokens now ?m1"
      by (simp add: m'_def issue_session_tokens_def split_beta Let_def)
    show "map_of (tm_sessions ?m1) = (map_of (tm_sessions m))(hash (td_session draw) \<mapsto> ?t)" by simp
    show "distinct (map fst (tm_sessions ?m1))" using assms(3) by (simp add: manager_ok_def tables_sound_def)
    show "st_refresh_token_hash ?t = hash (td_refresh draw)" "stands_for cfg ?t now req"
      by (simp_all add: stands_for_def login_end_def)
  qed
  have "traced hash cfg log' m1"
    using t unfolding log'_def by (intro traced_add [OF traced_more [OF assms(1)]]) (auto simp: m1(2) split: if_splits)
  moreover have "none_retired hash log' m1"
    using assms(2) by (auto simp: none_retired_def m1(2) log'_def split: if_splits)
  ultimately show ?thesis using within_cleanup [OF m1(3), of now] by (simp add: m1(1) traced_within retired_within)
qed

lemma history_refresh:
  fixes now :: time_point and rt ua addr :: string
  assumes "traced hash cfg log m" "none_retired hash log m" "manager_ok cfg logins m" "fresh_draw hash draw m"
    "tokens_unrepeated hash log"
  defines "r \<equiv> refresh_session_tokens hash cfg now draw rt ua addr m"
  shows "traced hash cfg (log_rotation rt draw (snd r) log) (fst r) \<and> none_retired hash (log_rotation rt draw (snd r) log) (fst r)"
  using assms(3)
proof (cases rule: refresh_cases [where hash = hash and now = now and draw = draw and rt = rt and ua = ua and addr = addr])
  case refused
  then show ?thesis using assms(1,2) by (simp add: r_def log_rotation_def)
next
  case (expired sh entry)
  have "within_table (fst r) m" by (simp add: r_def expired(4) within_table_def)
  then show ?thesis using assms(1,2) expired(4) by (simp add: r_def log_rotation_def traced_within retired_within)
next
  case (rotation sh entry b)
  let ?new = "rotated hash cfg now draw ua addr entry" and ?log = "Rotated rt draw # log"
  have sessions: "map_of (tm_sessions (fst r)) = (map_of (tm_sessions m))(sh := None, hash (td_session draw) \<mapsto> ?new)"
    using assms(4) by (simp add: r_def rotation(5) fresh_draw_def)
  obtain at req where old: "(sh, hash rt, at, req) \<in> set (issued hash log)" "stands_for cfg entry at req"
    using tracedE [OF assms(1) rotation(2)] rotation(3) by metis
  have new: "(hash (td_session draw), st_refresh_token_hash ?new, at, req) \<in> set (issued hash ?log)" "stands_for cfg ?new at req"
    using old by (force simp: holding_refresh_def rotated_def stands_for_def)+
  have "traced hash cfg ?log (fst r)"
    by (rule traced_add [OF traced_more [OF assms(1)] new]) (auto simp: sessions split: if_splits)
  moreover have "none_retired hash ?log (fst r)"
    unfolding none_retired_def
  proof (intro allI impI)
    fix h t assume h: "map_of (tm_sessions (fst r)) h = Some t"
    show "h \<notin> retired hash ?log"
    proof (cases "h = hash (td_session draw)")
      case False
      then have m: "map_of (tm_sessions m) h = Some t" "h \<noteq> sh" using h by (auto simp: sessions split: if_splits)
      have "h \<notin> set (map fst (holding_refresh (hash rt) (issued hash log)))"
        using issued_one [OF assms(5) old(1)] m(2) by (auto simp: holding_refresh_def)
      then show ?thesis using m(1) assms(2) by (auto simp: none_retired_def)
    qed simp
  qed
  ultimately show ?thesis by (simp add: log_rotation_def r_def rotation(5))
qed

lemma history_logout:
  assumes "traced hash cfg log m" "none_retired hash log m" "manager_ok cfg logins m" "tokens_unrepeated hash log"
  shows "traced hash cfg (LoggedOut st rt # log) (logout hash st rt m) \<and> none_retired hash (LoggedOut st rt # log) (logout hash st rt m)"
proof -
  have "within": "within_table (logout hash st rt m) m"
    by (auto simp: logout_def revoke_session_token_def revoke_refresh_token_def within_revoke split: option.splits)
  have "h \<notin> retired hash (LoggedOut st rt # log)" if h: "map_of (tm_sessions (logout hash st rt m)) h = Some t'" for h t'
  proof -
    obtain t where t: "map_of (tm_sessions m) h = Some t" using "within" h by (auto simp: within_table_def)
    have live: "h \<notin> retired hash log" using assms(2) t by (auto simp: none_retired_def)
    show ?thesis
    proof (cases "st = [] \<and> rt \<noteq> []")
      case True
      have "h \<notin> set (map fst (holding_refresh (hash rt) (issued hash log)))"
      proof
        assume "h \<in> set (map fst (holding_refresh (hash rt) (issued hash log)))"
        then obtain i where i: "(h, hash rt, i) \<in> set (issued hash log)" by (auto simp: holding_refresh_def)
        obtain j where "(h, st_refresh_token_hash t, j) \<in> set (issued hash log)" using tracedE [OF assms(1) t] by blast
        with i have "st_refresh_token_hash t = hash rt" by (rule issued_pair [OF assms(4), symmetric])
        then have "map_of (tm_refresh_index m) (hash rt) = Some h"
          using assms(3) t linked_pointer by (fastforce simp: manager_ok_def tables_sound_def)
        then show False using True h revoke_removes [of h m] by (simp add: logout_def revoke_refresh_token_def)
      qed
      then show ?thesis using True live by simp
    next
      case False
      then show ?thesis using live h revoke_removes [of "hash st" m] by (auto simp: logout_def revoke_session_token_def)
    qed
  qed
  then show ?thesis
    using traced_more [OF traced_within [OF assms(1) "within"]] by (simp add: none_retired_def)
qed

subsection \<open>All histories\<close>

definition file_traced :: "(string \<Rightarrow> string) \<Rightarrow> auth_config \<Rightarrow> auth_event list \<Rightarrow> session_node list option \<Rightarrow> bool" where
  "file_traced hash cfg log f \<longleftrightarrow> (\<forall>nodes. f = Some nodes \<longrightarrow>
     (\<exists>m. tables_sound m \<and> traced hash cfg log m \<and> nodes = map save_session (tm_sessions m)))"

definition history_ok :: "(string \<Rightarrow> string) \<Rightarrow> auth_config \<Rightarrow> auth_service \<Rightarrow> bool" where
  "history_ok hash cfg s \<longleftrightarrow> (tokens_unrepeated hash (sv_log s) \<longrightarrow>
     traced hash cfg (sv_log s) (sv_manager s) \<and> none_retired hash (sv_log s) (sv_manager s) \<and> file_traced hash cfg (sv_log s) (sv_file s))"

lemma file_traced_more: "file_traced hash cfg log f \<Longrightarrow> file_traced hash cfg (ev # log) f"
  unfolding file_traced_def using traced_more by blast

lemma file_traced_rotation: "file_traced hash cfg log f \<Longrightarrow> file_traced hash cfg (log_rotation rt draw result log) f"
  by (simp add: log_rotation_def file_traced_more split: option.splits)

lemma unrepeated_rotation: "tokens_unrepeated hash (log_rotation rt draw result log) \<Longrightarrow> tokens_unrepeated hash log"
  by (auto simp: log_rotation_def dest: unrepeated_less split: option.splits)

lemma persist_history:
  assumes "tables_sound (sv_manager s)"
    "tokens_unrepeated hash (sv_log s) \<Longrightarrow> traced hash cfg (sv_log s) (sv_manager s) \<and> none_retired hash (sv_log s) (sv_manager s)
      \<and> file_traced hash cfg (sv_log s) (sv_file s)"
  shows "history_ok hash cfg (persist w s)"
proof -
  have "traced hash cfg log (m\<lparr>tm_dirty := b\<rparr>) = traced hash cfg log m"
    "none_retired hash log (m\<lparr>tm_dirty := b\<rparr>) = none_retired hash log m" for log m b
    by (simp_all add: traced_def none_retired_def)
  then show ?thesis
    using assms by (auto simp: history_ok_def persist_def save_session_tokens_def file_traced_def)
qed

lemma load_history:
  assumes "file_traced hash cfg log f"
  shows "traced hash cfg (Restarted # log) (load_session_tokens now f) \<and> none_retired hash (Restarted # log) (load_session_tokens now f)"
proof (cases f)
  case None
  then show ?thesis by (simp add: load_session_tokens_def traced_def none_retired_def empty_manager_def)
next
  case (Some nodes)
  then obtain m where m: "tables_sound m" "traced hash cfg log m" "nodes = map save_session (tm_sessions m)"
    using assms by (auto simp: file_traced_def)
  then show ?thesis
    using traced_more [OF traced_within [OF m(2) within_reload [OF m(1)]]] by (simp add: Some none_retired_def)
qed

lemma step_tables_sound:
  assumes "service_ok cfg s" "auth_step hash cfg s t"
  shows "tables_sound (sv_manager t)"
  using service_step [OF assms] by (simp add: service_ok_def manager_ok_def)

lemma persist_sound: "tables_sound (sv_manager (persist w s)) = tables_sound (sv_manager s)"
  by (simp add: persist_def save_session_tokens_def tables_sound_def)

lemma within_history:
  assumes "traced hash cfg log m \<and> none_retired hash log m" "within_table m' m"
  shows "traced hash cfg log m' \<and> none_retired hash log m'"
  using assms traced_within retired_within by blast

lemma history_revoke:
  assumes "traced hash cfg log m" "none_retired hash log m"
  shows "traced hash cfg (Revoked h # log) (fst (revoke_session_by_hash h m))
    \<and> none_retired hash (Revoked h # log) (fst (revoke_session_by_hash h m))"
  using traced_more [OF traced_within [OF assms(1) within_revoke]] retired_within [OF assms(2) within_revoke [of h]]
    revoke_removes [of h m] by (auto simp: none_retired_def)

lemma history_step:
  assumes ok: "service_ok cfg s" and hist: "history_ok hash cfg s" and step: "auth_step hash cfg s t"
  shows "history_ok hash cfg t"
proof -
  note sound = step_tables_sound [OF ok step]
  have m: "manager_ok cfg (sv_logins s) (sv_manager s)" using ok by (simp add: service_ok_def)
  have old: "traced hash cfg (sv_log s) (sv_manager s)" "none_retired hash (sv_log s) (sv_manager s)"
    "file_traced hash cfg (sv_log s) (sv_file s)" if "tokens_unrepeated hash (sv_log s)"
    using hist that by (simp_all add: history_ok_def)
  from step show ?thesis
  proof cases
    case (login draw w now req)
    show ?thesis unfolding login(1) using sound [unfolded login(1)] history_login [OF old(1,2) m login(2)] old(3)
      by (intro persist_history) (auto simp: persist_sound file_traced_more dest: unrepeated_less)
  next
    case (refresh draw w now rt ua addr)
    show ?thesis unfolding refresh(1) using sound [unfolded refresh(1)] history_refresh [OF old(1,2) m refresh(2)] old(3)
      by (intro persist_history) (auto simp: persist_sound file_traced_rotation dest: unrepeated_rotation)
  next
    case (validate w now token)
    show ?thesis unfolding validate(1) using sound [unfolded validate(1)] within_history [OF _ within_look_up] old
      by (intro persist_history) (auto simp: persist_sound validate_session_token_role_def)
  next
    case (username w now token)
    show ?thesis unfolding username(1) using sound [unfolded username(1)] within_history [OF _ within_look_up] old
      by (intro persist_history) (auto simp: persist_sound get_username_for_token_def)
  next
    case (revoke w h)
    show ?thesis unfolding revoke(1) using sound [unfolded revoke(1)] history_revoke [OF old(1,2)] old(3)
      by (intro persist_history) (auto simp: persist_sound file_traced_more dest: unrepeated_less)
  next
    case (logout w st rt)
    show ?thesis unfolding logout(1) using sound [unfolded logout(1)] history_logout [OF old(1,2) m] old(3)
      by (intro persist_history) (auto simp: persist_sound file_traced_more dest: unrepeated_less)
  next
    case (restart w now readable)
    have "file_traced hash cfg (sv_log s) (if readable then sv_file s else None)" if "tokens_unrepeated hash (sv_log s)"
      using old(3) [OF that] by (simp add: file_traced_def)
    note loaded = load_history [OF this]
    show ?thesis unfolding restart(1) using sound [unfolded restart(1)] loaded old(3)
      by (intro persist_history) (auto simp: persist_sound file_traced_more dest!: unrepeated_less)
  qed
qed

interpretation auth_history: step_system auth_init "auth_step hash cfg" "\<lambda>s. service_ok cfg s \<and> history_ok hash cfg s" for hash cfg
proof unfold_locales
  show "auth_init s \<Longrightarrow> service_ok cfg s \<and> history_ok hash cfg s" for s
    by (simp add: auth_system.init_inv auth_init_def history_ok_def traced_def none_retired_def file_traced_def empty_manager_def)
qed (use service_step history_step in blast)

lemma reachable_history: "auth_reachable hash cfg s \<Longrightarrow> history_ok hash cfg s"
  by (auto simp: auth_reachable_def dest: auth_history.reachable_inv)

subsection \<open>The decision over a request\<close>

lemma starts_with_split: "starts_with p s \<Longrightarrow> length p = n \<Longrightarrow> s = p @ drop n s"
  by (auto simp: starts_with_def prefix_def)

lemma detail_named:
  assumes "session_detail path"
  obtains name where "name \<noteq> []" "list_all session_name_char name" "path = ''/api/sessions/'' @ name"
proof (rule that)
  show "path = ''/api/sessions/'' @ drop 14 path" using assms by (intro starts_with_split) (simp_all add: session_detail_def)
qed (use assms in \<open>simp_all add: session_detail_def\<close>)

lemma stats_role_requests:
  assumes "stats_role_allows method path"
  shows "starts_with ''/api/auth/'' path \<or> read_only_request method path"
proof (cases "session_detail path \<or> session_export path")
  case True
  then have "starts_with ''/api/auth/'' path \<or> method = ''GET'' \<or> read_only_request method path"
    using assms by (auto simp: stats_role_allows_def read_only_request_def split: if_splits)
  moreover have "\<exists>name. name \<noteq> [] \<and> list_all session_name_char name
      \<and> path \<in> {''/api/sessions/'' @ name, ''/api/sessions/'' @ name @ ''/export.json''}"
    using True
  proof
    assume "session_detail path"
    then show ?thesis by (elim detail_named) blast
  next
    assume e: "session_export path"
    then have "path = take (length path - 12) path @ ''/export.json''"
      by (auto simp: session_export_def suffix_def)
    moreover from e obtain name where "name \<noteq> []" "list_all session_name_char name"
        "take (length path - 12) path = ''/api/sessions/'' @ name" by (auto simp: session_export_def elim: detail_named)
    ultimately show ?thesis by (metis append_assoc insertI1 insertI2)
  qed
  ultimately show ?thesis by (auto simp: read_only_request_def)
next
  case False
  then show ?thesis using assms by (auto simp: stats_role_allows_def read_only_request_def split: if_splits)
qed

lemma accepted_session_traced:
  assumes "auth_reachable hash cfg s" "tokens_unrepeated hash (sv_log s)"
    "validate_session_token_role hash now token (sv_manager s) = (m', Some role)"
  shows "\<exists>r at req. (hash token, r, at, req) \<in> set (issued hash (sv_log s)) \<and> hash token \<notin> retired hash (sv_log s)
    \<and> now \<le> login_end cfg at req \<and> lr_role req = role"
proof -
  from validated_session [OF assms(3)] obtain t where t: "map_of (tm_sessions (sv_manager s)) (hash token) = Some t"
    "st_role t = role" "now \<le> st_refresh_expires_at t" by blast
  have ok: "traced hash cfg (sv_log s) (sv_manager s)" "none_retired hash (sv_log s) (sv_manager s)"
    using reachable_history [OF assms(1)] assms(2) by (simp_all add: history_ok_def)
  have "hash token \<notin> retired hash (sv_log s)" using ok(2) t(1) by (simp add: none_retired_def)
  moreover obtain at req where "(hash token, st_refresh_token_hash t, at, req) \<in> set (issued hash (sv_log s))" "stands_for cfg t at req"
    using tracedE [OF ok(1) t(1)] .
  moreover from this have "now \<le> login_end cfg at req" "lr_role req = role" using t(2,3) by (simp_all add: stands_for_def)
  ultimately show ?thesis by blast
qed

text \<open>
  C14. In every state the service can reach with random tokens that never repeat, a request for a protected path
  passes only from an allowed origin with credentials configured, and only with a verified password; or with an API
  token that has a scope for the path and the method; or with a session token that was itself issued, by a login or
  by a rotation with a refresh token that goes back to that login, that was not revoked, logged out or rotated
  away since the last restart, and whose login has not run out its lifetime and has the role admin, unless
  the request is one of those meant for read access or below \<^verbatim>\<open>/api/auth/\<close>. (That whole subtree is open to stats
  sessions, where the comment of \<open>stats_role_allows\<close> speaks of status and refresh only.)
\<close>

theorem access_needs_credentials:
  assumes reach: "auth_reachable (ae_hash env) cfg s" and unrepeated: "tokens_unrepeated (ae_hash env) (sv_log s)"
    and passed: "check_auth env now remote header path method (sv_manager s) = (m', Allowed)"
    and protected: "starts_with ''/api/'' (base_path_of path)" "base_path_of path \<noteq> ''/api/auth/login''"
      "base_path_of path \<noteq> ''/api/auth/logout''"
  shows "ae_origin_allowed env remote \<and> ae_username env \<noteq> []
    \<and> ((\<exists>token scopes scope methods. header = ''Bearer '' @ token \<and> map_of (ae_api_tokens env) (ae_hash env token) = Some scopes
          \<and> (scope, methods) \<in> set scopes \<and> ae_regex_match env (anchored scope) path \<and> (\<exists>m \<in> set methods. iequals m method))
      \<or> (\<exists>token r at req. header = ''Session '' @ token \<and> (ae_hash env token, r, at, req) \<in> set (issued (ae_hash env) (sv_log s))
          \<and> ae_hash env token \<notin> retired (ae_hash env) (sv_log s) \<and> now \<le> login_end cfg at req
          \<and> (lr_role req = RoleAdmin \<or> read_only_request method (base_path_of path) \<or> starts_with ''/api/auth/'' (base_path_of path)))
      \<or> (\<exists>user password. parse_basic_credentials env header = Some (user, password) \<and> ae_verify_password env user password))"
proof -
  have paths: "base_path_of path \<noteq> ''/welcome''" "base_path_of path \<noteq> ''/welcome/''"
    using protected(1) by (auto simp: starts_with_def)
  note passed' = passed [unfolded check_auth_def Let_def]
  have env: "ae_origin_allowed env remote" "ae_username env \<noteq> []" "header \<noteq> []"
    using passed' protected paths by (auto split: if_splits)
  consider (bearer)
      "starts_with ''Bearer '' header" "authenticate_bearer (ae_hash env) (ae_regex_match env) (ae_api_tokens env) header path method"
    | (session) "starts_with ''Session '' header" "check_session_auth env now header (base_path_of path) method (sv_manager s) = (m', Allowed)"
    | (basic) "check_basic_auth env header = Allowed"
    using passed' protected paths env by (auto split: if_splits)
  then show ?thesis
  proof cases
    case bearer
    have "header = ''Bearer '' @ drop 7 header" by (rule starts_with_split [OF bearer(1)]) simp
    moreover obtain scopes where "map_of (ae_api_tokens env) (ae_hash env (drop 7 header)) = Some scopes"
        "list_ex (\<lambda>(scope_path, methods). ae_regex_match env (anchored scope_path) path \<and> list_ex (\<lambda>m. iequals m method) methods) scopes"
      using bearer(2) by (auto simp: authenticate_bearer_def authenticate_token_def split: if_splits option.splits)
    ultimately show ?thesis using env(1,2) by (auto simp: list_ex_iff)
  next
    case session
    have header: "header = ''Session '' @ drop 8 header" by (rule starts_with_split [OF session(1)]) simp
    obtain role where role: "validate_session_token_role (ae_hash env) now (drop 8 header) (sv_manager s) = (m', Some role)"
        "role = RoleAdmin \<or> stats_role_allows method (base_path_of path)"
      using session by (auto simp: check_session_auth_def split: if_splits prod.splits option.splits)
    obtain r at req where "(ae_hash env (drop 8 header), r, at, req) \<in> set (issued (ae_hash env) (sv_log s))"
        "ae_hash env (drop 8 header) \<notin> retired (ae_hash env) (sv_log s)" "now \<le> login_end cfg at req" "lr_role req = role"
      using accepted_session_traced [OF reach unrepeated role(1)] by blast
    with header role(2) stats_role_requests [of _ "base_path_of path"] env(1,2) show ?thesis by blast
  next
    case basic
    with env show ?thesis by (auto simp: check_basic_auth_def split: option.splits prod.splits if_splits)
  qed
qed

text \<open>The session of the example, at a read-only request.\<close>

theorem access_needs_credentials_witness:
  "\<exists>r at req. (example_hash ''sa'', r, at, req) \<in> set (issued example_hash (sv_log example_service))
     \<and> example_hash ''sa'' \<notin> retired example_hash (sv_log example_service) \<and> 0 \<le> login_end example_config at req
     \<and> (lr_role req = RoleAdmin \<or> read_only_request ''GET'' ''/api/sessions'' \<or> starts_with ''/api/auth/'' ''/api/sessions'')"
proof -
  have reach: "auth_reachable (ae_hash example_env) example_config example_service"
    using example_reachable by (simp add: example_env_def)
  have "tokens_unrepeated (ae_hash example_env) (sv_log example_service)"
    by (simp add: tokens_unrepeated_def example_service_def)
  from access_needs_credentials [OF reach this example_allowed] show ?thesis
    by (simp add: base_path_of_def starts_with_def parse_basic_credentials_def example_env_def iequals_def Let_def)
qed

end
