(* ===== verification/Input_Queue.thy ===== *)
theory Input_Queue
  imports Prelude "HOL-Library.Sublist" "HOL-Library.Word"
begin

text \<open>
  Input messages of a client on their way to the operating system (\<^verbatim>\<open>src/input.cpp\<close>): which messages are merged into
  one, and the task that drains the queue of a session. Messages are taken as decoded; coordinates and sensor
  values, which are only passed on, are raw words. The constants of the protocol headers are a parameter.
\<close>

subsection \<open>Messages\<close>

record controller_packet =
  cp_number :: int
  cp_active_mask :: u16
  cp_buttons :: u16
  cp_buttons2 :: u16
  cp_left_trigger :: u8
  cp_right_trigger :: u8
  cp_sticks :: "u16 list"

datatype packet =
    RelMove u16 u16
  | AbsMove u16 u16 u16 u16
  | MouseButton bool u8
  | ScrollMsg u16 u16
  | HScrollMsg u16
  | KeyMsg bool u16 u8 u8
  | UnicodeMsg "u8 list"
  | ControllerMsg controller_packet
  | TouchMsg u8 u32 "u32 list"
  | PenMsg u8 u8 u8 "u32 list"
  | ArrivalMsg int u8 u16 u32
  | ControllerTouch int u8 u32 "u32 list"
  | ControllerMotion int u8 "u32 list"
  | BatteryMsg int u8 u8
  | UnknownMsg u32

record touch_events =
  te_move :: u8
  te_hover :: u8

datatype batch_result = Batched packet | NotBatchable | TerminateBatch

text \<open>\<open>__builtin_add_overflow\<close> on 16 bits: the wrapped sum, and whether the exact one does not fit.\<close>

definition add_overflow :: "u16 \<Rightarrow> u16 \<Rightarrow> u16 \<times> bool" where
  "add_overflow a b = (a + b, sint a + sint b \<noteq> sint (a + b))"

subsection \<open>Batching two messages\<close>

definition batch_rel_move :: "u16 \<times> u16 \<Rightarrow> u16 \<times> u16 \<Rightarrow> batch_result" where
  "batch_rel_move dest src =
     (case (add_overflow (fst dest) (fst src), add_overflow (snd dest) (snd src)) of
        ((deltaX, overflowX), (deltaY, overflowY)) \<Rightarrow>
          if \<not> overflowX then TerminateBatch else if \<not> overflowY then TerminateBatch else Batched (RelMove deltaX deltaY))"

definition batch_scroll :: "u16 \<Rightarrow> u16 \<Rightarrow> batch_result" where
  "batch_scroll dest src =
     (case add_overflow dest src of
        (scrollAmt, overflow) \<Rightarrow> if \<not> overflow then TerminateBatch else Batched (ScrollMsg scrollAmt scrollAmt))"

definition batch_hscroll :: "u16 \<Rightarrow> u16 \<Rightarrow> batch_result" where
  "batch_hscroll dest src =
     (case add_overflow dest src of
        (scrollAmt, overflow) \<Rightarrow> if \<not> overflow then TerminateBatch else Batched (HScrollMsg scrollAmt))"

definition batch_controller :: "controller_packet \<Rightarrow> controller_packet \<Rightarrow> batch_result" where
  "batch_controller dest src =
     (if cp_active_mask dest \<noteq> cp_active_mask src then TerminateBatch
      else if cp_number dest \<noteq> cp_number src then NotBatchable
      else if cp_buttons dest \<noteq> cp_buttons src \<or> cp_buttons2 dest \<noteq> cp_buttons2 src then TerminateBatch
      else Batched (ControllerMsg src))"

definition moves :: "touch_events \<Rightarrow> u8 \<Rightarrow> bool" where
  "moves te eventType \<longleftrightarrow> \<not> (eventType \<noteq> te_move te \<and> eventType \<noteq> te_hover te)"

definition batch_touch :: "touch_events \<Rightarrow> u8 \<times> u32 \<Rightarrow> u8 \<times> u32 \<Rightarrow> packet \<Rightarrow> batch_result" where
  "batch_touch te dest src src_packet =
     (if \<not> moves te (fst dest) then TerminateBatch
      else if \<not> moves te (fst src) then TerminateBatch
      else if snd dest \<noteq> snd src then NotBatchable
      else if fst dest \<noteq> fst src then TerminateBatch
      else Batched src_packet)"

definition batch_pen :: "touch_events \<Rightarrow> u8 \<times> u8 \<times> u8 \<Rightarrow> u8 \<times> u8 \<times> u8 \<Rightarrow> packet \<Rightarrow> batch_result" where
  "batch_pen te dest src src_packet =
     (case (dest, src) of ((dtype, dbuttons, dtool), (stype, sbuttons, stool)) \<Rightarrow>
        if \<not> moves te dtype then TerminateBatch
        else if dtype \<noteq> stype then TerminateBatch
        else if dbuttons \<noteq> sbuttons then TerminateBatch
        else if dtool \<noteq> stool then TerminateBatch
        else Batched src_packet)"

definition batch_controller_touch :: "touch_events \<Rightarrow> int \<times> u8 \<times> u32 \<Rightarrow> int \<times> u8 \<times> u32 \<Rightarrow> packet \<Rightarrow> batch_result" where
  "batch_controller_touch te dest src src_packet =
     (case (dest, src) of ((dnum, dtype, dpointer), (snum, stype, spointer)) \<Rightarrow>
        if \<not> moves te dtype then TerminateBatch
        else if dnum \<noteq> snum then NotBatchable
        else if \<not> moves te stype then TerminateBatch
        else if dpointer \<noteq> spointer then NotBatchable
        else if dtype \<noteq> stype then TerminateBatch
        else Batched src_packet)"

definition batch_motion :: "int \<times> u8 \<Rightarrow> int \<times> u8 \<Rightarrow> packet \<Rightarrow> batch_result" where
  "batch_motion dest src src_packet =
     (if fst dest \<noteq> fst src then NotBatchable else if snd dest \<noteq> snd src then NotBatchable else Batched src_packet)"

text \<open>The whole decision: messages of different types end the batch, as do types that are never merged.\<close>

definition batch :: "touch_events \<Rightarrow> packet \<Rightarrow> packet \<Rightarrow> batch_result" where
  "batch te dest src =
     (case dest of
        RelMove dx dy \<Rightarrow> (case src of RelMove sx sy \<Rightarrow> batch_rel_move (dx, dy) (sx, sy) | _ \<Rightarrow> TerminateBatch)
      | AbsMove dx dy dw dh \<Rightarrow> (case src of
          AbsMove sx sy sw sh \<Rightarrow> if dw \<noteq> sw \<or> dh \<noteq> sh then TerminateBatch else Batched src | _ \<Rightarrow> TerminateBatch)
      | ScrollMsg d1 d2 \<Rightarrow> (case src of ScrollMsg s1 s2 \<Rightarrow> batch_scroll d1 s1 | _ \<Rightarrow> TerminateBatch)
      | HScrollMsg d \<Rightarrow> (case src of HScrollMsg s \<Rightarrow> batch_hscroll d s | _ \<Rightarrow> TerminateBatch)
      | ControllerMsg d \<Rightarrow> (case src of ControllerMsg s \<Rightarrow> batch_controller d s | _ \<Rightarrow> TerminateBatch)
      | TouchMsg dt dp dr \<Rightarrow> (case src of TouchMsg st sp sr \<Rightarrow> batch_touch te (dt, dp) (st, sp) src | _ \<Rightarrow> TerminateBatch)
      | PenMsg dt db dl dr \<Rightarrow> (case src of PenMsg st sb sl sr \<Rightarrow> batch_pen te (dt, db, dl) (st, sb, sl) src | _ \<Rightarrow> TerminateBatch)
      | ControllerTouch dn dt dp dr \<Rightarrow> (case src of
          ControllerTouch sn st sp sr \<Rightarrow> batch_controller_touch te (dn, dt, dp) (sn, st, sp) src | _ \<Rightarrow> TerminateBatch)
      | ControllerMotion dn dm dr \<Rightarrow> (case src of
          ControllerMotion sn sm sr \<Rightarrow> batch_motion (dn, dm) (sn, sm) src | _ \<Rightarrow> TerminateBatch)
      | _ \<Rightarrow> TerminateBatch)"

subsection \<open>Draining the queue\<close>

text \<open>The loop over the rest of the queue: the message to send, and what stays queued.\<close>

fun batch_queue :: "touch_events \<Rightarrow> packet \<Rightarrow> packet list \<Rightarrow> packet \<times> packet list" where
  "batch_queue te payload [] = (payload, [])"
| "batch_queue te payload (p # ps) =
     (case batch te payload p of
        TerminateBatch \<Rightarrow> (payload, p # ps)
      | Batched payload' \<Rightarrow> batch_queue te payload' ps
      | NotBatchable \<Rightarrow> (case batch_queue te payload ps of (payload', rest) \<Rightarrow> (payload', p # rest)))"

text \<open>The queue of a session, the mark that its task is scheduled, the tasks in the pool, and whether one of them
  is between its two critical sections. The pool has one thread.\<close>

record drain =
  dr_queue :: "packet list"
  dr_scheduled :: bool
  dr_tasks :: nat
  dr_running :: bool

definition drain_init :: drain where
  "drain_init = \<lparr>dr_queue = [], dr_scheduled = False, dr_tasks = 0, dr_running = False\<rparr>"

datatype drain_event = Arrive packet | StartTask | FinishTask

text \<open>\<open>passthrough\<close> on the control thread.\<close>

definition arrive :: "packet \<Rightarrow> drain \<Rightarrow> drain" where
  "arrive p d =
     d\<lparr>dr_queue := dr_queue d @ [p], dr_scheduled := True,
       dr_tasks := (if dr_scheduled d then dr_tasks d else dr_tasks d + 1)\<rparr>"

text \<open>\<open>passthrough_next_message\<close>, up to the message it sends, and from there to its end.\<close>

definition start_task :: "touch_events \<Rightarrow> drain \<Rightarrow> drain \<times> packet option" where
  "start_task te d =
     (case dr_queue d of
        [] \<Rightarrow> (d\<lparr>dr_tasks := dr_tasks d - 1, dr_scheduled := False\<rparr>, None)
      | entry # q \<Rightarrow> (case batch_queue te entry q of (payload, rest) \<Rightarrow>
          (d\<lparr>dr_tasks := dr_tasks d - 1, dr_queue := rest, dr_running := True\<rparr>, Some payload)))"

definition finish_task :: "drain \<Rightarrow> drain" where
  "finish_task d =
     (if dr_queue d \<noteq> [] then d\<lparr>dr_running := False, dr_tasks := dr_tasks d + 1\<rparr>
      else d\<lparr>dr_running := False, dr_scheduled := False\<rparr>)"

fun drain_step :: "touch_events \<Rightarrow> drain \<Rightarrow> drain_event \<Rightarrow> drain \<times> packet option" where
  "drain_step te d (Arrive p) = (arrive p d, None)"
| "drain_step te d StartTask = (if dr_tasks d > 0 \<and> \<not> dr_running d then start_task te d else (d, None))"
| "drain_step te d FinishTask = (if dr_running d then (finish_task d, None) else (d, None))"

subsection \<open>What batching keeps\<close>











text \<open>Relative moves and scrolls are merged exactly when their sum overflows, to the wrapped sum: the comment above
  the test says the opposite.\<close>

lemma moves_merged_on_overflow:
  "batch te (RelMove a b) (RelMove c d) =
     (if sint a + sint c = sint (a + c) \<or> sint b + sint d = sint (b + d) then TerminateBatch else Batched (RelMove (a + c) (b + d)))"
  by (simp add: batch_def batch_rel_move_def add_overflow_def)

lemma merged_moves_go_back:
  "batch te (RelMove 20000 20000) (RelMove 20000 20000) = Batched (RelMove (of_int (-25536)) (of_int (-25536)))"
  "batch te (RelMove 1 1) (RelMove 1 1) = TerminateBatch"
  by (simp_all add: moves_merged_on_overflow)

subsection \<open>The queue is drained\<close>

definition drain_ok :: "drain \<Rightarrow> bool" where
  "drain_ok d \<longleftrightarrow> dr_tasks d + (if dr_running d then 1 else 0) = (if dr_scheduled d then 1 else 0)
     \<and> (dr_queue d \<noteq> [] \<longrightarrow> dr_scheduled d) \<and> (dr_tasks d > 0 \<longrightarrow> dr_queue d \<noteq> [])"

lemma drain_step_ok: "drain_ok d \<Longrightarrow> drain_ok (fst (drain_step te d ev))"
  by (cases ev) (auto simp: drain_ok_def arrive_def start_task_def finish_task_def split: list.splits prod.splits if_splits)

interpretation drain: machine_invariant "drain_step te" drain_ok for te
  by unfold_locales (rule drain_step_ok)

lemma batch_queue_shrinks: "batch_queue te d q = (d', rest) \<Longrightarrow> length rest \<le> length q"
  by (induction te d q arbitrary: d' rest rule: batch_queue.induct)
    (auto split: batch_result.splits prod.splits intro: le_SucI)

lemma drain_round:
  fixes te :: touch_events and d :: drain
  assumes "drain_ok d" "\<not> dr_running d"
  defines "d' \<equiv> machine_state (drain_step te) d [StartTask, FinishTask]"
  shows "drain_ok d' \<and> \<not> dr_running d' \<and> length (dr_queue d') \<le> length (dr_queue d) - 1"
proof (cases "dr_queue d")
  case Nil
  then show ?thesis using assms by (auto simp: d'_def drain_ok_def start_task_def finish_task_def split: if_splits)
next
  case (Cons p q)
  obtain payload rest where b: "batch_queue te p q = (payload, rest)" by fastforce
  have "dr_tasks d = 1" "dr_scheduled d" using assms(1,2) Cons by (auto simp: drain_ok_def split: if_splits)
  with Cons assms(2) b batch_queue_shrinks [OF b] show ?thesis
    by (simp add: d'_def start_task_def finish_task_def drain_ok_def)
qed

lemma drain_rounds:
  "drain_ok d \<Longrightarrow> \<not> dr_running d \<Longrightarrow>
    (let d' = machine_state (drain_step te) d (concat (replicate n [StartTask, FinishTask]))
     in drain_ok d' \<and> \<not> dr_running d' \<and> length (dr_queue d') \<le> length (dr_queue d) - n)"
proof (induction n arbitrary: d)
  case (Suc n)
  define d1 where "d1 = machine_state (drain_step te) d [StartTask, FinishTask]"
  have one: "drain_ok d1" "\<not> dr_running d1" "length (dr_queue d1) \<le> length (dr_queue d) - 1"
    unfolding d1_def using drain_round [OF Suc.prems, of te] by simp_all
  have "machine_state (drain_step te) d (concat (replicate (Suc n) [StartTask, FinishTask])) =
      machine_state (drain_step te) d1 (concat (replicate n [StartTask, FinishTask]))"
    unfolding d1_def by (simp only: replicate_Suc concat.simps machine_state_append)
  moreover have "k \<le> length (dr_queue d) - Suc n" if "k \<le> length (dr_queue d1) - n" for k
    using that one(3) by arith
  ultimately show ?case using Suc.IH [OF one(1,2)] by (simp only: Let_def) blast
qed simp

text \<open>
  C21. No input gets stuck, and a session has one drain at a time: in every interleaving of arriving messages with
  the two critical sections of the drain, at most one drain task of the session exists or runs, exactly when the
  mark says so, and whenever messages are queued there is one. Running the pool for as many rounds as messages
  are queued empties the queue and takes the mark away.
\<close>

theorem input_never_stuck:
  fixes evs :: "drain_event list" and te :: touch_events
  defines "d \<equiv> machine_state (drain_step te) drain_init evs"
  assumes "length (dr_queue d) \<le> n"
  defines "d' \<equiv> machine_state (drain_step te) d (FinishTask # concat (replicate n [StartTask, FinishTask]))"
  shows "dr_tasks d + (if dr_running d then 1 else 0) = (if dr_scheduled d then 1 else 0)
    \<and> (dr_queue d = [] \<or> dr_scheduled d)
    \<and> dr_queue d' = [] \<and> \<not> dr_scheduled d' \<and> dr_tasks d' = 0 \<and> \<not> dr_running d'"
proof -
  have "drain_ok drain_init" by (simp add: drain_ok_def drain_init_def)
  then have ok: "drain_ok d" unfolding d_def by (rule drain.run_inv)
  let ?d1 = "fst (drain_step te d FinishTask)"
  have "drain_ok ?d1" by (rule drain_step_ok [OF ok])
  moreover have "\<not> dr_running ?d1" "dr_queue ?d1 = dr_queue d" by (simp_all add: finish_task_def)
  ultimately have "drain_ok d' \<and> \<not> dr_running d' \<and> length (dr_queue d') \<le> length (dr_queue d) - n"
    unfolding d'_def using drain_rounds [of ?d1 te n] by (simp add: Let_def)
  with ok assms(2) show ?thesis by (auto simp: drain_ok_def split: if_splits)
qed

theorem input_never_stuck_witness:
  "let te = \<lparr>te_move = 3, te_hover = 0\<rparr>;
       d = machine_state (drain_step te) drain_init [Arrive (MouseButton False 1), StartTask, Arrive (MouseButton True 1)];
       d' = machine_state (drain_step te) d (FinishTask # concat (replicate 1 [StartTask, FinishTask]))
   in dr_tasks d = 0 \<and> dr_running d \<and> dr_queue d = [MouseButton True 1] \<and> dr_queue d' = [] \<and> \<not> dr_scheduled d'"
proof -
  let ?te = "\<lparr>te_move = 3, te_hover = 0\<rparr> :: touch_events"
  let ?evs = "[Arrive (MouseButton False 1), StartTask, Arrive (MouseButton True 1)]"
  have d: "machine_state (drain_step ?te) drain_init ?evs =
      \<lparr>dr_queue = [MouseButton True 1], dr_scheduled = True, dr_tasks = 0, dr_running = True\<rparr>"
    by (simp add: drain_init_def arrive_def start_task_def)
  show ?thesis using input_never_stuck [where te = ?te and evs = ?evs and n = 1] unfolding d Let_def by simp
qed

end
