(* ===== verification/Input_State.thy ===== *)
theory Input_State
  imports Input_Queue
begin

text \<open>
  Keyboard and mouse messages (\<^verbatim>\<open>src/input.cpp\<close>): the keys and buttons the host holds down for its clients, key
  repeat, synthetic modifiers, shortcuts, the delayed release of the left button, scrolling in whole ticks, and
  the reset when a session ends. Tasks run one at a time on the pool; delayed ones at any time, as the model has
  no clock. Task identifiers are never reused. Calls of the platform layer are outputs. The position of an
  absolute move is that of the client: its conversion to the host's screen is floating point.
\<close>

unbundle bit_operations_syntax

subsection \<open>Keys and configuration\<close>

definition make_kpid :: "u16 \<Rightarrow> u8 \<Rightarrow> u32" where "make_kpid vk flags = push_bit 8 (ucast vk) OR ucast flags"

definition vk_from_kpid :: "u32 \<Rightarrow> u16" where "vk_from_kpid kpid = ucast (drop_bit 8 kpid)"

definition flags_from_kpid :: "u32 \<Rightarrow> u8" where "flags_from_kpid kpid = ucast (kpid AND 0xFF)"

record input_env =
  ie_mouse :: bool
  ie_keyboard :: bool
  ie_high_resolution_scrolling :: bool
  ie_keybindings :: "u16 \<rightharpoonup> u16"
  ie_key_repeat_delay :: duration
  ie_MODIFIER_SHIFT :: u8
  ie_MODIFIER_CTRL :: u8
  ie_MODIFIER_ALT :: u8
  ie_BUTTON_LEFT :: u8
  ie_BUTTON_RIGHT :: u8

datatype os_call =
    KeyboardUpdate u16 bool u8
  | ButtonMouse u8 bool
  | MoveMouse u16 u16
  | AbsMouse u16 u16 u16 u16
  | ScrollCall int
  | HScrollCall int
  | UnicodeCall "u8 list"
  | SwitchDisplay int

datatype left_delay = EnableDelay | DisableDelay | DelayTask nat

record input_ctx =
  ic_shortcutFlags :: u32
  ic_mouse_left_button_timeout :: left_delay
  ic_vscroll :: int
  ic_hscroll :: int

datatype input_task = RepeatKey u16 u8 u8 | ReleaseLeft nat | ResetInput

text \<open>The state all sessions share, with the entries of \<open>key_press\<close> that are true, and the contexts of the sessions.\<close>

record input_world =
  iw_key_press :: "u32 list"
  iw_mouse_press :: "bool list"
  iw_key_press_repeat_id :: "nat option"
  iw_tasks :: "(nat \<times> input_task) list"
  iw_next_task :: nat
  iw_ctx :: "nat \<Rightarrow> input_ctx"
  iw_display_cursor :: bool

definition input_new :: input_ctx where
  "input_new = \<lparr>ic_shortcutFlags = 0, ic_mouse_left_button_timeout = EnableDelay, ic_vscroll = 0, ic_hscroll = 0\<rparr>"

definition world_init :: input_world where
  "world_init = \<lparr>iw_key_press = [], iw_mouse_press = replicate 5 False, iw_key_press_repeat_id = None, iw_tasks = [],
     iw_next_task = 0, iw_ctx = (\<lambda>_. input_new), iw_display_cursor = True\<rparr>"

definition push_delayed :: "input_task \<Rightarrow> input_world \<Rightarrow> input_world" where
  "push_delayed t w = w\<lparr>iw_tasks := iw_tasks w @ [(iw_next_task w, t)], iw_next_task := iw_next_task w + 1\<rparr>"

definition cancel_task :: "nat \<Rightarrow> input_world \<Rightarrow> input_world" where
  "cancel_task task_id w = w\<lparr>iw_tasks := filter (\<lambda>p. fst p \<noteq> task_id) (iw_tasks w)\<rparr>"

definition set_ctx :: "nat \<Rightarrow> (input_ctx \<Rightarrow> input_ctx) \<Rightarrow> input_world \<Rightarrow> input_world" where
  "set_ctx s f w = w\<lparr>iw_ctx := (iw_ctx w)(s := f (iw_ctx w s))\<rparr>"

subsection \<open>Keyboard\<close>

definition map_keycode :: "input_env \<Rightarrow> u16 \<Rightarrow> u16" where
  "map_keycode env keycode = (case ie_keybindings env keycode of None \<Rightarrow> keycode | Some k \<Rightarrow> k)"

definition shift_keys :: "u16 list" where "shift_keys = [0x10, 0xA0, 0xA1]"
definition control_keys :: "u16 list" where "control_keys = [0x11, 0xA2, 0xA3]"
definition menu_keys :: "u16 list" where "menu_keys = [0x12, 0xA4, 0xA5]"

definition is_modifier :: "u16 \<Rightarrow> bool" where
  "is_modifier keyCode \<longleftrightarrow> keyCode \<in> set (shift_keys @ control_keys @ menu_keys)"

definition CTRL :: u32 where "CTRL = 1"
definition ALT :: u32 where "ALT = 2"
definition SHIFT :: u32 where "SHIFT = 4"
definition SHORTCUT :: u32 where "SHORTCUT = CTRL OR ALT OR SHIFT"

definition update_shortcutFlags :: "u16 \<Rightarrow> bool \<Rightarrow> u32 \<Rightarrow> u32" where
  "update_shortcutFlags keyCode release flags =
     (let change = (\<lambda>b. if release then flags AND NOT b else flags OR b)
      in if keyCode \<in> set shift_keys then change SHIFT
         else if keyCode \<in> set control_keys then change CTRL
         else if keyCode \<in> set menu_keys then change ALT else flags)"

text \<open>\<open>apply_shortcut\<close>: nothing, or the display to switch to, or the cursor to toggle.\<close>

definition apply_shortcut :: "u16 \<Rightarrow> input_world \<Rightarrow> (input_world \<times> os_call list) option" where
  "apply_shortcut keyCode w =
     (if 0x70 \<le> keyCode \<and> keyCode \<le> 0x7C then Some (w, [SwitchDisplay (uint keyCode - 0x70)])
      else if keyCode = 0x4E then Some (w\<lparr>iw_display_cursor := \<not> iw_display_cursor w\<rparr>, [])
      else None)"

definition synthetic_calls :: "input_env \<Rightarrow> u8 \<Rightarrow> bool \<Rightarrow> u8 \<Rightarrow> os_call list" where
  "synthetic_calls env synthetic release flags =
     (if synthetic AND ie_MODIFIER_SHIFT env \<noteq> 0 then [KeyboardUpdate 0x10 release flags] else []) @
     (if synthetic AND ie_MODIFIER_CTRL env \<noteq> 0 then [KeyboardUpdate 0x11 release flags] else []) @
     (if synthetic AND ie_MODIFIER_ALT env \<noteq> 0 then [KeyboardUpdate 0x12 release flags] else [])"

definition send_key_and_modifiers :: "input_env \<Rightarrow> u16 \<Rightarrow> bool \<Rightarrow> u8 \<Rightarrow> u8 \<Rightarrow> os_call list" where
  "send_key_and_modifiers env key_code release flags synthetic =
     (if release then [] else synthetic_calls env synthetic False flags) @
     [KeyboardUpdate (map_keycode env key_code) release flags] @
     (if release then [] else synthetic_calls env synthetic True flags)"

definition repeat_key :: "input_env \<Rightarrow> u16 \<Rightarrow> u8 \<Rightarrow> u8 \<Rightarrow> input_world \<Rightarrow> input_world \<times> os_call list" where
  "repeat_key env key_code flags synthetic w =
     (if make_kpid key_code flags \<notin> set (iw_key_press w) then (w\<lparr>iw_key_press_repeat_id := None\<rparr>, [])
      else (push_delayed (RepeatKey key_code flags synthetic) (w\<lparr>iw_key_press_repeat_id := Some (iw_next_task w)\<rparr>),
            send_key_and_modifiers env key_code False flags synthetic))"

definition synthetic_modifiers :: "input_env \<Rightarrow> bool \<Rightarrow> u16 \<Rightarrow> u8 \<Rightarrow> u32 \<Rightarrow> u8" where
  "synthetic_modifiers env release keyCode modifiers flags =
     (if release \<or> is_modifier keyCode then 0
      else (if flags AND SHIFT = 0 \<and> modifiers AND ie_MODIFIER_SHIFT env \<noteq> 0 then ie_MODIFIER_SHIFT env else 0)
        OR (if flags AND CTRL = 0 \<and> modifiers AND ie_MODIFIER_CTRL env \<noteq> 0 then ie_MODIFIER_CTRL env else 0)
        OR (if flags AND ALT = 0 \<and> modifiers AND ie_MODIFIER_ALT env \<noteq> 0 then ie_MODIFIER_ALT env else 0))"

text \<open>The end of the keyboard handler, once the key's state is known to change.\<close>

definition change_key :: "input_env \<Rightarrow> nat \<Rightarrow> bool \<Rightarrow> u16 \<Rightarrow> u8 \<Rightarrow> u8 \<Rightarrow> input_world \<Rightarrow> input_world \<times> os_call list" where
  "change_key env s release keyCode flags synthetic w =
     (set_ctx s (\<lambda>c. c\<lparr>ic_shortcutFlags := update_shortcutFlags (map_keycode env keyCode) release (ic_shortcutFlags c)\<rparr>)
        (w\<lparr>iw_key_press := (if release then filter (\<lambda>k. k \<noteq> make_kpid keyCode flags) (iw_key_press w)
                            else make_kpid keyCode flags # iw_key_press w)\<rparr>),
      send_key_and_modifiers env keyCode release flags synthetic)"

definition start_repeat :: "input_env \<Rightarrow> u16 \<Rightarrow> u8 \<Rightarrow> u8 \<Rightarrow> input_world \<Rightarrow> input_world" where
  "start_repeat env keyCode flags synthetic w =
     (let w = (case iw_key_press_repeat_id w of None \<Rightarrow> w | Some task_id \<Rightarrow> cancel_task task_id w)
      in if ie_key_repeat_delay env > 0
         then push_delayed (RepeatKey keyCode flags synthetic) (w\<lparr>iw_key_press_repeat_id := Some (iw_next_task w)\<rparr>)
         else w)"

definition passthrough_keyboard ::
    "input_env \<Rightarrow> nat \<Rightarrow> bool \<Rightarrow> u16 \<Rightarrow> u8 \<Rightarrow> u8 \<Rightarrow> input_world \<Rightarrow> input_world \<times> os_call list" where
  "passthrough_keyboard env s release packet_keyCode modifiers flags w =
     (if \<not> ie_keyboard env then (w, [])
      else
        let keyCode = packet_keyCode AND 0x00FF;
            shortcut = ic_shortcutFlags (iw_ctx w s);
            synthetic = synthetic_modifiers env release keyCode modifiers shortcut
        in if make_kpid keyCode flags \<notin> set (iw_key_press w) then
             if release then (w, [])
             else (case (if shortcut = SHORTCUT then apply_shortcut keyCode w else None) of
                 Some result \<Rightarrow> result
               | None \<Rightarrow> change_key env s release keyCode flags synthetic (start_repeat env keyCode flags synthetic w))
           else if \<not> release then (w, [])
           else change_key env s release keyCode flags synthetic w)"

subsection \<open>Mouse\<close>

definition passthrough_button :: "input_env \<Rightarrow> nat \<Rightarrow> bool \<Rightarrow> u8 \<Rightarrow> input_world \<Rightarrow> input_world \<times> os_call list" where
  "passthrough_button env s release button w =
     (let tracked = (button > 0 \<and> unat button < 5);
          timeout = ic_mouse_left_button_timeout (iw_ctx w s)
      in if \<not> ie_mouse env then (w, [])
         else if tracked \<and> iw_mouse_press w ! unat button \<noteq> release then (w, [])
         else
           let w = (if tracked then w\<lparr>iw_mouse_press := (iw_mouse_press w)[unat button := \<not> release]\<rparr> else w)
           in if button = ie_BUTTON_LEFT env \<and> release \<and> timeout = EnableDelay
              then (push_delayed (ReleaseLeft s) (set_ctx s (\<lambda>c. c\<lparr>ic_mouse_left_button_timeout := DelayTask (iw_next_task w)\<rparr>) w), [])
              else if button = ie_BUTTON_RIGHT env \<and> \<not> release \<and> (case timeout of DelayTask _ \<Rightarrow> True | _ \<Rightarrow> False)
              then (w\<lparr>iw_mouse_press := (iw_mouse_press w)[unat (ie_BUTTON_RIGHT env) := False]\<rparr>,
                    [ButtonMouse (ie_BUTTON_RIGHT env) False, ButtonMouse (ie_BUTTON_RIGHT env) True])
              else (w, [ButtonMouse button release]))"

text \<open>The delayed release of the left button.\<close>

definition release_left :: "input_env \<Rightarrow> nat \<Rightarrow> input_world \<Rightarrow> input_world \<times> os_call list" where
  "release_left env s w =
     (if iw_mouse_press w ! unat (ie_BUTTON_LEFT env) then (w, [])
      else (set_ctx s (\<lambda>c. c\<lparr>ic_mouse_left_button_timeout := EnableDelay\<rparr>)
              (w\<lparr>iw_mouse_press := (iw_mouse_press w)[unat (ie_BUTTON_LEFT env) := False]\<rparr>),
            [ButtonMouse (ie_BUTTON_LEFT env) True]))"

text \<open>Division of \<open>int\<close> in C: toward zero.\<close>

definition trunc_div :: "int \<Rightarrow> int \<Rightarrow> int" where "trunc_div a b = sgn a * (\<bar>a\<bar> div b)"

definition WHEEL_DELTA :: int where "WHEEL_DELTA = 120"

text \<open>What is left over after an amount, and the whole ticks to send, if any.\<close>

definition scroll_ticks :: "int \<Rightarrow> u16 \<Rightarrow> int \<times> int option" where
  "scroll_ticks acc amount =
     (let acc = acc + sint amount; full_ticks = trunc_div acc WHEEL_DELTA
      in if full_ticks \<noteq> 0 then (acc - full_ticks * WHEEL_DELTA, Some (full_ticks * WHEEL_DELTA)) else (acc, None))"

definition passthrough_scroll :: "input_env \<Rightarrow> nat \<Rightarrow> u16 \<Rightarrow> input_world \<Rightarrow> input_world \<times> os_call list" where
  "passthrough_scroll env s amount w =
     (if \<not> ie_mouse env then (w, [])
      else if ie_high_resolution_scrolling env then (w, [ScrollCall (sint amount)])
      else case scroll_ticks (ic_vscroll (iw_ctx w s)) amount of
        (rest, sent) \<Rightarrow> (set_ctx s (\<lambda>c. c\<lparr>ic_vscroll := rest\<rparr>) w, case sent of None \<Rightarrow> [] | Some n \<Rightarrow> [ScrollCall n]))"

definition passthrough_hscroll :: "input_env \<Rightarrow> nat \<Rightarrow> u16 \<Rightarrow> input_world \<Rightarrow> input_world \<times> os_call list" where
  "passthrough_hscroll env s amount w =
     (if \<not> ie_mouse env then (w, [])
      else if ie_high_resolution_scrolling env then (w, [HScrollCall (sint amount)])
      else case scroll_ticks (ic_hscroll (iw_ctx w s)) amount of
        (rest, sent) \<Rightarrow> (set_ctx s (\<lambda>c. c\<lparr>ic_hscroll := rest\<rparr>) w, case sent of None \<Rightarrow> [] | Some n \<Rightarrow> [HScrollCall n]))"

definition passthrough_rel_move :: "input_env \<Rightarrow> nat \<Rightarrow> u16 \<Rightarrow> u16 \<Rightarrow> input_world \<Rightarrow> input_world \<times> os_call list" where
  "passthrough_rel_move env s dx dy w =
     (if \<not> ie_mouse env then (w, [])
      else (set_ctx s (\<lambda>c. c\<lparr>ic_mouse_left_button_timeout := DisableDelay\<rparr>) w, [MoveMouse dx dy]))"

definition passthrough_abs_move :: "input_env \<Rightarrow> nat \<Rightarrow> u16 \<Rightarrow> u16 \<Rightarrow> u16 \<Rightarrow> u16 \<Rightarrow> input_world \<Rightarrow> input_world \<times> os_call list" where
  "passthrough_abs_move env s x y width height w =
     (if \<not> ie_mouse env then (w, [])
      else
        let w = (if ic_mouse_left_button_timeout (iw_ctx w s) = DisableDelay
                 then set_ctx s (\<lambda>c. c\<lparr>ic_mouse_left_button_timeout := EnableDelay\<rparr>) w else w)
        in (w, if width = 0 \<or> height = 0 then [] else [AbsMouse x y width height]))"

definition passthrough_unicode :: "input_env \<Rightarrow> u8 list \<Rightarrow> os_call list" where
  "passthrough_unicode env text = (if ie_keyboard env then [UnicodeCall text] else [])"

subsection \<open>Reset and tasks\<close>

text \<open>\<open>reset\<close>, on the thread that ends the session, and the task it leaves to the pool.\<close>

definition reset_input :: "nat \<Rightarrow> input_world \<Rightarrow> input_world" where
  "reset_input s w =
     (let w = (case iw_key_press_repeat_id w of None \<Rightarrow> w | Some task_id \<Rightarrow> cancel_task task_id w);
          w = (case ic_mouse_left_button_timeout (iw_ctx w s) of DelayTask task_id \<Rightarrow> cancel_task task_id w | _ \<Rightarrow> w)
      in push_delayed ResetInput w)"

definition reset_task :: "input_world \<Rightarrow> input_world \<times> os_call list" where
  "reset_task w =
     (w\<lparr>iw_mouse_press := replicate (length (iw_mouse_press w)) False, iw_key_press := []\<rparr>,
      map (\<lambda>x. ButtonMouse (of_nat x) True) (filter (\<lambda>x. iw_mouse_press w ! x) [0..<length (iw_mouse_press w)])
      @ map (\<lambda>kpid. KeyboardUpdate (vk_from_kpid kpid AND 0x00FF) True (flags_from_kpid kpid)) (iw_key_press w))"

fun execute_task :: "input_env \<Rightarrow> input_task \<Rightarrow> input_world \<Rightarrow> input_world \<times> os_call list" where
  "execute_task env (RepeatKey key_code flags synthetic) w = repeat_key env key_code flags synthetic w"
| "execute_task env (ReleaseLeft s) w = release_left env s w"
| "execute_task env ResetInput w = reset_task w"

definition run_task :: "input_env \<Rightarrow> nat \<Rightarrow> input_world \<Rightarrow> input_world \<times> os_call list" where
  "run_task env task_id w =
     (case map_of (iw_tasks w) task_id of None \<Rightarrow> (w, []) | Some t \<Rightarrow> execute_task env t (cancel_task task_id w))"

definition passthrough :: "input_env \<Rightarrow> nat \<Rightarrow> packet \<Rightarrow> input_world \<Rightarrow> input_world \<times> os_call list" where
  "passthrough env s p w =
     (case p of
        RelMove dx dy \<Rightarrow> passthrough_rel_move env s dx dy w
      | AbsMove x y width height \<Rightarrow> passthrough_abs_move env s x y width height w
      | MouseButton release button \<Rightarrow> passthrough_button env s release button w
      | ScrollMsg a1 a2 \<Rightarrow> passthrough_scroll env s a1 w
      | HScrollMsg a \<Rightarrow> passthrough_hscroll env s a w
      | KeyMsg release keyCode modifiers flags \<Rightarrow> passthrough_keyboard env s release keyCode modifiers flags w
      | UnicodeMsg text \<Rightarrow> (w, passthrough_unicode env text)
      | _ \<Rightarrow> (w, []))"

datatype input_event = Deliver nat packet | RunTask nat | ResetSession nat

text \<open>The world together with what it did to the operating system: the keys and buttons that are down there. The
  last field notes that a reset cancelled a release of the left button that was still due.\<close>

record input_host =
  ih_world :: input_world
  ih_keys :: "u16 set"
  ih_buttons :: "u8 set"
  ih_release_cancelled :: bool

fun os_keys :: "os_call \<Rightarrow> u16 set \<Rightarrow> u16 set" where
  "os_keys (KeyboardUpdate k release f) K = (if release then K - {k} else insert k K)"
| "os_keys _ K = K"

fun os_buttons :: "os_call \<Rightarrow> u8 set \<Rightarrow> u8 set" where
  "os_buttons (ButtonMouse b release) B = (if release then B - {b} else insert b B)"
| "os_buttons _ B = B"

fun release_due :: "nat \<Rightarrow> input_world \<Rightarrow> bool" where
  "release_due s w \<longleftrightarrow> (case ic_mouse_left_button_timeout (iw_ctx w s) of
     DelayTask i \<Rightarrow> (case map_of (iw_tasks w) i of Some (ReleaseLeft _) \<Rightarrow> True | _ \<Rightarrow> False) | _ \<Rightarrow> False)"

definition apply_calls :: "input_world \<times> os_call list \<Rightarrow> input_host \<Rightarrow> input_host" where
  "apply_calls r h = h\<lparr>ih_world := fst r, ih_keys := fold os_keys (snd r) (ih_keys h), ih_buttons := fold os_buttons (snd r) (ih_buttons h)\<rparr>"

fun host_step :: "input_env \<Rightarrow> input_host \<Rightarrow> input_event \<Rightarrow> input_host \<times> os_call list" where
  "host_step env h (Deliver s p) = (let r = passthrough env s p (ih_world h) in (apply_calls r h, snd r))"
| "host_step env h (RunTask i) = (let r = run_task env i (ih_world h) in (apply_calls r h, snd r))"
| "host_step env h (ResetSession s) =
     (h\<lparr>ih_world := reset_input s (ih_world h), ih_release_cancelled := ih_release_cancelled h \<or> release_due s (ih_world h)\<rparr>, [])"

definition host_init :: input_host where
  "host_init = \<lparr>ih_world = world_init, ih_keys = {}, ih_buttons = {}, ih_release_cancelled = False\<rparr>"
subsection \<open>Keys\<close>

lemma vk_of_make_kpid [simp]: "vk_from_kpid (make_kpid vk flags) = vk"
  by (rule bit_word_eqI) (auto simp: make_kpid_def vk_from_kpid_def bit_simps dest: bit_imp_le_length)

lemma flags_of_make_kpid [simp]: "flags_from_kpid (make_kpid vk flags) = flags"
proof (rule bit_word_eqI)
  have m: "(255 :: u32) = mask 8" by (simp add: mask_eq_exp_minus_1)
  show "bit (flags_from_kpid (make_kpid vk flags)) n = bit flags n" if "n < LENGTH(8)" for n
    using that unfolding flags_from_kpid_def make_kpid_def m by (auto simp: bit_simps simp del: mask_numeral)
qed

text \<open>What is down at the operating system is on the list of pressed keys, or the target of a key binding.\<close>

definition keys_inv :: "input_env \<Rightarrow> u32 list \<Rightarrow> u16 set \<Rightarrow> bool" where
  "keys_inv env pressed K \<longleftrightarrow>
     (\<forall>k \<in> K. (\<exists>i \<in> set pressed. map_keycode env (vk_from_kpid i) = k) \<or> (\<exists>c. ie_keybindings env c = Some k))
     \<and> (\<forall>i \<in> set pressed. vk_from_kpid i AND 0x00FF = vk_from_kpid i)"

definition synthetic_keys :: "input_env \<Rightarrow> u8 \<Rightarrow> u16 set" where
  "synthetic_keys env syn = (if syn AND ie_MODIFIER_SHIFT env \<noteq> 0 then {0x10} else {}) \<union>
     (if syn AND ie_MODIFIER_CTRL env \<noteq> 0 then {0x11} else {}) \<union> (if syn AND ie_MODIFIER_ALT env \<noteq> 0 then {0x12} else {})"

lemma synthetic_down: "fold os_keys (synthetic_calls env syn False f) K = K \<union> synthetic_keys env syn"
  by (auto simp: synthetic_calls_def synthetic_keys_def)

lemma synthetic_up: "fold os_keys (synthetic_calls env syn True f) K = K - synthetic_keys env syn"
  by (auto simp: synthetic_calls_def synthetic_keys_def)

lemma send_press: "fold os_keys (send_key_and_modifiers env c False f syn) K \<subseteq> insert (map_keycode env c) K"
  by (auto simp: send_key_and_modifiers_def synthetic_down synthetic_up)

lemma send_release: "fold os_keys (send_key_and_modifiers env c True f syn) K = K - {map_keycode env c}"
  by (simp add: send_key_and_modifiers_def)

lemma keys_inv_press:
  assumes "keys_inv env pressed K" "make_kpid c f \<in> set pressed"
  shows "keys_inv env pressed (fold os_keys (send_key_and_modifiers env c False f' syn) K)"
proof -
  have "\<exists>i \<in> set pressed. map_keycode env (vk_from_kpid i) = map_keycode env c"
    using assms(2) by (intro bexI [of _ "make_kpid c f"]) simp_all
  with assms(1) send_press [of env c f' syn K] show ?thesis unfolding keys_inv_def by blast
qed

lemma keys_inv_new:
  assumes "keys_inv env pressed K" "c AND 0x00FF = c"
  shows "keys_inv env (make_kpid c f # pressed) K"
  using assms unfolding keys_inv_def by simp

lemma keys_inv_release:
  assumes "keys_inv env pressed K"
  shows "keys_inv env (filter (\<lambda>i. i \<noteq> make_kpid c f) pressed) (K - {map_keycode env c})"
  using assms unfolding keys_inv_def by fastforce

lemma change_key_keys:
  assumes "keys_inv env (iw_key_press w) K" "c AND 0x00FF = c"
  shows "keys_inv env (iw_key_press (fst (change_key env s release c f syn w))) (fold os_keys (snd (change_key env s release c f syn w)) K)"
proof (cases release)
  case True
  then show ?thesis using keys_inv_release [OF assms(1)] by (simp add: change_key_def set_ctx_def send_release)
next
  case False
  then show ?thesis
    using keys_inv_press [OF keys_inv_new [OF assms], of c f] by (simp add: change_key_def set_ctx_def)
qed

lemma key_press_frame [simp]:
  "iw_key_press (cancel_task i w) = iw_key_press w" "iw_key_press (push_delayed t w) = iw_key_press w"
  "iw_key_press (set_ctx s g w) = iw_key_press w"
  by (simp_all add: cancel_task_def push_delayed_def set_ctx_def)

lemma start_repeat_frame [simp]: "iw_key_press (start_repeat env c f syn w) = iw_key_press w"
  by (simp add: start_repeat_def Let_def split: option.splits)

lemma keyboard_cases:
  obtains (nothing) "passthrough_keyboard env s release c m f w = (w, [])"
  | (shortcut) r where "apply_shortcut (c AND 0x00FF) w = Some r" "passthrough_keyboard env s release c m f w = r"
  | (change) syn w' where "w' \<in> {w, start_repeat env (c AND 0x00FF) f syn w}"
      "passthrough_keyboard env s release c m f w = change_key env s release (c AND 0x00FF) f syn w'"
proof -
  define kc where "kc = c AND 0x00FF"
  define syn where "syn = synthetic_modifiers env release kc m (ic_shortcutFlags (iw_ctx w s))"
  have "passthrough_keyboard env s release c m f w = (w, [])
    \<or> (\<exists>r. apply_shortcut kc w = Some r \<and> passthrough_keyboard env s release c m f w = r)
    \<or> passthrough_keyboard env s release c m f w = change_key env s release kc f syn w
    \<or> passthrough_keyboard env s release c m f w = change_key env s release kc f syn (start_repeat env kc f syn w)"
    unfolding passthrough_keyboard_def Let_def kc_def [symmetric] syn_def [symmetric]
    by (cases "apply_shortcut kc w") simp_all
  then show thesis
  proof (elim disjE exE conjE)
    fix r
    assume "apply_shortcut kc w = Some r" "passthrough_keyboard env s release c m f w = r"
    then show thesis by (intro shortcut) (simp_all add: kc_def)
  next
    assume "passthrough_keyboard env s release c m f w = change_key env s release kc f syn w"
    then show thesis by (intro change [of w syn]) (simp_all add: kc_def)
  next
    assume "passthrough_keyboard env s release c m f w = change_key env s release kc f syn (start_repeat env kc f syn w)"
    then show thesis by (intro change [of "start_repeat env kc f syn w" syn]) (simp_all add: kc_def)
  qed (rule nothing)
qed

lemma shortcut_frame:
  assumes "apply_shortcut k w = Some r"
  shows "iw_key_press (fst r) = iw_key_press w" "iw_mouse_press (fst r) = iw_mouse_press w" "iw_tasks (fst r) = iw_tasks w"
    "iw_key_press_repeat_id (fst r) = iw_key_press_repeat_id w" "iw_next_task (fst r) = iw_next_task w"
    "fold os_keys (snd r) K = K" "fold os_buttons (snd r) B = B"
  using assms by (auto simp: apply_shortcut_def split: if_splits)

lemma keyboard_keys:
  assumes "keys_inv env (iw_key_press w) K"
  shows "keys_inv env (iw_key_press (fst (passthrough_keyboard env s release c m f w)))
    (fold os_keys (snd (passthrough_keyboard env s release c m f w)) K)"
proof (cases rule: keyboard_cases [of env s release c m f w])
  case (change syn w')
  have "(c AND 0x00FF) AND 0x00FF = c AND 0x00FF" by (simp add: and.assoc)
  moreover have "iw_key_press w' = iw_key_press w" using change(1) by auto
  ultimately show ?thesis using change_key_keys [of env w' K "c AND 0x00FF"] assms by (simp add: change(2))
qed (use assms shortcut_frame in simp_all)

lemma repeat_keys:
  "keys_inv env (iw_key_press w) K \<Longrightarrow>
    keys_inv env (iw_key_press (fst (repeat_key env c f syn w))) (fold os_keys (snd (repeat_key env c f syn w)) K)"
  by (simp add: repeat_key_def keys_inv_press)

lemma fold_releases:
  "fold os_keys (map (\<lambda>i. KeyboardUpdate (g i) True (h i)) ids) K = K - g ` set ids"
  by (induction ids arbitrary: K) auto

lemma fold_button_keys: "fold os_keys (map (\<lambda>x. ButtonMouse (g x) r) xs) K = K"
  by (induction xs) simp_all

lemma reset_keys:
  assumes "keys_inv env (iw_key_press w) K" "k \<in> fold os_keys (snd (reset_task w)) K"
  shows "\<exists>c. ie_keybindings env c = Some k"
proof -
  have k: "k \<in> K" "k \<notin> (\<lambda>i. vk_from_kpid i AND 0x00FF) ` set (iw_key_press w)"
    using assms(2) by (simp_all add: reset_task_def fold_releases fold_button_keys)
  from assms(1) k(1) consider i where "i \<in> set (iw_key_press w)" "map_keycode env (vk_from_kpid i) = k" | "\<exists>c. ie_keybindings env c = Some k"
    unfolding keys_inv_def by blast
  then show ?thesis
  proof cases
    case 1
    have "vk_from_kpid i AND 0x00FF = vk_from_kpid i" using assms(1) 1(1) by (simp add: keys_inv_def)
    then have "vk_from_kpid i \<in> (\<lambda>i. vk_from_kpid i AND 0x00FF) ` set (iw_key_press w)" using 1(1) by force
    with k(2) 1(2) show ?thesis by (auto simp: map_keycode_def split: option.splits)
  qed
qed

lemma no_key_calls:
  "fold os_keys (snd (passthrough_button env s release b w)) K = K" "iw_key_press (fst (passthrough_button env s release b w)) = iw_key_press w"
  "fold os_keys (snd (release_left env s w)) K = K" "iw_key_press (fst (release_left env s w)) = iw_key_press w"
  "fold os_keys (snd (passthrough_scroll env s a w)) K = K" "iw_key_press (fst (passthrough_scroll env s a w)) = iw_key_press w"
  "fold os_keys (snd (passthrough_hscroll env s a w)) K = K" "iw_key_press (fst (passthrough_hscroll env s a w)) = iw_key_press w"
  "fold os_keys (snd (passthrough_rel_move env s x y w)) K = K" "iw_key_press (fst (passthrough_rel_move env s x y w)) = iw_key_press w"
  "fold os_keys (snd (passthrough_abs_move env s x y a h w)) K = K" "iw_key_press (fst (passthrough_abs_move env s x y a h w)) = iw_key_press w"
  "fold os_keys (passthrough_unicode env t) K = K"
  by (auto simp: passthrough_button_def release_left_def passthrough_scroll_def passthrough_hscroll_def passthrough_rel_move_def
      passthrough_abs_move_def passthrough_unicode_def Let_def split: prod.splits option.splits if_splits)

definition keys_ok :: "input_env \<Rightarrow> input_host \<Rightarrow> bool" where
  "keys_ok env h \<longleftrightarrow> keys_inv env (iw_key_press (ih_world h)) (ih_keys h)"

lemma passthrough_keys:
  "keys_inv env (iw_key_press w) K \<Longrightarrow>
    keys_inv env (iw_key_press (fst (passthrough env s p w))) (fold os_keys (snd (passthrough env s p w)) K)"
  by (cases p) (simp_all add: passthrough_def no_key_calls keyboard_keys)

lemma run_task_keys:
  "keys_inv env (iw_key_press w) K \<Longrightarrow>
    keys_inv env (iw_key_press (fst (run_task env i w))) (fold os_keys (snd (run_task env i w)) K)"
proof (cases "map_of (iw_tasks w) i")
  case (Some t)
  assume inv: "keys_inv env (iw_key_press w) K"
  show ?thesis
  proof (cases t)
    case ResetInput
    have "keys_inv env (iw_key_press (cancel_task i w)) K" using inv by simp
    from reset_keys [OF this] show ?thesis
      by (simp add: run_task_def Some ResetInput keys_inv_def) (simp add: reset_task_def)
  qed (use inv Some in \<open>simp_all add: run_task_def no_key_calls repeat_keys\<close>)
qed (simp add: run_task_def)

lemma host_step_keys: "keys_ok env h \<Longrightarrow> keys_ok env (fst (host_step env h ev))"
  by (cases ev)
    (simp_all add: keys_ok_def Let_def apply_calls_def passthrough_keys run_task_keys reset_input_def split: option.splits left_delay.splits)

interpretation host_keys: machine_invariant "host_step env" "keys_ok env" for env
  by unfold_locales (rule host_step_keys)

subsection \<open>Buttons\<close>

definition env_ok :: "input_env \<Rightarrow> bool" where
  "env_ok env \<longleftrightarrow> ie_BUTTON_LEFT env \<noteq> ie_BUTTON_RIGHT env \<and> ie_BUTTON_LEFT env > 0 \<and> unat (ie_BUTTON_LEFT env) < 5
     \<and> ie_BUTTON_RIGHT env > 0 \<and> unat (ie_BUTTON_RIGHT env) < 5"

definition releases_left :: "input_task \<Rightarrow> bool" where
  "releases_left t \<longleftrightarrow> (case t of ReleaseLeft _ \<Rightarrow> True | _ \<Rightarrow> False)"

definition left_pending :: "input_world \<Rightarrow> bool" where
  "left_pending w \<longleftrightarrow> list_ex (\<lambda>p. releases_left (snd p)) (iw_tasks w)"

definition tasks_inv :: "input_world \<Rightarrow> bool" where
  "tasks_inv w \<longleftrightarrow> distinct (map fst (iw_tasks w)) \<and> (\<forall>p \<in> set (iw_tasks w). fst p < iw_next_task w)
     \<and> (\<forall>i. iw_key_press_repeat_id w = Some i \<longrightarrow> i < iw_next_task w \<and> (\<forall>p \<in> set (iw_tasks w). fst p = i \<longrightarrow> \<not> releases_left (snd p)))"

text \<open>A tracked button that is down at the operating system is recorded as pressed, or it is the left one and its
  release is due or was cancelled.\<close>

definition buttons_inv :: "input_env \<Rightarrow> input_world \<Rightarrow> u8 set \<Rightarrow> bool \<Rightarrow> bool" where
  "buttons_inv env w B cancelled \<longleftrightarrow> length (iw_mouse_press w) = 5 \<and>
     (\<forall>b \<in> B. b > 0 \<and> unat b < 5 \<longrightarrow> iw_mouse_press w ! unat b \<or> b = ie_BUTTON_LEFT env \<and> (cancelled \<or> left_pending w))"

definition buttons_ok :: "input_env \<Rightarrow> input_host \<Rightarrow> bool" where
  "buttons_ok env h \<longleftrightarrow> tasks_inv (ih_world h) \<and> buttons_inv env (ih_world h) (ih_buttons h) (ih_release_cancelled h)"

lemma tasks_inv_push: "tasks_inv w \<Longrightarrow> tasks_inv (push_delayed t w)"
  by (auto simp: tasks_inv_def push_delayed_def less_Suc_eq)

lemma tasks_inv_repeat:
  "tasks_inv w \<Longrightarrow> tasks_inv (push_delayed (RepeatKey c f syn) (w\<lparr>iw_key_press_repeat_id := Some (iw_next_task w)\<rparr>))"
  by (auto simp: tasks_inv_def push_delayed_def less_Suc_eq releases_left_def)

lemma tasks_inv_cancel: "tasks_inv w \<Longrightarrow> tasks_inv (cancel_task i w)"
  by (auto simp: tasks_inv_def cancel_task_def distinct_map_filter)

lemma tasks_inv_cong:
  "iw_tasks w' = iw_tasks w \<Longrightarrow> iw_next_task w' = iw_next_task w \<Longrightarrow> iw_key_press_repeat_id w' = iw_key_press_repeat_id w \<Longrightarrow>
    tasks_inv w \<Longrightarrow> tasks_inv w'"
  by (simp add: tasks_inv_def)

lemma pending_push: "left_pending (push_delayed t w) \<longleftrightarrow> left_pending w \<or> releases_left t"
  by (auto simp: left_pending_def push_delayed_def)

lemma list_ex_filter: "list_ex P (filter Q xs) = list_ex (\<lambda>x. Q x \<and> P x) xs"
  by (induction xs) auto

lemma pending_cancel:
  assumes "\<forall>p \<in> set (iw_tasks w). fst p = i \<longrightarrow> \<not> releases_left (snd p)"
  shows "left_pending (cancel_task i w) = left_pending w"
  unfolding left_pending_def cancel_task_def using assms by (auto simp: list_ex_filter intro!: list_ex_cong)

lemma pending_cancel_repeat:
  "tasks_inv w \<Longrightarrow> iw_key_press_repeat_id w = Some i \<Longrightarrow> left_pending (cancel_task i w) = left_pending w"
  by (rule pending_cancel) (simp add: tasks_inv_def)

lemma mouse_press_frame [simp]: "iw_mouse_press (cancel_task i w) = iw_mouse_press w" "iw_mouse_press (push_delayed t w) = iw_mouse_press w"
  "iw_mouse_press (set_ctx s g w) = iw_mouse_press w"
  by (simp_all add: cancel_task_def push_delayed_def set_ctx_def)

lemma pending_set_ctx [simp]: "left_pending (set_ctx s g w) = left_pending w"
  by (simp add: left_pending_def set_ctx_def)

lemma start_repeat_tasks:
  assumes "tasks_inv w"
  shows "tasks_inv (start_repeat env c f syn w)" "left_pending (start_repeat env c f syn w) = left_pending w"
    "iw_mouse_press (start_repeat env c f syn w) = iw_mouse_press w"
proof -
  let ?w = "case iw_key_press_repeat_id w of None \<Rightarrow> w | Some i \<Rightarrow> cancel_task i w"
  have "tasks_inv ?w" "left_pending ?w = left_pending w" "iw_mouse_press ?w = iw_mouse_press w"
    using assms by (auto simp: tasks_inv_cancel pending_cancel_repeat split: option.splits)
  then show "tasks_inv (start_repeat env c f syn w)" "left_pending (start_repeat env c f syn w) = left_pending w"
    "iw_mouse_press (start_repeat env c f syn w) = iw_mouse_press w"
    by (auto simp: start_repeat_def Let_def tasks_inv_repeat pending_push releases_left_def)
      (simp_all add: left_pending_def push_delayed_def)
qed

lemma no_button_calls:
  "fold os_buttons (send_key_and_modifiers env c release f syn) B = B"
  by (simp add: send_key_and_modifiers_def synthetic_calls_def)

lemma buttons_inv_frame:
  "buttons_inv env w B cancelled \<Longrightarrow> iw_mouse_press w' = iw_mouse_press w \<Longrightarrow> left_pending w' = left_pending w \<Longrightarrow>
    buttons_inv env w' B cancelled"
  by (simp add: buttons_inv_def)

lemma keyboard_buttons:
  assumes "tasks_inv w" "buttons_inv env w B cancelled" and r_def: "r = passthrough_keyboard env s release c m f w"
  shows "tasks_inv (fst r) \<and> buttons_inv env (fst r) (fold os_buttons (snd r) B) cancelled"
proof (cases rule: keyboard_cases [of env s release c m f w])
  case (shortcut r')
  then show ?thesis
    using assms(1,2) shortcut_frame [OF shortcut(1)]
    by (simp add: r_def tasks_inv_def buttons_inv_def left_pending_def)
next
  case (change syn w')
  have w': "tasks_inv w'" "left_pending w' = left_pending w" "iw_mouse_press w' = iw_mouse_press w"
    using change(1) start_repeat_tasks [OF assms(1)] assms(1) by auto
  then have "tasks_inv (fst r)" by (simp add: r_def change(2) change_key_def tasks_inv_def set_ctx_def)
  moreover have "buttons_inv env (fst r) B cancelled"
    using assms(2) w' by (simp add: r_def change(2) change_key_def buttons_inv_def left_pending_def set_ctx_def)
  ultimately show ?thesis by (simp add: r_def change(2) change_key_def no_button_calls)
qed (use assms in simp)

lemma button_buttons:
  assumes "env_ok env" "tasks_inv w" "buttons_inv env w B cancelled" and r_def: "r = passthrough_button env s release b w"
  shows "tasks_inv (fst r) \<and> buttons_inv env (fst r) (fold os_buttons (snd r) B) cancelled"
proof -
  have "tasks_inv (fst r)"
    using assms(2) by (auto simp: r_def passthrough_button_def Let_def tasks_inv_def push_delayed_def set_ctx_def less_Suc_eq)
  moreover have "buttons_inv env (fst r) (fold os_buttons (snd r) B) cancelled"
    using assms(1,3)
    by (auto simp: r_def passthrough_button_def Let_def buttons_inv_def pending_push releases_left_def env_ok_def
        set_ctx_def push_delayed_def left_pending_def nth_list_update word_unat_eq_iff split: left_delay.splits)
  ultimately show ?thesis by simp
qed

lemma quiet_buttons:
  assumes "tasks_inv w" "buttons_inv env w B cancelled"
  shows "tasks_inv (fst (passthrough_scroll env s a w)) \<and>
      buttons_inv env (fst (passthrough_scroll env s a w)) (fold os_buttons (snd (passthrough_scroll env s a w)) B) cancelled"
    "tasks_inv (fst (passthrough_hscroll env s a w)) \<and>
      buttons_inv env (fst (passthrough_hscroll env s a w)) (fold os_buttons (snd (passthrough_hscroll env s a w)) B) cancelled"
    "tasks_inv (fst (passthrough_rel_move env s x y w)) \<and>
      buttons_inv env (fst (passthrough_rel_move env s x y w)) (fold os_buttons (snd (passthrough_rel_move env s x y w)) B) cancelled"
    "tasks_inv (fst (passthrough_abs_move env s x y v h w)) \<and>
      buttons_inv env (fst (passthrough_abs_move env s x y v h w)) (fold os_buttons (snd (passthrough_abs_move env s x y v h w)) B) cancelled"
    "fold os_buttons (passthrough_unicode env t) B = B"
  using assms
  by (auto simp: passthrough_scroll_def passthrough_hscroll_def passthrough_rel_move_def passthrough_abs_move_def
      passthrough_unicode_def Let_def tasks_inv_def buttons_inv_def set_ctx_def left_pending_def split: prod.splits option.splits)

lemma passthrough_buttons:
  assumes "env_ok env" "tasks_inv w" "buttons_inv env w B cancelled"
  shows "tasks_inv (fst (passthrough env s p w)) \<and>
    buttons_inv env (fst (passthrough env s p w)) (fold os_buttons (snd (passthrough env s p w)) B) cancelled"
  using assms keyboard_buttons [OF assms(2,3)] button_buttons [OF assms] quiet_buttons [OF assms(2,3)]
  by (cases p) (simp_all add: passthrough_def)

lemma fold_button_releases:
  "fold os_buttons (map (\<lambda>x. ButtonMouse (g x) True) xs) B = B - g ` set xs"
  by (induction xs arbitrary: B) auto

lemma fold_key_buttons: "fold os_buttons (map (\<lambda>i. KeyboardUpdate (g i) r (h i)) xs) B = B"
  by (induction xs) simp_all

lemma reset_buttons:
  assumes "buttons_inv env w B cancelled"
  shows "fold os_buttons (snd (reset_task w)) B = B - {b. unat b < 5 \<and> iw_mouse_press w ! unat b}"
proof -
  have len: "length (iw_mouse_press w) = 5" using assms by (simp add: buttons_inv_def)
  have "(\<lambda>x. of_nat x :: u8) ` set (filter (\<lambda>x. iw_mouse_press w ! x) [0..<5]) = {b. unat b < 5 \<and> iw_mouse_press w ! unat b}"
  proof (intro set_eqI iffI)
    fix b :: u8
    assume "b \<in> (\<lambda>x. of_nat x) ` set (filter (\<lambda>x. iw_mouse_press w ! x) [0..<5])"
    then obtain x where x: "b = of_nat x" "x < 5" "iw_mouse_press w ! x" by auto
    then have "unat b = x" by (simp add: unsigned_of_nat take_bit_nat_eq_self)
    with x show "b \<in> {b. unat b < 5 \<and> iw_mouse_press w ! unat b}" by simp
  next
    fix b :: u8
    assume "b \<in> {b. unat b < 5 \<and> iw_mouse_press w ! unat b}"
    then show "b \<in> (\<lambda>x. of_nat x) ` set (filter (\<lambda>x. iw_mouse_press w ! x) [0..<5])"
      by (intro image_eqI [of _ _ "unat b"]) simp_all
  qed
  then show ?thesis by (simp add: reset_task_def len fold_button_releases fold_key_buttons)
qed

lemma pending_repeat_id [simp]: "left_pending (w\<lparr>iw_key_press_repeat_id := i\<rparr>) = left_pending w"
  by (simp add: left_pending_def)

lemma repeat_buttons:
  assumes "tasks_inv w" "buttons_inv env w B cancelled" and r_def: "r = repeat_key env c f syn w"
  shows "tasks_inv (fst r) \<and> buttons_inv env (fst r) (fold os_buttons (snd r) B) cancelled"
proof (cases "make_kpid c f \<in> set (iw_key_press w)")
  case True
  then show ?thesis
    using tasks_inv_repeat [OF assms(1)] buttons_inv_frame [OF assms(2)]
    by (simp add: r_def repeat_key_def no_button_calls pending_push releases_left_def)
next
  case False
  then show ?thesis
    using assms(1) buttons_inv_frame [OF assms(2)] by (simp add: r_def repeat_key_def tasks_inv_def)
qed

lemma reset_task_buttons:
  assumes "tasks_inv w" "buttons_inv env w B cancelled"
  shows "tasks_inv (fst (reset_task w)) \<and> buttons_inv env (fst (reset_task w)) (fold os_buttons (snd (reset_task w)) B) cancelled"
proof -
  have pend: "left_pending (fst (reset_task w)) = left_pending w" and press: "iw_mouse_press (fst (reset_task w)) = replicate 5 False"
    using assms(2) by (simp_all add: reset_task_def left_pending_def buttons_inv_def)
  have "tasks_inv (fst (reset_task w))" using assms(1) by (simp add: reset_task_def tasks_inv_def)
  moreover have "buttons_inv env (fst (reset_task w)) (B - {b. unat b < 5 \<and> iw_mouse_press w ! unat b}) cancelled"
    using assms(2) unfolding buttons_inv_def pend press by auto
  ultimately show ?thesis by (simp add: reset_buttons [OF assms(2)])
qed

lemma run_task_buttons:
  assumes "env_ok env" "tasks_inv w" "buttons_inv env w B cancelled" and r_def: "r = run_task env i w"
  shows "tasks_inv (fst r) \<and> buttons_inv env (fst r) (fold os_buttons (snd r) B) cancelled"
proof (cases "map_of (iw_tasks w) i")
  case (Some t)
  let ?w = "cancel_task i w"
  have w: "tasks_inv ?w" by (rule tasks_inv_cancel [OF assms(2)])
  have len: "length (iw_mouse_press w) = 5" using assms(3) by (simp add: buttons_inv_def)
  have at: "(i, t) \<in> set (iw_tasks w)" using Some by (rule map_of_SomeD)
  have pend: "left_pending ?w = left_pending w" if "\<not> releases_left t"
  proof (rule pending_cancel, intro ballI impI)
    fix p
    assume p: "p \<in> set (iw_tasks w)" "fst p = i"
    have "map_of (iw_tasks w) i = Some (snd p)" using assms(2) p by (auto simp: tasks_inv_def)
    with Some that show "\<not> releases_left (snd p)" by simp
  qed
  show ?thesis
  proof (cases t)
    case (RepeatKey c f syn)
    then have "left_pending ?w = left_pending w" by (intro pend) (simp add: releases_left_def)
    then have "buttons_inv env ?w B cancelled" using assms(3) by (simp add: buttons_inv_def)
    from repeat_buttons [OF w this refl] show ?thesis by (simp add: r_def run_task_def Some RepeatKey)
  next
    case (ReleaseLeft s)
    show ?thesis
      using w assms(1,3)
      by (auto simp: r_def run_task_def Some ReleaseLeft release_left_def buttons_inv_def env_ok_def nth_list_update word_unat_eq_iff
          tasks_inv_def set_ctx_def) 
  next
    case ResetInput
    then have pend': "left_pending ?w = left_pending w" by (intro pend) (simp add: releases_left_def)
    then have inv: "buttons_inv env ?w B cancelled" using assms(3) by (simp add: buttons_inv_def)
    from reset_task_buttons [OF w inv] show ?thesis by (simp add: r_def run_task_def Some ResetInput)
  qed
qed (use assms in \<open>simp add: run_task_def\<close>)

lemma reset_input_buttons:
  assumes "tasks_inv w" "buttons_inv env w B cancelled"
  shows "tasks_inv (reset_input s w) \<and> buttons_inv env (reset_input s w) B (cancelled \<or> release_due s w)"
proof -
  define w1 where "w1 = (case iw_key_press_repeat_id w of None \<Rightarrow> w | Some i \<Rightarrow> cancel_task i w)"
  have w1: "tasks_inv w1" "left_pending w1 = left_pending w" "iw_mouse_press w1 = iw_mouse_press w" "iw_ctx w1 = iw_ctx w"
    using assms(1) by (auto simp: w1_def tasks_inv_cancel pending_cancel_repeat split: option.splits) (simp_all add: cancel_task_def)
  define w2 where "w2 = (case ic_mouse_left_button_timeout (iw_ctx w1 s) of DelayTask i \<Rightarrow> cancel_task i w1 | _ \<Rightarrow> w1)"
  have "left_pending w2 = left_pending w1 \<or> release_due s w"
  proof (cases "ic_mouse_left_button_timeout (iw_ctx w1 s)")
    case (DelayTask i)
    show ?thesis
    proof (cases "\<forall>p \<in> set (iw_tasks w1). fst p = i \<longrightarrow> \<not> releases_left (snd p)")
      case True
      then show ?thesis using pending_cancel by (simp add: w2_def DelayTask)
    next
      case False
      then obtain p where p: "p \<in> set (iw_tasks w1)" "fst p = i" "releases_left (snd p)" by blast
      have "p \<in> set (iw_tasks w)" using p(1) by (auto simp: w1_def cancel_task_def split: option.splits)
      then have "map_of (iw_tasks w) i = Some (snd p)" using assms(1) p(2) by (auto simp: tasks_inv_def)
      then show ?thesis using p(3) DelayTask w1(4) by (auto simp: releases_left_def split: input_task.splits)
    qed
  qed (simp_all add: w2_def)
  moreover have "tasks_inv w2" "iw_mouse_press w2 = iw_mouse_press w1"
    using w1(1) by (auto simp: w2_def tasks_inv_cancel split: left_delay.splits)
  moreover have "reset_input s w = push_delayed ResetInput w2"
    unfolding reset_input_def Let_def w2_def w1_def ..
  ultimately show ?thesis
    using assms(2) w1 tasks_inv_push [of w2 ResetInput]
    by (auto simp: buttons_inv_def pending_push releases_left_def)
qed

lemma host_step_buttons: "env_ok env \<Longrightarrow> buttons_ok env h \<Longrightarrow> buttons_ok env (fst (host_step env h ev))"
  using passthrough_buttons run_task_buttons [OF _ _ _ refl] reset_input_buttons
  by (cases ev) (auto simp: buttons_ok_def Let_def apply_calls_def simp del: release_due.simps)

lemma host_run_buttons: "env_ok env \<Longrightarrow> buttons_ok env h \<Longrightarrow> buttons_ok env (machine_state (host_step env) h evs)"
  by (induction evs arbitrary: h) (simp_all add: host_step_buttons del: host_step.simps)

text \<open>
  C22. Ending a session leaves nothing held down by accident. After any interleaving of messages, delayed tasks and
  resets of all sessions, the task that a reset pushes brings up every key but those that a key binding can
  produce, and every mouse button the host keeps track of, but the left one when its delayed release is still due
  or was cancelled by a reset. It also forgets all pressed keys and buttons.
\<close>

theorem reset_releases_input:
  fixes env :: input_env and evs :: "input_event list"
  defines "h \<equiv> machine_state (host_step env) host_init evs"
  assumes "env_ok env" "map_of (iw_tasks (ih_world h)) i = Some ResetInput"
  defines "h' \<equiv> fst (host_step env h (RunTask i))"
  shows "iw_key_press (ih_world h') = [] \<and> iw_mouse_press (ih_world h') = replicate 5 False
    \<and> (\<forall>k \<in> ih_keys h'. \<exists>c. ie_keybindings env c = Some k)
    \<and> (\<forall>b \<in> ih_buttons h'. b > 0 \<and> unat b < 5 \<longrightarrow>
        b = ie_BUTTON_LEFT env \<and> (ih_release_cancelled h' \<or> left_pending (ih_world h')))"
proof -
  have "keys_ok env host_init" by (simp add: keys_ok_def host_init_def world_init_def keys_inv_def)
  then have keys: "keys_ok env h" unfolding h_def by (rule host_keys.run_inv)
  have "buttons_ok env host_init"
    by (simp add: buttons_ok_def host_init_def world_init_def tasks_inv_def buttons_inv_def)
  then have buttons: "buttons_ok env h" unfolding h_def by (rule host_run_buttons [OF assms(2)])
  then have buttons': "buttons_ok env h'" unfolding h'_def by (rule host_step_buttons [OF assms(2)])
  have run: "run_task env i (ih_world h) = reset_task (cancel_task i (ih_world h))" by (simp add: run_task_def assms(3))
  have len: "length (iw_mouse_press (ih_world h)) = 5" using buttons by (simp add: buttons_ok_def buttons_inv_def)
  have w': "iw_key_press (ih_world h') = []" "iw_mouse_press (ih_world h') = replicate 5 False"
    using len by (simp_all add: h'_def Let_def apply_calls_def run) (simp_all add: reset_task_def)
  have "\<exists>c. ie_keybindings env c = Some k" if "k \<in> ih_keys h'" for k
    using reset_keys [of env "cancel_task i (ih_world h)" "ih_keys h" k] keys that
    by (simp add: h'_def Let_def apply_calls_def run keys_ok_def)
  moreover have "b = ie_BUTTON_LEFT env \<and> (ih_release_cancelled h' \<or> left_pending (ih_world h'))"
    if "b \<in> ih_buttons h'" "b > 0" "unat b < 5" for b
    using buttons' that by (auto simp: buttons_ok_def buttons_inv_def w')
  ultimately show ?thesis using w' by blast
qed

definition plain_env :: "(u16 \<rightharpoonup> u16) \<Rightarrow> input_env" where
  "plain_env bindings = \<lparr>ie_mouse = True, ie_keyboard = True, ie_high_resolution_scrolling = False, ie_keybindings = bindings,
     ie_key_repeat_delay = 500, ie_MODIFIER_SHIFT = 1, ie_MODIFIER_CTRL = 2, ie_MODIFIER_ALT = 4, ie_BUTTON_LEFT = 1,
     ie_BUTTON_RIGHT = 3\<rparr>"

lemmas input_run_simps = host_init_def world_init_def input_new_def plain_env_def passthrough_def passthrough_keyboard_def
  passthrough_button_def start_repeat_def change_key_def send_key_and_modifiers_def synthetic_calls_def synthetic_modifiers_def
  is_modifier_def shift_keys_def control_keys_def menu_keys_def update_shortcutFlags_def SHORTCUT_def SHIFT_def CTRL_def ALT_def
  map_keycode_def push_delayed_def set_ctx_def cancel_task_def reset_input_def reset_task_def run_task_def apply_calls_def
  release_left_def passthrough_abs_move_def passthrough_rel_move_def Let_def

theorem reset_releases_input_witness:
  "let env = plain_env Map.empty;
       h = machine_state (host_step env) host_init [Deliver 0 (KeyMsg False 0x41 0 0), Deliver 0 (MouseButton False 3), ResetSession 0];
       h' = fst (host_step env h (RunTask 1))
   in 0x41 \<in> ih_keys h \<and> 3 \<in> ih_buttons h \<and> ih_keys h' = {} \<and> 3 \<notin> ih_buttons h'"
proof -
  let ?env = "plain_env Map.empty"
  let ?evs = "[Deliver 0 (KeyMsg False 0x41 0 0), Deliver 0 (MouseButton False 3), ResetSession 0]"
  let ?h = "machine_state (host_step ?env) host_init ?evs"
  have "env_ok ?env" by (simp add: env_ok_def plain_env_def)
  moreover have "map_of (iw_tasks (ih_world ?h)) 1 = Some ResetInput" by (simp add: input_run_simps)
  ultimately have "\<forall>k \<in> ih_keys (fst (host_step ?env ?h (RunTask 1))). \<exists>c. ie_keybindings ?env c = Some k"
    "\<forall>b \<in> ih_buttons (fst (host_step ?env ?h (RunTask 1))). b > 0 \<and> unat b < 5 \<longrightarrow> b = ie_BUTTON_LEFT ?env"
    using reset_releases_input [where env = ?env and evs = ?evs and i = 1] by simp_all
  moreover have "0x41 \<in> ih_keys ?h" "3 \<in> ih_buttons ?h" by (simp_all add: input_run_simps)
  moreover have "ie_keybindings ?env c = None" "ie_BUTTON_LEFT ?env = 1" for c by (simp_all add: plain_env_def)
  ultimately show ?thesis unfolding Let_def by (auto simp del: host_step.simps)
qed

text \<open>The exceptions are real. With the binding of the Shift key that the default configuration has, the reset
  releases another key than the one that was pressed; and a reset within the ten milliseconds of a delayed release
  leaves the left button down.\<close>

lemma bound_key_stays_down:
  "ih_keys (machine_state (host_step (plain_env [0x10 \<mapsto> 0xA0])) host_init
     [Deliver 0 (KeyMsg False 0x10 0 0), ResetSession 0, RunTask 1]) = {0xA0}"
  by (simp add: input_run_simps)

lemma left_button_stays_down:
  "ih_buttons (machine_state (host_step (plain_env Map.empty)) host_init
     [Deliver 0 (MouseButton False 1), Deliver 0 (MouseButton True 1), ResetSession 0, RunTask 0, RunTask 1]) = {1}"
  by (simp add: input_run_simps numeral_eq_Suc upt_rec)

text \<open>Messages that are still queued when the session ends are handled after the reset, as each one waits behind it
  in the pool: a key they press stays down.\<close>

lemma late_key_stays_down:
  "ih_keys (machine_state (host_step (plain_env Map.empty)) host_init
     [ResetSession 0, RunTask 0, Deliver 0 (KeyMsg False 0x41 0 0)]) = {0x41}"
  by (simp add: input_run_simps)

subsection \<open>Scrolling\<close>

lemma trunc_div_rest:
  assumes "b > 0"
  shows "\<bar>a - trunc_div a b * b\<bar> < b" "trunc_div a b = 0 \<Longrightarrow> \<bar>a\<bar> < b"
proof -
  have m: "\<bar>a\<bar> - \<bar>a\<bar> div b * b = \<bar>a\<bar> mod b" by (simp add: minus_div_mult_eq_mod)
  have "\<bar>a - trunc_div a b * b\<bar> = \<bar>a\<bar> mod b"
  proof (cases "a \<ge> 0")
    case True
    then show ?thesis using m by (cases "a = 0") (simp_all add: trunc_div_def assms)
  next
    case False
    then have "a - trunc_div a b * b = - (\<bar>a\<bar> mod b)" using m by (simp add: trunc_div_def)
    then show ?thesis using assms by simp
  qed
  then show *: "\<bar>a - trunc_div a b * b\<bar> < b" using assms by simp
  show "\<bar>a\<bar> < b" if "trunc_div a b = 0" using * that by simp
qed

definition calls_sent :: "int option list \<Rightarrow> int list" where
  "calls_sent outs = concat (map (\<lambda>c. case c of None \<Rightarrow> [] | Some n \<Rightarrow> [n]) outs)"

lemma scroll_tick:
  "\<bar>fst (scroll_ticks a x)\<bar> < 120" "sum_list (calls_sent [snd (scroll_ticks a x)]) + fst (scroll_ticks a x) = a + sint x"
  "list_all (\<lambda>n. n \<noteq> 0 \<and> n mod 120 = 0) (calls_sent [snd (scroll_ticks a x)])"
  using trunc_div_rest [of 120 "a + sint x"]
  by (auto simp: scroll_ticks_def Let_def WHEEL_DELTA_def calls_sent_def)

lemma scroll_small: "\<bar>machine_state scroll_ticks 0 xs\<bar> < 120"
  by (cases xs rule: rev_cases) (simp_all add: scroll_tick)

lemma scroll_total:
  "sum_list (calls_sent (machine_outputs scroll_ticks a xs)) + machine_state scroll_ticks a xs = a + sum_list (map sint xs)"
proof (induction xs arbitrary: a)
  case (Cons x xs)
  from Cons.IH [of "fst (scroll_ticks a x)"] scroll_tick(2) [of a x] show ?case by (simp add: calls_sent_def)
qed (simp add: calls_sent_def)

lemma scroll_whole: "list_all (\<lambda>n. n \<noteq> 0 \<and> n mod 120 = 0) (calls_sent (machine_outputs scroll_ticks a xs))"
proof (induction xs arbitrary: a)
  case (Cons x xs)
  from Cons.IH [of "fst (scroll_ticks a x)"] scroll_tick(3) [of a x] show ?case by (simp add: calls_sent_def)
qed (simp add: calls_sent_def)

text \<open>
  Scrolling in whole ticks loses nothing: over any sequence of scroll messages the ticks sent and the rest kept
  add up to what the client scrolled, every call is a nonzero number of whole ticks, the rest stays below one tick,
  and the sum of rest and message fits into the 32 bits the code has for it.
\<close>

theorem scroll_loses_nothing:
  fixes amounts :: "u16 list" and amount :: u16
  defines "acc \<equiv> machine_state scroll_ticks 0 amounts"
    and "sent \<equiv> calls_sent (machine_outputs scroll_ticks 0 amounts)"
  shows "sum_list sent + acc = sum_list (map sint amounts) \<and> \<bar>acc\<bar> < 120 \<and> list_all (\<lambda>n. n \<noteq> 0 \<and> n mod 120 = 0) sent
    \<and> \<bar>acc + sint amount\<bar> < 2 ^ 31"
proof -
  have "- (2 ^ 15) \<le> sint amount" "sint amount < 2 ^ 15"
    using sint_greater_eq [of amount] sint_less [of amount] by simp_all
  then have "\<bar>acc + sint amount\<bar> < 2 ^ 31" using scroll_small [of amounts] by (simp add: acc_def)
  then show ?thesis
    using scroll_total [of 0 amounts] scroll_whole [of 0 amounts] scroll_small [of amounts] by (simp add: acc_def sent_def)
qed

end
