(* ===== verification/Input_Gamepads.thy ===== *)
theory Input_Gamepads
  imports Input_Queue
begin

text \<open>
  Gamepads (\<^verbatim>\<open>src/input.cpp\<close>): the numbers under which the pads of all sessions are known to the platform layer, the
  state sent for them, the Home button that a held Back button or a combination stands for, and their end. The
  answer of the platform layer to a new pad and the time are inputs; tasks of the pool run at any time. Coordinates
  and sensor values, floating point, are carried as their bits. A session's context lives as long as a task
  refers to it. The theorems show that the numbers of the pads always have exactly one owner.
\<close>

unbundle bit_operations_syntax

definition MAX_GAMEPADS :: nat where "MAX_GAMEPADS = 16"
definition DPAD_LEFT :: u32 where "DPAD_LEFT = 0x4"
definition DPAD_RIGHT :: u32 where "DPAD_RIGHT = 0x8"
definition START :: u32 where "START = 0x10"
definition BACK :: u32 where "BACK = 0x20"
definition HOME :: u32 where "HOME = 0x400"
definition BTN_X :: u32 where "BTN_X = 0x4000"
definition BTN_Y :: u32 where "BTN_Y = 0x8000"

datatype button_state = ButtonNone | ButtonDown | ButtonUp

record gamepad_state =
  gs_buttonFlags :: u32
  gs_left_trigger :: u8
  gs_right_trigger :: u8
  gs_sticks :: "u16 list"

definition gamepad_zero :: gamepad_state where
  "gamepad_zero = \<lparr>gs_buttonFlags = 0, gs_left_trigger = 0, gs_right_trigger = 0, gs_sticks = [0, 0, 0, 0]\<rparr>"

record gamepad =
  gp_state :: gamepad_state
  gp_back_timeout_id :: "nat option"
  gp_last_guide_combo_trigger :: time_point
  gp_id :: int
  gp_back_button_state :: button_state

definition gamepad_new :: gamepad where
  "gamepad_new = \<lparr>gp_state = gamepad_zero, gp_back_timeout_id = None, gp_last_guide_combo_trigger = 0, gp_id = -1,
     gp_back_button_state = ButtonNone\<rparr>"

datatype pad_task = BackHeld nat nat | GuideTap nat nat | FreePad nat

record pad_env =
  pe_controller :: bool
  pe_back_button_timeout :: duration
  pe_guide_button_combo :: string

datatype pad_call =
    GamepadUpdate int gamepad_state
  | AllocGamepad nat nat
  | FreeGamepad nat
  | GamepadTouch int u8 u32 "u32 list"
  | GamepadMotion int u8 "u32 list"
  | GamepadBattery int u8 u8

text \<open>The mask of used numbers, the pads of the sessions by controller number, and the tasks of the pool.\<close>

record pad_world =
  pw_mask :: "nat \<Rightarrow> bool"
  pw_pads :: "nat \<Rightarrow> nat \<Rightarrow> gamepad"
  pw_tasks :: "(nat \<times> pad_task) list"
  pw_next_task :: nat

definition pad_world_init :: pad_world where
  "pad_world_init = \<lparr>pw_mask = (\<lambda>_. False), pw_pads = (\<lambda>_ _. gamepad_new), pw_tasks = [], pw_next_task = 0\<rparr>"

definition alloc_id :: "pad_world \<Rightarrow> pad_world \<times> nat option" where
  "alloc_id w =
     (case find (\<lambda>x. \<not> pw_mask w x) [0..<MAX_GAMEPADS] of
        None \<Rightarrow> (w, None) | Some x \<Rightarrow> (w\<lparr>pw_mask := (pw_mask w)(x := True)\<rparr>, Some x))"

definition free_id :: "nat \<Rightarrow> pad_world \<Rightarrow> pad_world" where
  "free_id i w = w\<lparr>pw_mask := (pw_mask w)(i := False)\<rparr>"

definition free_gamepad :: "nat \<Rightarrow> pad_world \<Rightarrow> pad_world \<times> pad_call list" where
  "free_gamepad i w = (free_id i w, [GamepadUpdate (int i) gamepad_zero, FreeGamepad i])"

definition set_pad :: "nat \<Rightarrow> nat \<Rightarrow> gamepad \<Rightarrow> pad_world \<Rightarrow> pad_world" where
  "set_pad s n g w = w\<lparr>pw_pads := (pw_pads w)(s := (pw_pads w s)(n := g))\<rparr>"

definition push_pad_task :: "pad_task \<Rightarrow> pad_world \<Rightarrow> pad_world" where
  "push_pad_task t w = w\<lparr>pw_tasks := pw_tasks w @ [(pw_next_task w, t)], pw_next_task := pw_next_task w + 1\<rparr>"

definition cancel_pad_task :: "nat \<Rightarrow> pad_world \<Rightarrow> pad_world" where
  "cancel_pad_task task_id w = w\<lparr>pw_tasks := filter (\<lambda>p. fst p \<noteq> task_id) (pw_tasks w)\<rparr>"

text \<open>A number for a new pad, given back when the platform layer refuses.\<close>

definition allocate_pad :: "nat \<Rightarrow> nat \<Rightarrow> bool \<Rightarrow> pad_world \<Rightarrow> pad_world \<times> pad_call list \<times> bool" where
  "allocate_pad s n alloc_fails w =
     (case alloc_id w of
        (w, None) \<Rightarrow> (w, [], False)
      | (w, Some i) \<Rightarrow>
          if alloc_fails then (free_id i w, [AllocGamepad i n], False)
          else (set_pad s n ((pw_pads w s n)\<lparr>gp_id := int i\<rparr>) w, [AllocGamepad i n], True))"

definition in_range :: "int \<Rightarrow> bool" where "in_range n \<longleftrightarrow> \<not> (n < 0 \<or> n \<ge> int MAX_GAMEPADS)"

definition controller_arrival :: "pad_env \<Rightarrow> nat \<Rightarrow> int \<Rightarrow> bool \<Rightarrow> pad_world \<Rightarrow> pad_world \<times> pad_call list" where
  "controller_arrival env s number alloc_fails w =
     (if \<not> pe_controller env \<or> \<not> in_range number then (w, [])
      else if gp_id (pw_pads w s (nat number)) \<ge> 0 then (w, [])
      else case allocate_pad s (nat number) alloc_fails w of (w, calls, _) \<Rightarrow> (w, calls))"

definition guide_combo_mask :: "pad_env \<Rightarrow> u32" where
  "guide_combo_mask env =
     (let combo = pe_guide_button_combo env
      in if combo = [] \<or> combo = ''disabled'' then 0
         else if combo = ''start_back'' then START OR BACK
         else if combo = ''back_x'' then BACK OR BTN_X
         else if combo = ''back_y'' then BACK OR BTN_Y
         else if combo = ''dpad_right_x'' then DPAD_RIGHT OR BTN_X
         else if combo = ''dpad_left_y'' then DPAD_LEFT OR BTN_Y
         else 0)"

definition packet_state :: "controller_packet \<Rightarrow> gamepad_state" where
  "packet_state p = \<lparr>gs_buttonFlags = ucast (cp_buttons p) OR push_bit 16 (ucast (cp_buttons2 p)),
     gs_left_trigger = cp_left_trigger p, gs_right_trigger = cp_right_trigger p, gs_sticks = cp_sticks p\<rparr>"

text \<open>The forced state of the Back button after it stood for Home.\<close>

definition force_back :: "gamepad \<Rightarrow> gamepad_state \<Rightarrow> gamepad \<times> gamepad_state" where
  "force_back g st =
     (let bf_new = gs_buttonFlags st
      in case gp_back_button_state g of
           ButtonUp \<Rightarrow> (if BACK AND bf_new = 0 then g\<lparr>gp_back_button_state := ButtonNone\<rparr> else g,
                         st\<lparr>gs_buttonFlags := gs_buttonFlags st AND NOT BACK\<rparr>)
         | ButtonDown \<Rightarrow> (if BACK AND bf_new \<noteq> 0 then g\<lparr>gp_back_button_state := ButtonNone\<rparr> else g,
                           st\<lparr>gs_buttonFlags := gs_buttonFlags st OR BACK\<rparr>)
         | ButtonNone \<Rightarrow> (g, st))"

text \<open>The timer of the Back button: started when it goes down, cancelled when it goes up.\<close>

definition watch_back :: "pad_env \<Rightarrow> nat \<Rightarrow> nat \<Rightarrow> gamepad_state \<Rightarrow> gamepad \<Rightarrow> pad_world \<Rightarrow> gamepad \<times> pad_world" where
  "watch_back env s n st g w =
     (let bf = gs_buttonFlags st XOR gs_buttonFlags (gp_state g)
      in if BACK AND bf = 0 then (g, w)
         else if BACK AND gs_buttonFlags st \<noteq> 0 then
           if pe_back_button_timeout env \<ge> 0
           then (g\<lparr>gp_back_timeout_id := Some (pw_next_task w)\<rparr>, push_pad_task (BackHeld s n) w) else (g, w)
         else case gp_back_timeout_id g of
             None \<Rightarrow> (g, w)
           | Some task_id \<Rightarrow> (g\<lparr>gp_back_timeout_id := None\<rparr>, cancel_pad_task task_id w))"

definition watch_combo :: "pad_env \<Rightarrow> nat \<Rightarrow> nat \<Rightarrow> time_point \<Rightarrow> gamepad_state \<Rightarrow> gamepad \<Rightarrow> pad_world \<Rightarrow> gamepad \<times> pad_world" where
  "watch_combo env s n now st g w =
     (let combo_mask = guide_combo_mask env;
          was_held = (gs_buttonFlags (gp_state g) AND combo_mask = combo_mask);
          is_held = (gs_buttonFlags st AND combo_mask = combo_mask)
      in if combo_mask \<noteq> 0 \<and> is_held \<and> \<not> was_held \<and> now - gp_last_guide_combo_trigger g \<ge> 1000000000
         then (g\<lparr>gp_last_guide_combo_trigger := now\<rparr>, push_pad_task (GuideTap s n) w) else (g, w))"

text \<open>The state of a pad that has its number.\<close>

definition update_pad :: "pad_env \<Rightarrow> nat \<Rightarrow> nat \<Rightarrow> time_point \<Rightarrow> controller_packet \<Rightarrow> pad_world \<Rightarrow> pad_world \<times> pad_call list" where
  "update_pad env s n now p w =
     (case force_back (pw_pads w s n) (packet_state p) of (g, st) \<Rightarrow>
        case watch_back env s n st g w of (g, w) \<Rightarrow>
        case watch_combo env s n now st g w of (g, w) \<Rightarrow>
          (set_pad s n (g\<lparr>gp_state := st\<rparr>) w, [GamepadUpdate (gp_id g) st]))"

definition passthrough_controller ::
    "pad_env \<Rightarrow> nat \<Rightarrow> bool \<Rightarrow> time_point \<Rightarrow> controller_packet \<Rightarrow> pad_world \<Rightarrow> pad_world \<times> pad_call list" where
  "passthrough_controller env s alloc_fails now p w =
     (if \<not> pe_controller env \<or> \<not> in_range (cp_number p) then (w, [])
      else
        let n = nat (cp_number p); active = bit (cp_active_mask p) n; i = gp_id (pw_pads w s n)
        in if active \<and> i < 0 then
             (case allocate_pad s n alloc_fails w of
                (w, calls, ok) \<Rightarrow>
                  if \<not> ok then (w, calls) else case update_pad env s n now p w of (w, more_calls) \<Rightarrow> (w, calls @ more_calls))
           else if \<not> active \<and> i \<ge> 0 then
             (case free_gamepad (nat i) w of (w, calls) \<Rightarrow> (set_pad s n ((pw_pads w s n)\<lparr>gp_id := -1\<rparr>) w, calls))
           else if i < 0 then (w, [])
           else update_pad env s n now p w)"

text \<open>Touch, motion and battery of a pad go through when the pad has a number.\<close>

definition with_pad :: "pad_env \<Rightarrow> nat \<Rightarrow> int \<Rightarrow> (int \<Rightarrow> pad_call) \<Rightarrow> pad_world \<Rightarrow> pad_call list" where
  "with_pad env s number call w =
     (if \<not> pe_controller env \<or> \<not> in_range number then []
      else let i = gp_id (pw_pads w s (nat number)) in if i < 0 then [] else [call i])"

definition passthrough_pad ::
    "pad_env \<Rightarrow> nat \<Rightarrow> bool \<Rightarrow> time_point \<Rightarrow> packet \<Rightarrow> pad_world \<Rightarrow> pad_world \<times> pad_call list" where
  "passthrough_pad env s alloc_fails now p w =
     (case p of
        ControllerMsg c \<Rightarrow> passthrough_controller env s alloc_fails now c w
      | ArrivalMsg number _ _ _ \<Rightarrow> controller_arrival env s number alloc_fails w
      | ControllerTouch number etype pointer rest \<Rightarrow> (w, with_pad env s number (\<lambda>i. GamepadTouch i etype pointer rest) w)
      | ControllerMotion number motion rest \<Rightarrow> (w, with_pad env s number (\<lambda>i. GamepadMotion i motion rest) w)
      | BatteryMsg number state percentage \<Rightarrow> (w, with_pad env s number (\<lambda>i. GamepadBattery i state percentage) w)
      | _ \<Rightarrow> (w, []))"

text \<open>The task of a held Back button, the short press of Home for a combination, and the end of a pad.\<close>

definition back_held :: "nat \<Rightarrow> nat \<Rightarrow> pad_world \<Rightarrow> pad_world \<times> pad_call list" where
  "back_held s n w =
     (let g = pw_pads w s n; up = (gp_state g)\<lparr>gs_buttonFlags := gs_buttonFlags (gp_state g) AND NOT BACK\<rparr>;
          home = up\<lparr>gs_buttonFlags := gs_buttonFlags up OR HOME\<rparr>; done = home\<lparr>gs_buttonFlags := gs_buttonFlags home AND NOT HOME\<rparr>
      in (set_pad s n (g\<lparr>gp_back_button_state := ButtonUp, gp_state := done, gp_back_timeout_id := None\<rparr>) w,
          [GamepadUpdate (gp_id g) up, GamepadUpdate (gp_id g) home, GamepadUpdate (gp_id g) done]))"

definition guide_tap :: "nat \<Rightarrow> nat \<Rightarrow> pad_world \<Rightarrow> pad_world \<times> pad_call list" where
  "guide_tap s n w =
     (let g = pw_pads w s n; home = (gp_state g)\<lparr>gs_buttonFlags := gs_buttonFlags (gp_state g) OR HOME\<rparr>;
          done = home\<lparr>gs_buttonFlags := gs_buttonFlags home AND NOT HOME\<rparr>
      in if gp_id g < 0 then (w, [])
         else (set_pad s n (g\<lparr>gp_state := done\<rparr>) w, [GamepadUpdate (gp_id g) home, GamepadUpdate (gp_id g) done]))"

fun execute_pad_task :: "pad_task \<Rightarrow> pad_world \<Rightarrow> pad_world \<times> pad_call list" where
  "execute_pad_task (BackHeld s n) w = back_held s n w"
| "execute_pad_task (GuideTap s n) w = guide_tap s n w"
| "execute_pad_task (FreePad i) w = free_gamepad i w"

definition run_pad_task :: "nat \<Rightarrow> pad_world \<Rightarrow> pad_world \<times> pad_call list" where
  "run_pad_task task_id w =
     (case map_of (pw_tasks w) task_id of None \<Rightarrow> (w, []) | Some t \<Rightarrow> execute_pad_task t (cancel_pad_task task_id w))"

definition refers_to :: "nat \<Rightarrow> pad_task \<Rightarrow> bool" where
  "refers_to s t \<longleftrightarrow> (case t of BackHeld s' _ \<Rightarrow> s' = s | GuideTap s' _ \<Rightarrow> s' = s | FreePad _ \<Rightarrow> False)"

text \<open>The end of a session's context: a task for each pad that still has a number.\<close>

definition release_pad :: "nat \<Rightarrow> pad_world \<Rightarrow> nat \<Rightarrow> pad_world" where
  "release_pad s w n =
     (if gp_id (pw_pads w s n) \<ge> 0 then push_pad_task (FreePad (nat (gp_id (pw_pads w s n)))) w else w)"

definition end_session :: "nat \<Rightarrow> pad_world \<Rightarrow> pad_world" where
  "end_session s w =
     (if list_ex (\<lambda>p. refers_to s (snd p)) (pw_tasks w) then w
      else
        let w' = foldl (release_pad s) w [0..<MAX_GAMEPADS] in w'\<lparr>pw_pads := (pw_pads w')(s := (\<lambda>_. gamepad_new))\<rparr>)"

datatype pad_event = PadMessage nat bool time_point packet | RunPadTask nat | EndSession nat

fun pad_step :: "pad_env \<Rightarrow> pad_world \<Rightarrow> pad_event \<Rightarrow> pad_world \<times> pad_call list" where
  "pad_step env w (PadMessage s alloc_fails now p) = passthrough_pad env s alloc_fails now p w"
| "pad_step env w (RunPadTask i) = run_pad_task i w"
| "pad_step env w (EndSession s) = (end_session s w, [])"

subsection \<open>Numbers have one holder\<close>

text \<open>Who has a number: the pad of a session, or the task that is about to give it back.\<close>

datatype holder = OfPad nat nat | OfTask nat

fun number_of :: "pad_world \<Rightarrow> holder \<Rightarrow> nat option" where
  "number_of w (OfPad s n) = (if gp_id (pw_pads w s n) \<ge> 0 then Some (nat (gp_id (pw_pads w s n))) else None)"
| "number_of w (OfTask t) = (case map_of (pw_tasks w) t of Some (FreePad i) \<Rightarrow> Some i | _ \<Rightarrow> None)"

definition numbers_ok :: "(nat \<Rightarrow> bool) \<Rightarrow> (holder \<Rightarrow> nat option) \<Rightarrow> bool" where
  "numbers_ok M N \<longleftrightarrow> inj_on N (dom N) \<and> ran N = Collect M \<and> ran N \<subseteq> {..<MAX_GAMEPADS}"

definition timers_ok :: "pad_world \<Rightarrow> bool" where
  "timers_ok w \<longleftrightarrow> (\<forall>p \<in> set (pw_tasks w). fst p < pw_next_task w)
     \<and> (\<forall>s n t. gp_back_timeout_id (pw_pads w s n) = Some t \<longrightarrow> t < pw_next_task w \<and> number_of w (OfTask t) = None)"

definition pads_ok :: "pad_world \<Rightarrow> bool" where
  "pads_ok w \<longleftrightarrow> numbers_ok (pw_mask w) (number_of w) \<and> timers_ok w
     \<and> (\<forall>s n. gp_id (pw_pads w s n) \<ge> 0 \<longrightarrow> n < MAX_GAMEPADS)"

lemma numbers_take:
  assumes "numbers_ok M N" "N h = None" "\<not> M i" "i < MAX_GAMEPADS"
  shows "numbers_ok (M(i := True)) (N(h \<mapsto> i))"
proof -
  have "i \<notin> ran N" using assms by (auto simp: numbers_ok_def)
  then have "inj_on (N(h \<mapsto> i)) (dom (N(h \<mapsto> i)))"
    using assms(1) by (auto simp: numbers_ok_def inj_on_def ran_def)
  then show ?thesis using assms by (auto simp: numbers_ok_def)
qed

lemma ran_drop:
  assumes "inj_on N (dom N)" "N h = Some i"
  shows "ran (N(h := None)) = ran N - {i}"
proof -
  have only: "h' = h" if "N h' = Some i" for h'
    using assms that by (auto dest: inj_onD[where x = h' and y = h])
  show ?thesis
  proof (intro set_eqI iffI)
    fix j assume "j \<in> ran (N(h := None))"
    then obtain h' where "h' \<noteq> h" "N h' = Some j" by (auto simp: ran_def split: if_splits)
    then show "j \<in> ran N - {i}" using only by (auto simp: ran_def)
  next
    fix j assume "j \<in> ran N - {i}"
    then obtain h' where "N h' = Some j" "j \<noteq> i" by (auto simp: ran_def)
    moreover from this have "h' \<noteq> h" using assms(2) by auto
    ultimately show "j \<in> ran (N(h := None))" by (auto simp: ran_def)
  qed
qed

lemma inj_drop:
  assumes "inj_on N (dom N)"
  shows "inj_on (N(h := None)) (dom (N(h := None)))"
  using assms by (auto simp: inj_on_def)

lemma numbers_give:
  assumes "numbers_ok M N" "N h = Some i"
  shows "numbers_ok (M(i := False)) (N(h := None))"
proof -
  have "ran (N(h := None)) = ran N - {i}" "inj_on (N(h := None)) (dom (N(h := None)))"
    using assms ran_drop[of N h i] inj_drop[of N h] by (simp_all only: numbers_ok_def simp_thms)
  then show ?thesis using assms(1) unfolding numbers_ok_def by (auto split: if_splits)
qed

lemma number_below:
  assumes "numbers_ok M N" "N h = Some i"
  shows "M i \<and> i < MAX_GAMEPADS"
  using assms by (auto simp: numbers_ok_def ran_def)

lemma numbers_move:
  assumes "numbers_ok M N" "N h = Some i" "N h' = None"
  shows "numbers_ok M (N(h := None, h' \<mapsto> i))"
proof -
  have a: "(N(h := None)) h' = None" using assms by simp
  have b: "(M(i := False))(i := True) = M" using number_below[OF assms(1,2)] by (simp add: fun_upd_idem)
  have c: "\<not> (M(i := False)) i" by simp
  have "numbers_ok ((M(i := False))(i := True)) (N(h := None, h' \<mapsto> i))"
    by (rule numbers_take[OF numbers_give[OF assms(1,2)] a c]) (simp add: number_below[OF assms(1,2)])
  then show ?thesis by (simp only: b)
qed

lemma number_unique:
  assumes "numbers_ok M N" "N h = Some i" "N h' = Some i"
  shows "h = h'"
  using assms unfolding numbers_ok_def inj_on_def dom_def by simp

text \<open>How the elementary steps move the numbers.\<close>

lemma set_pad_same:
  assumes "gp_id g = gp_id (pw_pads w s n)"
  shows "number_of (set_pad s n g w) = number_of w"
proof
  fix h
  show "number_of (set_pad s n g w) h = number_of w h" using assms by (cases h) (simp_all add: set_pad_def)
qed

lemma set_pad_new:
  assumes "gp_id g = int i"
  shows "number_of (set_pad s n g w) = (number_of w)(OfPad s n \<mapsto> i)"
proof
  fix h
  show "number_of (set_pad s n g w) h = ((number_of w)(OfPad s n \<mapsto> i)) h" using assms by (cases h) (simp_all add: set_pad_def)
qed

lemma set_pad_gone:
  assumes "gp_id g < 0"
  shows "number_of (set_pad s n g w) = (number_of w)(OfPad s n := None)"
proof
  fix h
  show "number_of (set_pad s n g w) h = ((number_of w)(OfPad s n := None)) h" using assms by (cases h) (simp_all add: set_pad_def)
qed

lemma map_of_fresh:
  assumes "\<forall>p \<in> set ts. fst p < (k::nat)"
  shows "map_of ts k = None"
  using assms by (auto simp: map_of_eq_None_iff)

lemma push_task_number:
  assumes "timers_ok w"
  shows "number_of (push_pad_task t w) = (number_of w)(OfTask (pw_next_task w) := (case t of FreePad i \<Rightarrow> Some i | _ \<Rightarrow> None))"
proof
  fix h
  have "map_of (pw_tasks w) (pw_next_task w) = None" using assms map_of_fresh unfolding timers_ok_def by blast
  then show "number_of (push_pad_task t w) h = ((number_of w)(OfTask (pw_next_task w) := (case t of FreePad i \<Rightarrow> Some i | _ \<Rightarrow> None))) h"
    by (cases h) (auto simp: push_pad_task_def map_add_def split: option.splits pad_task.splits)
qed

lemma map_of_cancel:
  "map_of (filter (\<lambda>p. fst p \<noteq> k) ts) j = (if j = k then None else map_of ts j)"
  by (induction ts) auto

lemma cancel_task_number:
  "number_of (cancel_pad_task t w) = (number_of w)(OfTask t := None)"
proof
  fix h
  show "number_of (cancel_pad_task t w) h = ((number_of w)(OfTask t := None)) h"
    by (cases h) (auto simp: cancel_pad_task_def map_of_cancel split: option.splits pad_task.splits)
qed

lemma fresh_number:
  assumes "timers_ok w" "pw_next_task w \<le> t"
  shows "number_of w (OfTask t) = None"
proof -
  have "map_of (pw_tasks w) t = None" using assms by (intro map_of_fresh) (auto simp: timers_ok_def)
  then show ?thesis by simp
qed

definition timer_fine :: "pad_world \<Rightarrow> gamepad \<Rightarrow> bool" where
  "timer_fine w g \<longleftrightarrow> (\<forall>t. gp_back_timeout_id g = Some t \<longrightarrow> t < pw_next_task w \<and> number_of w (OfTask t) = None)"

lemma timers_ok_alt:
  "timers_ok w \<longleftrightarrow> (\<forall>p \<in> set (pw_tasks w). fst p < pw_next_task w) \<and> (\<forall>s n. timer_fine w (pw_pads w s n))"
  by (auto simp: timers_ok_def timer_fine_def)

lemma set_pad_fields [simp]:
  "pw_mask (set_pad s n g w) = pw_mask w" "pw_tasks (set_pad s n g w) = pw_tasks w"
  "pw_next_task (set_pad s n g w) = pw_next_task w"
  "pw_pads (set_pad s n g w) s' n' = (if s' = s \<and> n' = n then g else pw_pads w s' n')"
  "timer_fine (set_pad s n g w) g' = timer_fine w g'"
  by (simp_all add: set_pad_def timer_fine_def)

lemma timers_set_pad:
  assumes "timers_ok w" "timer_fine w g"
  shows "timers_ok (set_pad s n g w)"
  using assms by (simp add: timers_ok_alt)

lemma pads_set_same:
  assumes "pads_ok w" "gp_id g = gp_id (pw_pads w s n)" "timer_fine w g"
  shows "pads_ok (set_pad s n g w)"
  using assms unfolding pads_ok_def by (simp add: set_pad_same timers_set_pad)

lemma push_task_fields [simp]:
  "pw_mask (push_pad_task t w) = pw_mask w" "pw_pads (push_pad_task t w) = pw_pads w"
  "pw_next_task (push_pad_task t w) = pw_next_task w + 1"
  by (simp_all add: push_pad_task_def)

lemma push_task_timer:
  assumes "timers_ok w" "timer_fine w g"
  shows "timer_fine (push_pad_task t w) g"
  using assms(2) by (auto simp: timer_fine_def push_task_number[OF assms(1)] simp del: number_of.simps)

lemma timers_push:
  assumes "timers_ok w"
  shows "timers_ok (push_pad_task t w)"
  using assms push_task_timer[OF assms] by (auto simp: timers_ok_alt push_pad_task_def less_Suc_eq)

lemma pads_push:
  assumes "pads_ok w" "\<And>i. t \<noteq> FreePad i"
  shows "pads_ok (push_pad_task t w) \<and> number_of (push_pad_task t w) = number_of w"
proof -
  have ok: "timers_ok w" using assms(1) by (simp add: pads_ok_def)
  have "number_of (push_pad_task t w) = number_of w"
    using assms(2) fresh_number[OF ok order_refl] unfolding push_task_number[OF ok]
    by (cases t) (auto simp: fun_upd_idem simp del: number_of.simps)
  then show ?thesis using assms(1) timers_push[OF ok] by (simp add: pads_ok_def)
qed

lemma cancel_task_fields [simp]:
  "pw_mask (cancel_pad_task t w) = pw_mask w" "pw_pads (cancel_pad_task t w) = pw_pads w"
  "pw_next_task (cancel_pad_task t w) = pw_next_task w"
  by (simp_all add: cancel_pad_task_def)

lemma cancel_task_timer:
  assumes "timer_fine w g"
  shows "timer_fine (cancel_pad_task t w) g"
  using assms by (auto simp: timer_fine_def cancel_task_number simp del: number_of.simps)

lemma timers_cancel:
  assumes "timers_ok w"
  shows "timers_ok (cancel_pad_task t w)"
  using assms cancel_task_timer by (auto simp: timers_ok_alt cancel_pad_task_def)

lemma pads_cancel:
  assumes "pads_ok w" "number_of w (OfTask t) = None"
  shows "pads_ok (cancel_pad_task t w)"
  using assms timers_cancel unfolding pads_ok_def by (simp add: cancel_task_number fun_upd_idem del: number_of.simps)

lemma watch_back_ok:
  assumes "pads_ok w" "timer_fine w g" and r: "watch_back env s n st g w = (g', w')"
  shows "pads_ok w' \<and> timer_fine w' g' \<and> gp_id g' = gp_id g \<and> pw_pads w' = pw_pads w"
proof -
  have ok: "timers_ok w" using assms(1) by (simp add: pads_ok_def)
  have new: "timer_fine (push_pad_task (BackHeld s n) w) (g\<lparr>gp_back_timeout_id := Some (pw_next_task w)\<rparr>)"
    using fresh_number[OF ok order_refl] by (simp add: timer_fine_def push_task_number[OF ok] del: number_of.simps)
  show ?thesis
  proof (cases "gp_back_timeout_id g")
    case None
    then show ?thesis using assms new pads_push[of w "BackHeld s n"]
      by (auto simp: watch_back_def Let_def split: if_splits)
  next
    case (Some t)
    have "number_of w (OfTask t) = None" using assms(2) Some by (simp add: timer_fine_def)
    then have "pads_ok (cancel_pad_task t w)" by (rule pads_cancel[OF assms(1)])
    then show ?thesis using assms new Some pads_push[of w "BackHeld s n"]
      by (auto simp: watch_back_def Let_def timer_fine_def split: if_splits simp del: number_of.simps)
  qed
qed

lemma watch_combo_ok:
  assumes "pads_ok w" "timer_fine w g" and r: "watch_combo env s n now st g w = (g', w')"
  shows "pads_ok w' \<and> timer_fine w' g' \<and> gp_id g' = gp_id g \<and> pw_pads w' = pw_pads w"
proof -
  have ok: "timers_ok w" using assms(1) by (simp add: pads_ok_def)
  have "timer_fine (push_pad_task (GuideTap s n) w) (g\<lparr>gp_last_guide_combo_trigger := now\<rparr>)"
    using push_task_timer[OF ok assms(2)] by (simp add: timer_fine_def del: number_of.simps)
  then show ?thesis using assms pads_push[of w "GuideTap s n"]
    by (auto simp: watch_combo_def Let_def split: if_splits)
qed

lemma force_back_keeps:
  assumes "force_back g st = (g', st')"
  shows "gp_id g' = gp_id g \<and> gp_back_timeout_id g' = gp_back_timeout_id g"
  using assms by (auto simp: force_back_def Let_def split: button_state.splits if_splits)

lemma update_pad_ok:
  assumes "pads_ok w"
  shows "pads_ok (fst (update_pad env s n now p w))"
proof -
  obtain g st where f: "force_back (pw_pads w s n) (packet_state p) = (g, st)" by (cases "force_back (pw_pads w s n) (packet_state p)") auto
  obtain g1 w1 where b: "watch_back env s n st g w = (g1, w1)" by (cases "watch_back env s n st g w") auto
  obtain g2 w2 where c: "watch_combo env s n now st g1 w1 = (g2, w2)" by (cases "watch_combo env s n now st g1 w1") auto
  have "timer_fine w (pw_pads w s n)" using assms by (simp add: pads_ok_def timers_ok_alt)
  then have "timer_fine w g" using force_back_keeps[OF f] by (simp add: timer_fine_def)
  from watch_back_ok[OF assms this b] watch_combo_ok[OF _ _ c] force_back_keeps[OF f]
  have "pads_ok w2 \<and> timer_fine w2 (g2\<lparr>gp_state := st\<rparr>) \<and> gp_id g2 = gp_id (pw_pads w2 s n)"
    by (simp add: timer_fine_def)
  then have "pads_ok (set_pad s n (g2\<lparr>gp_state := st\<rparr>) w2)" by (intro pads_set_same) auto
  then show ?thesis using f b c by (simp add: update_pad_def)
qed

lemma alloc_id_cases:
  assumes "alloc_id w = (w', r)"
  obtains "r = None" "w' = w"
  | i where "r = Some i" "i < MAX_GAMEPADS" "\<not> pw_mask w i" "w' = w\<lparr>pw_mask := (pw_mask w)(i := True)\<rparr>"
proof (cases "find (\<lambda>x. \<not> pw_mask w x) [0..<MAX_GAMEPADS]")
  case None
  then show ?thesis using assms that(1) by (simp add: alloc_id_def)
next
  case (Some i)
  have "i < MAX_GAMEPADS \<and> \<not> pw_mask w i" using Some by (auto simp: find_Some_iff)
  then show ?thesis using assms that(2)[of i] Some by (simp add: alloc_id_def)
qed

lemma mask_only [simp]:
  "number_of (w\<lparr>pw_mask := m\<rparr>) = number_of w" "timers_ok (w\<lparr>pw_mask := m\<rparr>) = timers_ok w"
proof -
  show a: "number_of (w\<lparr>pw_mask := m\<rparr>) = number_of w"
  proof
    fix h
    show "number_of (w\<lparr>pw_mask := m\<rparr>) h = number_of w h" by (cases h) simp_all
  qed
  show "timers_ok (w\<lparr>pw_mask := m\<rparr>) = timers_ok w" unfolding timers_ok_def a by simp
qed

lemma allocate_pad_ok:
  assumes "pads_ok w" "n < MAX_GAMEPADS" "gp_id (pw_pads w s n) < 0"
  shows "pads_ok (fst (allocate_pad s n alloc_fails w))"
proof -
  obtain w' r where a: "alloc_id w = (w', r)" by (cases "alloc_id w") auto
  then show ?thesis
  proof (cases rule: alloc_id_cases)
    case 1
    then show ?thesis using assms(1) a by (simp add: allocate_pad_def)
  next
    case (2 i)
    let ?g = "(pw_pads w' s n)\<lparr>gp_id := int i\<rparr>"
    have given_back: "(pw_mask w)(i := False) = pw_mask w" using 2 by (simp add: fun_upd_idem)
    have num: "numbers_ok ((pw_mask w)(i := True)) ((number_of w)(OfPad s n \<mapsto> i))"
      using assms 2 by (intro numbers_take) (auto simp: pads_ok_def)
    have "timer_fine w' (pw_pads w' s n)" using assms(1) 2 by (simp add: pads_ok_def timers_ok_alt timer_fine_def)
    then have "timers_ok (set_pad s n ?g w')" using assms(1) 2
      by (intro timers_set_pad) (auto simp: pads_ok_def timer_fine_def)
    then have "pads_ok (set_pad s n ?g w')"
      using num assms 2 by (simp add: pads_ok_def set_pad_new[where i = i])
    then show ?thesis using a 2 assms(1) given_back by (simp add: allocate_pad_def free_id_def)
  qed
qed

lemma in_range_below: "in_range k \<Longrightarrow> nat k < MAX_GAMEPADS"
  by (auto simp: in_range_def nat_less_iff)

lemma controller_arrival_ok:
  assumes "pads_ok w"
  shows "pads_ok (fst (controller_arrival env s number alloc_fails w))"
  using assms allocate_pad_ok[of w "nat number" s alloc_fails] in_range_below[of number]
  by (auto simp: controller_arrival_def split: prod.splits)

text \<open>Removing a pad gives its number back at once.\<close>

lemma remove_pad_ok:
  assumes "pads_ok w" "gp_id (pw_pads w s n) = int i"
  shows "pads_ok (set_pad s n ((pw_pads w s n)\<lparr>gp_id := -1\<rparr>) (free_id i w))"
proof -
  let ?g = "(pw_pads w s n)\<lparr>gp_id := -1\<rparr>"
  have "numbers_ok ((pw_mask w)(i := False)) ((number_of w)(OfPad s n := None))"
    using assms by (intro numbers_give) (auto simp: pads_ok_def)
  moreover have "timers_ok (set_pad s n ?g (free_id i w))"
    using assms(1) by (intro timers_set_pad) (auto simp: pads_ok_def timers_ok_alt timer_fine_def free_id_def)
  ultimately show ?thesis using assms by (simp add: pads_ok_def set_pad_gone free_id_def)
qed

lemma passthrough_controller_ok:
  assumes "pads_ok w"
  shows "pads_ok (fst (passthrough_controller env s alloc_fails now p w))"
proof (cases "\<not> pe_controller env \<or> \<not> in_range (cp_number p)")
  case True
  then show ?thesis using assms by (simp add: passthrough_controller_def)
next
  case False
  define n where "n = nat (cp_number p)"
  define i where "i = gp_id (pw_pads w s n)"
  have below: "n < MAX_GAMEPADS" using False in_range_below by (simp add: n_def)
  show ?thesis
  proof (cases "bit (cp_active_mask p) n")
    case True
    have "pads_ok (fst (allocate_pad s n alloc_fails w))" if "i < 0"
      using that assms below allocate_pad_ok i_def by simp
    then show ?thesis using True False assms update_pad_ok
      by (auto simp: passthrough_controller_def Let_def n_def i_def split: prod.splits) (metis fst_conv)+
  next
    case nonact: False
    have "pads_ok (set_pad s n ((pw_pads w s n)\<lparr>gp_id := -1\<rparr>) (free_id (nat i) w))" if "i \<ge> 0"
      using that by (intro remove_pad_ok[OF assms]) (simp add: i_def)
    moreover have "pw_pads (free_id (nat i) w) = pw_pads w" by (simp add: free_id_def)
    ultimately show ?thesis using nonact False assms
      by (auto simp: passthrough_controller_def free_gamepad_def Let_def n_def i_def)
  qed
qed

lemma passthrough_pad_ok:
  assumes "pads_ok w"
  shows "pads_ok (fst (passthrough_pad env s alloc_fails now p w))"
  using assms passthrough_controller_ok controller_arrival_ok by (cases p) (auto simp: passthrough_pad_def)

text \<open>A task runs once, then it is gone.\<close>

lemma keeps_pad_ok:
  assumes "pads_ok w" "gp_id g = gp_id (pw_pads w s n)"
    "gp_back_timeout_id g = None \<or> gp_back_timeout_id g = gp_back_timeout_id (pw_pads w s n)"
  shows "pads_ok (set_pad s n g w)"
proof -
  have "timer_fine w (pw_pads w s n)" using assms(1) by (simp add: pads_ok_def timers_ok_alt)
  then have "timer_fine w g" using assms(3) by (auto simp: timer_fine_def)
  then show ?thesis by (rule pads_set_same[OF assms(1,2)])
qed

lemma back_held_ok:
  assumes "pads_ok w"
  shows "pads_ok (fst (back_held s n w))"
  unfolding back_held_def Let_def fst_conv by (rule keeps_pad_ok[OF assms]) simp_all

lemma guide_tap_ok:
  assumes "pads_ok w"
  shows "pads_ok (fst (guide_tap s n w))"
proof (cases "gp_id (pw_pads w s n) < 0")
  case True
  then show ?thesis using assms by (simp add: guide_tap_def)
next
  case False
  then have "fst (guide_tap s n w) = set_pad s n ((pw_pads w s n)\<lparr>gp_state :=
      (gp_state (pw_pads w s n))\<lparr>gs_buttonFlags := (gs_buttonFlags (gp_state (pw_pads w s n)) OR HOME) AND NOT HOME\<rparr>\<rparr>) w"
    by (simp add: guide_tap_def Let_def)
  then show ?thesis using keeps_pad_ok[OF assms] by simp
qed

lemma run_pad_task_ok:
  assumes "pads_ok w"
  shows "pads_ok (fst (run_pad_task k w))"
proof (cases "map_of (pw_tasks w) k")
  case None
  then show ?thesis using assms by (simp add: run_pad_task_def)
next
  case (Some t)
  show ?thesis
  proof (cases t)
    case (FreePad i)
    have "numbers_ok ((pw_mask w)(i := False)) ((number_of w)(OfTask k := None))"
      using assms Some FreePad by (intro numbers_give) (auto simp: pads_ok_def)
    then show ?thesis using assms Some FreePad timers_cancel[of w k]
      by (simp add: run_pad_task_def free_gamepad_def free_id_def pads_ok_def cancel_task_number)
  next
    case (BackHeld s n)
    then have "pads_ok (cancel_pad_task k w)" using assms Some by (intro pads_cancel) auto
    then show ?thesis using Some BackHeld back_held_ok by (simp add: run_pad_task_def)
  next
    case (GuideTap s n)
    then have "pads_ok (cancel_pad_task k w)" using assms Some by (intro pads_cancel) auto
    then show ?thesis using Some GuideTap guide_tap_ok by (simp add: run_pad_task_def)
  qed
qed

text \<open>At the end of a session each of its numbers moves from its pad to a task.\<close>

definition without_pads :: "nat \<Rightarrow> nat \<Rightarrow> (holder \<Rightarrow> nat option) \<Rightarrow> holder \<Rightarrow> nat option" where
  "without_pads s k N h = (case h of OfPad s' n \<Rightarrow> if s' = s \<and> n < k then None else N h | OfTask _ \<Rightarrow> N h)"

lemma without_none [simp]: "without_pads s 0 N = N"
  by (auto simp: without_pads_def fun_eq_iff split: holder.splits)

lemma without_pad_absent:
  assumes "N (OfPad s k) = None"
  shows "without_pads s (Suc k) N = without_pads s k N"
  using assms by (auto simp: without_pads_def fun_eq_iff less_Suc_eq split: holder.splits)

lemma without_pad_moved:
  "without_pads s (Suc k) (N(OfTask t := r)) = (without_pads s k N)(OfPad s k := None, OfTask t := r)"
  by (auto simp: without_pads_def fun_eq_iff less_Suc_eq split: holder.splits)

lemma release_pads_ok:
  fixes s :: nat and w :: pad_world
  assumes "pads_ok w"
  defines "w' k \<equiv> foldl (release_pad s) w [0..<k]"
  shows "pw_pads (w' k) = pw_pads w \<and> pw_mask (w' k) = pw_mask w \<and> timers_ok (w' k)
    \<and> numbers_ok (pw_mask w) (without_pads s k (number_of (w' k)))"
proof (induction k)
  case 0
  then show ?case using assms(1) by (simp add: w'_def pads_ok_def)
next
  case (Suc k)
  have next_w: "w' (Suc k) = release_pad s (w' k) k" by (simp add: w'_def)
  show ?case
  proof (cases "gp_id (pw_pads w s k) \<ge> 0")
    case False
    then have "number_of (w' k) (OfPad s k) = None" using Suc by simp
    then show ?thesis using Suc False unfolding next_w by (simp add: release_pad_def without_pad_absent)
  next
    case True
    define i where "i = nat (gp_id (pw_pads w s k))"
    have w: "w' (Suc k) = push_pad_task (FreePad i) (w' k)" unfolding next_w using Suc True by (simp add: release_pad_def i_def)
    have tim: "timers_ok (w' k)" using Suc by simp
    have "number_of (w' k) (OfTask (pw_next_task (w' k))) = None" by (rule fresh_number[OF tim order_refl])
    then have free: "without_pads s k (number_of (w' k)) (OfTask (pw_next_task (w' k))) = None"
      by (simp add: without_pads_def del: number_of.simps)
    have has: "without_pads s k (number_of (w' k)) (OfPad s k) = Some i"
      using Suc True by (simp add: without_pads_def i_def)
    have "numbers_ok (pw_mask w) (without_pads s (Suc k) (number_of (w' (Suc k))))"
      unfolding w push_task_number[OF tim] using numbers_move[OF _ has free] Suc by (simp add: without_pad_moved)
    then show ?thesis using Suc timers_push[OF tim] unfolding w by simp
  qed
qed

lemma end_session_ok:
  assumes "pads_ok w"
  shows "pads_ok (end_session s w)"
proof (cases "list_ex (\<lambda>p. refers_to s (snd p)) (pw_tasks w)")
  case True
  then show ?thesis using assms by (simp add: end_session_def)
next
  case False
  define w1 where "w1 = foldl (release_pad s) w [0..<MAX_GAMEPADS]"
  define w2 where "w2 = w1\<lparr>pw_pads := (pw_pads w1)(s := (\<lambda>_. gamepad_new))\<rparr>"
  have ok: "pw_pads w1 = pw_pads w" "pw_mask w1 = pw_mask w" "timers_ok w1"
    "numbers_ok (pw_mask w) (without_pads s MAX_GAMEPADS (number_of w1))"
    using release_pads_ok[OF assms, of s MAX_GAMEPADS] by (simp_all add: w1_def)
  have small: "gp_id (pw_pads w s' n) \<ge> 0 \<Longrightarrow> n < MAX_GAMEPADS" for s' n using assms by (auto simp: pads_ok_def)
  have "number_of w2 h = without_pads s MAX_GAMEPADS (number_of w1) h" for h
    using small ok(1) by (cases h) (auto simp: w2_def without_pads_def gamepad_new_def)
  then have num: "number_of w2 = without_pads s MAX_GAMEPADS (number_of w1)" by blast
  have "timer_fine w2 g = timer_fine w1 g" for g by (simp add: timer_fine_def w2_def)
  moreover have "timer_fine w1 gamepad_new" by (simp add: timer_fine_def gamepad_new_def)
  ultimately have "timers_ok w2" using ok(3) by (auto simp: timers_ok_alt w2_def)
  moreover have "numbers_ok (pw_mask w2) (number_of w2)" using ok(2,4) num by (simp add: w2_def)
  ultimately have "pads_ok w2" using small ok(1) by (auto simp: pads_ok_def w2_def gamepad_new_def)
  then show ?thesis using False by (simp add: end_session_def w1_def w2_def Let_def)
qed

lemma pad_step_ok:
  assumes "pads_ok w"
  shows "pads_ok (fst (pad_step env w ev))"
  using assms passthrough_pad_ok run_pad_task_ok end_session_ok by (cases ev) auto

interpretation pads: machine_invariant "pad_step env" pads_ok for env
  by unfold_locales (rule pad_step_ok)

lemma pads_init_ok: "pads_ok pad_world_init"
proof -
  have "number_of pad_world_init h = None" for h by (cases h) (simp_all add: pad_world_init_def gamepad_new_def)
  then have "number_of pad_world_init = Map.empty" by blast
  then show ?thesis by (simp add: pads_ok_def numbers_ok_def timers_ok_def pad_world_init_def gamepad_new_def)
qed

lemma numbers_ok_ex1:
  assumes "numbers_ok M N"
  shows "M i \<longleftrightarrow> i < MAX_GAMEPADS \<and> (\<exists>!h. N h = Some i)"
proof
  assume "M i"
  then have "i \<in> ran N" using assms by (auto simp: numbers_ok_def)
  then obtain h where "N h = Some i" by (auto simp: ran_def)
  then show "i < MAX_GAMEPADS \<and> (\<exists>!h. N h = Some i)" using number_below[OF assms] number_unique[OF assms] by blast
next
  assume "i < MAX_GAMEPADS \<and> (\<exists>!h. N h = Some i)"
  then show "M i" using number_below[OF assms] by blast
qed

text \<open>
  C23. The numbers of gamepads have one owner: after any sequence of messages, tasks and ends of any sessions, a number
  is marked as used exactly when one pad of one session has it or one task is about to give it back, never both and
  never two of them, and the number is below the limit; an unmarked number belongs to nobody. So no number is lost,
  none is given to two pads, and a later session can use every number again.
\<close>

theorem gamepad_ids_exclusive:
  "let w = machine_state (pad_step env) pad_world_init evs
   in (pw_mask w i \<longleftrightarrow> i < MAX_GAMEPADS \<and> (\<exists>!h. number_of w h = Some i))
      \<and> (\<not> pw_mask w i \<longleftrightarrow> (\<nexists>h. number_of w h = Some i))"
proof -
  define w where "w = machine_state (pad_step env) pad_world_init evs"
  have "pads_ok w" unfolding w_def by (rule pads.run_inv[OF pads_init_ok])
  then have ok: "numbers_ok (pw_mask w) (number_of w)" by (simp add: pads_ok_def)
  show ?thesis using numbers_ok_ex1[OF ok, of i] number_below[OF ok] unfolding w_def Let_def by blast
qed

text \<open>
  The timer of a held Back button outlives its pad: when the pad is removed while Back is down, the timer is not
  cancelled, and its task updates the platform's pad with the number -1. The task of a combination looks first.
\<close>

definition back_packet :: "u16 \<Rightarrow> u16 \<Rightarrow> controller_packet" where
  "back_packet active buttons = \<lparr>cp_number = 0, cp_active_mask = active, cp_buttons = buttons, cp_buttons2 = 0,
     cp_left_trigger = 0, cp_right_trigger = 0, cp_sticks = [0, 0, 0, 0]\<rparr>"

lemma back_timer_outlives_pad:
  "let env = \<lparr>pe_controller = True, pe_back_button_timeout = 0, pe_guide_button_combo = []\<rparr>;
    evs = [PadMessage 0 False 0 (ControllerMsg (back_packet 1 0x20)), PadMessage 0 False 0 (ControllerMsg (back_packet 0 0)),
      RunPadTask 0]
   in machine_outputs (pad_step env) pad_world_init evs =
    [[AllocGamepad 0 0, GamepadUpdate 0 (gamepad_zero\<lparr>gs_buttonFlags := BACK\<rparr>)],
     [GamepadUpdate 0 gamepad_zero, FreeGamepad 0],
     [GamepadUpdate (-1) gamepad_zero, GamepadUpdate (-1) (gamepad_zero\<lparr>gs_buttonFlags := HOME\<rparr>), GamepadUpdate (-1) gamepad_zero]]"
  by code_simp

end
