(* ===== verification/Spec2Isabelle.thy ===== *)
theory Spec2Isabelle
  imports Lifecycle_Spec Video_Qos Video_Packets Pyrowave_Contract Encoder_Selection Outage Tdr_State Pairing_Exchange
    Control_Server Safe_Queue Version_Compare Api_Tokens Auth_History Input_State Input_Gamepads
begin

text \<open>
  A verification library for LuminalShine, a self-hosted game-stream host for Moonlight clients.

  \<^bold>\<open>The program.\<close> A client pairs with the host over HTTP (a four-phase exchange keyed by a PIN that the
  user types, \<^verbatim>\<open>src/nvhttp.cpp\<close>), then launches a session. Launches and the cleanup of the last session
  compete for the display and are serialized by a coordinator; teardown runs under a watchdog. At
  startup, and again after changes, the host probes which encoders and codecs work
  (\<^verbatim>\<open>src/video.cpp\<close>) and hands its findings to isolated video workers. During a session a capture thread
  takes frames from the display (on Windows from the frame ring of the virtual display driver), an
  encoder thread encodes them, and the broadcast thread admits, cuts, protects and sends them
  (\<^verbatim>\<open>src/stream.cpp\<close>). The client answers on the control stream, from where the PyroWave codec's
  adaptive FEC is driven and the client's keyboard, mouse and gamepad input is queued, merged and handed to the
  operating system (\<^verbatim>\<open>src/input.cpp\<close>). GPU resets are recorded by a tracker and ridden out by several layers
  of bounded waiting: the ring's recovery budget, the capture loop's deferral, the encoder's gate. The threads
  talk through queues, events and mailboxes (\<^verbatim>\<open>src/thread_safe.h\<close>). A web interface configures the host; its
  requests pass one decision over passwords, API tokens and session tokens (\<^verbatim>\<open>src/http_auth.cpp\<close>). The host
  looks for newer releases and offers one (\<^verbatim>\<open>src/update.cpp\<close>).

  \<^bold>\<open>The theories.\<close>
  \<^item> \<open>Prelude\<close>: time and word types, deterministic machines with their runs, and the interfaces
    \<open>machine_invariant\<close>, \<open>cooldown\<close>, \<open>step_system\<close> and \<open>step_refinement\<close>.
  \<^item> \<open>Lifecycle\<close>: the coordinator of \<^verbatim>\<open>src/session_lifecycle_coordinator.h\<close>, its leases, and every
    interleaving of its critical sections (\<open>lstep\<close>); the admission policy; the teardown phases and watchdog of
    \<^verbatim>\<open>src/session_teardown_policy.h\<close>. \<open>Lifecycle_Spec\<close>: the abstract coordinator and the proof that the two
    reach the same abstract states, step by step.
  \<^item> \<open>Video_Qos\<close>: pacing, the RTP clock and the admission gate of \<^verbatim>\<open>src/video_packet_qos.h\<close>.
  \<^item> \<open>Video_Packets\<close>: the path of a frame through \<open>videoBroadcastThread\<close>: parameter-set replacement, headers,
    FEC blocks, numbering, encryption vectors, batches; with the receiver that undoes it.
  \<^item> \<open>Pyrowave_Contract\<close>: \<^verbatim>\<open>src/pyrowave/contract.h\<close> and the feedback handler of the control stream.
  \<^item> \<open>Control_Stream\<close>, \<open>Control_Server\<close>: the control stream of \<^verbatim>\<open>src/stream.cpp\<close>: message handlers, encryption and
    feedback messages; then the table of sessions and peers, the receive step, the loop that retires sessions and
    its end, interleaved with the steps of \<open>session::start\<close> and \<open>session::stop\<close>. The interface \<open>session_handler\<close> says what
    a handler may change.
  \<^item> \<open>Encoder_Probe\<close>, \<open>Encoder_Selection\<close>: \<open>validate_config\<close>, \<open>validate_encoder\<close>, \<open>probe_encoders\<close>, the fault
    shield and suppression registry, and the snapshot handed to workers.
  \<^item> \<open>Recovery\<close>: the recovery gate and the wait built on it, the 4:4:4 fallback, the startup wait, the D3D11
    circuit, display mode reconciliation.
  \<^item> \<open>Ring_Liveness\<close>, \<open>Ring_Reader\<close>, \<open>Outage\<close>: the liveness ladder of the frame ring, the reader of
    \<^verbatim>\<open>src/platform/windows/display_vgd.cpp\<close> with its process-wide clock table, and the reader, the capture
    loop of \<^verbatim>\<open>display_base.cpp\<close> and the encoder's gate put together.
  \<^item> \<open>Tdr_State\<close>: the GPU reset tracker and display-stack latch of \<^verbatim>\<open>src/tdr_state.cpp\<close>.
  \<^item> \<open>Hex_Codec\<close>, \<open>Pairing\<close>, \<open>Pairing_Exchange\<close>: the hexadecimal codec, the pairing handlers with their
    tables, and a client that follows the protocol while others go on with theirs.
  \<^item> \<open>Safe_Queue\<close>: \<open>queue_t\<close>, \<open>event_t\<close> and \<open>mail_raw_t\<close> of \<^verbatim>\<open>src/thread_safe.h\<close>. The interface \<open>monitor\<close> is a
    mutex with one condition variable; what it asks is that a silent critical section frees no waiting thread.
  \<^item> \<open>Http_Auth\<close>, \<open>Auth_History\<close>, \<open>Api_Tokens\<close>: \<^verbatim>\<open>src/http_auth.cpp\<close>: session and refresh tokens, their file, the
    decision over a request, the service as a step relation with restarts and failing writes and a log of what it
    did; which tokens that log has issued and retired; the store of API tokens, the login.
  \<^item> \<open>Input_Queue\<close>, \<open>Input_State\<close>, \<open>Input_Gamepads\<close>: \<^verbatim>\<open>src/input.cpp\<close>: merging of queued messages and the task
    that drains the queue; keyboard, mouse, scrolling and the reset at the end of a session; the numbers, states
    and timers of gamepads over all sessions.
  \<^item> \<open>Version_Compare\<close>: \<^verbatim>\<open>src/version_compare.h\<close> and the choice of a release in \<^verbatim>\<open>src/update.cpp\<close>.
  This theory holds what spans PyroWave and the packet path, and the control stream and the packet path.

  \<^bold>\<open>How code becomes definitions.\<close> A class is a record, an enumeration a datatype, a method a function that
  returns the updated record. Code under one mutex is one step; a blocking call is split at its waits, and
  theorems quantify over every interleaving of the steps. Exceptions and early returns are values. Fields whose
  width matters are words; \<open>steady_clock\<close> times are integers in nanoseconds. Drivers, Direct3D, OpenSSL and the
  Reed-Solomon code are parameters or inputs; what is needed of them is a named hypothesis (\<open>format_ok\<close>, the
  laws of \<open>Pairing_Exchange\<close>), and each property that has one comes with a concrete instance.

  \<^bold>\<open>What the theorems show.\<close> Coordinator: mutual exclusion, priority of waiting cleanups, no lost cleanup, no
  leaked lease, exact refinement of its specification. Video egress: only decodable frames leave, recovery is
  reported exactly, requests are live and spaced, clocks increase; packets reassemble to the frame within
  the limits below, blocks respect the code's limits, numbers and vectors never repeat. PyroWave: adaptive
  FEC keeps the wire budget, the status parser accepts exactly the valid statuses, admitted frames fit the wire.
  Control stream: nothing unauthenticated has an effect but the end of the session, the messages that fault are
  exactly known, sessions and peers stay one to one, a client touches its own session only, silent sessions end,
  nobody waits for a control thread that has gone, and with the newer encryption no vector is used twice under one
  key (with the older one every vector comes back after 256 messages).
  Encoders: published capabilities are backed by successful validations, a fault suppresses exactly the codec in
  flight, failed probes change nothing, snapshots round-trip. Outages: the gate measures the outage, waits end,
  one outage has one budget across readers, the layers give up from the inside out, a ring is declared broken
  only on evidence, capture releases what it claims and delivers in order, chroma is given up only on evidence.
  Resets: rate limits, incidents as clusters, a latch that neither sticks nor leaks. Pairing: no device without
  the PIN, bounded tables, PINs reach the right exchange, stale writes harm nobody, an honest client pairs while
  others pair, ask and give up.
  Queues: first in first out within the capacity, no wake-up is lost, nobody waits across a stop or reset, posts
  are shared and reclaimed. Web access: the two token tables agree at all times, a protected request needs a
  password, an API token or a session token that itself goes back to a login of a fitting role within its
  lifetime and has not been retired, refresh tokens work once, revocation is final, restarts keep exactly the live
  sessions, an API token opens what its request asked for. Updates: where versions have a
  rank the comparison is its order, and among releases that have one the one offered is the newest. Input: merging keeps the order and the
  discrete state of every device and touches no press or release, no queue gets stuck, scrolling loses nothing, a reset releases what is held with
  two exceptions that are shown to be real, gamepad numbers have one owner.

  \<^bold>\<open>Bounds and fuel.\<close> \<open>hold_loop\<close> takes fuel; the termination theorem gives the number of readings that is
  enough. Polling loops (\<open>claim_loop\<close>, \<open>admission_loop\<close>) run over the list of their rounds and are \<open>None\<close> while
  it has not ended them; they end at the first round past the deadline. All other functions are total.
  \<open>frame_roundtrip\<close> needs at most 4092 packets per frame, four blocks of 1023 shards, and at most two required
  parity shards; beyond that the ten-bit index and the eight-bit percentage overflow, which is a finding.

  \<^bold>\<open>Not modelled.\<close> Thread creation, sockets, files and logging (input and output only); the encoder and capture
  back ends (\<^verbatim>\<open>src/nvenc\<close>, \<^verbatim>\<open>src/amf\<close>, WGC, Desktop Duplication, Linux and macOS capture), which drive
  foreign APIs; audio capture; the conversion of absolute mouse, touch and pen coordinates, which is
  floating point; the handlers of the web configuration API behind the access decision, and
  WebRTC, RTSP parsing, process launching, display helper and Playnite integration; \<open>alarm_raw_t\<close> and \<open>shared_t\<close> of
  \<^verbatim>\<open>thread_safe.h\<close>; vendored code. Regular expressions of API scopes are taken to compile. The two PyroWave functions that scale by a
  \<open>double\<close> are left out because floating point is.
\<close>

subsection \<open>PyroWave frames on the wire\<close>

lemma fec_step_base: "fc_base (fst (fec_step c op)) = (case op of SetBase b \<Rightarrow> max b 0 | _ \<Rightarrow> fc_base c)"
  by (cases op) (auto simp: fec_step_def set_base_def report_loss_def sample_def snapshot_locked_def Let_def)

lemma fec_base_bounded:
  assumes "\<forall>b. SetBase b \<in> set ops \<longrightarrow> b \<le> B" and "0 \<le> B"
  shows "0 \<le> fc_base (machine_state fec_step fec_controller_init ops) \<and>
    fc_base (machine_state fec_step fec_controller_init ops) \<le> B"
  using assms(1)
proof (induction ops rule: rev_induct)
  case (snoc op ops)
  then have "0 \<le> fc_base (machine_state fec_step fec_controller_init ops) \<and>
    fc_base (machine_state fec_step fec_controller_init ops) \<le> B" by simp
  with snoc.prems assms(2) show ?case
    by (cases op) (simp_all add: fec_step_base)
qed (simp add: fec_controller_init_def assms(2))

lemma sample_percentage_range:
  fixes t :: int
  assumes "\<forall>b. SetBase b \<in> set ops \<longrightarrow> b \<le> B" and "25 \<le> B"
  defines "pct \<equiv> up_fec_percentage (snd (sample t (machine_state fec_step fec_controller_init ops)))"
  shows "0 \<le> pct \<and> pct \<le> B"
proof -
  define c where "c = machine_state fec_step fec_controller_init ops"
  have "0 \<le> fc_base c" "fc_base c \<le> B" using fec_base_bounded [OF assms(1)] assms(2) by (simp_all add: c_def)
  moreover obtain e where "pct = effective_fec_percentage (fc_base c) (fc_boost c) e"
    by (simp add: pct_def sample_def snapshot_locked_def Let_def c_def)
  ultimately show ?thesis using effective_range [of "fc_base c" "fc_boost c" e] assms(2) by (auto simp: max_def split: if_splits)
qed

lemma valid_session_packet_size:
  assumes "valid_session width height fps kbps packet_size"
  shows "256 \<le> packet_size" "packet_size \<le> 2048"
proof -
  have "max_target_bytes packet_size > 0" using assms by (simp add: valid_session_def)
  then have "max_frame_bytes packet_size \<noteq> 0" by (auto simp: max_target_bytes_def)
  then show "256 \<le> packet_size" "packet_size \<le> 2048" by (auto simp: max_frame_bytes_def split: if_splits)
qed

lemma max_frame_bytes_value:
  assumes "256 \<le> n" and "n \<le> 2048"
  shows "unat (max_frame_bytes (int n)) = (n - 128) * 4092 - 1024"
proof -
  have "max_frame_bytes (int n) = of_nat ((n - 128) * 4092 - 1024)"
    using assms by (simp add: max_frame_bytes_def of_nat_diff)
  moreover have "(n - 128) * 4092 - 1024 < 2 ^ 64" using assms by simp
  ultimately show ?thesis by (simp add: unsigned_of_nat take_bit_nat_eq_self del: of_nat_diff)
qed

text \<open>
  C39. The limit PyroWave puts on an encoded frame is one the transport can carry: in every session that
  \<open>valid_session\<close> admits and whose client asks for at most two parity packets (\<open>minRequiredFecPackets\<close>, which the
  host does not bound), with configured base percentages of at most 255 and whatever losses the client
  reported, so whatever FEC percentage the controller returns, a frame without parameter-set replacements within
  the limit is cut into packets without an exception, its shards stay within the ten-bit index, and the client
  puts exactly that frame together again. The video packet header has its 16 bytes, a block at most 255
  shards, and where packets are encrypted decryption undoes the cipher.
\<close>

theorem pyrowave_frames_reassemble:
  fixes now :: int and payload :: bytes and is_idr after_rfi :: bool and latency :: nat
  assumes "valid_session width height fps kbps (int packetsize)"
    and "\<forall>b. SetBase b \<in> set ops \<longrightarrow> b \<le> 255"
    and "length payload \<le> unat (max_frame_bytes (int packetsize))"
    and "format_ok fmt" and "nv_video_packet_size fmt = 16" and "data_shards_max fmt = 255" and "minparity \<le> 2"
    and "\<forall>e. cipher = Some e \<longrightarrow> (\<forall>v d. decrypt v (fst (e v d)) (snd (e v d)) = d)"
  defines "pct \<equiv> up_fec_percentage (snd (sample now (machine_state fec_step fec_controller_init ops)))"
    and "fi \<equiv> \<lparr>fi_is_idr = is_idr, fi_after_rfi = after_rfi, fi_replacements = [], fi_payload = payload, fi_latency = latency\<rparr>"
  shows "\<exists>ps lowseq' iv'.
    packetize_frame fmt packetsize (nat pct) minparity cipher frame_no timestamp lowseq iv fi = Some (ps, lowseq', iv')
    \<and> reassemble (data_bodies fmt decrypt ps)
      = short_frame_header fmt packetsize is_idr after_rfi latency (length payload) @ payload"
proof -
  have n: "256 \<le> packetsize" "packetsize \<le> 2048"
    using valid_session_packet_size [OF assms(1)] by simp_all
  have F: "nat pct \<le> 255"
    using sample_percentage_range [OF assms(2), of now] by (simp add: pct_def nat_le_iff)
  have "length payload \<le> (packetsize - 128) * 4092 - 1024"
    using assms(3) max_frame_bytes_value [OF n] by simp
  also have "\<dots> \<le> 4092 * (packetsize - 16) - 8" using n by simp
  finally have small: "8 + length payload \<le> 4092 * (packetsize - nv_video_packet_size fmt)"
    using n assms(5) by simp
  have shards: "4 \<le> max_data_shards_per_fec_block fmt (nat pct)"
  proof -
    have "4 * (100 + nat pct) \<le> 25500" using F by simp
    then show ?thesis by (simp add: max_data_shards_per_fec_block_def assms(6) less_eq_div_iff_mult_less_eq)
  qed
  have "(if fi_is_idr fi then apply_replacements (fi_replacements fi) (fi_payload fi) else Some (fi_payload fi)) = Some payload"
    by (simp add: fi_def)
  from packetize_reassembles [OF assms(4) _ _ shards _ F assms(7) this small assms(8), of frame_no timestamp lowseq iv]
  show ?thesis using n assms(5,6) by (simp add: fi_def)
qed

theorem pyrowave_frames_reassemble_witness:
  "\<exists>ps lowseq' iv'.
     packetize_frame plain_format 1024 24 2 None 3 900 7 0
       \<lparr>fi_is_idr = False, fi_after_rfi = False, fi_replacements = [], fi_payload = [1, 9, 9, 2], fi_latency = 0\<rparr>
       = Some (ps, lowseq', iv')
     \<and> reassemble (data_bodies plain_format (\<lambda>_ _ d. d) ps) = [1, 0, 0, 1, 12, 0, 0, 0, 1, 9, 9, 2]"
proof -
  let ?ops = "[SetBase 20, ReportLoss 0]"
  have valid: "valid_session 1920 1080 60 100000 (int 1024)"
    by (simp add: valid_session_def max_target_bytes_def max_frame_bytes_def frame_budget_bytes_def word_less_nat_alt
        word_le_nat_alt)
  have size: "length [1, 9, 9, 2 :: u8] \<le> unat (max_frame_bytes (int 1024))"
    using max_frame_bytes_value [of 1024] by simp
  have pct: "up_fec_percentage (snd (sample 100 (machine_state fec_step fec_controller_init ?ops))) = 24"
    by (simp add: fec_step_def report_loss_def sample_def snapshot_locked_def set_base_def effective_fec_percentage_def
        next_adaptive_fec_boost_def clamp_def Let_def)
  have header: "short_frame_header plain_format 1024 False False 0 (length [1, 9, 9, 2 :: u8]) = [1, 0, 0, 1, 12, 0, 0, 0]"
    by (simp add: short_frame_header_def le16_def frame_type_def last_payload_len_def plain_format_def)
  show ?thesis
    using pyrowave_frames_reassemble [OF valid _ size, of ?ops plain_format 2 None "\<lambda>_ _ d. d" 100 3 900 7 0 False False 0]
    unfolding pct header by (simp add: format_ok_def plain_format_def)
qed

subsection \<open>The vectors of one session key\<close>

lemma v2_session_vectors_distinct:
  fixes fmt :: wire_format and lowseq :: nat and iv :: u64 and env :: control_env
  assumes "cs_controlProtocolType s = 13" "control_v2 env s" "cs_outgoing_iv s = []" "length plaintexts \<le> 2 ^ 32"
    and "\<forall>(fc, bs) \<in> set frames. fc_cipher fc \<noteq> None"
  defines "ps \<equiv> concat (machine_outputs (send_frame fmt) (lowseq, iv) frames)"
  assumes "length ps \<le> 2 ^ 64"
  shows "distinct (map Some (vectors_sent env s plaintexts) @ map wp_iv ps)
    \<and> Some (v2_iv 67 seq) \<notin> set (map Some (vectors_sent env s plaintexts) @ map wp_iv ps)"
proof -
  have "numbered True lowseq iv ps (fst (machine_state (send_frame fmt) (lowseq, iv) frames))
      (snd (machine_state (send_frame fmt) (lowseq, iv) frames))"
    unfolding ps_def by (rule numbered_send_frames [OF assms(5)])
  then have ivs: "map wp_iv ps = map (\<lambda>j. Some (iv_bytes (iv + word_of_nat j))) [0..<length ps]"
    by (simp add: numbered_def)
  have video: "distinct (map wp_iv ps)" by (rule numbered_ivs_distinct [OF ivs assms(7)])
  have control: "vectors_sent env s plaintexts = map (\<lambda>j. v2_iv 72 (cs_seq s + word_of_nat j)) [0..<length plaintexts]"
    using vectors_sent_v2 assms(1-3) by blast
  have streams: "iv_bytes c \<noteq> v2_iv originator q" for c originator q
  proof
    assume "iv_bytes c = v2_iv originator q"
    then have "iv_bytes c ! 11 = v2_iv originator q ! 11" by simp
    then show False by (simp add: iv_bytes_def v2_iv_def bytes_le32_def nth_append)
  qed
  have "distinct (vectors_sent env s plaintexts)" using vectors_sent_distinct assms(1-4) by blast
  moreover have "Some ` set (vectors_sent env s plaintexts) \<inter> set (map wp_iv ps) = {}"
    unfolding control ivs using streams by (auto simp: image_iff)
  moreover have "Some (v2_iv 67 seq) \<notin> set (map wp_iv ps)" unfolding ivs using streams by (auto dest: sym)
  moreover have "v2_iv 67 seq \<notin> set (vectors_sent env s plaintexts)" unfolding control by (auto simp: v2_iv_inject)
  ultimately show ?thesis using video by (auto simp: distinct_map)
qed

text \<open>
  C27. One AES-GCM key encrypts what the host sends on the control stream and every video packet of a session, and
  decrypts what the client sends. In a session with the newer control encryption (\<open>SS_ENC_CONTROL_V2\<close>) no two of these
  messages share an initialization vector, for up to 2 ^ 32 control messages and 2 ^ 64 video packets: the host's
  control vectors and the video vectors never repeat, never meet, and never equal the vector of a client message.
  In a session without it this is not so: the vector of a host message carries the low byte of its sequence
  number and nothing else, the client's vector for that number is the same, and every vector comes back after 256 messages.
\<close>

theorem session_key_vectors_distinct:
  fixes fmt :: wire_format and lowseq :: nat and iv :: u64 and env :: control_env
  assumes "cs_controlProtocolType s = 13" "cs_outgoing_iv s = []" "length plaintexts \<le> 2 ^ 32"
    and "\<forall>(fc, bs) \<in> set frames. fc_cipher fc \<noteq> None"
  defines "ps \<equiv> concat (machine_outputs (send_frame fmt) (lowseq, iv) frames)"
  assumes "length ps \<le> 2 ^ 64"
  shows "(control_v2 env s \<longrightarrow> distinct (map Some (vectors_sent env s plaintexts) @ map wp_iv ps)
      \<and> Some (control_iv True 67 seq []) \<notin> set (map Some (vectors_sent env s plaintexts) @ map wp_iv ps))
    \<and> (\<not> control_v2 env s \<longrightarrow>
        (\<forall>j. j < length plaintexts \<longrightarrow>
          vectors_sent env s plaintexts ! j = control_iv False 67 (cs_seq s + word_of_nat j) []) \<and>
        (\<forall>j. j + 256 < length plaintexts \<longrightarrow> vectors_sent env s plaintexts ! (j + 256) = vectors_sent env s plaintexts ! j))"
proof (intro conjI impI)
  assume "control_v2 env s"
  from v2_session_vectors_distinct [OF assms(1) this assms(2-4) assms(6) [unfolded ps_def]]
  show "distinct (map Some (vectors_sent env s plaintexts) @ map wp_iv ps)"
    and "Some (control_iv True 67 seq []) \<notin> set (map Some (vectors_sent env s plaintexts) @ map wp_iv ps)"
    unfolding ps_def by (simp_all only: control_iv_v2 simp_thms)
next
  assume legacy: "\<not> control_v2 env s"
  show "\<forall>j. j < length plaintexts \<longrightarrow> vectors_sent env s plaintexts ! j = control_iv False 67 (cs_seq s + word_of_nat j) []"
    using vectors_sent_legacy [OF assms(1) legacy] assms(2) by (simp add: control_iv_legacy del: vectors_sent.simps)
  show "\<forall>j. j + 256 < length plaintexts \<longrightarrow> vectors_sent env s plaintexts ! (j + 256) = vectors_sent env s plaintexts ! j"
    using vectors_sent_legacy_repeat [OF assms(1) legacy assms(2)] by blast
qed

theorem session_key_vectors_distinct_witness:
  "distinct (map Some (vectors_sent demo_env demo_session [[1], [2]])
     @ map wp_iv (concat (machine_outputs (send_frame plain_format) (0, 0) [(sample_context, [[6]])])))
   \<and> vectors_sent demo_env demo_session [[1], [2]] = [v2_iv 72 0, v2_iv 72 1]"
proof -
  have s: "cs_controlProtocolType demo_session = 13" "control_v2 demo_env demo_session" "cs_outgoing_iv demo_session = []"
    by (simp_all add: demo_session_def demo_env_def control_v2_def)
  have f: "\<forall>(fc, bs) \<in> set [(sample_context, [[6]])]. fc_cipher fc \<noteq> None" by (simp add: sample_context_def)
  have "length (concat (machine_outputs (send_frame plain_format) (0, 0) [(sample_context, [[6]])])) = 3"
    by (simp add: send_frame_def block_shards_def fec_encode_def fec_parity_def stamp_packets_def plain_format_def
        sample_context_def Let_def case_prod_beta numeral_2_eq_2)
  then have l: "length (concat (machine_outputs (send_frame plain_format) (0, 0) [(sample_context, [[6]])])) \<le> 2 ^ 64"
    by (simp del: machine_outputs_Cons)
  have n: "length [[1], [2 :: u8]] \<le> 2 ^ 32" by simp
  have "cs_seq demo_session = 0" by (simp add: demo_session_def)
  then have "vectors_sent demo_env demo_session [[1], [2]] = [v2_iv 72 0, v2_iv 72 1]"
    using vectors_sent_v2 [of demo_session demo_env "[[1], [2]]"] s by (simp del: vectors_sent.simps)
  with session_key_vectors_distinct [OF s(1,3) n f l, of demo_env 0] s(2) show ?thesis by (simp only: simp_thms)
qed

end
